(* ===== verification/Nit_Prelude.thy ===== *)
theory Nit_Prelude
  imports
    Main
    "HOL-Library.Word"
    "HOL-Library.AList"
    "HOL-Library.List_Lexorder"
    "HOL-Library.Char_ord"
    "HOL-Library.Product_Lexorder"
    "HOL-Library.Sublist"
    "HOL-Library.Multiset"
begin

text \<open>
  Shared vocabulary of the development.

  A Go string and a Go byte slice are both sequences of bytes, hence \<open>char list\<close>; the byte-wise
  lexicographic order of Go's \<open><\<close> on strings is the order of \<open>List_Lexorder\<close> over
  \<open>Char_ord\<close>. A Go map is an association list with distinct keys (\<^const>\<open>AList.update\<close> to
  store, \<^const>\<open>map_of\<close> to look up): Go leaves the iteration order of a map unspecified, the model
  iterates in insertion order, and what the code computes from an iteration is either sorted
  afterwards or a set-like question. An instant is an integer number of nanoseconds counted from
  Go's zero time, so \<open>IsZero\<close> is \<open>t = 0\<close>. A Go error return is the left injection of a sum.
\<close>

type_synonym bytes = "char list"
type_synonym instant = int
type_synonym duration = int

named_theorems nit_defs \<open>definitions unfolded together by the component proofs\<close>
named_theorems nit_inv \<open>facts that an operation keeps an invariant\<close>

subsection \<open>Results and loops with early return\<close>

definition rbind :: "'e + 'a \<Rightarrow> ('a \<Rightarrow> 'e + 'b) \<Rightarrow> 'e + 'b" where
  "rbind r f = (case r of Inl e \<Rightarrow> Inl e | Inr x \<Rightarrow> f x)"

lemma rbind_simps [simp]:
  "rbind (Inl e) f = Inl e"
  "rbind (Inr x) f = f x"
  by (simp_all add: rbind_def)

lemma rbind_Inr_iff: "rbind r f = Inr y \<longleftrightarrow> (\<exists>x. r = Inr x \<and> f x = Inr y)"
  by (cases r) auto

lemma rbind_Inl_iff:
  "rbind r f = Inl e \<longleftrightarrow> r = Inl e \<or> (\<exists>x. r = Inr x \<and> f x = Inl e)"
  by (cases r) auto

lemma rbind_InrE:
  assumes "rbind r f = Inr y"
  obtains x where "r = Inr x" "f x = Inr y"
  using assms by (auto simp: rbind_Inr_iff)

text \<open>The body of a \<open>for\<close> loop that may return an error out of the enclosing function.\<close>

fun for_each :: "('a \<Rightarrow> 's \<Rightarrow> 'e + 's) \<Rightarrow> 'a list \<Rightarrow> 's \<Rightarrow> 'e + 's" where
  "for_each f [] s = Inr s"
| "for_each f (x # xs) s = rbind (f x s) (for_each f xs)"

lemma for_each_invariant:
  assumes "for_each f xs s = Inr s'" and "I s"
    and "\<And>x s s'. x \<in> set xs \<Longrightarrow> I s \<Longrightarrow> f x s = Inr s' \<Longrightarrow> I s'"
  shows "I s'"
  using assms
proof (induction xs arbitrary: s)
  case Nil
  then show ?case by simp
next
  case (Cons x xs)
  from Cons.prems(1) obtain t where t: "f x s = Inr t" "for_each f xs t = Inr s'"
    by (auto elim: rbind_InrE)
  have "I t" using Cons.prems(2) Cons.prems(3)[of x s t] t(1) by simp
  then show ?case using Cons.IH[OF t(2)] Cons.prems(3) by (meson list.set_intros(2))
qed

text \<open>Reading a loop backwards: what its final state guarantees of every iteration.\<close>

lemma for_each_backward:
  assumes "\<And>x s s'. x \<in> set xs \<Longrightarrow> f x s = Inr s' \<Longrightarrow> Q s' \<Longrightarrow> Q s \<and> R x"
    and "for_each f xs s = Inr s'" and "Q s'"
  shows "Q s \<and> (\<forall>x \<in> set xs. R x)"
  using assms
proof (induction xs arbitrary: s)
  case (Cons x xs)
  obtain t where t: "f x s = Inr t" "for_each f xs t = Inr s'"
    using Cons.prems(2) by (auto elim: rbind_InrE)
  have "Q t \<and> (\<forall>x \<in> set xs. R x)"
    using Cons.IH[OF _ t(2) Cons.prems(3)] Cons.prems(1) by (meson list.set_intros(2))
  then show ?case using Cons.prems(1)[OF _ t(1)] by simp
qed simp

lemma fold_backward:
  assumes "\<And>x s. Q (f x s) \<Longrightarrow> Q s \<and> R x" and "Q (fold f xs s)"
  shows "Q s \<and> (\<forall>x \<in> set xs. R x)"
  using assms(2)
proof (induction xs arbitrary: s)
  case (Cons x xs)
  then have "Q (f x s) \<and> (\<forall>x \<in> set xs. R x)" by simp
  then show ?case using assms(1)[of x s] by simp
qed simp

lemma for_each_append:
  "for_each f (xs @ ys) s = rbind (for_each f xs s) (for_each f ys)"
proof (induction xs arbitrary: s)
  case Nil
  then show ?case by (simp add: rbind_def)
next
  case (Cons x xs)
  then show ?case by (cases "f x s") simp_all
qed

text \<open>The loop that only checks: every element passes, or the first failing one is reported.\<close>

fun check_each :: "('a \<Rightarrow> 'e + unit) \<Rightarrow> 'a list \<Rightarrow> 'e + unit" where
  "check_each f [] = Inr ()"
| "check_each f (x # xs) = rbind (f x) (\<lambda>_. check_each f xs)"

lemma check_each_Inr_iff: "check_each f xs = Inr () \<longleftrightarrow> (\<forall>x \<in> set xs. f x = Inr ())"
  by (induction xs) (auto simp: rbind_Inr_iff)

subsection \<open>Association lists as Go maps\<close>

lemma map_of_update [simp]: "map_of (AList.update k v m) = (map_of m)(k \<mapsto> v)"
  by (simp add: update_conv')

lemma map_of_update_apply: "map_of (AList.update k v m) j = (if j = k then Some v else map_of m j)"
  by simp

lemma distinct_keys_update [simp, intro]:
  "distinct (map fst m) \<Longrightarrow> distinct (map fst (AList.update k v m))"
  by (rule distinct_update)

lemma in_set_update:
  assumes "distinct (map fst m)"
  shows "(k, v) \<in> set (AList.update k0 v0 m) \<longleftrightarrow> (if k = k0 then v = v0 else (k, v) \<in> set m)"
proof -
  have "(k, v) \<in> set (AList.update k0 v0 m) \<longleftrightarrow> map_of (AList.update k0 v0 m) k = Some v"
    by (metis assms distinct_update map_of_eq_Some_iff)
  then show ?thesis using assms by auto
qed

lemma dom_update_alist [simp]: "fst ` set (AList.update k v m) = insert k (fst ` set m)"
  by (induction m) (auto simp: image_iff)

text \<open>Updating every value of a map in place.\<close>

definition map_vals :: "('v \<Rightarrow> 'v) \<Rightarrow> ('k \<times> 'v) list \<Rightarrow> ('k \<times> 'v) list" where
  "map_vals f m = map (\<lambda>(k, v). (k, f v)) m"

lemma map_of_map_vals [simp]: "map_of (map_vals f m) k = map_option f (map_of m k)"
  by (induction m) (auto simp: map_vals_def)

lemma keys_map_vals [simp]: "map fst (map_vals f m) = map fst m"
  by (auto simp: map_vals_def)

subsection \<open>Strings\<close>

fun index_byte :: "char \<Rightarrow> bytes \<Rightarrow> nat option" where
  "index_byte c [] = None"
| "index_byte c (x # xs) = (if x = c then Some 0 else map_option Suc (index_byte c xs))"

lemma index_byte_None: "index_byte c xs = None \<longleftrightarrow> c \<notin> set xs"
  by (induction xs) auto

lemma index_byte_Some:
  "index_byte c xs = Some i \<longleftrightarrow> i < length xs \<and> xs ! i = c \<and> c \<notin> set (take i xs)"
proof (induction xs arbitrary: i)
  case Nil
  then show ?case by simp
next
  case (Cons x xs)
  then show ?case by (cases i) auto
qed

lemma index_byte_less: "index_byte c xs = Some i \<Longrightarrow> i < length xs"
  by (simp add: index_byte_Some)

text \<open>\<open>strings.Split\<close> on a one-byte separator.\<close>

fun split_on :: "char \<Rightarrow> bytes \<Rightarrow> bytes list" where
  "split_on c [] = [[]]"
| "split_on c (x # xs) =
     (if x = c then [] # split_on c xs
      else case split_on c xs of [] \<Rightarrow> [[x]] | y # ys \<Rightarrow> (x # y) # ys)"

fun join_with :: "bytes \<Rightarrow> bytes list \<Rightarrow> bytes" where
  "join_with sep [] = []"
| "join_with sep [x] = x"
| "join_with sep (x # y # ys) = x @ sep @ join_with sep (y # ys)"

lemma split_on_nonempty [simp]: "split_on c xs \<noteq> []"
  by (induction xs) (auto split: list.splits)

lemma join_split_on [simp]: "join_with [c] (split_on c xs) = xs"
proof (induction xs)
  case Nil
  then show ?case by simp
next
  case (Cons x xs)
  obtain y ys where y: "split_on c xs = y # ys"
    using split_on_nonempty[of c xs] by (cases "split_on c xs") auto
  with Cons show ?case by (cases ys) auto
qed

lemma split_on_no_sep: "y \<in> set (split_on c xs) \<Longrightarrow> c \<notin> set y"
  by (induction xs arbitrary: y) (auto split: if_splits list.splits)

lemma split_on_notin [simp]: "c \<notin> set xs \<Longrightarrow> split_on c xs = [xs]"
  by (induction xs) auto

lemma split_on_append_sep: "split_on c (xs @ c # ys) = split_on c xs @ split_on c ys"
proof (induction xs)
  case Nil
  then show ?case by simp
next
  case (Cons x xs)
  then show ?case
    using split_on_nonempty[of c xs] by (cases "split_on c xs") auto
qed

lemma split_on_join:
  "ls \<noteq> [] \<Longrightarrow> \<forall>l \<in> set ls. c \<notin> set l \<Longrightarrow> split_on c (join_with [c] ls) = ls"
  by (induction "[c]" ls rule: join_with.induct) (auto simp: split_on_append_sep)

fun contains :: "bytes \<Rightarrow> bytes \<Rightarrow> bool" where
  "contains sub [] = (sub = [])"
| "contains sub (x # xs) = (prefix sub (x # xs) \<or> contains sub xs)"

lemma contains_iff: "contains sub xs \<longleftrightarrow> (\<exists>a b. xs = a @ sub @ b)"
proof (induction xs)
  case Nil
  then show ?case by auto
next
  case (Cons x xs)
  have "(\<exists>a b. x # xs = a @ sub @ b) \<longleftrightarrow> prefix sub (x # xs) \<or> (\<exists>a b. xs = a @ sub @ b)"
    by (auto simp: prefix_def Cons_eq_append_conv)
  with Cons show ?case by simp
qed

text \<open>\<open>strings.IndexAny\<close>: the first byte that is one of the given ones.\<close>

fun index_any :: "bytes \<Rightarrow> bytes \<Rightarrow> nat option" where
  "index_any cs [] = None"
| "index_any cs (x # xs) = (if x \<in> set cs then Some 0 else map_option Suc (index_any cs xs))"

text \<open>\<open>strconv.Itoa\<close> on a non-negative number.\<close>

definition digit :: "nat \<Rightarrow> char" where
  "digit d = char_of (48 + d)"

fun itoa :: "nat \<Rightarrow> bytes" where
  "itoa n = (if n < 10 then [digit n] else itoa (n div 10) @ [digit (n mod 10)])"

declare itoa.simps [simp del]

text \<open>\<open>%d\<close> on a signed number.\<close>

definition itoa_int :: "int \<Rightarrow> bytes" where
  "itoa_int n = (if n < 0 then ''-'' @ itoa (nat (- n)) else itoa (nat n))"

lemma digit_inj: "a < 10 \<Longrightarrow> b < 10 \<Longrightarrow> digit a = digit b \<Longrightarrow> a = b"
  by (auto simp: digit_def dest!: arg_cong[where f = "of_char :: char \<Rightarrow> nat"])

lemma digit_not_colon: "d < 10 \<Longrightarrow> digit d \<noteq> CHR '':''"
  by (auto simp: digit_def dest!: arg_cong[where f = "of_char :: char \<Rightarrow> nat"])

lemma itoa_nonempty [simp]: "itoa n \<noteq> []"
  by (subst itoa.simps) simp

lemma itoa_no_colon: "CHR '':'' \<notin> set (itoa n)"
proof (induction n rule: itoa.induct)
  case (1 n)
  then show ?case
    using digit_not_colon[of n] digit_not_colon[of "n mod 10"]
    by (subst itoa.simps) auto
qed

lemma itoa_inj: "itoa m = itoa n \<Longrightarrow> m = n"
proof (induction m arbitrary: n rule: itoa.induct)
  case (1 m)
  have m: "itoa m = (if m < 10 then [digit m] else itoa (m div 10) @ [digit (m mod 10)])"
    by (rule itoa.simps)
  have n: "itoa n = (if n < 10 then [digit n] else itoa (n div 10) @ [digit (n mod 10)])"
    by (rule itoa.simps)
  show ?case
  proof (cases "m < 10 \<or> n < 10")
    case True
    then show ?thesis using "1.prems" digit_inj[of m n] m n
        itoa_nonempty[of "m div 10"] itoa_nonempty[of "n div 10"]
      by (auto split: if_splits simp del: itoa_nonempty)
  next
    case False
    then have "itoa (m div 10) = itoa (n div 10)" "digit (m mod 10) = digit (n mod 10)"
      using "1.prems" m n by auto
    then have "m div 10 = n div 10" "m mod 10 = n mod 10"
      using "1.IH" False digit_inj[of "m mod 10" "n mod 10"] by auto
    then show ?thesis by (metis div_mult_mod_eq)
  qed
qed

abbreviation newline :: char where "newline \<equiv> CHR 0x0A"

subsection \<open>\<open>strings.TrimSpace\<close>\<close>

text \<open>The UTF-8 encodings of the characters Go counts as white space.\<close>

definition space_seqs :: "bytes list" where
  "space_seqs =
     [[CHR 0x09], [CHR 0x0A], [CHR 0x0B], [CHR 0x0C], [CHR 0x0D], [CHR 0x20],
      [CHR 0xC2, CHR 0x85], [CHR 0xC2, CHR 0xA0], [CHR 0xE1, CHR 0x9A, CHR 0x80],
      [CHR 0xE2, CHR 0x80, CHR 0x80], [CHR 0xE2, CHR 0x80, CHR 0x81], [CHR 0xE2, CHR 0x80, CHR 0x82],
      [CHR 0xE2, CHR 0x80, CHR 0x83], [CHR 0xE2, CHR 0x80, CHR 0x84], [CHR 0xE2, CHR 0x80, CHR 0x85],
      [CHR 0xE2, CHR 0x80, CHR 0x86], [CHR 0xE2, CHR 0x80, CHR 0x87], [CHR 0xE2, CHR 0x80, CHR 0x88],
      [CHR 0xE2, CHR 0x80, CHR 0x89], [CHR 0xE2, CHR 0x80, CHR 0x8A], [CHR 0xE2, CHR 0x80, CHR 0xA8],
      [CHR 0xE2, CHR 0x80, CHR 0xA9], [CHR 0xE2, CHR 0x80, CHR 0xAF], [CHR 0xE2, CHR 0x81, CHR 0x9F],
      [CHR 0xE3, CHR 0x80, CHR 0x80]]"

fun strip_one :: "bytes list \<Rightarrow> bytes \<Rightarrow> bytes option" where
  "strip_one [] xs = None"
| "strip_one (p # ps) xs =
     (if p \<noteq> [] \<and> prefix p xs then Some (drop (length p) xs) else strip_one ps xs)"

lemma strip_one_SomeD: "strip_one ps xs = Some ys \<Longrightarrow> \<exists>p \<in> set ps. p \<noteq> [] \<and> xs = p @ ys"
  by (induction ps) (auto split: if_splits simp: prefix_def)

lemma strip_one_length: "strip_one ps xs = Some ys \<Longrightarrow> length ys < length xs"
  by (auto dest!: strip_one_SomeD)

function trim_left :: "bytes list \<Rightarrow> bytes \<Rightarrow> bytes" where
  "trim_left ps xs = (case strip_one ps xs of None \<Rightarrow> xs | Some ys \<Rightarrow> trim_left ps ys)"
  by auto
termination by (relation "measure (\<lambda>(ps, xs). length xs)") (auto dest: strip_one_length)

declare trim_left.simps [simp del]

definition TrimSpace :: "bytes \<Rightarrow> bytes" where
  "TrimSpace xs = rev (trim_left (map rev space_seqs) (rev (trim_left space_seqs xs)))"

end
