(* ===== verification/Nit_Patch.thy ===== *)
theory Nit_Patch
  imports Nit_Prelude
begin

text \<open>
  Package \<open>pkg/patch\<close>: a git patch as a preamble followed by per-file sections, the byte ranges of
  the sections (\<open>splitSections\<close>), the metadata of a section (\<open>parseSection\<close>) and the byte-exact
  re-emission of a selection of sections (\<open>Render\<close>). The metadata extraction of the library
  \<open>go-gitdiff\<close> is the parameter \<open>gd\<close>. The lemmas show that parsing loses no byte, that rendering
  every section gives the input back, and that parsing a rendered selection finds exactly the
  selected sections again.
\<close>

subsection \<open>Data (\<open>change.go\<close>)\<close>

datatype op = OpAdd | OpModify | OpDelete | OpRename | OpCopy

datatype entry_kind = KindBlob | KindSymlink | KindSubmodule | KindUnknown

definition ModeRegular :: "32 word" where "ModeRegular = 0x81A4"
definition ModeExecutable :: "32 word" where "ModeExecutable = 0x81ED"
definition ModeSymlink :: "32 word" where "ModeSymlink = 0xA000"
definition ModeSubmodule :: "32 word" where "ModeSubmodule = 0xE000"

definition KindOfMode :: "32 word \<Rightarrow> entry_kind" where
  "KindOfMode mode =
     (if mode = 0 then KindUnknown
      else if mode = ModeSymlink then KindSymlink
      else if mode = ModeSubmodule then KindSubmodule
      else KindBlob)"

record change =
  c_Index :: nat
  c_OldPath :: string
  c_NewPath :: string
  c_Op :: op
  c_OldMode :: "32 word"
  c_NewMode :: "32 word"
  c_OldKind :: entry_kind
  c_NewKind :: entry_kind
  c_IsBinary :: bool
  c_Additions :: int
  c_Deletions :: int
  c_raw :: bytes

definition ModeChanged :: "change \<Rightarrow> bool" where
  "ModeChanged c =
     (if c_OldMode c = 0 \<or> c_NewMode c = 0 then False else c_OldMode c \<noteq> c_NewMode c)"

definition change_Size :: "change \<Rightarrow> nat" where
  "change_Size c = length (c_raw c)"

definition change_Paths :: "change \<Rightarrow> string list" where
  "change_Paths c =
     (if c_OldPath c = [] \<and> c_NewPath c = [] then []
      else if c_OldPath c = [] then [c_NewPath c]
      else if c_NewPath c = [] then [c_OldPath c]
      else if c_OldPath c = c_NewPath c then [c_NewPath c]
      else [c_OldPath c, c_NewPath c])"

definition DisplayPath :: "change \<Rightarrow> string" where
  "DisplayPath c = (if c_NewPath c \<noteq> [] then c_NewPath c else c_OldPath c)"

fun op_str :: "op \<Rightarrow> string" where
  "op_str OpAdd = ''add''"
| "op_str OpModify = ''modify''"
| "op_str OpDelete = ''delete''"
| "op_str OpRename = ''rename''"
| "op_str OpCopy = ''copy''"

definition change_String :: "change \<Rightarrow> string" where
  "change_String c =
     (if c_Op c = OpRename \<or> c_Op c = OpCopy
      then op_str (c_Op c) @ '' '' @ c_OldPath c @ '' -> '' @ c_NewPath c
      else op_str (c_Op c) @ '' '' @ DisplayPath c)"

subsection \<open>Parsing (\<open>parse.go\<close>)\<close>

text \<open>The fields of \<open>gitdiff.File\<close> that the code reads; a text fragment is its pair of counts.\<close>

record gd_file =
  f_OldName :: string
  f_NewName :: string
  f_OldMode :: "32 word"
  f_NewMode :: "32 word"
  f_IsNew :: bool
  f_IsDelete :: bool
  f_IsRename :: bool
  f_IsCopy :: bool
  f_IsBinary :: bool
  f_TextFragments :: "(int \<times> int) list"

datatype section_error = GitdiffError string | ExpectedOneFile nat

datatype patch_error = ErrEmpty | ErrCombinedDiff | ErrSection nat section_error

type_synonym gitdiff = "bytes \<Rightarrow> string + gd_file list"

record patch_set =
  ps_Preamble :: bytes
  ps_Changes :: "change list"
  ps_raw :: bytes

definition sectionMarker :: bytes where "sectionMarker = ''diff --git ''"
definition combinedMarker :: bytes where "combinedMarker = ''diff --cc ''"

definition operationOf :: "gd_file \<Rightarrow> op" where
  "operationOf f =
     (if f_IsRename f then OpRename
      else if f_IsCopy f then OpCopy
      else if f_IsNew f then OpAdd
      else if f_IsDelete f then OpDelete
      else OpModify)"

definition parseSection :: "gitdiff \<Rightarrow> bytes \<Rightarrow> section_error + change" where
  "parseSection gd section =
     (case gd section of
        Inl e \<Rightarrow> Inl (GitdiffError e)
      | Inr files \<Rightarrow>
          (case files of
             [f] \<Rightarrow>
               (let om0 = f_OldMode f; nm0 = f_NewMode f;
                    om = (if om0 = 0 \<and> nm0 \<noteq> 0 \<and> \<not> f_IsNew f then nm0 else om0);
                    nm = (if nm0 = 0 \<and> om \<noteq> 0 \<and> \<not> f_IsDelete f then om else nm0)
                in Inr \<lparr>c_Index = 0, c_OldPath = f_OldName f, c_NewPath = f_NewName f,
                        c_Op = operationOf f, c_OldMode = om, c_NewMode = nm,
                        c_OldKind = KindOfMode om, c_NewKind = KindOfMode nm,
                        c_IsBinary = f_IsBinary f,
                        c_Additions = sum_list (map fst (f_TextFragments f)),
                        c_Deletions = sum_list (map snd (f_TextFragments f)),
                        c_raw = []\<rparr>)
           | _ \<Rightarrow> Inl (ExpectedOneFile (length files))))"

definition line_end :: "bytes \<Rightarrow> nat \<Rightarrow> nat" where
  "line_end raw offset =
     (case index_byte newline (drop offset raw) of
        None \<Rightarrow> length raw
      | Some i \<Rightarrow> offset + i + 1)"

lemma line_end_bounds:
  "offset < length raw \<Longrightarrow> offset < line_end raw offset \<and> line_end raw offset \<le> length raw"
  by (auto simp: line_end_def dest: index_byte_less split: option.splits)

definition slice :: "bytes \<Rightarrow> nat \<times> nat \<Rightarrow> bytes" where
  "slice raw b = take (snd b - fst b) (drop (fst b) raw)"

definition close_last :: "nat \<Rightarrow> (nat \<times> nat) list \<Rightarrow> (nat \<times> nat) list" where
  "close_last e bounds = (if bounds = [] then [] else butlast bounds @ [(fst (last bounds), e)])"

function split_loop :: "bytes \<Rightarrow> nat \<Rightarrow> (nat \<times> nat) list \<Rightarrow> patch_error + (nat \<times> nat) list" where
  "split_loop raw offset bounds =
     (if offset < length raw then
        (let lineEnd = line_end raw offset; line = slice raw (offset, lineEnd)
         in if prefix sectionMarker line
            then split_loop raw lineEnd (close_last offset bounds @ [(offset, length raw)])
            else if prefix combinedMarker line then Inl ErrCombinedDiff
            else split_loop raw lineEnd bounds)
      else Inr bounds)"
  by pat_completeness auto
termination
  by (relation "measure (\<lambda>(raw, offset, bounds). length raw - offset)")
    (use line_end_bounds in \<open>auto simp: diff_less_mono2 less_le_trans\<close>)

declare split_loop.simps [simp del]

definition splitSections :: "bytes \<Rightarrow> patch_error + (nat \<times> nat) list" where
  "splitSections raw = split_loop raw 0 []"

fun parse_sections :: "gitdiff \<Rightarrow> bytes \<Rightarrow> nat \<Rightarrow> (nat \<times> nat) list \<Rightarrow> patch_error + change list" where
  "parse_sections gd raw i [] = Inr []"
| "parse_sections gd raw i (b # bs) =
     (case parseSection gd (slice raw b) of
        Inl e \<Rightarrow> Inl (ErrSection i e)
      | Inr c \<Rightarrow>
          rbind (parse_sections gd raw (Suc i) bs)
            (\<lambda>cs. Inr (c\<lparr>c_Index := i, c_raw := slice raw b\<rparr> # cs)))"

definition Parse :: "gitdiff \<Rightarrow> bytes \<Rightarrow> patch_error + patch_set" where
  "Parse gd raw =
     rbind (splitSections raw)
       (\<lambda>bounds. if bounds = [] then Inl ErrEmpty
         else rbind (parse_sections gd raw 0 bounds)
           (\<lambda>cs. Inr \<lparr>ps_Preamble = take (fst (hd bounds)) raw, ps_Changes = cs, ps_raw = raw\<rparr>))"

definition add_path :: "string \<Rightarrow> string list \<Rightarrow> string list" where
  "add_path p paths = (if p \<in> set paths then paths else paths @ [p])"

definition set_Paths :: "patch_set \<Rightarrow> string list" where
  "set_Paths s = fold (\<lambda>c paths. fold add_path (change_Paths c) paths) (ps_Changes s) []"

text \<open>\<open>keep\<close> may be the nil function; \<open>None\<close> as the result is the nil slice.\<close>

definition Render :: "patch_set \<Rightarrow> (change \<Rightarrow> bool) option \<Rightarrow> bytes option" where
  "Render s keep =
     (let kept = filter (\<lambda>c. case keep of None \<Rightarrow> True | Some k \<Rightarrow> k c) (ps_Changes s)
      in if kept = [] then None else Some (ps_Preamble s @ concat (map c_raw kept)))"

subsection \<open>Specification: grouping the lines of a patch\<close>

fun lines_of :: "bytes \<Rightarrow> bytes list" where
  "lines_of [] = []"
| "lines_of (x # xs) =
     (if x = newline then [x] # lines_of xs
      else case lines_of xs of [] \<Rightarrow> [[x]] | l # ls \<Rightarrow> (x # l) # ls)"

abbreviation is_header :: "bytes \<Rightarrow> bool" where
  "is_header l \<equiv> prefix sectionMarker l"

text \<open>The bytes before the first header line, and one byte string per header line.\<close>

fun group_sections :: "bytes list \<Rightarrow> bytes \<times> bytes list" where
  "group_sections [] = ([], [])"
| "group_sections (l # ls) =
     (let (p, ss) = group_sections ls in if is_header l then ([], (l @ p) # ss) else (l @ p, ss))"

abbreviation has_combined :: "bytes \<Rightarrow> bool" where
  "has_combined raw \<equiv> (\<exists>l \<in> set (lines_of raw). prefix combinedMarker l)"

fun ranges :: "nat \<Rightarrow> bytes list \<Rightarrow> (nat \<times> nat) list" where
  "ranges k [] = []"
| "ranges k (s # ss) = (k, k + length s) # ranges (k + length s) ss"

lemma concat_lines_of [simp]: "concat (lines_of xs) = xs"
  by (induction xs) (auto split: list.splits)

lemma concat_group_sections:
  "fst (group_sections ls) @ concat (snd (group_sections ls)) = concat ls"
  by (induction ls) (auto simp: Let_def split: prod.splits)

lemma lines_of_step:
  assumes "xs \<noteq> []"
  shows "lines_of xs =
    (case index_byte newline xs of
       None \<Rightarrow> [xs]
     | Some i \<Rightarrow> take (Suc i) xs # lines_of (drop (Suc i) xs))"
  using assms
proof (induction xs)
  case Nil
  then show ?case by simp
next
  case (Cons x xs)
  show ?case
  proof (cases "xs = []")
    case True
    then show ?thesis by simp
  next
    case False
    with Cons.IH show ?thesis by (auto split: option.splits)
  qed
qed

lemma markers_disjoint: "is_header l \<Longrightarrow> \<not> prefix combinedMarker l"
  by (auto simp: sectionMarker_def combinedMarker_def prefix_def)

lemma lines_of_drop:
  assumes "offset < length raw"
  shows "lines_of (drop offset raw) =
    slice raw (offset, line_end raw offset) # lines_of (drop (line_end raw offset) raw)"
proof -
  have ne: "drop offset raw \<noteq> []" using assms by simp
  show ?thesis
    by (subst lines_of_step[OF ne])
      (auto simp: line_end_def slice_def add.commute dest: index_byte_less split: option.splits)
qed

lemma close_last_snoc [simp]: "close_last e (bs @ [(s, e')]) = bs @ [(s, e)]"
  by (simp add: close_last_def)

lemma close_last_self: "bs = [] \<or> snd (last bs) = e \<Longrightarrow> close_last e bs = bs"
  by (auto simp: close_last_def)

lemma slice_length:
  "offset < length raw \<Longrightarrow> offset + length (slice raw (offset, line_end raw offset)) = line_end raw offset"
  using line_end_bounds[of offset raw] by (simp add: slice_def min_def) arith

lemma split_loop_spec:
  assumes "offset \<le> length raw" and "bounds = [] \<or> snd (last bounds) = length raw"
  shows "split_loop raw offset bounds =
    (if has_combined (drop offset raw) then Inl ErrCombinedDiff
     else let (p, ss) = group_sections (lines_of (drop offset raw))
          in Inr (close_last (offset + length p) bounds @ ranges (offset + length p) ss))"
  using assms
proof (induction raw offset bounds rule: split_loop.induct)
  case (1 raw offset bounds)
  show ?case
  proof (cases "offset < length raw")
    case False
    then have "drop offset raw = []" "offset = length raw" using "1.prems" by auto
    with "1.prems" show ?thesis
      using split_loop.simps[of raw "length raw" bounds] by (simp add: close_last_self)
  next
    case True
    define e where "e = line_end raw offset"
    define l where "l = slice raw (offset, e)"
    obtain p ss where g: "group_sections (lines_of (drop e raw)) = (p, ss)"
      by (cases "group_sections (lines_of (drop e raw))")
    have lines: "lines_of (drop offset raw) = l # lines_of (drop e raw)"
      using lines_of_drop[OF True] by (simp add: l_def e_def)
    have e: "e \<le> length raw" "offset + length l = e"
      using line_end_bounds[OF True] slice_length[OF True] by (simp_all add: e_def l_def)
    note unf = split_loop.simps[of raw offset bounds] Let_def e_def[symmetric] l_def[symmetric]
    consider "is_header l" | "\<not> is_header l" "prefix combinedMarker l"
      | "\<not> is_header l" "\<not> prefix combinedMarker l" by blast
    then show ?thesis
    proof cases
      case 1
      with "1.IH"(1)[OF True e_def[unfolded e_def] l_def[unfolded e_def]] e
      show ?thesis using True markers_disjoint[OF 1]
        by (auto simp: unf lines g e_def[symmetric] l_def[symmetric] add.assoc)
    next
      case 2
      then show ?thesis using True by (simp add: unf lines)
    next
      case 3
      with "1.IH"(2)[OF True e_def[unfolded e_def] l_def[unfolded e_def]] e "1.prems"
      show ?thesis using True
        by (auto simp: unf lines g e_def[symmetric] l_def[symmetric] add.assoc)
    qed
  qed
qed

lemma splitSections_spec:
  "splitSections raw =
    (if has_combined raw then Inl ErrCombinedDiff
     else let (p, ss) = group_sections (lines_of raw) in Inr (ranges (length p) ss))"
  by (simp add: splitSections_def split_loop_spec close_last_def Let_def split: prod.splits)

lemma slice_ranges: "drop k raw = concat ss \<Longrightarrow> map (slice raw) (ranges k ss) = ss"
proof (induction ss arbitrary: k)
  case Nil
  then show ?case by simp
next
  case (Cons s ss)
  have "drop (k + length s) raw = concat ss"
    using Cons.prems by (metis append_eq_conv_conj concat.simps(2) drop_drop add.commute)
  with Cons show ?case by (simp add: slice_def)
qed

subsection \<open>Parsing and rendering\<close>

text \<open>One section read on its own, as the loop of \<open>Parse\<close> reads it.\<close>

fun read_sections :: "gitdiff \<Rightarrow> nat \<Rightarrow> bytes list \<Rightarrow> patch_error + change list" where
  "read_sections gd i [] = Inr []"
| "read_sections gd i (s # ss) =
     (case parseSection gd s of
        Inl e \<Rightarrow> Inl (ErrSection i e)
      | Inr c \<Rightarrow>
          rbind (read_sections gd (Suc i) ss) (\<lambda>cs. Inr (c\<lparr>c_Index := i, c_raw := s\<rparr> # cs)))"

lemma parse_sections_read:
  "parse_sections gd raw i bs = read_sections gd i (map (slice raw) bs)"
  by (induction gd raw i bs rule: parse_sections.induct) (auto split: sum.splits)

lemma fst_hd_ranges: "ss \<noteq> [] \<Longrightarrow> fst (hd (ranges k ss)) = k"
  by (cases ss) auto

lemma ranges_Nil [simp]: "ranges k ss = [] \<longleftrightarrow> ss = []"
  by (cases ss) auto

lemma Parse_spec:
  assumes "group_sections (lines_of raw) = (p, ss)"
  shows "Parse gd raw =
    (if has_combined raw then Inl ErrCombinedDiff
     else if ss = [] then Inl ErrEmpty
     else rbind (read_sections gd 0 ss)
       (\<lambda>cs. Inr \<lparr>ps_Preamble = p, ps_Changes = cs, ps_raw = raw\<rparr>))"
proof -
  have raw: "raw = p @ concat ss"
    using concat_group_sections[of "lines_of raw"] assms by simp
  then have "map (slice raw) (ranges (length p) ss) = ss" by (intro slice_ranges) simp
  moreover have "take (length p) raw = p" by (simp add: raw)
  ultimately show ?thesis
    by (auto simp: Parse_def splitSections_spec assms parse_sections_read fst_hd_ranges)
qed

lemma read_sections_raw: "read_sections gd i ss = Inr cs \<Longrightarrow> map c_raw cs = ss"
  by (induction gd i ss arbitrary: cs rule: read_sections.induct)
    (auto simp: rbind_Inr_iff split: sum.splits)

lemma read_sections_index:
  "read_sections gd i ss = Inr cs \<Longrightarrow> map c_Index cs = [i ..< i + length cs]"
proof (induction gd i ss arbitrary: cs rule: read_sections.induct)
  case (2 gd i s ss)
  then obtain c cs' where "cs = c\<lparr>c_Index := i, c_raw := s\<rparr> # cs'"
      "map c_Index cs' = [Suc i ..< Suc i + length cs']"
    by (auto simp: rbind_Inr_iff split: sum.splits)
  then show ?case by (simp add: upt_conv_Cons del: upt_Suc)
qed simp

lemma Parse_InrE:
  assumes "Parse gd raw = Inr S"
  obtains ss where "group_sections (lines_of raw) = (ps_Preamble S, ss)" "\<not> has_combined raw"
    "ss \<noteq> []" "read_sections gd 0 ss = Inr (ps_Changes S)" "ps_raw S = raw"
    "map c_raw (ps_Changes S) = ss"
proof -
  obtain p ss where g: "group_sections (lines_of raw) = (p, ss)"
    by (cases "group_sections (lines_of raw)")
  from assms show thesis
    using that[of ss] read_sections_raw
    by (auto simp: Parse_spec[OF g] g rbind_Inr_iff split: if_splits)
qed

lemma Parse_no_loss:
  assumes "Parse gd raw = Inr S"
  shows "ps_Preamble S @ concat (map c_raw (ps_Changes S)) = raw"
  using assms concat_group_sections[of "lines_of raw"] by (auto elim!: Parse_InrE)

lemma Parse_distinct_index:
  assumes "Parse gd raw = Inr S"
  shows "distinct (map c_Index (ps_Changes S))"
  using assms read_sections_index by (fastforce elim!: Parse_InrE)

lemma Parse_nonempty: "Parse gd raw = Inr S \<Longrightarrow> ps_Changes S \<noteq> []"
  by (auto elim!: Parse_InrE)

lemma Render_all:
  assumes "Parse gd raw = Inr S"
  shows "Render S None = Some raw" and "(\<forall>c \<in> set (ps_Changes S). k c) \<Longrightarrow> Render S (Some k) = Some raw"
  using Parse_no_loss[OF assms] Parse_nonempty[OF assms] by (auto simp: Render_def Let_def)

lemma Render_None_iff: "Render S (Some k) = None \<longleftrightarrow> (\<forall>c \<in> set (ps_Changes S). \<not> k c)"
  by (auto simp: Render_def Let_def filter_empty_conv)

subsection \<open>Parsing a rendered selection\<close>

abbreviation ends_line :: "bytes \<Rightarrow> bool" where
  "ends_line s \<equiv> s = [] \<or> last s = newline"

lemma lines_of_Nil_iff [simp]: "lines_of xs = [] \<longleftrightarrow> xs = []"
  by (cases xs) (auto split: list.splits)

lemma lines_of_append: "ends_line a \<Longrightarrow> lines_of (a @ b) = lines_of a @ lines_of b"
proof (induction a)
  case Nil
  then show ?case by simp
next
  case (Cons x a)
  then show ?case by (cases "a = []") (auto split: list.splits)
qed

lemma lines_of_single: "l \<noteq> [] \<Longrightarrow> newline \<notin> set (butlast l) \<Longrightarrow> lines_of l = [l]"
proof (induction l)
  case Nil
  then show ?case by simp
next
  case (Cons x l)
  then show ?case by (cases "l = []") auto
qed

text \<open>Every line but the last ends with a newline, and has no other newline.\<close>

fun proper_lines :: "bytes list \<Rightarrow> bool" where
  "proper_lines [] = True"
| "proper_lines (l # ls) =
     (l \<noteq> [] \<and> newline \<notin> set (butlast l) \<and> (ls = [] \<or> last l = newline) \<and> proper_lines ls)"

lemma proper_lines_of: "proper_lines (lines_of xs)"
proof (induction xs)
  case Nil
  then show ?case by simp
next
  case (Cons x xs)
  then show ?case by (cases "lines_of xs") auto
qed

lemma group_sections_lines:
  assumes "proper_lines ls" and "group_sections ls = (p, ss)"
  shows "group_sections (lines_of p) = (p, []) \<and> (ss \<noteq> [] \<longrightarrow> ends_line p)
    \<and> (ls = [] \<longrightarrow> p = [])
    \<and> (\<forall>s \<in> set ss. group_sections (lines_of s) = ([], [s]) \<and> s \<noteq> [])
    \<and> (\<forall>s \<in> set (butlast ss). last s = newline)"
  using assms
proof (induction ls arbitrary: p ss)
  case Nil
  then show ?case by simp
next
  case (Cons l ls)
  obtain p' ss' where g: "group_sections ls = (p', ss')" by (cases "group_sections ls")
  have IH: "group_sections (lines_of p') = (p', [])" "ss' \<noteq> [] \<longrightarrow> ends_line p'"
    "ls = [] \<longrightarrow> p' = []" "\<forall>s \<in> set ss'. group_sections (lines_of s) = ([], [s]) \<and> s \<noteq> []"
    "\<forall>s \<in> set (butlast ss'). last s = newline"
    using Cons.IH[OF _ g] Cons.prems(1) by auto
  have single: "lines_of l = [l]" using Cons.prems(1) by (simp add: lines_of_single)
  have lp: "lines_of (l @ p') = l # lines_of p'"
  proof (cases "ls = []")
    case True
    then show ?thesis using IH(3) single by simp
  next
    case False
    then show ?thesis using lines_of_append[of l p'] Cons.prems(1) single by simp
  qed
  have ends: "ss' \<noteq> [] \<longrightarrow> last (l @ p') = newline"
    using IH(2) Cons.prems(1) g by (cases "p' = []") auto
  show ?case
  proof (cases "is_header l")
    case True
    then have eq: "p = []" "ss = (l @ p') # ss'" using Cons.prems(2) g by auto
    show ?thesis using True IH lp ends Cons.prems(1) unfolding eq by auto
  next
    case False
    then have eq: "p = l @ p'" "ss = ss'" using Cons.prems(2) g by auto
    show ?thesis using False IH lp ends unfolding eq by auto
  qed
qed

lemma group_sections_append:
  assumes "fst (group_sections ys) = []"
  shows "group_sections (xs @ ys) =
    (fst (group_sections xs), snd (group_sections xs) @ snd (group_sections ys))"
  using assms by (induction xs) (auto simp: Let_def prod_eq_iff split: prod.splits)

lemma group_sections_concat:
  assumes "\<forall>s \<in> set ss. group_sections (lines_of s) = ([], [s])"
    and "\<forall>s \<in> set (butlast ss). last s = newline"
  shows "group_sections (lines_of (concat ss)) = ([], ss)"
  using assms
proof (induction ss)
  case Nil
  then show ?case by simp
next
  case (Cons s ss)
  show ?case
  proof (cases "ss = []")
    case True
    then show ?thesis using Cons.prems by simp
  next
    case False
    have IH: "group_sections (lines_of (concat ss)) = ([], ss)"
      using Cons False by (auto split: if_splits)
    have "lines_of (s @ concat ss) = lines_of s @ lines_of (concat ss)"
      using Cons.prems(2) False by (intro lines_of_append) auto
    then show ?thesis using IH Cons.prems(1) by (simp add: group_sections_append)
  qed
qed

lemma butlast_filter_subset: "set (butlast (filter P xs)) \<subseteq> set (butlast xs)"
  by (induction xs) (auto dest: in_set_butlastD split: if_splits)

text \<open>The sections of a selection, numbered afresh.\<close>

fun renumber :: "nat \<Rightarrow> change list \<Rightarrow> change list" where
  "renumber i [] = []"
| "renumber i (c # cs) = c\<lparr>c_Index := i\<rparr> # renumber (Suc i) cs"

lemma read_sections_filter:
  "read_sections gd i ss = Inr cs \<Longrightarrow>
   read_sections gd j (map c_raw (filter k cs)) = Inr (renumber j (filter k cs))"
proof (induction gd i ss arbitrary: cs j rule: read_sections.induct)
  case (2 gd i s ss)
  then obtain c cs' where c: "parseSection gd s = Inr c" "read_sections gd (Suc i) ss = Inr cs'"
      "cs = c\<lparr>c_Index := i, c_raw := s\<rparr> # cs'"
    by (auto simp: rbind_Inr_iff split: sum.splits)
  show ?case using "2.IH"[OF c(1) c(2)] c(1) by (simp add: c(3))
qed simp

lemma combined_append:
  "ends_line a \<Longrightarrow> has_combined (a @ b) \<longleftrightarrow> has_combined a \<or> has_combined b"
  by (auto simp: lines_of_append)

lemma combined_sub:
  assumes "\<not> has_combined (concat ss)" and "\<forall>s \<in> set (butlast ss). ends_line s"
  shows "\<forall>s \<in> set ss. \<not> has_combined s"
  using assms
proof (induction ss)
  case (Cons s ss)
  show ?case
  proof (cases "ss = []")
    case False
    then have "ends_line s" using Cons.prems(2) by auto
    then have "\<not> has_combined s" "\<not> has_combined (concat ss)"
      using Cons.prems(1) combined_append[of s "concat ss"] by auto
    then show ?thesis using Cons False by auto
  qed (use Cons in auto)
qed simp

lemma combined_concat:
  assumes "\<forall>s \<in> set ss. \<not> has_combined s" and "\<forall>s \<in> set (butlast ss). ends_line s"
  shows "\<not> has_combined (concat ss)"
  using assms
proof (induction ss)
  case (Cons s ss)
  show ?case
  proof (cases "ss = []")
    case False
    then have "ends_line s" "\<not> has_combined (concat ss)" using Cons by auto
    then show ?thesis using Cons.prems(1) combined_append[of s "concat ss"] by auto
  qed (use Cons in auto)
qed simp

lemma Parse_Render:
  assumes "Parse gd raw = Inr S" and "Render S (Some k) = Some out"
  shows "Parse gd out = Inr \<lparr>ps_Preamble = ps_Preamble S,
    ps_Changes = renumber 0 (filter k (ps_Changes S)), ps_raw = out\<rparr>"
proof -
  let ?kept = "filter k (ps_Changes S)" and ?p = "ps_Preamble S"
  obtain ss where ss: "group_sections (lines_of raw) = (?p, ss)" "\<not> has_combined raw" "ss \<noteq> []"
      "read_sections gd 0 ss = Inr (ps_Changes S)" "map c_raw (ps_Changes S) = ss"
    using assms(1) by (auto elim!: Parse_InrE)
  let ?ks = "map c_raw ?kept"
  have out: "out = ?p @ concat ?ks" "?ks \<noteq> []"
    using assms(2) by (auto simp: Render_def Let_def split: if_splits)
  have g: "group_sections (lines_of ?p) = (?p, [])" "ends_line ?p"
      "\<forall>s \<in> set ss. group_sections (lines_of s) = ([], [s])"
      "\<forall>s \<in> set (butlast ss). last s = newline"
    using group_sections_lines[OF proper_lines_of ss(1)] ss(3) by auto
  have sub: "set ?ks \<subseteq> set ss" "set (butlast ?ks) \<subseteq> set (butlast ss)"
    using butlast_filter_subset[of k "ps_Changes S"]
    by (auto simp: ss(5)[symmetric] map_butlast[symmetric])
  have gk: "group_sections (lines_of (concat ?ks)) = ([], ?ks)"
    using g(3,4) sub by (intro group_sections_concat) auto
  have grp: "group_sections (lines_of out) = (?p, ?ks)"
    unfolding out(1) lines_of_append[OF g(2)] by (simp add: group_sections_append gk g(1))
  have raw: "raw = ?p @ concat ss" using concat_group_sections[of "lines_of raw"] ss(1) by simp
  have "\<not> has_combined ?p" "\<not> has_combined (concat ss)"
    using ss(2) combined_append[OF g(2)] by (auto simp: raw)
  moreover have "\<forall>s \<in> set ss. \<not> has_combined s"
    using calculation(2) g(4) by (intro combined_sub) auto
  then have "\<not> has_combined (concat ?ks)"
    using sub g(4) by (intro combined_concat) auto
  ultimately have "\<not> has_combined out" using combined_append[OF g(2)] by (auto simp: out(1))
  then show ?thesis
    using read_sections_filter[OF ss(4), of 0 k] out(2) by (simp add: Parse_spec[OF grp])
qed

lemma renumber_forget:
  "map (\<lambda>c. c\<lparr>c_Index := 0\<rparr>) (renumber i cs) = map (\<lambda>c. c\<lparr>c_Index := 0\<rparr>) cs"
  by (induction i cs rule: renumber.induct) auto

lemma set_renumberE:
  assumes "c \<in> set (renumber i cs)"
  obtains c' j where "c' \<in> set cs" "c = c'\<lparr>c_Index := j\<rparr>"
  using assms by (induction i cs rule: renumber.induct) auto

lemma change_Paths_index [simp]: "change_Paths (c\<lparr>c_Index := j\<rparr>) = change_Paths c"
  by (simp add: change_Paths_def)

lemma change_Paths_distinct: "distinct (change_Paths c)"
  by (simp add: change_Paths_def)

lemma fold_add_path:
  "distinct acc \<Longrightarrow> distinct (fold add_path ps acc) \<and> set (fold add_path ps acc) = set acc \<union> set ps"
  by (induction ps arbitrary: acc) (auto simp: add_path_def)

lemma set_Paths_spec:
  "distinct (set_Paths s) \<and> set (set_Paths s) = (\<Union>c \<in> set (ps_Changes s). set (change_Paths c))"
proof -
  have "distinct acc \<Longrightarrow>
      distinct (fold (\<lambda>c. fold add_path (change_Paths c)) cs acc)
      \<and> set (fold (\<lambda>c. fold add_path (change_Paths c)) cs acc)
        = set acc \<union> (\<Union>c \<in> set cs. set (change_Paths c))" for cs acc
    by (induction cs arbitrary: acc) (auto simp: fold_add_path)
  from this[of "[]" "ps_Changes s"] show ?thesis by (simp add: set_Paths_def)
qed

subsection \<open>Properties\<close>

text \<open>
  Claim C17. Filtering is byte exact and stable: parsing a rendered selection of the sections of a
  parsed patch succeeds and finds the same preamble and exactly the selected sections, with the same
  metadata and the same bytes, numbered afresh; no removed section can reappear.
\<close>

theorem render_reparse:
  assumes "Parse gd raw = Inr s" and "Render s (Some k) = Some out"
  shows "Parse gd out = Inr \<lparr>ps_Preamble = ps_Preamble s,
    ps_Changes = renumber 0 (filter k (ps_Changes s)), ps_raw = out\<rparr>"
  using assms by (rule Parse_Render)

text \<open>
  Parsing loses no byte: the preamble and the sections of a parsed patch, concatenated, are
  the input, their indices are their positions, and rendering without a filter gives the input back.
\<close>

theorem parse_loses_nothing:
  assumes "Parse gd raw = Inr s"
  shows "ps_Preamble s @ concat (map c_raw (ps_Changes s)) = raw
    \<and> map c_Index (ps_Changes s) = [0 ..< length (ps_Changes s)]
    \<and> Render s None = Some raw"
  using assms
proof (cases rule: Parse_InrE)
  case (1 ss)
  show ?thesis
    using Parse_no_loss[OF assms] Render_all(1)[OF assms] read_sections_index[OF 1(4)] by simp
qed

text \<open>
  The offset-based loop that finds the section boundaries computes the declarative
  grouping of the lines of the patch at their header lines, and refuses a combined diff wherever its
  marker occurs; no read is out of range and the loop terminates.
\<close>

theorem split_sections_refines_grouping:
  "splitSections raw =
    (if list_ex (prefix combinedMarker) (lines_of raw) then Inl ErrCombinedDiff
     else Inr (ranges (length (fst (group_sections (lines_of raw))))
                 (snd (group_sections (lines_of raw)))))"
  by (simp add: splitSections_spec list_ex_iff Let_def split: prod.splits)

subsection \<open>Witnesses\<close>

definition ex_file_of :: "string \<Rightarrow> gd_file" where
  "ex_file_of name = \<lparr>f_OldName = name, f_NewName = name, f_OldMode = ModeRegular,
     f_NewMode = ModeRegular, f_IsNew = False, f_IsDelete = False, f_IsRename = False,
     f_IsCopy = False, f_IsBinary = False, f_TextFragments = [(1, 0)]\<rparr>"

definition ex_gd :: gitdiff where
  "ex_gd section = Inr [ex_file_of (if contains ''key'' section then ''key'' else ''doc'')]"

definition ex_raw :: bytes where
  "ex_raw = ''From x'' @ [newline] @ ''diff --git a/key b/key'' @ [newline] @ ''+k'' @ [newline]
     @ ''diff --git a/doc b/doc'' @ [newline] @ ''+d''"

definition ex_set :: patch_set where
  "ex_set = (case Parse ex_gd ex_raw of Inr s \<Rightarrow> s)"

lemma ex_parses: "Parse ex_gd ex_raw = Inr ex_set"
  by code_simp

theorem parse_loses_nothing_witness:
  "ps_Preamble ex_set @ concat (map c_raw (ps_Changes ex_set)) = ex_raw
    \<and> map c_Index (ps_Changes ex_set) = [0 ..< length (ps_Changes ex_set)]
    \<and> Render ex_set None = Some ex_raw"
  by (rule parse_loses_nothing[OF ex_parses])

definition ex_out :: bytes where
  "ex_out = ''From x'' @ [newline] @ ''diff --git a/doc b/doc'' @ [newline] @ ''+d''"

theorem render_reparse_witness:
  "Parse ex_gd ex_out = Inr \<lparr>ps_Preamble = ps_Preamble ex_set,
     ps_Changes = renumber 0 (filter (\<lambda>c. c_NewPath c = ''doc'') (ps_Changes ex_set)),
     ps_raw = ex_out\<rparr>"
proof -
  have "Render ex_set (Some (\<lambda>c. c_NewPath c = ''doc'')) = Some ex_out" by code_simp
  then show ?thesis by (rule render_reparse[OF ex_parses])
qed

end
