(* ===== verification/Nit_Rule.thy ===== *)
theory Nit_Rule
  imports Nit_Prelude
begin

text \<open>
  The data of package \<open>pkg/policy\<close>: identities (\<open>identity.go\<close>), path patterns (\<open>pattern.go\<close>),
  rules and their matching predicates (\<open>rule.go\<close>) and decisions (\<open>decision.go\<close>). An action, an
  effect and a subject type are strings in the code, because a bundle's author writes them; the
  model keeps them as strings so that an invalid one can occur and has to be refused. The glob
  matcher of the library \<open>doublestar\<close> is the parameter \<open>ds\<close>.
\<close>

subsection \<open>Identities\<close>

type_synonym tenant_id = string
type_synonym user_id = string
type_synonym group_id = string
type_synonym repo_id = string

definition DefaultTenant :: tenant_id where "DefaultTenant = ''default''"

record user =
  u_ID :: user_id
  u_Email :: string
  u_Aliases :: "string list"
  u_ForgeLogins :: "(string \<times> string) list"
  u_Disabled :: bool

record group =
  g_ID :: group_id
  g_Description :: string
  g_Members :: "user_id list"
  g_Includes :: "group_id list"

record repository =
  r_ID :: repo_id
  r_Remote :: string
  r_Forge :: string
  r_DefaultBranch :: string

record subject =
  s_UserID :: user_id
  s_Groups :: "group_id list"

fun InGroup_loop :: "group_id \<Rightarrow> group_id list \<Rightarrow> bool" where
  "InGroup_loop g [] = False"
| "InGroup_loop g (h # hs) = (if h = g then True else InGroup_loop g hs)"

definition InGroup :: "subject \<Rightarrow> group_id \<Rightarrow> bool" where
  "InGroup s g = InGroup_loop g (s_Groups s)"

lemma InGroup_iff [simp]: "InGroup s g \<longleftrightarrow> g \<in> set (s_Groups s)"
proof -
  have "InGroup_loop g hs \<longleftrightarrow> g \<in> set hs" for hs by (induction hs) auto
  then show ?thesis by (simp add: InGroup_def)
qed

subsection \<open>Patterns\<close>

record doublestar =
  ds_Match :: "string \<Rightarrow> string \<Rightarrow> string + bool"
  ds_Validate :: "string \<Rightarrow> bool"

record pattern =
  pat_raw :: string
  pat_glob :: string
  pat_dir :: string

definition MatchAll :: pattern where
  "MatchAll = \<lparr>pat_raw = ''**'', pat_glob = ''**'', pat_dir = []\<rparr>"

definition no_pattern :: pattern where
  "no_pattern = \<lparr>pat_raw = [], pat_glob = [], pat_dir = []\<rparr>"

datatype pattern_error =
    EmptyPattern
  | LeadingSlash string
  | WrongSeparator string
  | EmptySegment string
  | DotSegment string
  | InvalidGlob string

definition ParsePattern :: "doublestar \<Rightarrow> string \<Rightarrow> pattern_error + pattern" where
  "ParsePattern ds s =
     (if s = [] then Inl EmptyPattern
      else if prefix ''/'' s then Inl (LeadingSlash s)
      else if contains [CHR 0x5C] s then Inl (WrongSeparator s)
      else if contains ''//'' s then Inl (EmptySegment s)
      else if list_ex (\<lambda>seg. seg = ''..'' \<or> seg = ''.'') (split_on (CHR ''/'') s)
        then Inl (DotSegment s)
      else
        let dir = (if suffix ''/'' s then butlast s else []);
            glob = (if suffix ''/'' s then butlast s @ ''/**'' else s)
        in if \<not> ds_Validate ds glob then Inl (InvalidGlob s)
           else if dir \<noteq> [] \<and> \<not> ds_Validate ds dir then Inl (InvalidGlob s)
           else Inr \<lparr>pat_raw = s, pat_glob = glob, pat_dir = dir\<rparr>)"

definition Pattern_Match :: "doublestar \<Rightarrow> pattern \<Rightarrow> string \<Rightarrow> bool" where
  "Pattern_Match ds p path =
     (if pat_glob p = [] \<or> path = [] then False
      else if pat_dir p \<noteq> [] \<and> ds_Match ds (pat_dir p) path = Inr True then True
      else ds_Match ds (pat_glob p) path = Inr True)"

definition IsSubtree :: "pattern \<Rightarrow> bool" where
  "IsSubtree p = (pat_dir p \<noteq> [])"

definition Specificity :: "pattern \<Rightarrow> nat" where
  "Specificity p =
     (case index_any ''*?[{'' (pat_glob p) of
        Some i \<Rightarrow> i
      | None \<Rightarrow> length (pat_glob p))"

subsection \<open>Rules\<close>

type_synonym action = string
type_synonym effect = string
type_synonym subject_type = string

definition ActionRead :: action where "ActionRead = ''read''"
definition ActionWrite :: action where "ActionWrite = ''write''"
definition ActionCreate :: action where "ActionCreate = ''create''"
definition ActionDelete :: action where "ActionDelete = ''delete''"
definition ActionAdmin :: action where "ActionAdmin = ''admin''"

lemmas action_defs = ActionRead_def ActionWrite_def ActionCreate_def ActionDelete_def ActionAdmin_def

definition AllActions :: "action list" where
  "AllActions = [ActionRead, ActionWrite, ActionCreate, ActionDelete, ActionAdmin]"

definition Action_Valid :: "action \<Rightarrow> bool" where
  "Action_Valid a =
     (a = ActionRead \<or> a = ActionWrite \<or> a = ActionCreate \<or> a = ActionDelete \<or> a = ActionAdmin)"

definition EffectAllow :: effect where "EffectAllow = ''allow''"
definition EffectDeny :: effect where "EffectDeny = ''deny''"

lemma effects_distinct [simp]: "EffectAllow \<noteq> EffectDeny" "EffectDeny \<noteq> EffectAllow"
  by (simp_all add: EffectAllow_def EffectDeny_def)

definition Effect_Valid :: "effect \<Rightarrow> bool" where
  "Effect_Valid e = (e = EffectAllow \<or> e = EffectDeny)"

definition SubjectTypeUser :: subject_type where "SubjectTypeUser = ''user''"
definition SubjectTypeGroup :: subject_type where "SubjectTypeGroup = ''group''"
definition SubjectTypeAny :: subject_type where "SubjectTypeAny = ''any''"

lemmas subject_type_defs = SubjectTypeUser_def SubjectTypeGroup_def SubjectTypeAny_def

definition SubjectType_Valid :: "subject_type \<Rightarrow> bool" where
  "SubjectType_Valid t = (t = SubjectTypeUser \<or> t = SubjectTypeGroup \<or> t = SubjectTypeAny)"

record rule_subject =
  rs_Type :: subject_type
  rs_ID :: string

definition RuleSubject_Matches :: "rule_subject \<Rightarrow> subject \<Rightarrow> bool" where
  "RuleSubject_Matches rs s =
     (if rs_Type rs = SubjectTypeAny then True
      else if rs_Type rs = SubjectTypeUser then rs_ID rs = s_UserID s
      else if rs_Type rs = SubjectTypeGroup then InGroup s (rs_ID rs)
      else False)"

definition RuleSubject_String :: "rule_subject \<Rightarrow> string" where
  "RuleSubject_String rs =
     (if rs_Type rs = SubjectTypeAny then ''any'' else rs_Type rs @ '':'' @ rs_ID rs)"

record rule =
  rule_ID :: string
  rule_Subject :: rule_subject
  rule_Except :: "rule_subject list"
  rule_Paths :: "pattern list"
  rule_Refs :: "pattern list"
  rule_Actions :: "action list"
  rule_Effect :: effect
  rule_Description :: string

fun none_matches :: "subject \<Rightarrow> rule_subject list \<Rightarrow> bool" where
  "none_matches s [] = True"
| "none_matches s (ex # exs) = (if RuleSubject_Matches ex s then False else none_matches s exs)"

definition MatchesSubject :: "rule \<Rightarrow> subject \<Rightarrow> bool" where
  "MatchesSubject r s =
     (if \<not> RuleSubject_Matches (rule_Subject r) s then False else none_matches s (rule_Except r))"

fun HasAction_loop :: "action \<Rightarrow> action list \<Rightarrow> bool" where
  "HasAction_loop a [] = False"
| "HasAction_loop a (b # bs) = (if b = a then True else HasAction_loop a bs)"

definition HasAction :: "rule \<Rightarrow> action \<Rightarrow> bool" where
  "HasAction r a = HasAction_loop a (rule_Actions r)"

fun first_match :: "doublestar \<Rightarrow> string \<Rightarrow> pattern list \<Rightarrow> pattern option" where
  "first_match ds path [] = None"
| "first_match ds path (p # ps) = (if Pattern_Match ds p path then Some p else first_match ds path ps)"

definition MatchesRef :: "doublestar \<Rightarrow> rule \<Rightarrow> string \<Rightarrow> bool" where
  "MatchesRef ds r ref =
     (if rule_Refs r = [] then True
      else if ref = [] then False
      else first_match ds ref (rule_Refs r) \<noteq> None)"

definition MatchesPath :: "doublestar \<Rightarrow> rule \<Rightarrow> string \<Rightarrow> pattern option" where
  "MatchesPath ds r path = first_match ds path (rule_Paths r)"

lemma none_matches_iff: "none_matches s exs \<longleftrightarrow> (\<forall>ex \<in> set exs. \<not> RuleSubject_Matches ex s)"
  by (induction exs) auto

lemma MatchesSubject_iff:
  "MatchesSubject r s \<longleftrightarrow> RuleSubject_Matches (rule_Subject r) s
     \<and> (\<forall>ex \<in> set (rule_Except r). \<not> RuleSubject_Matches ex s)"
  by (simp add: MatchesSubject_def none_matches_iff)

lemma HasAction_iff: "HasAction r a \<longleftrightarrow> a \<in> set (rule_Actions r)"
proof -
  have "HasAction_loop a bs \<longleftrightarrow> a \<in> set bs" for bs by (induction bs) auto
  then show ?thesis by (simp add: HasAction_def)
qed

lemma first_match_SomeD:
  "first_match ds path ps = Some p \<Longrightarrow> p \<in> set ps \<and> Pattern_Match ds p path"
  by (induction ps) (auto split: if_splits)

lemma first_match_None_iff:
  "first_match ds path ps = None \<longleftrightarrow> (\<forall>p \<in> set ps. \<not> Pattern_Match ds p path)"
  by (induction ps) auto

lemma MatchesRef_iff:
  "MatchesRef ds r ref \<longleftrightarrow>
     rule_Refs r = [] \<or> (ref \<noteq> [] \<and> (\<exists>p \<in> set (rule_Refs r). Pattern_Match ds p ref))"
  using first_match_None_iff[of ds ref "rule_Refs r"] by (auto simp: MatchesRef_def)

lemma MatchesPath_iff:
  "MatchesPath ds r path \<noteq> None \<longleftrightarrow> (\<exists>p \<in> set (rule_Paths r). Pattern_Match ds p path)"
  using first_match_None_iff[of ds path "rule_Paths r"] by (auto simp: MatchesPath_def)

subsection \<open>Decisions\<close>

datatype reason =
    ReasonNone
  | ReasonAllowedByRule
  | ReasonDeniedByRule
  | ReasonNoMatchingRule
  | ReasonUnknownRepository
  | ReasonUserDisabled

fun reason_str :: "reason \<Rightarrow> string" where
  "reason_str ReasonNone = []"
| "reason_str ReasonAllowedByRule = ''allowed_by_rule''"
| "reason_str ReasonDeniedByRule = ''denied_by_rule''"
| "reason_str ReasonNoMatchingRule = ''no_matching_rule''"
| "reason_str ReasonUnknownRepository = ''unknown_repository''"
| "reason_str ReasonUserDisabled = ''user_disabled''"

record decision =
  d_Allowed :: bool
  d_Effect :: effect
  d_Reason :: reason
  d_RuleID :: string
  d_Pattern :: string
  d_Description :: string
  d_PolicyVersion :: string

definition denied :: "reason \<Rightarrow> string \<Rightarrow> decision" where
  "denied reason version =
     \<lparr>d_Allowed = False, d_Effect = EffectDeny, d_Reason = reason, d_RuleID = [],
      d_Pattern = [], d_Description = [], d_PolicyVersion = version\<rparr>"

definition decision_String :: "decision \<Rightarrow> string" where
  "decision_String d =
     (let verb = (if d_Allowed d then ''allowed'' else ''denied'')
      in if d_RuleID d = [] then verb @ '' ('' @ reason_str (d_Reason d) @ '')''
         else verb @ '' by rule '' @ d_RuleID d @ '' ('' @ reason_str (d_Reason d) @ '': ''
              @ d_Pattern d @ '')'')"

lemma denied_simps [simp]:
  "\<not> d_Allowed (denied r v)" "d_PolicyVersion (denied r v) = v" "d_Effect (denied r v) = EffectDeny"
  "d_Reason (denied r v) = r"
  by (simp_all add: denied_def)

subsection \<open>What a parsed pattern looks like\<close>

lemma ParsePattern_InrD:
  assumes "ParsePattern ds s = Inr p"
  shows "pat_raw p = s" "s \<noteq> []" "\<not> prefix ''/'' s" "pat_glob p \<noteq> []"
    "suffix ''/'' s \<longleftrightarrow> IsSubtree p"
    "IsSubtree p \<longrightarrow> s = pat_dir p @ ''/'' \<and> pat_glob p = pat_dir p @ ''/**''"
    "\<not> IsSubtree p \<longrightarrow> pat_glob p = s"
    "\<forall>seg \<in> set (split_on (CHR ''/'') s). seg \<noteq> ''..'' \<and> seg \<noteq> ''.''"
proof -
  note d = assms[unfolded ParsePattern_def Let_def]
  show "pat_raw p = s" "s \<noteq> []" "\<not> prefix ''/'' s" "pat_glob p \<noteq> []"
    using d by (auto split: if_splits)
  have sl: "s = butlast s @ ''/''" if "suffix ''/'' s"
    using that by (auto simp: suffix_def)
  have "butlast s \<noteq> []" if "suffix ''/'' s"
    using sl[OF that] \<open>\<not> prefix ''/'' s\<close> by (metis append_Nil prefix_order.refl)
  then show "suffix ''/'' s \<longleftrightarrow> IsSubtree p"
    using d by (auto simp: IsSubtree_def split: if_splits)
  show "IsSubtree p \<longrightarrow> s = pat_dir p @ ''/'' \<and> pat_glob p = pat_dir p @ ''/**''"
    using d sl by (auto simp: IsSubtree_def split: if_splits)
  show "\<not> IsSubtree p \<longrightarrow> pat_glob p = s"
    using d \<open>suffix ''/'' s \<longleftrightarrow> IsSubtree p\<close> by (auto split: if_splits)
  show "\<forall>seg \<in> set (split_on (CHR ''/'') s). seg \<noteq> ''..'' \<and> seg \<noteq> ''.''"
    using d by (auto simp: list_ex_iff split: if_splits)
qed

end
