(* ===== verification/Nit_Policy.thy ===== *)
theory Nit_Policy
  imports Nit_Rule
begin

text \<open>
  \<open>pkg/policy/policy.go\<close>: the compilation of an authored bundle (\<open>Spec\<close>) into a validated policy.
  Every check of \<open>Compile\<close> is an error constructor. The lemmas show that a compiled policy has no
  dangling reference and only valid rules, that the inclusion relation it accepts is exactly an
  acyclic one (the depth-first search always has enough fuel), and that the stored memberships are
  the reflexive transitive closure of inclusion over direct membership.
\<close>

subsection \<open>State\<close>

record spec =
  sp_Tenant :: tenant_id
  sp_Version :: string
  sp_Users :: "user list"
  sp_Groups :: "group list"
  sp_Repositories :: "repository list"
  sp_Rules :: "(repo_id \<times> rule list) list"

record policy =
  p_tenant :: tenant_id
  p_version :: string
  p_users :: "(user_id \<times> user) list"
  p_groups :: "(group_id \<times> group) list"
  p_repos :: "(repo_id \<times> repository) list"
  p_rules :: "(repo_id \<times> rule list) list"
  p_memberships :: "(user_id \<times> group_id list) list"

datatype rule_error =
    InvalidEffect effect
  | InvalidSubjectType subject_type
  | SubjectNeedsID subject_type
  | InvalidExceptType subject_type
  | ExceptAny
  | ExceptNeedsID subject_type
  | NoPathPattern
  | NoAction
  | InvalidAction action
  | DuplicateAction action
  | WriteWithoutRead action
  | UnknownRuleUser string
  | UnknownRuleGroup string

datatype policy_error =
    UserEmptyID
  | DuplicateUser user_id
  | GroupEmptyID
  | DuplicateGroup group_id
  | RepoEmptyID
  | DuplicateRepo repo_id
  | GroupUnknownUser group_id user_id
  | GroupUnknownGroup group_id group_id
  | GroupCycle "group_id list" group_id
  | RulesForUnknownRepo repo_id
  | BadRule repo_id string rule_error
  | SearchExhausted

datatype subject_error = ErrUnknownUser user_id

subsection \<open>Looking things up\<close>

definition list_at :: "('k \<times> 'v list) list \<Rightarrow> 'k \<Rightarrow> 'v list" where
  "list_at m k = (case map_of m k of None \<Rightarrow> [] | Some vs \<Rightarrow> vs)"

lemma in_list_at: "v \<in> set (list_at m k) \<longleftrightarrow> (\<exists>vs. map_of m k = Some vs \<and> v \<in> set vs)"
  by (cases "map_of m k") (simp_all add: list_at_def)

definition Policy_Repository :: "policy \<Rightarrow> repo_id \<Rightarrow> repository option" where
  "Policy_Repository p i = map_of (p_repos p) i"

definition Policy_Repositories :: "policy \<Rightarrow> repository list" where
  "Policy_Repositories p = sort_key r_ID (map snd (p_repos p))"

definition Policy_User :: "policy \<Rightarrow> user_id \<Rightarrow> user option" where
  "Policy_User p i = map_of (p_users p) i"

definition Policy_Users :: "policy \<Rightarrow> user list" where
  "Policy_Users p = sort_key u_ID (map snd (p_users p))"

definition Policy_Groups :: "policy \<Rightarrow> group list" where
  "Policy_Groups p = sort_key g_ID (map snd (p_groups p))"

definition Policy_Rules :: "policy \<Rightarrow> repo_id \<Rightarrow> rule list" where
  "Policy_Rules p repo = list_at (p_rules p) repo"

definition Policy_Subject :: "policy \<Rightarrow> user_id \<Rightarrow> subject_error + subject" where
  "Policy_Subject p i =
     (if map_of (p_users p) i = None then Inl (ErrUnknownUser i)
      else Inr \<lparr>s_UserID = i, s_Groups = list_at (p_memberships p) i\<rparr>)"

subsection \<open>Directory groups and references\<close>

definition DirectoryPrefix :: string where "DirectoryPrefix = ''idp:''"

definition adopt :: "group_id \<Rightarrow> (group_id \<times> group) list \<Rightarrow> (group_id \<times> group) list" where
  "adopt i gs =
     (if \<not> prefix DirectoryPrefix i then gs
      else if map_of gs i \<noteq> None then gs
      else AList.update i \<lparr>g_ID = i, g_Description = ''from a directory; empty here'',
                           g_Members = [], g_Includes = []\<rparr> gs)"

definition rule_groups :: "rule \<Rightarrow> group_id list" where
  "rule_groups r =
     (if rs_Type (rule_Subject r) = SubjectTypeGroup then [rs_ID (rule_Subject r)] else [])
     @ map rs_ID (filter (\<lambda>e. rs_Type e = SubjectTypeGroup) (rule_Except r))"

definition adoptDirectoryGroups :: "spec \<Rightarrow> policy \<Rightarrow> policy" where
  "adoptDirectoryGroups sp p =
     p\<lparr>p_groups := fold adopt
        (concat (map g_Includes (sp_Groups sp))
         @ concat (map (\<lambda>(_, rs). concat (map rule_groups rs)) (sp_Rules sp))) (p_groups p)\<rparr>"

definition checkGroupReferences :: "policy \<Rightarrow> policy_error + unit" where
  "checkGroupReferences p =
     check_each (\<lambda>(_, g).
       rbind (check_each (\<lambda>m. if map_of (p_users p) m = None then Inl (GroupUnknownUser (g_ID g) m)
                              else Inr ()) (g_Members g))
         (\<lambda>_. check_each (\<lambda>inc. if map_of (p_groups p) inc = None
                then Inl (GroupUnknownGroup (g_ID g) inc) else Inr ()) (g_Includes g)))
       (p_groups p)"

subsection \<open>Inclusion cycles\<close>

datatype colour = White | Grey | Black

definition includes_of :: "policy \<Rightarrow> group_id \<Rightarrow> group_id list" where
  "includes_of p g = (case map_of (p_groups p) g of None \<Rightarrow> [] | Some gr \<Rightarrow> g_Includes gr)"

text \<open>
  The recursive closure \<open>visit\<close>; the first argument bounds the depth of white groups on the
  current path and is shown to suffice when it is the number of groups.
\<close>

primrec visit :: "nat \<Rightarrow> (group_id \<Rightarrow> group_id list) \<Rightarrow> group_id \<Rightarrow> group_id list
    \<Rightarrow> (group_id \<Rightarrow> colour) \<Rightarrow> policy_error + (group_id \<Rightarrow> colour)" where
  "visit 0 incl g path st =
     (case st g of Grey \<Rightarrow> Inl (GroupCycle path g) | Black \<Rightarrow> Inr st | White \<Rightarrow> Inl SearchExhausted)"
| "visit (Suc n) incl g path st =
     (case st g of
        Grey \<Rightarrow> Inl (GroupCycle path g)
      | Black \<Rightarrow> Inr st
      | White \<Rightarrow>
          rbind (for_each (\<lambda>inc st. visit n incl inc (path @ [g]) st) (incl g) (st(g := Grey)))
            (\<lambda>st'. Inr (st'(g := Black))))"

definition detectGroupCycles :: "policy \<Rightarrow> policy_error + unit" where
  "detectGroupCycles p =
     rbind (for_each (\<lambda>g st. visit (length (p_groups p)) (includes_of p) g [] st)
              (sort (map fst (p_groups p))) (\<lambda>_. White))
       (\<lambda>_. Inr ())"

subsection \<open>Memberships\<close>

definition add_to :: "'k \<Rightarrow> 'v \<Rightarrow> ('k \<times> 'v list) list \<Rightarrow> ('k \<times> 'v list) list" where
  "add_to k v m = AList.update k (list_at m k @ [v]) m"

definition includedBy :: "policy \<Rightarrow> (group_id \<times> group_id list) list" where
  "includedBy p =
     fold (\<lambda>(_, g) m. fold (\<lambda>inc m. add_to inc (g_ID g) m) (g_Includes g) m) (p_groups p) []"

definition direct_groups :: "policy \<Rightarrow> (user_id \<times> group_id list) list" where
  "direct_groups p =
     fold (\<lambda>(_, g) m. fold (\<lambda>u m. add_to u (g_ID g) m) (g_Members g) m) (p_groups p) []"

definition mentioned :: "('k \<times> 'v list) list \<Rightarrow> 'v set" where
  "mentioned m = (\<Union>(_, vs) \<in> set m. set vs)"

lemma finite_mentioned [simp]: "finite (mentioned m)"
  by (auto simp: mentioned_def)

lemma list_at_mentioned: "set (list_at m k) \<subseteq> mentioned m"
proof (cases "map_of m k")
  case (Some vs)
  then have "(k, vs) \<in> set m" by (rule map_of_SomeD)
  with Some show ?thesis by (auto simp: list_at_def mentioned_def)
qed (simp add: list_at_def)

function membership_loop :: "(group_id \<times> group_id list) list \<Rightarrow> group_id list \<Rightarrow> group_id list
    \<Rightarrow> group_id list" where
  "membership_loop inc [] seen = seen"
| "membership_loop inc (g # queue) seen =
     (if g \<in> set seen then membership_loop inc queue seen
      else membership_loop inc (queue @ list_at inc g) (seen @ [g]))"
  by pat_completeness auto
termination
proof (relation "measures [\<lambda>(inc, queue, seen). card ((mentioned inc \<union> set queue) - set seen),
    \<lambda>(inc, queue, seen). length queue]", goal_cases)
  case 1
  then show ?case by simp
next
  case (2 inc g queue seen)
  have "card (mentioned inc \<union> set queue - set seen) \<le> card (mentioned inc \<union> set (g # queue) - set seen)"
    by (intro card_mono) auto
  then show ?case by auto
next
  case (3 inc g queue seen)
  have "mentioned inc \<union> set (queue @ list_at inc g) - set (seen @ [g])
      \<subset> mentioned inc \<union> set (g # queue) - set seen"
    using 3 list_at_mentioned[of inc g] by auto
  then have "card (mentioned inc \<union> set (queue @ list_at inc g) - set (seen @ [g]))
      < card (mentioned inc \<union> set (g # queue) - set seen)"
    by (intro psubset_card_mono) auto
  then show ?case by simp
qed

definition resolveMemberships :: "policy \<Rightarrow> policy_error + policy" where
  "resolveMemberships p =
     rbind (detectGroupCycles p)
       (\<lambda>_. Inr (p\<lparr>p_memberships :=
          map (\<lambda>(u, _). (u, sort (membership_loop (includedBy p) (list_at (direct_groups p) u) [])))
            (p_users p)\<rparr>))"

subsection \<open>Rules\<close>

definition check_except :: "rule_subject \<Rightarrow> rule_error + unit" where
  "check_except ex =
     (if \<not> SubjectType_Valid (rs_Type ex) then Inl (InvalidExceptType (rs_Type ex))
      else if rs_Type ex = SubjectTypeAny then Inl ExceptAny
      else if rs_ID ex = [] then Inl (ExceptNeedsID (rs_Type ex))
      else Inr ())"

definition see_action :: "action \<Rightarrow> action list \<Rightarrow> rule_error + action list" where
  "see_action a seen =
     (if \<not> Action_Valid a then Inl (InvalidAction a)
      else if a \<in> set seen then Inl (DuplicateAction a)
      else Inr (seen @ [a]))"

definition validateRule :: "rule \<Rightarrow> rule_error + unit" where
  "validateRule r =
     (if \<not> Effect_Valid (rule_Effect r) then Inl (InvalidEffect (rule_Effect r))
      else if \<not> SubjectType_Valid (rs_Type (rule_Subject r))
        then Inl (InvalidSubjectType (rs_Type (rule_Subject r)))
      else if rs_Type (rule_Subject r) \<noteq> SubjectTypeAny \<and> rs_ID (rule_Subject r) = []
        then Inl (SubjectNeedsID (rs_Type (rule_Subject r)))
      else rbind (check_each check_except (rule_Except r)) (\<lambda>_.
        if rule_Paths r = [] then Inl NoPathPattern
        else if rule_Actions r = [] then Inl NoAction
        else rbind (for_each see_action (rule_Actions r) []) (\<lambda>seen.
          if ActionRead \<notin> set seen \<and> rule_Effect r = EffectAllow
          then check_each (\<lambda>a. if a \<in> set seen then Inl (WriteWithoutRead a) else Inr ())
                 [ActionWrite, ActionCreate, ActionDelete]
          else Inr ())))"

definition check_subject :: "policy \<Rightarrow> rule_subject \<Rightarrow> rule_error + unit" where
  "check_subject p s =
     (if rs_Type s = SubjectTypeUser then
        (if map_of (p_users p) (rs_ID s) = None then Inl (UnknownRuleUser (rs_ID s)) else Inr ())
      else if rs_Type s = SubjectTypeGroup then
        (if map_of (p_groups p) (rs_ID s) = None then Inl (UnknownRuleGroup (rs_ID s)) else Inr ())
      else Inr ())"

definition checkRuleSubject :: "policy \<Rightarrow> rule \<Rightarrow> rule_error + unit" where
  "checkRuleSubject p r = check_each (check_subject p) (rule_Subject r # rule_Except r)"

definition name_rule :: "repo_id \<Rightarrow> nat \<Rightarrow> rule \<Rightarrow> rule" where
  "name_rule repo i r = (if rule_ID r = [] then r\<lparr>rule_ID := repo @ ''#'' @ itoa i\<rparr> else r)"

fun compile_list :: "policy \<Rightarrow> repo_id \<Rightarrow> nat \<Rightarrow> rule list \<Rightarrow> policy_error + rule list" where
  "compile_list p repo i [] = Inr []"
| "compile_list p repo i (r0 # rs) =
     (let r = name_rule repo i r0
      in case rbind (validateRule r) (\<lambda>_. checkRuleSubject p r) of
           Inl e \<Rightarrow> Inl (BadRule repo (rule_ID r) e)
         | Inr _ \<Rightarrow> rbind (compile_list p repo (Suc i) rs) (\<lambda>cs. Inr (r # cs)))"

definition compileRules :: "(repo_id \<times> rule list) list \<Rightarrow> policy \<Rightarrow> policy_error + policy" where
  "compileRules rules p =
     for_each (\<lambda>(repo, rs) q.
       if map_of (p_repos q) repo = None then Inl (RulesForUnknownRepo repo)
       else rbind (compile_list q repo 0 rs)
         (\<lambda>compiled. Inr (q\<lparr>p_rules := AList.update repo compiled (p_rules q)\<rparr>))) rules p"

subsection \<open>\<open>Compile\<close>\<close>

definition put_user :: "user \<Rightarrow> (user_id \<times> user) list \<Rightarrow> policy_error + (user_id \<times> user) list" where
  "put_user u m =
     (if u_ID u = [] then Inl UserEmptyID
      else if map_of m (u_ID u) \<noteq> None then Inl (DuplicateUser (u_ID u))
      else Inr (AList.update (u_ID u) u m))"

definition put_group :: "group \<Rightarrow> (group_id \<times> group) list \<Rightarrow> policy_error + (group_id \<times> group) list" where
  "put_group g m =
     (if g_ID g = [] then Inl GroupEmptyID
      else if map_of m (g_ID g) \<noteq> None then Inl (DuplicateGroup (g_ID g))
      else Inr (AList.update (g_ID g) g m))"

definition put_repo ::
  "repository \<Rightarrow> (repo_id \<times> repository) list \<Rightarrow> policy_error + (repo_id \<times> repository) list" where
  "put_repo r m =
     (if r_ID r = [] then Inl RepoEmptyID
      else if map_of m (r_ID r) \<noteq> None then Inl (DuplicateRepo (r_ID r))
      else Inr (AList.update (r_ID r) r m))"

definition Compile :: "spec \<Rightarrow> policy_error + policy" where
  "Compile sp =
     (let tenant = (if sp_Tenant sp = [] then DefaultTenant else sp_Tenant sp) in
      rbind (for_each put_user (sp_Users sp) []) (\<lambda>us.
      rbind (for_each put_group (sp_Groups sp) []) (\<lambda>gs.
      let p1 = adoptDirectoryGroups sp
                 \<lparr>p_tenant = tenant, p_version = sp_Version sp, p_users = us, p_groups = gs,
                  p_repos = [], p_rules = [], p_memberships = []\<rparr> in
      rbind (for_each put_repo (sp_Repositories sp) []) (\<lambda>rs.
      let p2 = p1\<lparr>p_repos := rs\<rparr> in
      rbind (checkGroupReferences p2) (\<lambda>_.
      rbind (resolveMemberships p2) (\<lambda>p3.
      compileRules (sp_Rules sp) p3))))))"

subsection \<open>The search for cycles decides acyclicity\<close>

definition inclusion :: "(group_id \<Rightarrow> group_id list) \<Rightarrow> (group_id \<times> group_id) set" where
  "inclusion incl = {(a, b). b \<in> set (incl a)}"

text \<open>A black group includes black groups only, of smaller rank.\<close>

definition finished :: "(group_id \<Rightarrow> group_id list) \<Rightarrow> (group_id \<Rightarrow> colour) \<Rightarrow> bool" where
  "finished incl st \<longleftrightarrow> (\<exists>rank :: group_id \<Rightarrow> nat.
     \<forall>x. st x = Black \<longrightarrow> (\<forall>y \<in> set (incl x). st y = Black \<and> rank y < rank x))"

definition advances :: "(group_id \<Rightarrow> colour) \<Rightarrow> (group_id \<Rightarrow> colour) \<Rightarrow> bool" where
  "advances st st' \<longleftrightarrow> (\<forall>x. st x = Black \<longrightarrow> st' x = Black) \<and> (\<forall>x. st' x = Grey \<longleftrightarrow> st x = Grey)"

lemma advances_refl [simp]: "advances st st"
  by (simp add: advances_def)

lemma advances_trans: "advances a b \<Longrightarrow> advances b c \<Longrightarrow> advances a c"
  by (simp add: advances_def)

lemma for_each_advances:
  assumes "for_each f xs st = Inr st'" and "P st"
    and "\<And>x s s'. x \<in> set xs \<Longrightarrow> P s \<Longrightarrow> f x s = Inr s' \<Longrightarrow> P s' \<and> advances s s' \<and> s' x = Black"
  shows "P st' \<and> advances st st' \<and> (\<forall>x \<in> set xs. st' x = Black)"
  using assms
proof (induction xs arbitrary: st)
  case Nil
  then show ?case by simp
next
  case (Cons x xs)
  from Cons.prems(1) obtain s where s: "f x st = Inr s" "for_each f xs s = Inr st'"
    by (auto elim: rbind_InrE)
  have x: "P s" "advances st s" "s x = Black"
    using Cons.prems(3)[OF _ Cons.prems(2) s(1)] by auto
  have "P st' \<and> advances s st' \<and> (\<forall>x \<in> set xs. st' x = Black)"
    by (rule Cons.IH[OF s(2) x(1)]) (use Cons.prems(3) in \<open>meson list.set_intros(2)\<close>)
  then show ?case using x advances_trans[of st s st'] by (auto simp: advances_def)
qed

lemma sum_list_member_le: "x \<in> set xs \<Longrightarrow> f x \<le> sum_list (map f xs :: nat list)"
  by (induction xs) auto

lemma finished_grey: "finished incl st \<Longrightarrow> st g = White \<Longrightarrow> finished incl (st(g := Grey))"
  unfolding finished_def by (metis (no_types, lifting) colour.distinct fun_upd_apply)

lemma finished_black:
  assumes "finished incl st" "st g = Grey" "\<forall>y \<in> set (incl g). st y = Black"
  shows "finished incl (st(g := Black))"
proof -
  obtain rank :: "group_id \<Rightarrow> nat" where
    r: "\<And>x y. st x = Black \<Longrightarrow> y \<in> set (incl x) \<Longrightarrow> st y = Black \<and> rank y < rank x"
    using assms(1) by (auto simp: finished_def)
  let ?rank = "rank(g := Suc (sum_list (map rank (incl g))))"
  have "(st(g := Black)) y = Black \<and> ?rank y < ?rank x"
    if x: "(st(g := Black)) x = Black" and y: "y \<in> set (incl x)" for x y
  proof (cases "x = g")
    case True
    then have "st y = Black" "y \<noteq> g" using assms(2,3) y by auto
    then show ?thesis using True sum_list_member_le[of y "incl g" rank] y by simp
  next
    case False
    then have "st y = Black" "rank y < rank x" using r[of x y] x y by simp_all
    then show ?thesis using False assms(2) by auto
  qed
  then show ?thesis unfolding finished_def by blast
qed

lemma visit_finished:
  "visit n incl g path st = Inr st' \<Longrightarrow> finished incl st \<Longrightarrow>
   finished incl st' \<and> advances st st' \<and> st' g = Black"
proof (induction n arbitrary: g path st st')
  case 0
  then show ?case by (auto split: colour.splits)
next
  case (Suc n)
  show ?case
  proof (cases "st g")
    case White
    let ?f = "\<lambda>inc st. visit n incl inc (path @ [g]) st"
    obtain s where s: "for_each ?f (incl g) (st(g := Grey)) = Inr s" "st' = s(g := Black)"
      using Suc.prems(1) White by (auto elim: rbind_InrE)
    have *: "finished incl s \<and> advances (st(g := Grey)) s \<and> (\<forall>x \<in> set (incl g). s x = Black)"
      using s(1) finished_grey[OF Suc.prems(2) White] Suc.IH by (rule for_each_advances) auto
    then have "s g = Grey" by (auto simp: advances_def)
    with * have "finished incl st'" using finished_black[of incl s g] by (simp add: s(2))
    moreover have "advances st st'" using * White by (auto simp: advances_def s(2))
    moreover have "st' g = Black" by (simp add: s(2))
    ultimately show ?thesis by blast
  qed (use Suc.prems in auto)
qed

lemma finished_acyclic:
  assumes "finished incl st" "\<And>x. incl x \<noteq> [] \<Longrightarrow> st x = Black"
  shows "acyclic (inclusion incl)"
proof -
  obtain rank :: "group_id \<Rightarrow> nat" where
    r: "\<And>x y. st x = Black \<Longrightarrow> y \<in> set (incl x) \<Longrightarrow> rank y < rank x"
    using assms(1) by (auto simp: finished_def)
  have "y \<in> set (incl x) \<Longrightarrow> rank y < rank x" for x y
    using assms(2)[of x] r[of x y] by fastforce
  then have "(inclusion incl)\<inverse> \<subseteq> measure rank"
    by (auto simp: inclusion_def)
  then show ?thesis by (metis acyclic_converse wf_acyclic wf_measure wf_subset)
qed

lemma chain_cycle:
  assumes "successively (\<lambda>a b. b \<in> set (incl a)) (xs @ [y])" "y \<in> set xs"
  shows "(y, y) \<in> (inclusion incl)\<^sup>+"
proof -
  have "successively (\<lambda>a b. b \<in> set (incl a)) (x # zs @ [y]) \<Longrightarrow> (x, y) \<in> (inclusion incl)\<^sup>+"
    for x zs
    by (induction zs arbitrary: x) (auto simp: inclusion_def intro: trancl_into_trancl2)
  moreover obtain as bs where "xs = as @ y # bs" using assms(2) by (meson split_list)
  moreover from this have "successively (\<lambda>a b. b \<in> set (incl a)) (y # bs @ [y])"
    using assms(1) by (simp add: successively_append_iff)
  ultimately show ?thesis by blast
qed

lemma visit_cycle:
  "visit n incl g path st = Inl (GroupCycle path' g') \<Longrightarrow>
   successively (\<lambda>a b. b \<in> set (incl a)) (path @ [g]) \<Longrightarrow>
   (\<And>x. st x = Grey \<longleftrightarrow> x \<in> set path) \<Longrightarrow> finished incl st \<Longrightarrow>
   (g', g') \<in> (inclusion incl)\<^sup>+"
proof (induction n arbitrary: g path st)
  case 0
  then show ?case by (auto split: colour.splits intro: chain_cycle)
next
  case (Suc n)
  show ?case
  proof (cases "st g")
    case White
    let ?f = "\<lambda>inc st. visit n incl inc (path @ [g]) st"
    have "for_each ?f xs s = Inl (GroupCycle path' g') \<Longrightarrow> set xs \<subseteq> set (incl g) \<Longrightarrow>
        (\<And>x. s x = Grey \<longleftrightarrow> x \<in> set (path @ [g])) \<Longrightarrow> finished incl s \<Longrightarrow>
        (g', g') \<in> (inclusion incl)\<^sup>+" for xs s
    proof (induction xs arbitrary: s)
      case (Cons x xs)
      show ?case
      proof (cases "?f x s")
        case (Inl e)
        then show ?thesis using Cons.prems Suc.prems(2)
          by (intro Suc.IH[of x "path @ [g]" s]) (auto simp: successively_append_iff)
      next
        case (Inr s')
        then have "finished incl s'" "advances s s'"
          using visit_finished[OF Inr] Cons.prems(4) by auto
        then show ?thesis using Cons.IH[of s'] Cons.prems Inr by (auto simp: advances_def)
      qed
    qed simp
    moreover have "for_each ?f (incl g) (st(g := Grey)) = Inl (GroupCycle path' g')"
      using Suc.prems(1) White by (auto simp: rbind_Inl_iff)
    ultimately show ?thesis
      using Suc.prems(3) finished_grey[OF Suc.prems(4) White] by auto
  next
    case Grey
    have "g' = g" using Suc.prems(1) Grey by simp
    moreover have "g \<in> set path" using Suc.prems(3) Grey by blast
    ultimately show ?thesis using chain_cycle[OF Suc.prems(2)] by simp
  qed (use Suc.prems in auto)
qed

definition whites :: "group_id set \<Rightarrow> (group_id \<Rightarrow> colour) \<Rightarrow> nat" where
  "whites U st = card {x \<in> U. st x = White}"

lemma whites_mono:
  assumes "finite U" "advances st st'"
  shows "whites U st' \<le> whites U st"
  unfolding whites_def using assms by (intro card_mono) (auto simp: advances_def, metis colour.exhaust)

lemma whites_grey:
  assumes "finite U" "g \<in> U" "st g = White"
  shows "whites U (st(g := Grey)) < whites U st"
  unfolding whites_def using assms by (intro psubset_card_mono) auto

lemma visit_fuel:
  assumes U: "finite U" "\<And>x. x \<in> U \<Longrightarrow> set (incl x) \<subseteq> U"
  shows "g \<in> U \<Longrightarrow> whites U st \<le> n \<Longrightarrow> finished incl st \<Longrightarrow>
    visit n incl g path st \<noteq> Inl SearchExhausted"
proof (induction n arbitrary: g path st)
  case 0
  then have "st g \<noteq> White" using U(1) by (auto simp: whites_def)
  then show ?case by (auto split: colour.splits)
next
  case (Suc n)
  show ?case
  proof (cases "st g")
    case White
    let ?f = "\<lambda>inc st. visit n incl inc (path @ [g]) st"
    have "set xs \<subseteq> U \<Longrightarrow> whites U s \<le> n \<Longrightarrow> finished incl s \<Longrightarrow>
        for_each ?f xs s \<noteq> Inl SearchExhausted" for xs s
    proof (induction xs arbitrary: s)
      case (Cons x xs)
      show ?case
      proof (cases "?f x s")
        case (Inl e)
        then show ?thesis using Suc.IH[of x s "path @ [g]"] Cons.prems by auto
      next
        case (Inr s')
        then have "finished incl s'" "whites U s' \<le> n"
          using visit_finished[OF Inr Cons.prems(3)] whites_mono[OF U(1), of s s'] Cons.prems(2) by auto
        then show ?thesis using Cons.IH[of s'] Cons.prems(1) Inr by auto
      qed
    qed simp
    moreover have "whites U (st(g := Grey)) \<le> n"
      using whites_grey[where st = st, OF U(1) Suc.prems(1) White] Suc.prems(2) by simp
    ultimately have "for_each ?f (incl g) (st(g := Grey)) \<noteq> Inl SearchExhausted"
      using U(2)[OF Suc.prems(1)] finished_grey[OF Suc.prems(3) White] by blast
    then show ?thesis using White by (auto simp: rbind_Inl_iff)
  qed (use Suc.prems in auto)
qed

lemma visit_error_kind:
  "visit n incl g path st = Inl e \<Longrightarrow> e = SearchExhausted \<or> (\<exists>p h. e = GroupCycle p h)"
proof (induction n arbitrary: g path st)
  case 0
  then show ?case by (auto split: colour.splits)
next
  case (Suc n)
  have "for_each (\<lambda>inc st. visit n incl inc (path @ [g]) st) xs s = Inl e \<Longrightarrow>
      e = SearchExhausted \<or> (\<exists>p h. e = GroupCycle p h)" for xs s
    using Suc.IH by (induction xs arbitrary: s) (auto simp: rbind_Inl_iff)
  then show ?case using Suc.prems by (auto simp: rbind_Inl_iff split: colour.splits)
qed

definition closed_includes :: "policy \<Rightarrow> bool" where
  "closed_includes p \<longleftrightarrow> (\<forall>g. set (includes_of p g) \<subseteq> fst ` set (p_groups p))"

lemma includes_of_known: "includes_of p g \<noteq> [] \<Longrightarrow> g \<in> fst ` set (p_groups p)"
  by (auto simp: includes_of_def split: option.splits dest!: map_of_SomeD simp: image_iff)
    (metis fst_conv map_of_SomeD)

lemma finished_start: "finished incl (\<lambda>_. White)"
  by (simp add: finished_def)

lemma whites_start_le: "whites (fst ` set (p_groups p)) (\<lambda>_. White) \<le> length (p_groups p)"
  unfolding whites_def by (simp add: card_image_le [THEN order_trans] card_length)

lemma detect_loop:
  assumes "closed_includes p" and "set gs \<subseteq> fst ` set (p_groups p)"
    and "finished (includes_of p) st" and "\<And>x. st x \<noteq> Grey"
    and "whites (fst ` set (p_groups p)) st \<le> length (p_groups p)"
    and "for_each (\<lambda>g st. visit (length (p_groups p)) (includes_of p) g [] st) gs st = Inl e"
  shows "\<exists>h. (h, h) \<in> (inclusion (includes_of p))\<^sup>+"
  using assms
proof (induction gs arbitrary: st)
  case (Cons g gs)
  let ?v = "visit (length (p_groups p)) (includes_of p) g [] st"
  let ?U = "fst ` set (p_groups p)"
  show ?case
  proof (cases ?v)
    case (Inl e')
    have "e' \<noteq> SearchExhausted"
      using visit_fuel[of ?U "includes_of p" g st "length (p_groups p)" "[]"] Cons.prems Inl
      by (auto simp: closed_includes_def)
    then obtain q h where "e' = GroupCycle q h" using visit_error_kind[OF Inl] by blast
    then show ?thesis
      using visit_cycle[OF Inl[unfolded \<open>e' = _\<close>]] Cons.prems(3,4) by auto
  next
    case (Inr st')
    then have "finished (includes_of p) st'" "advances st st'"
      using visit_finished[OF Inr Cons.prems(3)] by auto
    then show ?thesis
      using Cons.IH[of st'] Cons.prems Inr whites_mono[of ?U st st']
      by (auto simp: advances_def)
  qed
qed simp

lemma detect_loop_fuel:
  assumes "closed_includes p" and "set gs \<subseteq> fst ` set (p_groups p)"
    and "finished (includes_of p) st"
    and "whites (fst ` set (p_groups p)) st \<le> length (p_groups p)"
  shows "for_each (\<lambda>g st. visit (length (p_groups p)) (includes_of p) g [] st) gs st
    \<noteq> Inl SearchExhausted"
  using assms
proof (induction gs arbitrary: st)
  case (Cons g gs)
  let ?v = "visit (length (p_groups p)) (includes_of p) g [] st"
  let ?U = "fst ` set (p_groups p)"
  show ?case
  proof (cases ?v)
    case (Inl e)
    then show ?thesis
      using visit_fuel[of ?U "includes_of p" g st "length (p_groups p)" "[]"] Cons.prems
      by (auto simp: closed_includes_def)
  next
    case (Inr st')
    then have "finished (includes_of p) st'" "advances st st'"
      using visit_finished[OF Inr Cons.prems(3)] by auto
    then show ?thesis
      using Cons.IH[of st'] Cons.prems Inr whites_mono[of ?U st st'] by auto
  qed
qed simp

lemma detect_fuel: "closed_includes p \<Longrightarrow> detectGroupCycles p \<noteq> Inl SearchExhausted"
  using detect_loop_fuel[OF _ _ finished_start whites_start_le, of p "sort (map fst (p_groups p))"]
  by (auto simp: detectGroupCycles_def rbind_Inl_iff)

lemma detectGroupCycles_iff:
  assumes "closed_includes p"
  shows "detectGroupCycles p = Inr () \<longleftrightarrow> acyclic (inclusion (includes_of p))"
proof -
  let ?f = "\<lambda>g st. visit (length (p_groups p)) (includes_of p) g [] st"
  let ?gs = "sort (map fst (p_groups p))"
  show ?thesis
  proof (cases "for_each ?f ?gs (\<lambda>_. White)")
    case (Inl e)
    then have "\<exists>h. (h, h) \<in> (inclusion (includes_of p))\<^sup>+"
      using detect_loop[OF assms _ finished_start, of ?gs] whites_start_le[of p] by auto
    then show ?thesis using Inl by (auto simp: detectGroupCycles_def acyclic_def)
  next
    case (Inr st)
    have "finished (includes_of p) st \<and> advances (\<lambda>_. White) st \<and> (\<forall>x \<in> set ?gs. st x = Black)"
      using Inr finished_start visit_finished by (rule for_each_advances) auto
    then have "acyclic (inclusion (includes_of p))"
      using includes_of_known by (intro finished_acyclic[of _ st]) auto
    then show ?thesis using Inr by (simp add: detectGroupCycles_def)
  qed
qed

subsection \<open>Memberships are the closure of inclusion\<close>

lemma membership_loop_upper:
  "set (membership_loop inc queue seen) \<subseteq> set seen \<union> {(a, b). b \<in> set (list_at inc a)}\<^sup>* `` set queue"
proof (induction inc queue seen rule: membership_loop.induct)
  case (2 inc g queue seen)
  let ?R = "{(a, b). b \<in> set (list_at inc a)}\<^sup>*"
  have R: "?R `` set (list_at inc g) \<subseteq> ?R `` {g}"
    by (auto intro: converse_rtrancl_into_rtrancl)
  have Q: "?R `` set (g # queue) = ?R `` {g} \<union> ?R `` set queue" "g \<in> ?R `` {g}"
    by auto
  show ?case
  proof (cases "g \<in> set seen")
    case True
    then show ?thesis using "2.IH"(1)[OF True] unfolding Q(1) by auto
  next
    case False
    have "set (membership_loop inc (queue @ list_at inc g) (seen @ [g]))
        \<subseteq> set (seen @ [g]) \<union> (?R `` set queue \<union> ?R `` set (list_at inc g))"
      using "2.IH"(2)[OF False] by (simp only: set_append Image_Un)
    also have "\<dots> \<subseteq> set seen \<union> ?R `` set (g # queue)"
      unfolding Q(1) using R Q(2) by auto
    finally show ?thesis using False by simp
  qed
qed simp

lemma membership_loop_lower:
  assumes "\<forall>a \<in> set seen. set (list_at inc a) \<subseteq> set seen \<union> set queue"
  shows "set seen \<union> set queue \<subseteq> set (membership_loop inc queue seen)
    \<and> (\<forall>a \<in> set (membership_loop inc queue seen).
         set (list_at inc a) \<subseteq> set (membership_loop inc queue seen))"
  using assms
proof (induction inc queue seen rule: membership_loop.induct)
  case (2 inc g queue seen)
  show ?case
  proof (cases "g \<in> set seen")
    case True
    then show ?thesis using "2.IH"(1)[OF True] "2.prems" by auto
  next
    case False
    have "\<forall>a \<in> set (seen @ [g]). set (list_at inc a) \<subseteq> set (seen @ [g]) \<union> set (queue @ list_at inc g)"
      using "2.prems" by auto
    then show ?thesis using "2.IH"(2)[OF False] False by auto
  qed
qed simp

lemma membership_loop_distinct: "distinct seen \<Longrightarrow> distinct (membership_loop inc queue seen)"
  by (induction inc queue seen rule: membership_loop.induct) auto

lemma membership_loop_spec:
  "set (membership_loop inc queue []) = {(a, b). b \<in> set (list_at inc a)}\<^sup>* `` set queue"
proof
  show "set (membership_loop inc queue []) \<subseteq> {(a, b). b \<in> set (list_at inc a)}\<^sup>* `` set queue"
    using membership_loop_upper[of inc queue "[]"] by simp
  let ?M = "set (membership_loop inc queue [])"
  have M: "set queue \<subseteq> ?M" "\<forall>a \<in> ?M. set (list_at inc a) \<subseteq> ?M"
    using membership_loop_lower[of "[]" inc queue] by auto
  have "(a, b) \<in> {(a, b). b \<in> set (list_at inc a)}\<^sup>* \<Longrightarrow> a \<in> ?M \<Longrightarrow> b \<in> ?M" for a b
    by (induction rule: rtrancl_induct) (use M(2) in auto)
  then show "{(a, b). b \<in> set (list_at inc a)}\<^sup>* `` set queue \<subseteq> ?M" using M(1) by auto
qed

lemma list_at_add_to: "list_at (add_to k v m) j = (if j = k then list_at m k @ [v] else list_at m j)"
  by (simp add: add_to_def list_at_def)

lemma list_at_fold_add_to:
  "set (list_at (fold (\<lambda>k m. add_to k v m) ks m) j) = set (list_at m j) \<union> (if j \<in> set ks then {v} else {})"
  by (induction ks arbitrary: m) (auto simp: list_at_add_to)

lemma list_at_fold_groups:
  "set (list_at (fold (\<lambda>(_, g) m. fold (\<lambda>k m. add_to k (g_ID g) m) (f g) m) gs m) j)
   = set (list_at m j) \<union> {g_ID g | i g. (i, g) \<in> set gs \<and> j \<in> set (f g)}"
proof (induction gs arbitrary: m)
  case (Cons a gs)
  then show ?case by (cases a) (auto simp: list_at_fold_add_to split: if_splits)
qed simp

lemma list_at_includedBy:
  "set (list_at (includedBy p) h) = {g_ID g | i g. (i, g) \<in> set (p_groups p) \<and> h \<in> set (g_Includes g)}"
  unfolding includedBy_def by (subst list_at_fold_groups) (simp add: list_at_def)

lemma list_at_direct_groups:
  "set (list_at (direct_groups p) u) = {g_ID g | i g. (i, g) \<in> set (p_groups p) \<and> u \<in> set (g_Members g)}"
  unfolding direct_groups_def by (subst list_at_fold_groups) (simp add: list_at_def)

subsection \<open>Well-formed policies\<close>

definition keyed_by :: "('v \<Rightarrow> 'k) \<Rightarrow> ('k \<times> 'v) list \<Rightarrow> bool" where
  "keyed_by key m \<longleftrightarrow> distinct (map fst m) \<and> (\<forall>(k, v) \<in> set m. key v = k)"

definition wf_groups :: "policy \<Rightarrow> bool" where
  "wf_groups p \<longleftrightarrow> (\<forall>(_, g) \<in> set (p_groups p).
     set (g_Members g) \<subseteq> fst ` set (p_users p) \<and> set (g_Includes g) \<subseteq> fst ` set (p_groups p))"

definition wf_rules :: "policy \<Rightarrow> bool" where
  "wf_rules p \<longleftrightarrow> (\<forall>(repo, rs) \<in> set (p_rules p). map_of (p_repos p) repo \<noteq> None
     \<and> (\<forall>r \<in> set rs. rule_ID r \<noteq> [] \<and> validateRule r = Inr () \<and> checkRuleSubject p r = Inr ()))"

text \<open>
  \<open>member_of p u\<close> is the specification of membership: the groups reached from those that list
  \<open>u\<close> by going from an included group to the including one.
\<close>

definition member_of :: "policy \<Rightarrow> user_id \<Rightarrow> group_id set" where
  "member_of p u = {(h, g). h \<in> set (includes_of p g)}\<^sup>* ``
     {h. \<exists>gr. map_of (p_groups p) h = Some gr \<and> u \<in> set (g_Members gr)}"

definition wf_memberships :: "policy \<Rightarrow> bool" where
  "wf_memberships p \<longleftrightarrow> (\<forall>u. map_of (p_users p) u \<noteq> None \<longrightarrow>
     set (list_at (p_memberships p) u) = member_of p u
     \<and> sorted (list_at (p_memberships p) u) \<and> distinct (list_at (p_memberships p) u))"

definition wf_policy :: "policy \<Rightarrow> bool" where
  "wf_policy p \<longleftrightarrow> keyed_by u_ID (p_users p) \<and> keyed_by g_ID (p_groups p)
     \<and> keyed_by r_ID (p_repos p) \<and> distinct (map fst (p_rules p)) \<and> wf_groups p
     \<and> acyclic (inclusion (includes_of p)) \<and> wf_memberships p \<and> wf_rules p"

lemma keyed_byI:
  "distinct (map fst m) \<Longrightarrow> (\<And>k v. map_of m k = Some v \<Longrightarrow> key v = k) \<Longrightarrow> keyed_by key m"
  by (auto simp: keyed_by_def)

lemma keyed_lookup:
  assumes "keyed_by key m"
  shows "(i, v) \<in> set m \<longleftrightarrow> map_of m i = Some v" and "map_of m i = Some v \<Longrightarrow> key v = i"
proof -
  show "(i, v) \<in> set m \<longleftrightarrow> map_of m i = Some v"
    using assms by (simp add: keyed_by_def)
  show "key v = i" if "map_of m i = Some v"
    using map_of_SomeD[OF that] assms by (auto simp: keyed_by_def)
qed

lemma keyed_by_update:
  assumes "keyed_by key m"
  shows "keyed_by key (AList.update (key v) v m)"
proof (rule keyed_byI)
  show "distinct (map fst (AList.update (key v) v m))" using assms by (simp add: keyed_by_def)
  show "key w = k" if "map_of (AList.update (key v) v m) k = Some w" for k w
    using that keyed_lookup(2)[OF assms, of k w] by (auto split: if_splits)
qed

lemma keyed_by_Nil [simp]: "keyed_by key []"
  by (simp add: keyed_by_def)

lemma put_keyed:
  "put_user u m = Inr m' \<Longrightarrow> keyed_by u_ID m \<Longrightarrow> keyed_by u_ID m'"
  "put_group g n = Inr n' \<Longrightarrow> keyed_by g_ID n \<Longrightarrow> keyed_by g_ID n'"
  "put_repo r k = Inr k' \<Longrightarrow> keyed_by r_ID k \<Longrightarrow> keyed_by r_ID k'"
  by (auto simp: put_user_def put_group_def put_repo_def keyed_by_update split: if_splits)

lemma adopt_keyed: "keyed_by g_ID gs \<Longrightarrow> keyed_by g_ID (adopt i gs)"
  using keyed_by_update[of g_ID gs "\<lparr>g_ID = i, g_Description = ''from a directory; empty here'',
    g_Members = [], g_Includes = []\<rparr>"]
  by (simp add: adopt_def)

lemma fold_adopt_keyed: "keyed_by g_ID gs \<Longrightarrow> keyed_by g_ID (fold adopt is gs)"
  by (induction "is" arbitrary: gs) (auto simp: adopt_keyed)

lemma checkGroupReferences_iff:
  "checkGroupReferences p = Inr () \<longleftrightarrow> wf_groups p"
  by (auto simp: checkGroupReferences_def wf_groups_def check_each_Inr_iff rbind_Inr_iff
      map_of_eq_None_iff subset_iff split: prod.splits if_splits)

lemma in_includes_of:
  "a \<in> set (includes_of p b) \<longleftrightarrow> (\<exists>gr. map_of (p_groups p) b = Some gr \<and> a \<in> set (g_Includes gr))"
  by (cases "map_of (p_groups p) b") (simp_all add: includes_of_def)

lemma wf_groups_closed:
  assumes "wf_groups p"
  shows "closed_includes p"
proof -
  have "a \<in> fst ` set (p_groups p)" if "a \<in> set (includes_of p b)" for a b
  proof -
    from that obtain gr where "(b, gr) \<in> set (p_groups p)" "a \<in> set (g_Includes gr)"
      by (auto simp: in_includes_of dest: map_of_SomeD)
    with assms show ?thesis unfolding wf_groups_def by blast
  qed
  then show ?thesis by (auto simp: closed_includes_def)
qed

lemma keyed_collect:
  assumes "keyed_by key m"
  shows "{key v | i v. (i, v) \<in> set m \<and> Q v} = {k. \<exists>v. map_of m k = Some v \<and> Q v}"
proof (intro set_eqI iffI)
  fix k
  assume "k \<in> {key v | i v. (i, v) \<in> set m \<and> Q v}"
  then obtain i v where v: "k = key v" "(i, v) \<in> set m" "Q v" by blast
  then have "map_of m i = Some v" using keyed_lookup(1)[OF assms] by blast
  moreover from this have "key v = i" by (rule keyed_lookup(2)[OF assms])
  ultimately show "k \<in> {k. \<exists>v. map_of m k = Some v \<and> Q v}" using v by blast
next
  fix k
  assume "k \<in> {k. \<exists>v. map_of m k = Some v \<and> Q v}"
  then obtain v where v: "map_of m k = Some v" "Q v" by blast
  then have "key v = k" "(k, v) \<in> set m" using keyed_lookup[OF assms] by blast+
  with v show "k \<in> {key v | i v. (i, v) \<in> set m \<and> Q v}" by blast
qed

lemma membership_set:
  assumes "keyed_by g_ID (p_groups p)"
  shows "set (membership_loop (includedBy p) (list_at (direct_groups p) u) []) = member_of p u"
proof -
  have "{(a, b). b \<in> set (list_at (includedBy p) a)} = {(h, g). h \<in> set (includes_of p g)}"
    unfolding list_at_includedBy keyed_collect[OF assms] in_includes_of by auto
  moreover have "set (list_at (direct_groups p) u)
      = {h. \<exists>gr. map_of (p_groups p) h = Some gr \<and> u \<in> set (g_Members gr)}"
    unfolding list_at_direct_groups keyed_collect[OF assms] ..
  ultimately show ?thesis by (simp add: membership_loop_spec member_of_def)
qed

lemma member_of_cong [simp]: "member_of (p\<lparr>p_memberships := m\<rparr>) = member_of p"
  by (simp add: member_of_def includes_of_def fun_eq_iff)

lemma resolveMemberships_wf:
  assumes "resolveMemberships p = Inr q" "keyed_by g_ID (p_groups p)" "wf_groups p"
  shows "wf_memberships q \<and> acyclic (inclusion (includes_of p))
    \<and> (\<exists>m. q = p\<lparr>p_memberships := m\<rparr>)"
proof -
  have ac: "detectGroupCycles p = Inr ()"
    and q: "q = p\<lparr>p_memberships :=
       map (\<lambda>(u, _). (u, sort (membership_loop (includedBy p) (list_at (direct_groups p) u) [])))
         (p_users p)\<rparr>"
    using assms(1) by (auto simp: resolveMemberships_def rbind_Inr_iff)
  have "map_of (map (\<lambda>(u, _). (u, f u)) us) u = (case map_of us u of None \<Rightarrow> None | Some _ \<Rightarrow> Some (f u))"
    for us :: "(user_id \<times> user) list" and f :: "user_id \<Rightarrow> group_id list" and u
    by (induction us) auto
  then have "list_at (p_memberships q) u
      = sort (membership_loop (includedBy p) (list_at (direct_groups p) u) [])"
    if "map_of (p_users p) u \<noteq> None" for u
    using that by (auto simp: q list_at_def)
  then have "wf_memberships q"
    using membership_set[OF assms(2)] by (auto simp: wf_memberships_def q membership_loop_distinct)
  then show ?thesis
    using ac detectGroupCycles_iff[OF wf_groups_closed[OF assms(3)]] q by auto
qed

subsection \<open>\<open>Compile\<close> accepts well-formed policies only\<close>

lemma name_rule_id: "rule_ID (name_rule repo i r) \<noteq> []"
  by (simp add: name_rule_def)

lemma compile_list_ok:
  "compile_list p repo i rs = Inr cs \<Longrightarrow>
   (\<forall>r \<in> set cs. rule_ID r \<noteq> [] \<and> validateRule r = Inr () \<and> checkRuleSubject p r = Inr ())
   \<and> length cs = length rs"
proof (induction p repo i rs arbitrary: cs rule: compile_list.induct)
  case (2 p repo i r0 rs)
  define r where "r = name_rule repo i r0"
  from "2.prems" obtain cs' where r: "validateRule r = Inr ()" "checkRuleSubject p r = Inr ()"
      and cs: "compile_list p repo (Suc i) rs = Inr cs'" "cs = r # cs'"
    by (auto simp: r_def[symmetric] Let_def rbind_Inr_iff split: sum.splits elim!: rbind_InrE)
  have "rule_ID r \<noteq> []" by (simp add: r_def name_rule_id)
  then show ?case using "2.IH"[OF r_def _ cs(1)] r cs(2) by simp
qed simp

lemma checkRuleSubject_cong:
  "p_users p = p_users q \<Longrightarrow> p_groups p = p_groups q \<Longrightarrow> checkRuleSubject p r = checkRuleSubject q r"
proof -
  assume "p_users p = p_users q" "p_groups p = p_groups q"
  then have "check_subject p = check_subject q" by (simp add: check_subject_def fun_eq_iff)
  then show ?thesis by (simp add: checkRuleSubject_def)
qed

lemma compileRules_wf:
  assumes "compileRules rules p = Inr q" and "p_rules p = []"
  shows "wf_rules q \<and> distinct (map fst (p_rules q)) \<and> (\<exists>rs. q = p\<lparr>p_rules := rs\<rparr>)"
proof -
  let ?I = "\<lambda>q. wf_rules q \<and> distinct (map fst (p_rules q)) \<and> (\<exists>rs. q = p\<lparr>p_rules := rs\<rparr>)"
  show ?thesis
  proof (rule for_each_invariant[where I = ?I, OF assms(1)[unfolded compileRules_def]])
    have "p = p\<lparr>p_rules := p_rules p\<rparr>" by simp
    then have "\<exists>rs. p = p\<lparr>p_rules := rs\<rparr>" by (rule exI)
    then show "?I p" using assms(2) by (simp add: wf_rules_def)
  next
    fix x s s'
    assume I: "?I s" and step: "(case x of (repo, rs) \<Rightarrow> \<lambda>q.
        if map_of (p_repos q) repo = None then Inl (RulesForUnknownRepo repo)
        else rbind (compile_list q repo 0 rs)
          (\<lambda>compiled. Inr (q\<lparr>p_rules := AList.update repo compiled (p_rules q)\<rparr>))) s = Inr s'"
    obtain repo rs where x: "x = (repo, rs)" by (cases x)
    from step obtain cs where cs: "compile_list s repo 0 rs = Inr cs" "map_of (p_repos s) repo \<noteq> None"
        and s': "s' = s\<lparr>p_rules := AList.update repo cs (p_rules s)\<rparr>"
      by (auto simp: x rbind_Inr_iff split: if_splits)
    have "map_of (p_repos s) k \<noteq> None \<and> (\<forall>r \<in> set ls. rule_ID r \<noteq> [] \<and> validateRule r = Inr ()
        \<and> checkRuleSubject s r = Inr ())" if "(k, ls) \<in> set (AList.update repo cs (p_rules s))" for k ls
      using that I compile_list_ok[OF cs(1)] cs(2)
      by (auto simp: wf_rules_def in_set_update split: if_splits)
    moreover have "checkRuleSubject s' = checkRuleSubject s"
      using checkRuleSubject_cong[of s s'] by (auto simp: s')
    ultimately have "wf_rules s'" by (auto simp: wf_rules_def s')
    then show "?I s'" using I by (auto simp: s')
  qed
qed

lemma wf_transfer:
  "p_users q = p_users p \<Longrightarrow> p_groups q = p_groups p \<Longrightarrow> p_memberships q = p_memberships p
   \<Longrightarrow> wf_groups q = wf_groups p \<and> includes_of q = includes_of p \<and> wf_memberships q = wf_memberships p"
  by (simp add: wf_groups_def includes_of_def fun_eq_iff wf_memberships_def member_of_def)

lemma Compile_wf:
  assumes "Compile sp = Inr p"
  shows "wf_policy p \<and> p_version p = sp_Version sp"
proof -
  obtain us gs rs p1 p2 p3 where
    us: "for_each put_user (sp_Users sp) [] = Inr us" and
    gs: "for_each put_group (sp_Groups sp) [] = Inr gs" and
    rs: "for_each put_repo (sp_Repositories sp) [] = Inr rs" and
    p1: "p1 = adoptDirectoryGroups sp
       \<lparr>p_tenant = (if sp_Tenant sp = [] then DefaultTenant else sp_Tenant sp),
        p_version = sp_Version sp, p_users = us, p_groups = gs,
        p_repos = [], p_rules = [], p_memberships = []\<rparr>" and
    p2: "p2 = p1\<lparr>p_repos := rs\<rparr>" and refs: "checkGroupReferences p2 = Inr ()" and
    p3: "resolveMemberships p2 = Inr p3" and p: "compileRules (sp_Rules sp) p3 = Inr p"
    using assms by (auto simp: Compile_def Let_def elim!: rbind_InrE)
  have k: "keyed_by u_ID us" "keyed_by g_ID gs" "keyed_by r_ID rs"
    using us gs rs put_keyed by (auto elim!: for_each_invariant)
  have wg: "wf_groups p2" using refs by (simp add: checkGroupReferences_iff)
  have k2: "keyed_by g_ID (p_groups p2)" "p_users p2 = us" "p_repos p2 = rs" "p_rules p2 = []"
    "p_version p2 = sp_Version sp"
    using fold_adopt_keyed[OF k(2)]
    by (simp_all add: p2 p1 adoptDirectoryGroups_def fold_adopt_keyed del: fold_append)
  obtain m where m: "p3 = p2\<lparr>p_memberships := m\<rparr>" "wf_memberships p3"
      "acyclic (inclusion (includes_of p2))"
    using resolveMemberships_wf[OF p3 k2(1) wg] by blast
  obtain cs where q: "p = p3\<lparr>p_rules := cs\<rparr>" "wf_rules p" "distinct (map fst (p_rules p))"
    using compileRules_wf[OF p] k2(4) by (auto simp: m(1))
  have "wf_groups p" "includes_of p = includes_of p2" "wf_memberships p"
    using wf_transfer[of p3 p2] wf_transfer[of p p3] m(2) wg
    by (simp_all add: q(1) m(1) wf_groups_def includes_of_def fun_eq_iff)
  then show ?thesis
    using k k2 m(3) q by (simp add: wf_policy_def m(1))
qed

subsection \<open>Properties\<close>

text \<open>
  Claim C20. A bundle that compiles is well formed: users, groups and repositories are stored under
  their own identifiers without duplicates, every group names known users and known groups, group
  inclusion has no cycle, every rule belongs to a known repository, has an identifier, passes
  validation and names known subjects only, and the stored memberships are the closure.
\<close>

theorem compile_wellformed:
  assumes "Compile sp = Inr p"
  shows "wf_policy p"
  using Compile_wf[OF assms] by simp

text \<open>
  Claim C21. The groups of a resolved subject are exactly the groups that list the user or include,
  transitively, one that does, sorted and without duplicates; only an unknown user has no subject.
\<close>

theorem subject_groups_closure:
  assumes "Compile sp = Inr p"
  shows "Policy_Subject p u =
    (if map_of (p_users p) u = None then Inl (ErrUnknownUser u)
     else Inr \<lparr>s_UserID = u, s_Groups = sorted_list_of_set (member_of p u)\<rparr>)"
proof (cases "map_of (p_users p) u = None")
  case False
  then have "sorted_list_of_set (member_of p u) = list_at (p_memberships p) u"
    using Compile_wf[OF assms] unfolding wf_policy_def wf_memberships_def
    by (metis sorted_list_of_set.idem_if_sorted_distinct)
  then show ?thesis using False by (simp add: Policy_Subject_def)
qed (simp add: Policy_Subject_def)

text \<open>
  The depth-first search for inclusion cycles always terminates with an answer and accepts
  exactly the bundles whose inclusion relation is acyclic.
\<close>

theorem group_cycle_search_exact:
  assumes "checkGroupReferences p = Inr ()"
  shows "(detectGroupCycles p = Inr () \<longleftrightarrow> acyclic (inclusion (includes_of p)))
    \<and> detectGroupCycles p \<noteq> Inl SearchExhausted"
proof -
  have closed: "closed_includes p"
    using assms by (simp add: checkGroupReferences_iff wf_groups_closed)
  show ?thesis using detectGroupCycles_iff[OF closed] detect_fuel[OF closed] by simp
qed

subsection \<open>Witnesses\<close>

definition ex_rule :: "string \<Rightarrow> effect \<Rightarrow> action list \<Rightarrow> pattern \<Rightarrow> rule" where
  "ex_rule i e as pat = \<lparr>rule_ID = i, rule_Subject = \<lparr>rs_Type = SubjectTypeGroup, rs_ID = ''dev''\<rparr>,
     rule_Except = [], rule_Paths = [pat], rule_Refs = [], rule_Actions = as, rule_Effect = e,
     rule_Description = []\<rparr>"

definition ex_file :: pattern where
  "ex_file = \<lparr>pat_raw = ''key'', pat_glob = ''key'', pat_dir = []\<rparr>"

definition ex_user :: "user_id \<Rightarrow> user" where
  "ex_user i = \<lparr>u_ID = i, u_Email = [], u_Aliases = [], u_ForgeLogins = [], u_Disabled = False\<rparr>"

definition ex_spec :: spec where
  "ex_spec = \<lparr>sp_Tenant = [], sp_Version = ''v1'', sp_Users = [ex_user ''amy''],
     sp_Groups = [\<lparr>g_ID = ''dev'', g_Description = [], g_Members = [], g_Includes = [''core'']\<rparr>,
                  \<lparr>g_ID = ''core'', g_Description = [], g_Members = [''amy''], g_Includes = []\<rparr>],
     sp_Repositories = [\<lparr>r_ID = ''api'', r_Remote = [], r_Forge = [], r_DefaultBranch = ''main''\<rparr>],
     sp_Rules = [(''api'', [ex_rule [] EffectAllow [ActionRead, ActionWrite] MatchAll,
                            ex_rule ''no-key'' EffectDeny [ActionRead, ActionWrite] ex_file])]\<rparr>"

definition ex_policy :: policy where
  "ex_policy = (case Compile ex_spec of Inr p \<Rightarrow> p)"

lemma ex_compiles: "Compile ex_spec = Inr ex_policy"
  by code_simp

theorem compile_wellformed_witness: "wf_policy ex_policy"
  by (rule compile_wellformed[OF ex_compiles])

theorem subject_groups_closure_witness:
  "Policy_Subject ex_policy ''amy''
   = Inr \<lparr>s_UserID = ''amy'', s_Groups = sorted_list_of_set (member_of ex_policy ''amy'')\<rparr>
   \<and> Policy_Subject ex_policy ''amy'' = Inr \<lparr>s_UserID = ''amy'', s_Groups = [''core'', ''dev'']\<rparr>"
proof -
  have "map_of (p_users ex_policy) ''amy'' \<noteq> None"
    and "Policy_Subject ex_policy ''amy'' = Inr \<lparr>s_UserID = ''amy'', s_Groups = [''core'', ''dev'']\<rparr>"
    by code_simp+
  then show ?thesis using subject_groups_closure[OF ex_compiles, of "''amy''"] by (simp split: if_splits)
qed

theorem group_cycle_search_exact_witness:
  "detectGroupCycles ex_policy = Inr () \<and> acyclic (inclusion (includes_of ex_policy))"
proof -
  have "checkGroupReferences ex_policy = Inr ()" "detectGroupCycles ex_policy = Inr ()"
    by code_simp+
  then show ?thesis using group_cycle_search_exact by blast
qed

end
