(* ===== verification/Nit_Engine.thy ===== *)
theory Nit_Engine
  imports Nit_Policy
begin

text \<open>
  \<open>pkg/policy/engine.go\<close>: the decision of one request (\<open>Evaluate\<close>), the convenience \<open>AllowsAll\<close>
  and the per-operation memo \<open>CachingEngine\<close>. The interface \<open>Engine\<close> of the code is the locale
  \<open>decision_engine\<close>; a compiled policy is an instance of it. The lemmas give the declarative
  meaning of a decision (an explicit deny wins, otherwise an allow is needed, otherwise deny),
  independence of rule order, the explanation by a most specific rule, and that the memo never
  changes an answer.
\<close>

subsection \<open>Evaluate\<close>

record request =
  q_Repo :: repo_id
  q_Ref :: string
  q_Subject :: subject
  q_Path :: string
  q_Action :: action

type_synonym best = "(rule \<times> pattern) option"

definition better :: "rule \<Rightarrow> pattern \<Rightarrow> best \<Rightarrow> best" where
  "better r pat b =
     (case b of
        None \<Rightarrow> Some (r, pat)
      | Some (_, q) \<Rightarrow> if Specificity pat > Specificity q then Some (r, pat) else b)"

definition eval_rule :: "doublestar \<Rightarrow> request \<Rightarrow> rule \<Rightarrow> best \<times> best \<Rightarrow> best \<times> best" where
  "eval_rule ds req r acc =
     (if \<not> HasAction r (q_Action req) then acc
      else if \<not> MatchesSubject r (q_Subject req) then acc
      else if \<not> MatchesRef ds r (q_Ref req) then acc
      else case MatchesPath ds r (q_Path req) of
             None \<Rightarrow> acc
           | Some pat \<Rightarrow>
               if rule_Effect r = EffectDeny then (better r pat (fst acc), snd acc)
               else (fst acc, better r pat (snd acc)))"

definition explained :: "bool \<Rightarrow> effect \<Rightarrow> reason \<Rightarrow> rule \<Rightarrow> pattern \<Rightarrow> string \<Rightarrow> decision" where
  "explained ok e reason r pat version =
     \<lparr>d_Allowed = ok, d_Effect = e, d_Reason = reason, d_RuleID = rule_ID r,
      d_Pattern = pat_raw pat, d_Description = rule_Description r, d_PolicyVersion = version\<rparr>"

definition Evaluate :: "doublestar \<Rightarrow> policy \<Rightarrow> request \<Rightarrow> decision" where
  "Evaluate ds p req =
     (if map_of (p_repos p) (q_Repo req) = None then denied ReasonUnknownRepository (p_version p)
      else if (case map_of (p_users p) (s_UserID (q_Subject req)) of
                 Some u \<Rightarrow> u_Disabled u | None \<Rightarrow> False)
        then denied ReasonUserDisabled (p_version p)
      else case fold (eval_rule ds req) (list_at (p_rules p) (q_Repo req)) (None, None) of
             (Some (r, pat), _) \<Rightarrow> explained False EffectDeny ReasonDeniedByRule r pat (p_version p)
           | (None, Some (r, pat)) \<Rightarrow> explained True EffectAllow ReasonAllowedByRule r pat (p_version p)
           | (None, None) \<Rightarrow> denied ReasonNoMatchingRule (p_version p))"

subsection \<open>AllowsAll\<close>

fun allows_actions :: "(request \<Rightarrow> decision) \<Rightarrow> request \<Rightarrow> string \<Rightarrow> action list \<Rightarrow> decision option" where
  "allows_actions e base path [] = None"
| "allows_actions e base path (a # as) =
     (let d = e (base\<lparr>q_Path := path, q_Action := a\<rparr>)
      in if \<not> d_Allowed d then Some d else allows_actions e base path as)"

fun allows_paths :: "(request \<Rightarrow> decision) \<Rightarrow> request \<Rightarrow> string list \<Rightarrow> action list \<Rightarrow> decision option" where
  "allows_paths e base [] as = None"
| "allows_paths e base (p # ps) as =
     (case allows_actions e base p as of Some d \<Rightarrow> Some d | None \<Rightarrow> allows_paths e base ps as)"

definition AllowsAll ::
  "(request \<Rightarrow> decision) \<Rightarrow> request \<Rightarrow> string list \<Rightarrow> action list \<Rightarrow> bool \<times> decision" where
  "AllowsAll e base paths actions =
     (case allows_paths e base paths actions of
        Some d \<Rightarrow> (False, d)
      | None \<Rightarrow> (True, \<lparr>d_Allowed = True, d_Effect = [], d_Reason = ReasonNone, d_RuleID = [],
                       d_Pattern = [], d_Description = [], d_PolicyVersion = []\<rparr>))"

subsection \<open>CachingEngine\<close>

type_synonym cache = "((string \<times> action) \<times> decision) list"

record caching_engine =
  ce_engine :: "request \<Rightarrow> decision"
  ce_base :: request
  ce_cache :: cache

definition NewCachingEngine :: "(request \<Rightarrow> decision) \<Rightarrow> request \<Rightarrow> caching_engine" where
  "NewCachingEngine e base = \<lparr>ce_engine = e, ce_base = base, ce_cache = []\<rparr>"

definition Caching_Evaluate :: "caching_engine \<Rightarrow> string \<Rightarrow> action \<Rightarrow> decision \<times> caching_engine" where
  "Caching_Evaluate c path a =
     (case map_of (ce_cache c) (path, a) of
        Some d \<Rightarrow> (d, c)
      | None \<Rightarrow>
          (let d = ce_engine c ((ce_base c)\<lparr>q_Path := path, q_Action := a\<rparr>)
           in (d, c\<lparr>ce_cache := AList.update (path, a) d (ce_cache c)\<rparr>)))"

subsection \<open>What the fold over the rules computes\<close>

abbreviation applies :: "doublestar \<Rightarrow> request \<Rightarrow> rule \<Rightarrow> bool" where
  "applies ds req r \<equiv> HasAction r (q_Action req) \<and> MatchesSubject r (q_Subject req)
     \<and> MatchesRef ds r (q_Ref req) \<and> MatchesPath ds r (q_Path req) \<noteq> None"

definition deny_applies :: "doublestar \<Rightarrow> policy \<Rightarrow> request \<Rightarrow> bool" where
  "deny_applies ds p req \<longleftrightarrow>
     (\<exists>r \<in> set (list_at (p_rules p) (q_Repo req)). applies ds req r \<and> rule_Effect r = EffectDeny)"

definition allow_applies :: "doublestar \<Rightarrow> policy \<Rightarrow> request \<Rightarrow> bool" where
  "allow_applies ds p req \<longleftrightarrow>
     (\<exists>r \<in> set (list_at (p_rules p) (q_Repo req)). applies ds req r \<and> rule_Effect r \<noteq> EffectDeny)"

definition disabled :: "policy \<Rightarrow> user_id \<Rightarrow> bool" where
  "disabled p u \<longleftrightarrow> (case map_of (p_users p) u of Some x \<Rightarrow> u_Disabled x | None \<Rightarrow> False)"

text \<open>\<open>(r, pat)\<close> is the first most specific match among the rules selected by \<open>sel\<close>.\<close>

definition candidates :: "doublestar \<Rightarrow> request \<Rightarrow> (rule \<Rightarrow> bool) \<Rightarrow> rule list \<Rightarrow> (rule \<times> pattern) set" where
  "candidates ds req sel rs =
     {(r, pat). r \<in> set rs \<and> applies ds req r \<and> sel r \<and> MatchesPath ds r (q_Path req) = Some pat}"

definition best_of :: "best \<Rightarrow> (rule \<times> pattern) set \<Rightarrow> bool" where
  "best_of b C \<longleftrightarrow> (case b of None \<Rightarrow> C = {}
     | Some x \<Rightarrow> x \<in> C \<and> (\<forall>y \<in> C. Specificity (snd y) \<le> Specificity (snd x)))"

lemma best_of_better:
  "best_of b C \<Longrightarrow> best_of (better r pat b) (insert (r, pat) C)"
  by (auto simp: best_of_def better_def split: option.splits if_splits)

lemma candidates_snoc:
  "candidates ds req sel (rs @ [r]) =
     (case MatchesPath ds r (q_Path req) of
        Some pat \<Rightarrow> if applies ds req r \<and> sel r then insert (r, pat) (candidates ds req sel rs)
                    else candidates ds req sel rs
      | None \<Rightarrow> candidates ds req sel rs)"
  by (auto simp: candidates_def split: option.splits)

lemma fold_eval_rule:
  "best_of (fst (fold (eval_rule ds req) rs (None, None)))
     (candidates ds req (\<lambda>r. rule_Effect r = EffectDeny) rs)
   \<and> best_of (snd (fold (eval_rule ds req) rs (None, None)))
     (candidates ds req (\<lambda>r. rule_Effect r \<noteq> EffectDeny) rs)"
proof (induction rs rule: rev_induct)
  case Nil
  then show ?case by (simp add: best_of_def candidates_def)
next
  case (snoc r rs)
  then show ?case
    by (auto simp: eval_rule_def candidates_snoc best_of_better split: option.splits)
qed

lemma candidates_empty_iff:
  "candidates ds req sel rs = {} \<longleftrightarrow> \<not> (\<exists>r \<in> set rs. applies ds req r \<and> sel r)"
  by (auto simp: candidates_def)

lemma Evaluate_cases:
  fixes ds p req
  defines "d \<equiv> Evaluate ds p req" and "rs \<equiv> list_at (p_rules p) (q_Repo req)"
  obtains
    (unknown) "map_of (p_repos p) (q_Repo req) = None" "d = denied ReasonUnknownRepository (p_version p)"
  | (disabled) "map_of (p_repos p) (q_Repo req) \<noteq> None" "disabled p (s_UserID (q_Subject req))"
      "d = denied ReasonUserDisabled (p_version p)"
  | (deny) r pat where "map_of (p_repos p) (q_Repo req) \<noteq> None"
      "\<not> disabled p (s_UserID (q_Subject req))"
      "d = explained False EffectDeny ReasonDeniedByRule r pat (p_version p)"
      "best_of (Some (r, pat)) (candidates ds req (\<lambda>r. rule_Effect r = EffectDeny) rs)"
  | (allow) r pat where "map_of (p_repos p) (q_Repo req) \<noteq> None"
      "\<not> disabled p (s_UserID (q_Subject req))" "\<not> deny_applies ds p req"
      "d = explained True EffectAllow ReasonAllowedByRule r pat (p_version p)"
      "best_of (Some (r, pat)) (candidates ds req (\<lambda>r. rule_Effect r \<noteq> EffectDeny) rs)"
  | (default) "map_of (p_repos p) (q_Repo req) \<noteq> None" "\<not> disabled p (s_UserID (q_Subject req))"
      "\<not> deny_applies ds p req" "\<not> allow_applies ds p req"
      "d = denied ReasonNoMatchingRule (p_version p)"
proof -
  obtain bd ba where b: "fold (eval_rule ds req) rs (None, None) = (bd, ba)" by fastforce
  have best: "best_of bd (candidates ds req (\<lambda>r. rule_Effect r = EffectDeny) rs)"
    "best_of ba (candidates ds req (\<lambda>r. rule_Effect r \<noteq> EffectDeny) rs)"
    using fold_eval_rule[of ds req rs] by (simp_all add: b)
  have none: "bd = None \<Longrightarrow> \<not> deny_applies ds p req" "ba = None \<Longrightarrow> \<not> allow_applies ds p req"
    using best by (auto simp: best_of_def candidates_empty_iff deny_applies_def allow_applies_def rs_def)
  note d = d_def[unfolded Evaluate_def rs_def[symmetric] b disabled_def[symmetric]]
  show thesis
  proof (cases "map_of (p_repos p) (q_Repo req) = None")
    case True
    then show thesis using unknown by (simp add: d)
  next
    case repo: False
    show thesis
    proof (cases "disabled p (s_UserID (q_Subject req))")
      case True
      then show thesis using disabled repo by (simp add: d)
    next
      case False
      show thesis
      proof (cases bd)
        case (Some x)
        then show thesis using deny[of "fst x" "snd x"] best(1) repo False by (cases x) (auto simp: d)
      next
        case n: None
        show thesis
        proof (cases ba)
          case (Some x)
          then show thesis
            using allow[of "fst x" "snd x"] best(2) none(1) n repo False by (cases x) (auto simp: d)
        next
          case None
          then show thesis using default none n repo False by (simp add: d)
        qed
      qed
    qed
  qed
qed

lemma candidatesD:
  "x \<in> candidates ds req sel rs \<Longrightarrow> fst x \<in> set rs \<and> applies ds req (fst x) \<and> sel (fst x)
     \<and> MatchesPath ds (fst x) (q_Path req) = Some (snd x)"
  by (auto simp: candidates_def)

lemma Evaluate_allowed_iff:
  "d_Allowed (Evaluate ds p req) \<longleftrightarrow>
     map_of (p_repos p) (q_Repo req) \<noteq> None \<and> \<not> disabled p (s_UserID (q_Subject req))
     \<and> \<not> deny_applies ds p req \<and> allow_applies ds p req"
proof (cases rule: Evaluate_cases[of p req ds])
  case (deny r pat)
  then have "deny_applies ds p req"
    by (auto simp: best_of_def deny_applies_def dest!: candidatesD)
  with deny show ?thesis by (simp add: explained_def)
next
  case (allow r pat)
  then have "allow_applies ds p req"
    by (auto simp: best_of_def allow_applies_def dest!: candidatesD)
  with allow show ?thesis by (simp add: explained_def)
qed simp_all

lemma Evaluate_version: "d_PolicyVersion (Evaluate ds p req) = p_version p"
  by (cases rule: Evaluate_cases[of p req ds]) (simp_all add: explained_def)

lemma Evaluate_effect: "d_Allowed (Evaluate ds p req) \<longleftrightarrow> d_Effect (Evaluate ds p req) = EffectAllow"
  by (cases rule: Evaluate_cases[of p req ds]) (simp_all add: explained_def)

lemma Evaluate_reason:
  "d_Reason (Evaluate ds p req) =
     (if map_of (p_repos p) (q_Repo req) = None then ReasonUnknownRepository
      else if disabled p (s_UserID (q_Subject req)) then ReasonUserDisabled
      else if deny_applies ds p req then ReasonDeniedByRule
      else if allow_applies ds p req then ReasonAllowedByRule
      else ReasonNoMatchingRule)"
proof (cases rule: Evaluate_cases[of p req ds])
  case (deny r pat)
  then have "deny_applies ds p req"
    by (auto simp: best_of_def deny_applies_def dest!: candidatesD)
  with deny show ?thesis by (simp add: explained_def)
next
  case (allow r pat)
  then have "allow_applies ds p req"
    by (auto simp: best_of_def allow_applies_def dest!: candidatesD)
  with allow show ?thesis by (simp add: explained_def)
qed simp_all

subsection \<open>The interface of an engine\<close>

text \<open>
  What a client of \<open>policy.Engine\<close> relies on: the two ways of reading an outcome agree, and
  every decision names the bundle that produced it.
\<close>

locale decision_engine =
  fixes eval :: "request \<Rightarrow> decision" and version :: string
  assumes eval_effect: "d_Allowed (eval req) \<longleftrightarrow> d_Effect (eval req) = EffectAllow"
    and eval_version: "d_PolicyVersion (eval req) = version"
begin

lemma refusal_names_version:
  assumes "AllowsAll eval base paths actions = (False, d)"
  shows "\<not> d_Allowed d \<and> d_Effect d \<noteq> EffectAllow \<and> d_PolicyVersion d = version"
proof -
  have a: "allows_actions eval base p as = Some d \<Longrightarrow> \<exists>req. d = eval req \<and> \<not> d_Allowed d" for p as
    by (induction as) (auto simp: Let_def split: if_splits)
  have "allows_paths eval base ps actions = Some d \<Longrightarrow> \<exists>req. d = eval req \<and> \<not> d_Allowed d" for ps
    using a by (induction ps) (auto split: option.splits)
  then obtain req where "d = eval req" "\<not> d_Allowed d"
    using assms by (auto simp: AllowsAll_def split: option.splits)
  then show ?thesis using eval_effect eval_version by simp
qed

end

interpretation policy_engine: decision_engine "Evaluate ds p" "p_version p" for ds p
  by unfold_locales (simp_all add: Evaluate_effect[symmetric] Evaluate_version)

lemma AllowsAll_iff:
  "fst (AllowsAll e base paths actions) \<longleftrightarrow>
     (\<forall>path \<in> set paths. \<forall>a \<in> set actions. d_Allowed (e (base\<lparr>q_Path := path, q_Action := a\<rparr>)))"
proof -
  have a: "allows_actions e base p as = None \<longleftrightarrow>
      (\<forall>a \<in> set as. d_Allowed (e (base\<lparr>q_Path := p, q_Action := a\<rparr>)))" for p as
    by (induction as) (auto simp: Let_def)
  have "allows_paths e base ps actions = None \<longleftrightarrow> (\<forall>path \<in> set ps. \<forall>a \<in> set actions.
      d_Allowed (e (base\<lparr>q_Path := path, q_Action := a\<rparr>)))" for ps
    by (induction ps) (auto simp: a[symmetric] split: option.splits)
  from this[of paths, symmetric] show ?thesis by (simp add: AllowsAll_def split: option.split)
qed

subsection \<open>The memo is transparent\<close>

abbreviation asks :: "caching_engine \<Rightarrow> string \<Rightarrow> action \<Rightarrow> decision" where
  "asks c path a \<equiv> ce_engine c ((ce_base c)\<lparr>q_Path := path, q_Action := a\<rparr>)"

definition cache_sound :: "caching_engine \<Rightarrow> bool" where
  "cache_sound c \<longleftrightarrow> (\<forall>path a d. map_of (ce_cache c) (path, a) = Some d \<longrightarrow> d = asks c path a)"

lemma cache_sound_new [simp]: "cache_sound (NewCachingEngine e base)"
  by (simp add: cache_sound_def NewCachingEngine_def)

lemma Caching_Evaluate_spec:
  assumes "cache_sound c"
  shows "fst (Caching_Evaluate c path a) = asks c path a"
    and "cache_sound (snd (Caching_Evaluate c path a))"
    and "ce_engine (snd (Caching_Evaluate c path a)) = ce_engine c"
    and "ce_base (snd (Caching_Evaluate c path a)) = ce_base c"
  using assms by (auto simp: Caching_Evaluate_def cache_sound_def Let_def split: option.splits)

definition memo_of :: "(request \<Rightarrow> decision) \<Rightarrow> request \<Rightarrow> caching_engine \<Rightarrow> bool" where
  "memo_of e base c \<longleftrightarrow> cache_sound c \<and> ce_engine c = e \<and> ce_base c = base"

lemma memo_of_new [simp]: "memo_of e base (NewCachingEngine e base)"
  unfolding memo_of_def by (rule conjI, rule cache_sound_new, simp add: NewCachingEngine_def)

lemma memo_of_answer: "memo_of e base c \<Longrightarrow>
    fst (Caching_Evaluate c path a) = e (base\<lparr>q_Path := path, q_Action := a\<rparr>)"
  unfolding memo_of_def using Caching_Evaluate_spec(1) by blast

lemma memo_of_step: "memo_of e base c \<Longrightarrow> memo_of e base (snd (Caching_Evaluate c path a))"
  unfolding memo_of_def using Caching_Evaluate_spec(2-4)[of c path a] by simp

subsection \<open>Rules that grant writing grant reading\<close>

lemma see_actions: "for_each see_action as seen = Inr seen' \<Longrightarrow> seen' = seen @ as"
  by (induction as arbitrary: seen)
    (fastforce simp: see_action_def elim!: rbind_InrE split: if_splits)+

lemma validateRule_read:
  assumes "validateRule r = Inr ()" "rule_Effect r = EffectAllow"
    and "a \<in> set (rule_Actions r)" "a \<in> {ActionWrite, ActionCreate, ActionDelete}"
  shows "ActionRead \<in> set (rule_Actions r)"
proof (rule ccontr)
  assume no: "ActionRead \<notin> set (rule_Actions r)"
  obtain seen where "for_each see_action (rule_Actions r) [] = Inr seen"
    and "ActionRead \<notin> set seen \<Longrightarrow> rule_Effect r = EffectAllow \<Longrightarrow>
      check_each (\<lambda>a. if a \<in> set seen then Inl (WriteWithoutRead a) else Inr ())
        [ActionWrite, ActionCreate, ActionDelete] = Inr ()"
    using assms(1) by (auto simp: validateRule_def elim!: rbind_InrE split: if_splits)
  moreover from this(1) have "seen = rule_Actions r" using see_actions by force
  ultimately have "\<forall>b \<in> {ActionWrite, ActionCreate, ActionDelete}. b \<notin> set (rule_Actions r)"
    using no assms(2) by (auto simp: check_each_Inr_iff rbind_Inr_iff split: if_splits)
  then show False using assms(3,4) by blast
qed

lemma validateRule_effect: "validateRule r = Inr () \<Longrightarrow> Effect_Valid (rule_Effect r)"
  by (auto simp: validateRule_def split: if_splits)

lemma wf_policy_rule:
  assumes "wf_policy p" "r \<in> set (list_at (p_rules p) repo)"
  shows "validateRule r = Inr ()" "map_of (p_repos p) repo \<noteq> None"
proof -
  obtain rs where "(repo, rs) \<in> set (p_rules p)" "r \<in> set rs"
    using assms(2) by (auto simp: in_list_at dest: map_of_SomeD)
  then show "validateRule r = Inr ()" "map_of (p_repos p) repo \<noteq> None"
    using assms(1) unfolding wf_policy_def wf_rules_def by blast+
qed

lemma write_implies_read:
  assumes "wf_policy p" and "a \<in> {ActionWrite, ActionCreate, ActionDelete}"
    and "d_Allowed (Evaluate ds p (req\<lparr>q_Action := a\<rparr>))"
  shows "d_Allowed (Evaluate ds p (req\<lparr>q_Action := ActionRead\<rparr>))
    \<or> deny_applies ds p (req\<lparr>q_Action := ActionRead\<rparr>)"
proof -
  let ?w = "req\<lparr>q_Action := a\<rparr>" and ?r = "req\<lparr>q_Action := ActionRead\<rparr>"
  obtain r where r: "r \<in> set (list_at (p_rules p) (q_Repo req))" "applies ds ?w r"
      "rule_Effect r \<noteq> EffectDeny"
    using assms(3) by (auto simp: Evaluate_allowed_iff allow_applies_def)
  have v: "validateRule r = Inr ()" using wf_policy_rule[OF assms(1) r(1)] by simp
  have "ActionRead \<in> set (rule_Actions r)"
    using validateRule_read[OF v _ _ assms(2)] validateRule_effect[OF v] r(2,3)
    by (simp add: Effect_Valid_def HasAction_iff)
  then have "allow_applies ds p ?r"
    using r by (auto simp: allow_applies_def HasAction_iff)
  then show ?thesis using assms(3) by (auto simp: Evaluate_allowed_iff)
qed

subsection \<open>Properties\<close>

text \<open>
  Claim C13. Claim C2: \<open>Evaluate\<close> allows a request exactly when the repository is known, the user is not
  disabled, no deny rule applies to the request, and some allow rule does: an explicit deny always
  wins and the default is to deny.
\<close>

theorem evaluate_deny_overrides:
  "d_Allowed (Evaluate ds p req) \<longleftrightarrow>
     map_of (p_repos p) (q_Repo req) \<noteq> None \<and> \<not> disabled p (s_UserID (q_Subject req))
     \<and> \<not> deny_applies ds p req \<and> allow_applies ds p req"
  by (rule Evaluate_allowed_iff)

text \<open>
  The order in which a bundle lists its rules carries no semantics: two policies with the
  same repositories and users whose rule lists for the requested repository have the same elements
  give the same outcome and the same reason.
\<close>

theorem evaluate_order_irrelevant:
  assumes "p_repos p = p_repos p'" and "p_users p = p_users p'"
    and "set (list_at (p_rules p) (q_Repo req)) = set (list_at (p_rules p') (q_Repo req))"
  shows "d_Allowed (Evaluate ds p req) = d_Allowed (Evaluate ds p' req)
    \<and> d_Reason (Evaluate ds p req) = d_Reason (Evaluate ds p' req)"
proof -
  have "deny_applies ds p req = deny_applies ds p' req" "allow_applies ds p req = allow_applies ds p' req"
    by (simp_all only: deny_applies_def allow_applies_def assms(3))
  moreover have "disabled p = disabled p'" by (simp add: disabled_def fun_eq_iff assms(2))
  ultimately show ?thesis by (simp add: Evaluate_allowed_iff Evaluate_reason assms(1))
qed

text \<open>
  A decision made by a rule reports a rule that applies to the request, with the pattern
  of that rule that matched, and no applicable rule of the same effect matches with a more specific
  pattern.
\<close>

theorem evaluate_explains:
  assumes "d_Reason (Evaluate ds p req) \<in> {ReasonDeniedByRule, ReasonAllowedByRule}"
  shows "\<exists>r pat. r \<in> set (list_at (p_rules p) (q_Repo req)) \<and> applies ds req r
    \<and> MatchesPath ds r (q_Path req) = Some pat
    \<and> d_RuleID (Evaluate ds p req) = rule_ID r \<and> d_Pattern (Evaluate ds p req) = pat_raw pat
    \<and> d_Description (Evaluate ds p req) = rule_Description r
    \<and> (d_Allowed (Evaluate ds p req) \<longleftrightarrow> rule_Effect r \<noteq> EffectDeny)
    \<and> (\<forall>r' \<in> set (list_at (p_rules p) (q_Repo req)). \<forall>pat'.
        applies ds req r' \<and> (rule_Effect r' = EffectDeny \<longleftrightarrow> rule_Effect r = EffectDeny)
        \<and> MatchesPath ds r' (q_Path req) = Some pat' \<longrightarrow> Specificity pat' \<le> Specificity pat)"
proof (cases rule: Evaluate_cases[of p req ds])
  case (deny r pat)
  then show ?thesis
    by (intro exI[of _ r] exI[of _ pat])
      (auto simp: best_of_def explained_def candidates_def)
next
  case (allow r pat)
  then show ?thesis
    by (intro exI[of _ r] exI[of _ pat])
      (auto simp: best_of_def explained_def candidates_def)
qed (use assms in simp_all)

text \<open>
  In a compiled bundle nobody writes blind: whoever may write, create or delete a path may
  also read it, unless a rule of the bundle explicitly denies them that read.
\<close>

theorem compiled_write_implies_read:
  assumes "Compile sp = Inr p" and "a \<in> {ActionWrite, ActionCreate, ActionDelete}"
    and "d_Allowed (Evaluate ds p (req\<lparr>q_Action := a\<rparr>))"
  shows "d_Allowed (Evaluate ds p (req\<lparr>q_Action := ActionRead\<rparr>))
    \<or> deny_applies ds p (req\<lparr>q_Action := ActionRead\<rparr>)"
  using write_implies_read[OF conjunct1[OF Compile_wf[OF assms(1)]] assms(2,3)] .

text \<open>
  The per-operation memo never changes an answer: whatever sequence of questions was asked
  before, the answer to the next one is the answer of the wrapped engine for the base request.
\<close>

theorem caching_engine_transparent:
  "fst (Caching_Evaluate
       (fold (\<lambda>(path', a') c. snd (Caching_Evaluate c path' a')) asked (NewCachingEngine e base)) path a)
   = e (base\<lparr>q_Path := path, q_Action := a\<rparr>)"
proof -
  have "memo_of e base c \<Longrightarrow>
      memo_of e base (fold (\<lambda>(path', a') c. snd (Caching_Evaluate c path' a')) asked c)" for c
    by (induction asked arbitrary: c) (auto simp: memo_of_step)
  then show ?thesis by (intro memo_of_answer) simp
qed

text \<open>
  A refusal of \<open>AllowsAll\<close> by a policy carries a refusing decision stamped with the version
  of that policy, and \<open>AllowsAll\<close> answers yes exactly when every path and action is allowed.
\<close>

theorem allows_all_policy:
  "(fst (AllowsAll (Evaluate ds p) base paths actions) \<longleftrightarrow>
      list_all (\<lambda>path. list_all (\<lambda>a.
        d_Allowed (Evaluate ds p (base\<lparr>q_Path := path, q_Action := a\<rparr>))) actions) paths)
   \<and> (case AllowsAll (Evaluate ds p) base paths actions of
        (ok, d) \<Rightarrow> d_Allowed d = ok \<and> (ok \<or> d_PolicyVersion d = p_version p))"
proof (intro conjI)
  show "fst (AllowsAll (Evaluate ds p) base paths actions) \<longleftrightarrow> list_all (\<lambda>path. list_all (\<lambda>a.
      d_Allowed (Evaluate ds p (base\<lparr>q_Path := path, q_Action := a\<rparr>))) actions) paths"
    by (simp add: AllowsAll_iff list_all_iff)
  show "case AllowsAll (Evaluate ds p) base paths actions of
      (ok, d) \<Rightarrow> d_Allowed d = ok \<and> (ok \<or> d_PolicyVersion d = p_version p)"
    using policy_engine.refusal_names_version[of ds p base paths actions]
    by (cases "AllowsAll (Evaluate ds p) base paths actions")
      (auto simp: AllowsAll_def split: option.splits)
qed

subsection \<open>Witnesses\<close>

text \<open>A glob matcher for the examples: \<open>**\<close> matches everything, anything else only itself.\<close>

definition ex_ds :: doublestar where
  "ex_ds = \<lparr>ds_Match = (\<lambda>pat path. Inr (pat = ''**'' \<or> pat = path)), ds_Validate = (\<lambda>_. True)\<rparr>"

definition ex_subject :: subject where
  "ex_subject = \<lparr>s_UserID = ''amy'', s_Groups = [''core'', ''dev'']\<rparr>"

definition ex_request :: "action \<Rightarrow> string \<Rightarrow> request" where
  "ex_request a path = \<lparr>q_Repo = ''api'', q_Ref = ''refs/heads/main'', q_Subject = ex_subject,
     q_Path = path, q_Action = a\<rparr>"

theorem compiled_write_implies_read_witness:
  "d_Allowed (Evaluate ex_ds ex_policy (ex_request ActionWrite ''README''))
   \<and> (d_Allowed (Evaluate ex_ds ex_policy (ex_request ActionRead ''README''))
     \<or> deny_applies ex_ds ex_policy (ex_request ActionRead ''README''))"
proof -
  have w: "d_Allowed (Evaluate ex_ds ex_policy
      ((ex_request ActionRead ''README'')\<lparr>q_Action := ActionWrite\<rparr>))"
    by code_simp
  show ?thesis
    using w compiled_write_implies_read[OF ex_compiles _ w] by (simp add: ex_request_def)
qed

theorem evaluate_order_irrelevant_witness:
  "d_Allowed (Evaluate ex_ds ex_policy (ex_request ActionRead ''key''))
   = d_Allowed (Evaluate ex_ds
       (ex_policy\<lparr>p_rules := [(''api'', rev (list_at (p_rules ex_policy) ''api''))]\<rparr>)
       (ex_request ActionRead ''key''))"
  using evaluate_order_irrelevant[of ex_policy
      "ex_policy\<lparr>p_rules := [(''api'', rev (list_at (p_rules ex_policy) ''api''))]\<rparr>"
      "ex_request ActionRead ''key''" ex_ds]
  by (simp add: ex_request_def list_at_def)

theorem evaluate_explains_witness:
  "\<exists>r. d_RuleID (Evaluate ex_ds ex_policy (ex_request ActionRead ''key'')) = rule_ID r
     \<and> applies ex_ds (ex_request ActionRead ''key'') r"
proof -
  have "d_Reason (Evaluate ex_ds ex_policy (ex_request ActionRead ''key'')) = ReasonDeniedByRule"
    by code_simp
  then show ?thesis using evaluate_explains[of ex_ds ex_policy "ex_request ActionRead ''key''"] by auto
qed

end
