(* ===== verification/Nit_Enforce.thy ===== *)
theory Nit_Enforce
  imports Nit_Patch Nit_Engine
begin

text \<open>
  Package \<open>pkg/enforce\<close>: the policy applied to a whole patch, in the write direction (\<open>Push\<close>) and
  in the read direction (\<open>Pull\<close>), with the structural guards. The loops thread the memo of the
  engine, the verdict of the section and the result, as the code does. The lemmas show that both
  passes compute the declarative verdict of every section, that what they emit parses to exactly the
  permitted sections, and what each kind of change needs.
\<close>

subsection \<open>Checks and requirements (\<open>check.go\<close>)\<close>

datatype guard_kind = GuardNone | GuardSymlink | GuardSubmodule | GuardProtectedPath

record check =
  ck_Path :: string
  ck_Action :: action
  ck_Guard :: guard_kind
  ck_Decision :: decision

definition Passed :: "check \<Rightarrow> bool" where
  "Passed c = d_Allowed (ck_Decision c)"

fun guard_str :: "guard_kind \<Rightarrow> string" where
  "guard_str GuardNone = []"
| "guard_str GuardSymlink = ''symlink''"
| "guard_str GuardSubmodule = ''submodule''"
| "guard_str GuardProtectedPath = ''protected_path''"

definition check_String :: "check \<Rightarrow> string" where
  "check_String c =
     (if ck_Guard c \<noteq> GuardNone
      then ck_Path c @ '' ['' @ guard_str (ck_Guard c) @ ''] '' @ ck_Action c @ '': ''
        @ decision_String (ck_Decision c)
      else ck_Path c @ '' '' @ ck_Action c @ '': '' @ decision_String (ck_Decision c))"

record verdict =
  v_Change :: change
  v_Checks :: "check list"
  v_Allowed :: bool

definition verdict_Denials :: "verdict \<Rightarrow> check list" where
  "verdict_Denials v = filter (\<lambda>c. \<not> Passed c) (v_Checks v)"

record requirement =
  rq_path :: string
  rq_action :: action
  rq_guard :: guard_kind

abbreviation need :: "string \<Rightarrow> action \<Rightarrow> guard_kind \<Rightarrow> requirement" where
  "need p a g \<equiv> \<lparr>rq_path = p, rq_action = a, rq_guard = g\<rparr>"

definition requirementsFor :: "change \<Rightarrow> requirement list" where
  "requirementsFor c =
     (case c_Op c of
        OpAdd \<Rightarrow> [need (c_NewPath c) ActionCreate GuardNone]
      | OpModify \<Rightarrow> [need (c_NewPath c) ActionRead GuardNone, need (c_NewPath c) ActionWrite GuardNone]
      | OpDelete \<Rightarrow> [need (c_OldPath c) ActionRead GuardNone, need (c_OldPath c) ActionDelete GuardNone]
      | OpRename \<Rightarrow> [need (c_OldPath c) ActionRead GuardNone, need (c_OldPath c) ActionDelete GuardNone,
                     need (c_NewPath c) ActionCreate GuardNone]
      | OpCopy \<Rightarrow> [need (c_OldPath c) ActionRead GuardNone, need (c_NewPath c) ActionCreate GuardNone])"

subsection \<open>Guards (\<open>guards.go\<close>)\<close>

record guards =
  gu_ProtectedPaths :: "pattern list"
  gu_SymlinksRequireAdmin :: bool
  gu_SubmodulesRequireAdmin :: bool

definition DefaultProtectedPaths :: "string list" where
  "DefaultProtectedPaths =
     [''.github/'', ''.gitlab-ci.yml'', ''.gitlab/'', ''.gitea/'', ''.circleci/'', ''.drone.yml'',
      ''azure-pipelines.yml'', ''Jenkinsfile'', ''**/Jenkinsfile'', ''.gitattributes'',
      ''**/.gitattributes'', ''.gitmodules'', ''.nit/'']"

text \<open>\<open>MustParsePattern\<close> panics on an invalid pattern: the left injection.\<close>

definition DefaultGuards :: "doublestar \<Rightarrow> pattern_error + guards" where
  "DefaultGuards ds =
     rbind (for_each (\<lambda>s ps. rbind (ParsePattern ds s) (\<lambda>p. Inr (ps @ [p]))) DefaultProtectedPaths [])
       (\<lambda>ps. Inr \<lparr>gu_ProtectedPaths = ps, gu_SymlinksRequireAdmin = True,
                  gu_SubmodulesRequireAdmin = True\<rparr>)"

definition introducesKind :: "change \<Rightarrow> entry_kind \<Rightarrow> bool" where
  "introducesKind c kind =
     (if c_NewKind c \<noteq> kind then False
      else if c_Op c = OpRename \<or> c_Op c = OpCopy then True
      else c_OldKind c \<noteq> kind)"

definition isProtected :: "doublestar \<Rightarrow> guards \<Rightarrow> string \<Rightarrow> bool" where
  "isProtected ds g path = (first_match ds path (gu_ProtectedPaths g) \<noteq> None)"

definition guard_requirements :: "doublestar \<Rightarrow> guards \<Rightarrow> change \<Rightarrow> requirement list" where
  "guard_requirements ds g c =
     (if gu_SymlinksRequireAdmin g \<and> introducesKind c KindSymlink
      then [need (DisplayPath c) ActionAdmin GuardSymlink] else [])
     @ (if gu_SubmodulesRequireAdmin g \<and> introducesKind c KindSubmodule
        then [need (DisplayPath c) ActionAdmin GuardSubmodule] else [])
     @ map (\<lambda>path. need path ActionAdmin GuardProtectedPath) (filter (isProtected ds g) (change_Paths c))"

subsection \<open>The passes (\<open>enforce.go\<close>)\<close>

datatype mode = ModeEmpty | ModeReject | ModeStrip | ModeOther string

record options =
  o_Engine :: "(request \<Rightarrow> decision) option"
  o_Repo :: repo_id
  o_Ref :: string
  o_Subject :: subject
  o_Guards :: guards

datatype enforce_error = NoEngine | NoRepository | NoSubject | UnknownMode string

definition options_validate :: "options \<Rightarrow> enforce_error + (request \<Rightarrow> decision)" where
  "options_validate opts =
     (case o_Engine opts of
        None \<Rightarrow> Inl NoEngine
      | Some e \<Rightarrow>
          if o_Repo opts = [] then Inl NoRepository
          else if s_UserID (o_Subject opts) = [] then Inl NoSubject
          else Inr e)"

definition options_request :: "options \<Rightarrow> request" where
  "options_request opts =
     \<lparr>q_Repo = o_Repo opts, q_Ref = o_Ref opts, q_Subject = o_Subject opts, q_Path = [], q_Action = []\<rparr>"

record result =
  res_Mode :: mode
  res_Verdicts :: "verdict list"
  res_Kept :: "change list"
  res_Dropped :: "change list"
  res_Patch :: "bytes option"
  res_Rejected :: bool
  res_PolicyVersion :: string

definition new_result :: "mode \<Rightarrow> result" where
  "new_result m = \<lparr>res_Mode = m, res_Verdicts = [], res_Kept = [], res_Dropped = [],
     res_Patch = None, res_Rejected = False, res_PolicyVersion = []\<rparr>"

definition result_OK :: "result \<Rightarrow> bool" where
  "result_OK r = (\<not> res_Rejected r \<and> (case res_Patch r of None \<Rightarrow> False | Some b \<Rightarrow> length b > 0))"

definition DroppedPaths :: "result \<Rightarrow> string list" where
  "DroppedPaths r = map DisplayPath (res_Dropped r)"

definition result_Denials :: "result \<Rightarrow> check list" where
  "result_Denials r = concat (map verdict_Denials (res_Verdicts r))"

definition Explain :: "result \<Rightarrow> string" where
  "Explain r =
     concat (map (\<lambda>v. change_String (v_Change v) @ [newline] @
       concat (map (\<lambda>c. ''    '' @ check_String c @ [newline] @
         (if d_Description (ck_Decision c) \<noteq> []
          then ''        '' @ d_Description (ck_Decision c) @ [newline] else []))
         (verdict_Denials v)))
       (filter (\<lambda>v. \<not> v_Allowed v) (res_Verdicts r)))"

fun run_checks :: "requirement list \<Rightarrow> caching_engine \<Rightarrow> verdict \<Rightarrow> string
    \<Rightarrow> caching_engine \<times> verdict \<times> string" where
  "run_checks [] ce v version = (ce, v, version)"
| "run_checks (req # reqs) ce v version =
     (let (decision, ce') = Caching_Evaluate ce (rq_path req) (rq_action req);
          v' = v\<lparr>v_Checks := v_Checks v @ [\<lparr>ck_Path = rq_path req, ck_Action = rq_action req,
                                           ck_Guard = rq_guard req, ck_Decision = decision\<rparr>],
                 v_Allowed := (if \<not> d_Allowed decision then False else v_Allowed v)\<rparr>
      in run_checks reqs ce' v' (if version = [] then d_PolicyVersion decision else version))"

fun enforce_loop :: "(change \<Rightarrow> requirement list) \<Rightarrow> change list \<Rightarrow> caching_engine \<Rightarrow> result \<Rightarrow> result" where
  "enforce_loop reqs_of [] ce r = r"
| "enforce_loop reqs_of (c # cs) ce r =
     (let (ce', v, version) = run_checks (reqs_of c) ce \<lparr>v_Change = c, v_Checks = [], v_Allowed = True\<rparr>
                                (res_PolicyVersion r);
          r' = r\<lparr>res_PolicyVersion := version, res_Verdicts := res_Verdicts r @ [v]\<rparr>
      in enforce_loop reqs_of cs ce'
           (if v_Allowed v then r'\<lparr>res_Kept := res_Kept r' @ [c]\<rparr>
            else r'\<lparr>res_Dropped := res_Dropped r' @ [c]\<rparr>))"

definition render_kept :: "patch_set \<Rightarrow> result \<Rightarrow> bytes option" where
  "render_kept s r = Render s (Some (\<lambda>c. c_Index c \<in> set (map c_Index (res_Kept r))))"

definition push_reqs :: "doublestar \<Rightarrow> guards \<Rightarrow> change \<Rightarrow> requirement list" where
  "push_reqs ds g c = requirementsFor c @ guard_requirements ds g c"

definition pull_reqs :: "change \<Rightarrow> requirement list" where
  "pull_reqs c = map (\<lambda>path. need path ActionRead GuardNone) (change_Paths c)"

definition Push :: "doublestar \<Rightarrow> patch_set \<Rightarrow> options \<Rightarrow> mode \<Rightarrow> enforce_error + result" where
  "Push ds s opts m0 =
     rbind (options_validate opts) (\<lambda>e.
     rbind (case m0 of ModeReject \<Rightarrow> Inr ModeReject | ModeStrip \<Rightarrow> Inr ModeStrip
              | ModeEmpty \<Rightarrow> Inr ModeReject | ModeOther x \<Rightarrow> Inl (UnknownMode x)) (\<lambda>m.
     let r = enforce_loop (push_reqs ds (o_Guards opts)) (ps_Changes s)
               (NewCachingEngine e (options_request opts)) (new_result m)
     in if m = ModeReject \<and> length (res_Dropped r) > 0 then Inr (r\<lparr>res_Rejected := True\<rparr>)
        else Inr (r\<lparr>res_Patch := render_kept s r\<rparr>)))"

definition Pull :: "patch_set \<Rightarrow> options \<Rightarrow> enforce_error + result" where
  "Pull s opts =
     rbind (options_validate opts) (\<lambda>e.
     let r = enforce_loop pull_reqs (ps_Changes s)
               (NewCachingEngine e (options_request opts)) (new_result ModeStrip)
     in Inr (r\<lparr>res_Patch := render_kept s r\<rparr>))"

subsection \<open>What the loops compute\<close>

text \<open>The declarative verdict: every requirement of a section is allowed by the engine itself.\<close>

abbreviation asked :: "(request \<Rightarrow> decision) \<Rightarrow> request \<Rightarrow> requirement \<Rightarrow> decision" where
  "asked e base r \<equiv> e (base\<lparr>q_Path := rq_path r, q_Action := rq_action r\<rparr>)"

definition permitted :: "(request \<Rightarrow> decision) \<Rightarrow> request \<Rightarrow> requirement list \<Rightarrow> bool" where
  "permitted e base reqs = list_all (\<lambda>r. d_Allowed (asked e base r)) reqs"

definition checks_of :: "(request \<Rightarrow> decision) \<Rightarrow> request \<Rightarrow> requirement list \<Rightarrow> check list" where
  "checks_of e base reqs = map (\<lambda>r. \<lparr>ck_Path = rq_path r, ck_Action = rq_action r,
     ck_Guard = rq_guard r, ck_Decision = asked e base r\<rparr>) reqs"

definition verdict_of ::
  "(request \<Rightarrow> decision) \<Rightarrow> request \<Rightarrow> (change \<Rightarrow> requirement list) \<Rightarrow> change \<Rightarrow> verdict" where
  "verdict_of e base reqs_of c = \<lparr>v_Change = c, v_Checks = checks_of e base (reqs_of c),
     v_Allowed = permitted e base (reqs_of c)\<rparr>"

definition first_version :: "string \<Rightarrow> check list \<Rightarrow> string" where
  "first_version v cs = fold (\<lambda>c v. if v = [] then d_PolicyVersion (ck_Decision c) else v) cs v"

lemma run_checks_spec:
  assumes "memo_of e base ce"
  shows "\<exists>ce'. memo_of e base ce' \<and> run_checks reqs ce v version =
    (ce', v\<lparr>v_Checks := v_Checks v @ checks_of e base reqs,
            v_Allowed := (v_Allowed v \<and> permitted e base reqs)\<rparr>,
     first_version version (checks_of e base reqs))"
  using assms
proof (induction reqs arbitrary: ce v version)
  case Nil
  then show ?case by (simp add: checks_of_def permitted_def first_version_def)
next
  case (Cons r reqs)
  let ?d = "asked e base r"
  obtain c1 where d: "Caching_Evaluate ce (rq_path r) (rq_action r) = (?d, c1)"
    using memo_of_answer[OF Cons.prems] by (metis prod.collapse)
  have c1: "memo_of e base c1"
    using memo_of_step[OF Cons.prems, of "rq_path r" "rq_action r"] by (simp add: d)
  let ?v = "v\<lparr>v_Checks := v_Checks v @ checks_of e base [r], v_Allowed := (d_Allowed ?d \<and> v_Allowed v)\<rparr>"
  let ?version = "if version = [] then d_PolicyVersion ?d else version"
  have step: "run_checks (r # reqs) ce v version = run_checks reqs c1 ?v ?version"
    by (simp add: d checks_of_def)
  obtain ce' where "memo_of e base ce'" "run_checks reqs c1 ?v ?version =
      (ce', ?v\<lparr>v_Checks := v_Checks ?v @ checks_of e base reqs,
        v_Allowed := (v_Allowed ?v \<and> permitted e base reqs)\<rparr>,
       first_version ?version (checks_of e base reqs))"
    using Cons.IH[OF c1] by blast
  then show ?case unfolding step
    by (intro exI[of _ ce']) (auto simp: checks_of_def permitted_def first_version_def conj_ac)
qed

lemma enforce_loop_spec:
  assumes "memo_of e base ce"
  shows "enforce_loop reqs_of cs ce r =
    r\<lparr>res_Verdicts := res_Verdicts r @ map (verdict_of e base reqs_of) cs,
      res_Kept := res_Kept r @ filter (\<lambda>c. permitted e base (reqs_of c)) cs,
      res_Dropped := res_Dropped r @ filter (\<lambda>c. \<not> permitted e base (reqs_of c)) cs,
      res_PolicyVersion := first_version (res_PolicyVersion r)
        (concat (map (\<lambda>c. checks_of e base (reqs_of c)) cs))\<rparr>"
  using assms
proof (induction cs arbitrary: ce r)
  case Nil
  then show ?case by (simp add: first_version_def)
next
  case (Cons c cs)
  obtain ce' where "memo_of e base ce'"
    and "run_checks (reqs_of c) ce \<lparr>v_Change = c, v_Checks = [], v_Allowed = True\<rparr> (res_PolicyVersion r)
      = (ce', verdict_of e base reqs_of c,
         first_version (res_PolicyVersion r) (checks_of e base (reqs_of c)))"
    using run_checks_spec[OF Cons.prems, of "reqs_of c"
        "\<lparr>v_Change = c, v_Checks = [], v_Allowed = True\<rparr>" "res_PolicyVersion r"]
    by (auto simp: verdict_of_def)
  then show ?case using Cons.IH
    by (auto simp: Let_def verdict_of_def first_version_def)
qed

lemma Push_spec:
  assumes "Push ds s opts m0 = Inr r"
  obtains e m where "options_validate opts = Inr e" "m = (if m0 = ModeStrip then ModeStrip else ModeReject)"
    "res_Verdicts r = map (verdict_of e (options_request opts) (push_reqs ds (o_Guards opts))) (ps_Changes s)"
    "res_Kept r = filter (\<lambda>c. permitted e (options_request opts) (push_reqs ds (o_Guards opts) c)) (ps_Changes s)"
    "res_Dropped r = filter (\<lambda>c. \<not> permitted e (options_request opts) (push_reqs ds (o_Guards opts) c)) (ps_Changes s)"
    "res_Rejected r \<longleftrightarrow> m = ModeReject \<and> res_Dropped r \<noteq> []"
    "res_Patch r = (if res_Rejected r then None else render_kept s r)"
    "res_PolicyVersion r = first_version [] (concat (map v_Checks (res_Verdicts r)))"
    "\<forall>x. m0 \<noteq> ModeOther x"
proof -
  from assms obtain e where e: "options_validate opts = Inr e"
    by (auto simp: Push_def elim: rbind_InrE)
  from assms have m: "\<forall>x. m0 \<noteq> ModeOther x"
    by (auto simp: Push_def e split: mode.splits)
  let ?m = "if m0 = ModeStrip then ModeStrip else ModeReject"
  have "(case m0 of ModeReject \<Rightarrow> Inr ModeReject | ModeStrip \<Rightarrow> Inr ModeStrip
      | ModeEmpty \<Rightarrow> Inr ModeReject | ModeOther x \<Rightarrow> Inl (UnknownMode x)) = Inr ?m"
    using m by (cases m0) auto
  note r = assms[unfolded Push_def e rbind_simps this enforce_loop_spec[OF memo_of_new] Let_def]
  show thesis
    by (rule that[OF e refl _ _ _ _ _ _ m])
      (use r in \<open>auto simp: new_result_def render_kept_def comp_def verdict_of_def split: if_splits\<close>)
qed

lemma Pull_spec:
  assumes "Pull s opts = Inr r"
  obtains e where "options_validate opts = Inr e"
    "res_Verdicts r = map (verdict_of e (options_request opts) pull_reqs) (ps_Changes s)"
    "res_Kept r = filter (\<lambda>c. permitted e (options_request opts) (pull_reqs c)) (ps_Changes s)"
    "res_Dropped r = filter (\<lambda>c. \<not> permitted e (options_request opts) (pull_reqs c)) (ps_Changes s)"
    "\<not> res_Rejected r" "res_Patch r = render_kept s r"
    "res_PolicyVersion r = first_version [] (concat (map v_Checks (res_Verdicts r)))"
proof -
  from assms obtain e where e: "options_validate opts = Inr e"
    by (auto simp: Pull_def elim: rbind_InrE)
  note r = assms[unfolded Pull_def e rbind_simps enforce_loop_spec[OF memo_of_new] Let_def]
  show thesis
    by (rule that[OF e])
      (use r in \<open>auto simp: new_result_def render_kept_def comp_def verdict_of_def\<close>)
qed

text \<open>Sections are identified by their position, so the index map selects exactly the kept ones.\<close>

lemma filter_by_index:
  assumes "distinct (map c_Index cs)"
  shows "filter (\<lambda>c. c_Index c \<in> set (map c_Index (filter P cs))) cs = filter P cs"
proof (rule filter_cong[OF refl])
  fix c
  assume "c \<in> set cs"
  then show "c_Index c \<in> set (map c_Index (filter P cs)) \<longleftrightarrow> P c"
    using assms by (auto dest: inj_onD simp: distinct_map)
qed

lemma render_kept_filter:
  assumes "Parse gd raw = Inr s" "res_Kept r = filter P (ps_Changes s)"
  shows "render_kept s r = Render s (Some P)"
  using filter_by_index[OF Parse_distinct_index[OF assms(1)], of P] assms(2)
  by (simp add: render_kept_def Render_def)

lemma requirements_index [simp]:
  "push_reqs ds g (c\<lparr>c_Index := j\<rparr>) = push_reqs ds g c" "pull_reqs (c\<lparr>c_Index := j\<rparr>) = pull_reqs c"
proof -
  have "requirementsFor (c\<lparr>c_Index := j\<rparr>) = requirementsFor c"
    by (simp add: requirementsFor_def split: op.split)
  moreover have "guard_requirements ds g (c\<lparr>c_Index := j\<rparr>) = guard_requirements ds g c"
    by (simp add: guard_requirements_def introducesKind_def DisplayPath_def)
  ultimately show "push_reqs ds g (c\<lparr>c_Index := j\<rparr>) = push_reqs ds g c"
    by (simp add: push_reqs_def)
qed (simp add: pull_reqs_def)

lemma rendered_sections:
  assumes "Parse gd raw = Inr s" "Render s (Some P) = Some out"
  shows "\<exists>s'. Parse gd out = Inr s' \<and> ps_Preamble s' = ps_Preamble s
    \<and> ps_Changes s' = renumber 0 (filter P (ps_Changes s))"
  using Parse_Render[OF assms] by auto

lemma permitted_pull:
  "permitted e base (pull_reqs c) \<longleftrightarrow>
     (\<forall>path \<in> set (change_Paths c). d_Allowed (e (base\<lparr>q_Path := path, q_Action := ActionRead\<rparr>)))"
  by (simp add: permitted_def pull_reqs_def list_all_iff)

context decision_engine
begin

lemma first_version_fixed:
  "\<forall>c \<in> set cs. d_PolicyVersion (ck_Decision c) = version \<Longrightarrow>
   first_version v cs = (if v = [] \<and> cs \<noteq> [] then version else v)"
  by (induction cs arbitrary: v) (auto simp: first_version_def)

lemma stamped_version:
  "first_version [] (concat (map v_Checks (map (verdict_of eval base reqs_of) cs)))
   = (if \<exists>c \<in> set cs. reqs_of c \<noteq> [] then version else [])"
proof -
  have "concat (map v_Checks (map (verdict_of eval base reqs_of) cs))
      = concat (map (\<lambda>c. checks_of eval base (reqs_of c)) cs)"
    by (simp add: verdict_of_def comp_def)
  moreover have "first_version [] (concat (map (\<lambda>c. checks_of eval base (reqs_of c)) cs))
      = (if concat (map (\<lambda>c. checks_of eval base (reqs_of c)) cs) \<noteq> [] then version else [])"
    by (subst first_version_fixed) (auto simp: checks_of_def eval_version)
  ultimately show ?thesis by (simp add: checks_of_def)
qed

end

lemma requirementsFor_nonempty [simp]: "requirementsFor c \<noteq> []"
  by (cases "c_Op c") (simp_all add: requirementsFor_def)

text \<open>What a push pass emits, read back.\<close>

lemma Push_authorized:
  assumes "Parse gd raw = Inr s" and "Push ds s opts m = Inr r" and "res_Patch r = Some out"
    and "o_Engine opts = Some e"
  shows "\<exists>s'. Parse gd out = Inr s' \<and> map c_raw (ps_Changes s') = map c_raw (res_Kept r)
    \<and> (\<forall>c \<in> set (ps_Changes s'). permitted e (options_request opts) (push_reqs ds (o_Guards opts) c)
         \<and> c_raw c \<in> c_raw ` set (ps_Changes s))"
  using assms(2)
proof (cases rule: Push_spec)
  case (1 e' m')
  let ?P = "\<lambda>c. permitted e (options_request opts) (push_reqs ds (o_Guards opts) c)"
  have e: "e' = e" using 1(1) assms(4) by (auto simp: options_validate_def split: if_splits)
  have "Render s (Some ?P) = Some out"
    using 1 assms(3) render_kept_filter[OF assms(1)] by (simp add: e split: if_splits)
  then obtain s' where s': "Parse gd out = Inr s'"
      "ps_Changes s' = renumber 0 (filter ?P (ps_Changes s))"
    using rendered_sections[OF assms(1)] by blast
  have "map c_raw (ps_Changes s') = map c_raw (res_Kept r)"
    using arg_cong[OF renumber_forget[of 0 "filter ?P (ps_Changes s)"], of "map c_raw"]
    by (simp add: s'(2) 1(4) e comp_def)
  moreover have "?P c \<and> c_raw c \<in> c_raw ` set (ps_Changes s)" if c: "c \<in> set (ps_Changes s')" for c
    using c unfolding s'(2) by (auto elim!: set_renumberE)
  ultimately show ?thesis using s'(1) by blast
qed

subsection \<open>Properties\<close>

text \<open>
  Claim C1. Whatever the mode, what a push pass emits parses, and every section of it is a section of
  the submitted patch for which the engine allowed every requirement of the operation and of the
  guards: no unauthorized change reaches the forge.
\<close>

theorem push_emits_only_authorized:
  assumes "Parse gd raw = Inr s" and "Push ds s opts m = Inr r" and "res_Patch r = Some out"
    and "o_Engine opts = Some e"
  shows "\<exists>s'. Parse gd out = Inr s' \<and> map c_raw (ps_Changes s') = map c_raw (res_Kept r)
    \<and> (\<forall>c \<in> set (ps_Changes s'). permitted e (options_request opts) (push_reqs ds (o_Guards opts) c)
         \<and> c_raw c \<in> c_raw ` set (ps_Changes s))"
  by (rule Push_authorized[OF assms])

text \<open>
  In the default mode a push is all or nothing: it is rejected, without a patch, as soon as
  one section is not permitted, and otherwise the emitted patch is the submitted one, byte for byte.
\<close>

theorem push_reject_all_or_nothing:
  assumes "Parse gd raw = Inr s" and "Push ds s opts m = Inr r" and "m \<noteq> ModeStrip"
    and "o_Engine opts = Some e"
  shows "if list_all (\<lambda>c. permitted e (options_request opts) (push_reqs ds (o_Guards opts) c)) (ps_Changes s)
    then \<not> res_Rejected r \<and> res_Patch r = Some raw
    else res_Rejected r \<and> res_Patch r = None"
  using assms(2)
proof (cases rule: Push_spec)
  case (1 e' m')
  have e: "e' = e" using 1(1) assms(4) by (auto simp: options_validate_def split: if_splits)
  note kept = render_kept_filter[OF assms(1) 1(4)]
  show ?thesis
    using 1(2,5,6,7) assms(3) Render_all(2)[OF assms(1)]
    by (auto simp: e kept list_all_iff filter_empty_conv)
qed

lemma Pull_delivers:
  assumes "Parse gd raw = Inr s" and "Pull s opts = Inr r" and "res_Patch r = Some out"
    and "o_Engine opts = Some e"
  shows "\<exists>s'. Parse gd out = Inr s'
    \<and> (\<forall>c \<in> set (ps_Changes s'). \<forall>path \<in> set (change_Paths c).
         d_Allowed (e ((options_request opts)\<lparr>q_Path := path, q_Action := ActionRead\<rparr>)))
    \<and> map c_raw (ps_Changes s') = map c_raw (filter (\<lambda>c. \<forall>path \<in> set (change_Paths c).
         d_Allowed (e ((options_request opts)\<lparr>q_Path := path, q_Action := ActionRead\<rparr>))) (ps_Changes s))"
  using assms(2)
proof (cases rule: Pull_spec)
  case (1 e')
  let ?P = "\<lambda>c. permitted e (options_request opts) (pull_reqs c)"
  have e: "e' = e" using 1(1) assms(4) by (auto simp: options_validate_def split: if_splits)
  have "Render s (Some ?P) = Some out"
    using 1 assms(3) render_kept_filter[OF assms(1)] by (simp add: e)
  then obtain s' where s': "Parse gd out = Inr s'"
      "ps_Changes s' = renumber 0 (filter ?P (ps_Changes s))"
    using rendered_sections[OF assms(1)] by blast
  have "map c_raw (ps_Changes s') = map c_raw (filter ?P (ps_Changes s))"
    using arg_cong[OF renumber_forget[of 0 "filter ?P (ps_Changes s)"], of "map c_raw"]
    by (simp add: s'(2) comp_def)
  moreover have "?P c" if "c \<in> set (ps_Changes s')" for c
    using that unfolding s'(2) by (auto elim!: set_renumberE)
  ultimately show ?thesis using s'(1) unfolding permitted_pull by blast
qed

lemma Pull_counts:
  assumes "Parse gd raw = Inr s" "Pull s opts = Inr r" "o_Engine opts = Some e"
  shows "length (res_Verdicts r) = length (ps_Changes s)"
    and "res_Kept r = filter (\<lambda>c. permitted e (options_request opts) (pull_reqs c)) (ps_Changes s)"
    and "res_Dropped r = filter (\<lambda>c. \<not> permitted e (options_request opts) (pull_reqs c)) (ps_Changes s)"
    and "res_Patch r = None \<longleftrightarrow> res_Kept r = []"
proof -
  obtain e' where 1: "options_validate opts = Inr e'"
      "res_Verdicts r = map (verdict_of e' (options_request opts) pull_reqs) (ps_Changes s)"
      "res_Kept r = filter (\<lambda>c. permitted e' (options_request opts) (pull_reqs c)) (ps_Changes s)"
      "res_Dropped r = filter (\<lambda>c. \<not> permitted e' (options_request opts) (pull_reqs c)) (ps_Changes s)"
      "res_Patch r = render_kept s r"
    using Pull_spec[OF assms(2)] by metis
  have e: "e' = e" using 1(1) assms(3) by (auto simp: options_validate_def split: if_splits)
  show "length (res_Verdicts r) = length (ps_Changes s)"
    "res_Kept r = filter (\<lambda>c. permitted e (options_request opts) (pull_reqs c)) (ps_Changes s)"
    "res_Dropped r = filter (\<lambda>c. \<not> permitted e (options_request opts) (pull_reqs c)) (ps_Changes s)"
    using 1 by (simp_all add: e)
  show "res_Patch r = None \<longleftrightarrow> res_Kept r = []"
    unfolding 1(5) render_kept_filter[OF assms(1) 1(3)] Render_None_iff 1(3) by (simp add: filter_empty_conv)
qed

text \<open>
  Claim C16. Nothing unreadable is delivered: a patch produced by the pull pass parses, each of its
  sections touches only paths the engine lets the subject read, and the sections are exactly those
  of the upstream diff all of whose paths are readable, in order and byte for byte.
\<close>

theorem pull_delivers_exactly_readable:
  assumes "Parse gd raw = Inr s" and "Pull s opts = Inr r" and "res_Patch r = Some out"
    and "o_Engine opts = Some e"
  shows "\<exists>s'. Parse gd out = Inr s'
    \<and> (\<forall>c \<in> set (ps_Changes s'). \<forall>path \<in> set (change_Paths c).
         d_Allowed (e ((options_request opts)\<lparr>q_Path := path, q_Action := ActionRead\<rparr>)))
    \<and> map c_raw (ps_Changes s') = map c_raw (filter (\<lambda>c. \<forall>path \<in> set (change_Paths c).
         d_Allowed (e ((options_request opts)\<lparr>q_Path := path, q_Action := ActionRead\<rparr>))) (ps_Changes s))"
  by (rule Pull_delivers[OF assms])

text \<open>
  A pull pass withholds the whole patch exactly when no section is readable, it never
  rejects, and kept and dropped sections partition the input with one verdict per section.
\<close>

theorem pull_partition:
  assumes "Pull s opts = Inr r"
  shows "\<not> res_Rejected r \<and> mset (res_Kept r) + mset (res_Dropped r) = mset (ps_Changes s)
    \<and> map v_Change (res_Verdicts r) = ps_Changes s
    \<and> map v_Change (filter v_Allowed (res_Verdicts r)) = res_Kept r
    \<and> (res_Patch r = None \<longleftrightarrow> res_Kept r = [])"
  using assms
proof (cases rule: Pull_spec)
  case (1 e)
  let ?P = "\<lambda>c. permitted e (options_request opts) (pull_reqs c)"
  have "res_Patch r = None \<longleftrightarrow> res_Kept r = []"
    using 1(3,6) by (auto simp: render_kept_def Render_None_iff filter_empty_conv)
  moreover have "map v_Change (filter v_Allowed (map (verdict_of e (options_request opts) pull_reqs) cs))
      = filter ?P cs" for cs
    by (induction cs) (auto simp: verdict_of_def)
  moreover have "mset (filter ?P cs) + mset (filter (\<lambda>c. \<not> ?P c) cs) = mset cs" for cs
    by (simp add: mset_filter)
  moreover have "map v_Change (map (verdict_of e (options_request opts) pull_reqs) cs) = cs" for cs
    by (induction cs) (simp_all add: verdict_of_def)
  ultimately show ?thesis by (simp add: 1)
qed

text \<open>
  A rename is authorized on both of its sides: an accepted rename needed read and delete on
  the old path and create on the new one, so it moves nothing out of or into a protected subtree.
\<close>

theorem rename_needs_both_sides:
  assumes "c_Op c = OpRename" and "permitted e base (push_reqs ds g c)"
  shows "d_Allowed (e (base\<lparr>q_Path := c_OldPath c, q_Action := ActionRead\<rparr>))
    \<and> d_Allowed (e (base\<lparr>q_Path := c_OldPath c, q_Action := ActionDelete\<rparr>))
    \<and> d_Allowed (e (base\<lparr>q_Path := c_NewPath c, q_Action := ActionCreate\<rparr>))"
  using assms by (simp add: permitted_def push_reqs_def requirementsFor_def)

text \<open>
  The guards cannot be bypassed by an ordinary grant: an accepted change to a protected
  path, or one that brings a symbolic link or a submodule to a path where there was none, holds the
  admin action on that path.
\<close>

theorem guards_need_admin:
  assumes "permitted e base (push_reqs ds g c)"
  shows "(\<forall>path \<in> set (change_Paths c). isProtected ds g path \<longrightarrow>
      d_Allowed (e (base\<lparr>q_Path := path, q_Action := ActionAdmin\<rparr>)))
    \<and> (gu_SymlinksRequireAdmin g \<and> c_NewKind c = KindSymlink
       \<and> (c_OldKind c \<noteq> KindSymlink \<or> c_Op c \<in> {OpRename, OpCopy}) \<longrightarrow>
      d_Allowed (e (base\<lparr>q_Path := DisplayPath c, q_Action := ActionAdmin\<rparr>)))
    \<and> (gu_SubmodulesRequireAdmin g \<and> c_NewKind c = KindSubmodule
       \<and> (c_OldKind c \<noteq> KindSubmodule \<or> c_Op c \<in> {OpRename, OpCopy}) \<longrightarrow>
      d_Allowed (e (base\<lparr>q_Path := DisplayPath c, q_Action := ActionAdmin\<rparr>)))"
proof -
  have d: "d_Allowed (asked e base r)" if "r \<in> set (guard_requirements ds g c)" for r
    using assms that by (auto simp: permitted_def push_reqs_def list_all_iff)
  show ?thesis
    using d[of "need (DisplayPath c) ActionAdmin GuardSymlink"]
      d[of "need (DisplayPath c) ActionAdmin GuardSubmodule"]
      d[of "need path ActionAdmin GuardProtectedPath" for path]
    by (auto simp: guard_requirements_def introducesKind_def)
qed

text \<open>
  The guard on symbolic links does not see a change of an existing link: a modification of
  an entry that is and stays a symbolic link (or a submodule) raises no guard requirement of that
  kind, although the section states the guarded mode.
\<close>

theorem retargeted_link_unguarded:
  assumes "c_Op c = OpModify" and "c_OldKind c = c_NewKind c"
  shows "\<not> list_ex (\<lambda>r. rq_guard r \<in> {GuardSymlink, GuardSubmodule}) (push_reqs ds g c)"
  using assms
  by (auto simp: push_reqs_def requirementsFor_def guard_requirements_def introducesKind_def list_ex_iff)

text \<open>
  A result is attributable: with a compiled policy as the engine, every verdict of a push is
  stamped with the version of that policy.
\<close>

theorem push_result_stamped:
  assumes "Push ds s opts m = Inr r" and "o_Engine opts = Some (Evaluate ds p)" and "ps_Changes s \<noteq> []"
  shows "res_PolicyVersion r = p_version p"
  using assms(1)
proof (cases rule: Push_spec)
  case (1 e m')
  have e: "e = Evaluate ds p" using 1(1) assms(2) by (auto simp: options_validate_def split: if_splits)
  have "\<exists>c \<in> set (ps_Changes s). push_reqs ds (o_Guards opts) c \<noteq> []"
    using assms(3) by (cases "ps_Changes s") (auto simp: push_reqs_def)
  then show ?thesis
    using policy_engine.stamped_version[of ds p] by (simp add: 1(3,8) e del: map_map)
qed

subsection \<open>Witnesses\<close>

definition ex_guards :: guards where
  "ex_guards = \<lparr>gu_ProtectedPaths = [\<lparr>pat_raw = ''ci'', pat_glob = ''ci'', pat_dir = []\<rparr>],
     gu_SymlinksRequireAdmin = True, gu_SubmodulesRequireAdmin = True\<rparr>"

definition ex_options :: options where
  "ex_options = \<lparr>o_Engine = Some (Evaluate ex_ds ex_policy), o_Repo = ''api'',
     o_Ref = ''refs/heads/main'', o_Subject = ex_subject, o_Guards = ex_guards\<rparr>"

definition ex_strip :: result where
  "ex_strip = (case Push ex_ds ex_set ex_options ModeStrip of Inr r \<Rightarrow> r)"

definition ex_reject :: result where
  "ex_reject = (case Push ex_ds ex_set ex_options ModeReject of Inr r \<Rightarrow> r)"

definition ex_pull :: result where
  "ex_pull = (case Pull ex_set ex_options of Inr r \<Rightarrow> r)"

lemma ex_passes:
  "Push ex_ds ex_set ex_options ModeStrip = Inr ex_strip"
  "Push ex_ds ex_set ex_options ModeReject = Inr ex_reject"
  "Pull ex_set ex_options = Inr ex_pull"
  by (simp_all add: ex_strip_def ex_reject_def ex_pull_def Push_def Pull_def ex_options_def
      options_validate_def ex_subject_def Let_def split: sum.splits)

lemma ex_patches: "res_Patch ex_strip = Some ex_out" "res_Patch ex_pull = Some ex_out"
  by code_simp+

theorem push_emits_only_authorized_witness:
  "\<exists>s'. Parse ex_gd ex_out = Inr s' \<and> map c_raw (ps_Changes s') = map c_raw (res_Kept ex_strip)"
  using push_emits_only_authorized[OF ex_parses ex_passes(1) ex_patches(1), of "Evaluate ex_ds ex_policy"]
  by (auto simp: ex_options_def)

theorem push_reject_all_or_nothing_witness:
  "if list_all (\<lambda>c. permitted (Evaluate ex_ds ex_policy) (options_request ex_options)
      (push_reqs ex_ds (o_Guards ex_options) c)) (ps_Changes ex_set)
    then \<not> res_Rejected ex_reject \<and> res_Patch ex_reject = Some ex_raw
    else res_Rejected ex_reject \<and> res_Patch ex_reject = None"
  by (rule push_reject_all_or_nothing[OF ex_parses ex_passes(2)]) (simp_all add: ex_options_def)

theorem pull_delivers_exactly_readable_witness:
  "\<exists>s'. Parse ex_gd ex_out = Inr s' \<and> ps_Changes s' \<noteq> []"
  using pull_delivers_exactly_readable[OF ex_parses ex_passes(3) ex_patches(2), of "Evaluate ex_ds ex_policy"]
    Parse_nonempty
  by (auto simp: ex_options_def)

theorem pull_partition_witness:
  "mset (res_Kept ex_pull) + mset (res_Dropped ex_pull) = mset (ps_Changes ex_set)"
  using pull_partition[OF ex_passes(3)] by blast

definition ex_move :: change where
  "ex_move = \<lparr>c_Index = 0, c_OldPath = ''a'', c_NewPath = ''ci'', c_Op = OpRename, c_OldMode = 0,
     c_NewMode = 0, c_OldKind = KindUnknown, c_NewKind = KindUnknown, c_IsBinary = False,
     c_Additions = 0, c_Deletions = 0, c_raw = []\<rparr>"

definition ex_allow_all :: "request \<Rightarrow> decision" where
  "ex_allow_all req = explained True EffectAllow ReasonAllowedByRule
     (ex_rule ''r'' EffectAllow [] MatchAll) MatchAll ''v''"

lemma ex_move_permitted: "permitted ex_allow_all base (push_reqs ds g ex_move)"
  by (simp add: permitted_def list_all_iff ex_allow_all_def explained_def)

theorem rename_needs_both_sides_witness:
  "d_Allowed (ex_allow_all ((options_request ex_options)\<lparr>q_Path := ''a'', q_Action := ActionDelete\<rparr>))"
  using rename_needs_both_sides[OF _ ex_move_permitted[of "options_request ex_options" ex_ds ex_guards]]
  by (simp add: ex_move_def)

theorem guards_need_admin_witness:
  "isProtected ex_ds ex_guards ''ci''
   \<and> d_Allowed (ex_allow_all ((options_request ex_options)\<lparr>q_Path := ''ci'', q_Action := ActionAdmin\<rparr>))"
proof -
  have "isProtected ex_ds ex_guards ''ci''" "''ci'' \<in> set (change_Paths ex_move)" by code_simp+
  then show ?thesis
    using guards_need_admin[OF ex_move_permitted[of "options_request ex_options" ex_ds ex_guards]] by blast
qed

theorem retargeted_link_unguarded_witness:
  "c_NewKind (ex_move\<lparr>c_Op := OpModify, c_OldKind := KindSymlink, c_NewKind := KindSymlink\<rparr>) = KindSymlink
   \<and> \<not> list_ex (\<lambda>r. rq_guard r \<in> {GuardSymlink, GuardSubmodule}) (push_reqs ex_ds ex_guards
     (ex_move\<lparr>c_Op := OpModify, c_OldKind := KindSymlink, c_NewKind := KindSymlink\<rparr>))"
  using retargeted_link_unguarded[of
      "ex_move\<lparr>c_Op := OpModify, c_OldKind := KindSymlink, c_NewKind := KindSymlink\<rparr>" ex_ds ex_guards]
  by simp

theorem push_result_stamped_witness: "res_PolicyVersion ex_strip = ''v1''"
proof -
  have "ps_Changes ex_set \<noteq> []" "p_version ex_policy = ''v1''" by code_simp+
  then show ?thesis
    using push_result_stamped[OF ex_passes(1), of ex_policy] by (simp add: ex_options_def)
qed

end
