(* ===== verification/Nit_Profile.thy ===== *)
theory Nit_Profile
  imports Nit_Engine
begin

text \<open>
  \<open>pkg/policy/profile.go\<close>: the fingerprint under which filtered projections are shared between
  subjects. The bytes written into the hash are modelled exactly; the hash itself (SHA-256 and its
  hexadecimal rendering) is the parameter \<open>dg\<close>. The lemmas show that the length-prefixed encoding
  is injective and that two subjects with the same bytes are decided alike on every path.
\<close>

definition netstring :: "bytes \<Rightarrow> bytes" where
  "netstring s = itoa (length s) @ '':'' @ s"

fun surviving_positions ::
  "doublestar \<Rightarrow> string \<Rightarrow> action \<Rightarrow> subject \<Rightarrow> nat \<Rightarrow> rule list \<Rightarrow> nat list" where
  "surviving_positions ds ref a s i [] = []"
| "surviving_positions ds ref a s i (r # rs) =
     (if \<not> HasAction r a then surviving_positions ds ref a s (Suc i) rs
      else if \<not> MatchesSubject r s then surviving_positions ds ref a s (Suc i) rs
      else if \<not> MatchesRef ds r ref then surviving_positions ds ref a s (Suc i) rs
      else i # surviving_positions ds ref a s (Suc i) rs)"

definition profile_fields ::
  "doublestar \<Rightarrow> policy \<Rightarrow> repo_id \<Rightarrow> string \<Rightarrow> action \<Rightarrow> subject \<Rightarrow> bytes list" where
  "profile_fields ds p repo ref a s =
     [''nit-profile-v1'', p_version p, repo, ref, a]
     @ (if (case map_of (p_users p) (s_UserID s) of Some u \<Rightarrow> u_Disabled u | None \<Rightarrow> False)
        then [''disabled'']
        else ''enabled'' # map itoa (surviving_positions ds ref a s 0 (list_at (p_rules p) repo)))"

definition profile_bytes ::
  "doublestar \<Rightarrow> policy \<Rightarrow> repo_id \<Rightarrow> string \<Rightarrow> action \<Rightarrow> subject \<Rightarrow> bytes" where
  "profile_bytes ds p repo ref a s = concat (map netstring (profile_fields ds p repo ref a s))"

definition Profile ::
  "(bytes \<Rightarrow> string) \<Rightarrow> doublestar \<Rightarrow> policy \<Rightarrow> repo_id \<Rightarrow> string \<Rightarrow> action \<Rightarrow> subject \<Rightarrow> string" where
  "Profile dg ds p repo ref a s = dg (profile_bytes ds p repo ref a s)"

subsection \<open>The encoding is injective\<close>

lemma split_at_sep:
  assumes "c \<notin> set xs" "c \<notin> set ys" "xs @ c # us = ys @ c # vs"
  shows "xs = ys \<and> us = vs"
  using assms
proof (induction xs arbitrary: ys)
  case Nil
  then show ?case by (cases ys) auto
next
  case (Cons x xs)
  then show ?case by (cases ys) auto
qed

lemma netstring_split:
  assumes "netstring s @ us = netstring t @ vs"
  shows "s = t \<and> us = vs"
proof -
  have "itoa (length s) = itoa (length t) \<and> s @ us = t @ vs"
    using assms by (intro split_at_sep[where c = "CHR '':''"]) (auto simp: netstring_def itoa_no_colon)
  then show ?thesis using itoa_inj[of "length s" "length t"] by simp
qed

lemma netstring_nonempty [simp]: "netstring s \<noteq> []"
  by (simp add: netstring_def)

lemma netstrings_inj: "concat (map netstring xs) = concat (map netstring ys) \<Longrightarrow> xs = ys"
proof (induction xs arbitrary: ys)
  case Nil
  then show ?case by (cases ys) auto
next
  case (Cons x xs)
  then show ?case
    using netstring_split[of x "concat (map netstring xs)"] by (cases ys) auto
qed

lemma profile_bytes_eqD:
  assumes "profile_bytes ds p repo ref a s = profile_bytes ds' p' repo' ref' a' s'"
  shows "p_version p = p_version p'" "repo = repo'" "ref = ref'" "a = a'"
    "disabled p (s_UserID s) = disabled p' (s_UserID s')"
    "\<not> disabled p (s_UserID s) \<Longrightarrow>
      surviving_positions ds ref a s 0 (list_at (p_rules p) repo)
      = surviving_positions ds' ref' a' s' 0 (list_at (p_rules p') repo')"
proof -
  have "profile_fields ds p repo ref a s = profile_fields ds' p' repo' ref' a' s'"
    using assms by (simp add: profile_bytes_def netstrings_inj)
  then have f: "p_version p = p_version p' \<and> repo = repo' \<and> ref = ref' \<and> a = a'
      \<and> disabled p (s_UserID s) = disabled p' (s_UserID s')
      \<and> (\<not> disabled p (s_UserID s) \<longrightarrow>
         map itoa (surviving_positions ds ref a s 0 (list_at (p_rules p) repo))
         = map itoa (surviving_positions ds' ref' a' s' 0 (list_at (p_rules p') repo')))"
    by (auto simp: profile_fields_def disabled_def[symmetric] split: if_splits)
  then show "p_version p = p_version p'" "repo = repo'" "ref = ref'" "a = a'"
    "disabled p (s_UserID s) = disabled p' (s_UserID s')" by simp_all
  show "surviving_positions ds ref a s 0 (list_at (p_rules p) repo)
      = surviving_positions ds' ref' a' s' 0 (list_at (p_rules p') repo')"
    if "\<not> disabled p (s_UserID s)"
    using f that by (auto dest!: map_injective intro!: injI itoa_inj)
qed

subsection \<open>The surviving rules decide\<close>

abbreviation survives :: "doublestar \<Rightarrow> string \<Rightarrow> action \<Rightarrow> subject \<Rightarrow> rule \<Rightarrow> bool" where
  "survives ds ref a s r \<equiv> HasAction r a \<and> MatchesSubject r s \<and> MatchesRef ds r ref"

lemma surviving_positions_ge: "j \<in> set (surviving_positions ds ref a s i rs) \<Longrightarrow> i \<le> j"
  by (induction ds ref a s i rs rule: surviving_positions.induct) (auto split: if_splits)

lemma surviving_positions_agree:
  "surviving_positions ds ref a s i rs = surviving_positions ds ref a t i rs \<Longrightarrow>
   r \<in> set rs \<Longrightarrow> survives ds ref a s r = survives ds ref a t r"
proof (induction rs arbitrary: i)
  case (Cons x rs)
  have ge: "i \<notin> set (surviving_positions ds ref a u (Suc i) rs)" for u
    using surviving_positions_ge[of i ds ref a u "Suc i" rs] by auto
  have "survives ds ref a s x = survives ds ref a t x
      \<and> surviving_positions ds ref a s (Suc i) rs = surviving_positions ds ref a t (Suc i) rs"
    using Cons.prems(1) ge[of s] ge[of t]
    by (auto split: if_splits) (metis list.set_intros(1))+
  then show ?case using Cons by auto
qed simp

lemma same_survivors_same_decision:
  assumes "disabled p (s_UserID s) = disabled p (s_UserID t)"
    and "\<And>r. \<not> disabled p (s_UserID s) \<Longrightarrow> r \<in> set (list_at (p_rules p) repo) \<Longrightarrow>
      survives ds ref a s r = survives ds ref a t r"
  shows "Evaluate ds p \<lparr>q_Repo = repo, q_Ref = ref, q_Subject = s, q_Path = path, q_Action = a\<rparr>
    = Evaluate ds p \<lparr>q_Repo = repo, q_Ref = ref, q_Subject = t, q_Path = path, q_Action = a\<rparr>"
    (is "Evaluate ds p ?s = Evaluate ds p ?t")
proof (cases "disabled p (s_UserID s)")
  case True
  then show ?thesis
    using assms(1) by (simp add: Evaluate_def disabled_def[symmetric])
next
  case False
  have "fold (eval_rule ds ?s) (list_at (p_rules p) repo) (None, None)
      = fold (eval_rule ds ?t) (list_at (p_rules p) repo) (None, None)"
  proof (intro fold_cong refl)
    fix r
    assume "r \<in> set (list_at (p_rules p) repo)"
    then have "survives ds ref a s r = survives ds ref a t r" using assms(2) False by blast
    then show "eval_rule ds ?s r = eval_rule ds ?t r"
      by (intro ext) (auto simp: eval_rule_def)
  qed
  then show ?thesis using False assms(1) by (simp add: Evaluate_def disabled_def[symmetric])
qed

subsection \<open>Properties\<close>

lemma same_profile_same_decision:
  assumes "profile_bytes ds p repo ref a s = profile_bytes ds p repo ref a t"
  shows "Evaluate ds p \<lparr>q_Repo = repo, q_Ref = ref, q_Subject = s, q_Path = path, q_Action = a\<rparr>
    = Evaluate ds p \<lparr>q_Repo = repo, q_Ref = ref, q_Subject = t, q_Path = path, q_Action = a\<rparr>"
  using profile_bytes_eqD(5,6)[OF assms]
  by (intro same_survivors_same_decision) (auto dest: surviving_positions_agree)

text \<open>
  Two subjects with the same profile receive the same decision for every path, provided the
  hash does not collide on the two encodings: this is what makes a cached filtered projection
  shareable between them.
\<close>

theorem profile_sound:
  assumes "Profile dg ds p repo ref a s = Profile dg ds p repo ref a t"
    and "inj_on dg {profile_bytes ds p repo ref a s, profile_bytes ds p repo ref a t}"
  shows "Evaluate ds p \<lparr>q_Repo = repo, q_Ref = ref, q_Subject = s, q_Path = path, q_Action = a\<rparr>
    = Evaluate ds p \<lparr>q_Repo = repo, q_Ref = ref, q_Subject = t, q_Path = path, q_Action = a\<rparr>"
proof -
  have eq: "profile_bytes ds p repo ref a s = profile_bytes ds p repo ref a t"
    using assms by (auto simp: Profile_def dest: inj_onD)
  show ?thesis by (rule same_profile_same_decision[OF eq])
qed

text \<open>
  Profiles are never shared across bundles, repositories, refs or actions: equal encodings
  come from the same policy version, repository, ref and action.
\<close>

theorem profile_separates:
  assumes "profile_bytes ds p repo ref a s = profile_bytes ds' p' repo' ref' a' s'"
  shows "p_version p = p_version p' \<and> repo = repo' \<and> ref = ref' \<and> a = a'"
  using profile_bytes_eqD(1-4)[OF assms] by blast

theorem profile_sound_witness:
  "Evaluate ex_ds ex_policy \<lparr>q_Repo = ''api'', q_Ref = [], q_Subject = ex_subject,
      q_Path = ''key'', q_Action = ActionRead\<rparr>
   = Evaluate ex_ds ex_policy \<lparr>q_Repo = ''api'', q_Ref = [],
      q_Subject = \<lparr>s_UserID = ''zoe'', s_Groups = [''dev'']\<rparr>, q_Path = ''key'', q_Action = ActionRead\<rparr>"
proof -
  have "profile_bytes ex_ds ex_policy ''api'' [] ActionRead ex_subject
      = profile_bytes ex_ds ex_policy ''api'' [] ActionRead \<lparr>s_UserID = ''zoe'', s_Groups = [''dev'']\<rparr>"
    by code_simp
  then show ?thesis
    using profile_sound[of "\<lambda>x. x" ex_ds ex_policy "''api''" "[]" ActionRead ex_subject
        "\<lparr>s_UserID = ''zoe'', s_Groups = [''dev'']\<rparr>" "''key''"]
    by (simp add: Profile_def)
qed

theorem profile_separates_witness:
  "p_version ex_policy = p_version ex_policy \<and> ''api'' = ''api'' \<and> ''main'' = ''main''
    \<and> ActionRead = ActionRead"
  by (rule profile_separates[of ex_ds ex_policy "''api''" "''main''" ActionRead ex_subject
      ex_ds ex_policy "''api''" "''main''" ActionRead ex_subject]) (rule refl)

end
