(* ===== verification/Nit_Models.thy ===== *)
theory Nit_Models
  imports Nit_Rule
begin

text \<open>
  The records of \<open>pkg/store/models.go\<close> with the protocol types they carry
  (\<open>pkg/protocol/task.go\<close>, \<open>common.go\<close>), the sentinel errors of \<open>pkg/store/store.go\<close> and the state
  of the in-memory backend (\<open>internal/store/memory/memory.go\<close>).

  A Go pointer that may be nil is an \<open>option\<close>. The store hands out copies only, so its contents
  are plain values and a clone is the value itself. The identifier counter is an
  \<open>atomic.Uint64\<close>, hence a \<open>64 word\<close>; the audit sequence and the sizes are \<open>int64\<close> counters kept as
  integers, since the code never lets them come near their bounds.
\<close>

type_synonym id = string

subsection \<open>Protocol types\<close>

datatype task_kind = TaskPush | TaskPull | OtherKind string

datatype task_state =
    TaskQueued
  | TaskRunning
  | TaskSucceeded
  | TaskFailed
  | TaskCancelled
  | OtherState string

fun kind_str :: "task_kind \<Rightarrow> string" where
  "kind_str TaskPush = ''push''"
| "kind_str TaskPull = ''pull''"
| "kind_str (OtherKind k) = k"

fun state_str :: "task_state \<Rightarrow> string" where
  "state_str TaskQueued = ''queued''"
| "state_str TaskRunning = ''running''"
| "state_str TaskSucceeded = ''succeeded''"
| "state_str TaskFailed = ''failed''"
| "state_str TaskCancelled = ''cancelled''"
| "state_str (OtherState s) = s"

definition Terminal :: "task_state \<Rightarrow> bool" where
  "Terminal s = (case s of
       TaskSucceeded \<Rightarrow> True
     | TaskFailed \<Rightarrow> True
     | TaskCancelled \<Rightarrow> True
     | _ \<Rightarrow> False)"

record denial =
  dn_Path :: string
  dn_Action :: string
  dn_Guard :: string
  dn_RuleID :: string
  dn_Pattern :: string
  dn_Reason :: string
  dn_Description :: string

record protocol_error =
  e_Code :: string
  e_Message :: string
  e_Denials :: "denial list"
  e_RetryAfter :: duration

definition protocol_error_str :: "protocol_error \<Rightarrow> string" where
  "protocol_error_str e = e_Code e @ '': '' @ e_Message e"

definition CodeUnauthorizedPaths :: string where "CodeUnauthorizedPaths = ''unauthorized_paths''"
definition CodeStaleSyncPoint :: string where "CodeStaleSyncPoint = ''stale_sync_point''"
definition CodeUnknownSyncPoint :: string where "CodeUnknownSyncPoint = ''unknown_sync_point''"
definition CodeBranchBusy :: string where "CodeBranchBusy = ''branch_busy''"
definition CodePatchTooLarge :: string where "CodePatchTooLarge = ''patch_too_large''"
definition CodeUnsupportedVersion :: string where "CodeUnsupportedVersion = ''unsupported_version''"
definition CodeUnknownRepository :: string where "CodeUnknownRepository = ''unknown_repository''"
definition CodeConflict :: string where "CodeConflict = ''conflict''"

subsection \<open>Domain records\<close>

record store_user =
  su_ID :: id
  su_TenantID :: tenant_id
  su_PolicyUserID :: user_id
  su_Email :: string
  su_DisplayName :: string
  su_Disabled :: bool
  su_CreatedAt :: instant
  su_UpdatedAt :: instant

record workspace =
  w_ID :: id
  w_TenantID :: tenant_id
  w_UserID :: id
  w_Label :: string
  w_CreatedAt :: instant
  w_LastSeenAt :: "instant option"

record session =
  se_ID :: id
  se_TenantID :: tenant_id
  se_UserID :: id
  se_TokenHash :: bytes
  se_Label :: string
  se_CreatedAt :: instant
  se_ExpiresAt :: "instant option"
  se_LastUsedAt :: "instant option"
  se_RevokedAt :: "instant option"

definition Active :: "session \<Rightarrow> instant \<Rightarrow> bool" where
  "Active s now =
     (if se_RevokedAt s \<noteq> None then False
      else case se_ExpiresAt s of
             Some e \<Rightarrow> if \<not> now < e then False else True
           | None \<Rightarrow> True)"

record store_repository =
  sr_ID :: id
  sr_TenantID :: tenant_id
  sr_PolicyRepoID :: repo_id
  sr_Remote :: string
  sr_Forge :: string
  sr_DefaultBranch :: string
  sr_PolicyVersion :: string
  sr_CreatedAt :: instant
  sr_UpdatedAt :: instant

record sync_point =
  syn_TenantID :: tenant_id
  syn_WorkspaceID :: id
  syn_RepositoryID :: id
  syn_Branch :: string
  syn_UpstreamCommit :: string
  syn_PolicyVersion :: string
  syn_CreatedAt :: instant
  syn_UpdatedAt :: instant

record lease =
  l_Holder :: string
  l_Token :: string
  l_ExpiresAt :: instant

definition Expired :: "lease option \<Rightarrow> instant \<Rightarrow> bool" where
  "Expired l now = (case l of None \<Rightarrow> False | Some l \<Rightarrow> \<not> now < l_ExpiresAt l)"

record task =
  t_ID :: id
  t_TenantID :: tenant_id
  t_RequestID :: string
  t_Kind :: task_kind
  t_State :: task_state
  t_UserID :: id
  t_WorkspaceID :: id
  t_RepositoryID :: id
  t_Branch :: string
  t_PartitionKey :: string
  t_Payload :: bytes
  t_Result :: bytes
  t_Error :: "protocol_error option"
  t_Attempts :: int
  t_Lease :: "lease option"
  t_CreatedAt :: instant
  t_UpdatedAt :: instant
  t_StartedAt :: "instant option"
  t_FinishedAt :: "instant option"

datatype encoding = EncodingZstd | EncodingNone | OtherEncoding string

record protocol_blob =
  pb_Digest :: string
  pb_Size :: int
  pb_Encoding :: encoding
  pb_UncompressedSize :: int

datatype artifact_kind = ArtifactPushPatch | ArtifactPullPatch | OtherArtifact string

record artifact =
  a_ID :: id
  a_TenantID :: tenant_id
  a_Digest :: string
  a_Kind :: artifact_kind
  a_Size :: int
  a_UncompressedSize :: int
  a_Encoding :: encoding
  a_Locator :: string
  a_CreatedAt :: instant
  a_ExpiresAt :: "instant option"

record audit_record =
  ar_ID :: int
  ar_TenantID :: tenant_id
  ar_OccurredAt :: instant
  ar_ActorUserID :: id
  ar_ActorLabel :: string
  ar_Action :: string
  ar_RepositoryID :: id
  ar_Branch :: string
  ar_Path :: string
  ar_Effect :: string
  ar_Reason :: reason
  ar_RuleID :: string
  ar_Guard :: string
  ar_PolicyVersion :: string
  ar_RequestID :: string
  ar_TaskID :: id
  ar_Detail :: bytes

record policy_version =
  pv_TenantID :: tenant_id
  pv_Version :: string
  pv_FirstLoadedAt :: instant
  pv_LastLoadedAt :: instant
  pv_Source :: string
  pv_Ref :: string
  pv_Commit :: string

subsection \<open>The in-memory store\<close>

datatype store_error =
    ErrNotFound
  | ErrDuplicateRequest
  | ErrNoTask
  | ErrLeaseLost
  | ErrConflict

type_synonym sync_key = "id \<times> id \<times> string"

record mem =
  m_seq :: "64 word"
  m_users :: "(id \<times> store_user) list"
  m_sessions :: "(id \<times> session) list"
  m_workspaces :: "(id \<times> workspace) list"
  m_repos :: "(id \<times> store_repository) list"
  m_syncPoints :: "(sync_key \<times> sync_point) list"
  m_tasks :: "(id \<times> task) list"
  m_artifacts :: "(id \<times> artifact) list"
  m_audit :: "audit_record list"
  m_adminGroups :: "(tenant_id \<times> group_id list) list"
  m_policyVersions :: "(string \<times> policy_version) list"
  m_auditSeq :: int

definition New_store :: mem where
  "New_store = \<lparr> m_seq = 0, m_users = [], m_sessions = [], m_workspaces = [], m_repos = [],
     m_syncPoints = [], m_tasks = [], m_artifacts = [], m_audit = [], m_adminGroups = [],
     m_policyVersions = [], m_auditSeq = 0 \<rparr>"

definition nextID :: "string \<Rightarrow> mem \<Rightarrow> id \<times> mem" where
  "nextID pre s =
     (let n = m_seq s + 1 in (pre @ ''-'' @ itoa (unat n), s\<lparr> m_seq := n \<rparr>))"

text \<open>The first element of a map, in iteration order, that a loop with an early return accepts.\<close>

fun find_val :: "('v \<Rightarrow> bool) \<Rightarrow> ('k \<times> 'v) list \<Rightarrow> ('k \<times> 'v) option" where
  "find_val P [] = None"
| "find_val P ((k, v) # m) = (if P v then Some (k, v) else find_val P m)"

lemma find_val_SomeD: "find_val P m = Some (k, v) \<Longrightarrow> (k, v) \<in> set m \<and> P v"
  by (induction P m rule: find_val.induct) (auto split: if_splits)

lemma find_val_None_iff: "find_val P m = None \<longleftrightarrow> (\<forall>v \<in> snd ` set m. \<not> P v)"
  by (induction P m rule: find_val.induct) auto

text \<open>A row is found by a unique key whatever the iteration order.\<close>

lemma find_val_unique:
  assumes "(k, v) \<in> set m" "P v"
    and "\<And>k' v'. (k', v') \<in> set m \<Longrightarrow> P v' \<Longrightarrow> k' = k \<and> v' = v"
  shows "find_val P m = Some (k, v)"
proof (cases "find_val P m")
  case None
  then show ?thesis using assms(1,2) by (force simp: find_val_None_iff)
next
  case (Some kv)
  then show ?thesis using find_val_SomeD[of P m "fst kv" "snd kv"] assms(3) by (cases kv) auto
qed

text \<open>\<open>sort.Slice\<close> followed by the optional truncation to a limit.\<close>

definition limited :: "int \<Rightarrow> 'a list \<Rightarrow> 'a list" where
  "limited n xs = (if n > 0 \<and> int (length xs) > n then take (nat n) xs else xs)"

lemma set_limited: "set (limited n xs) \<subseteq> set xs"
  by (auto simp: limited_def dest: in_set_takeD)

lemma sorted_wrt_limited: "sorted_wrt R xs \<Longrightarrow> sorted_wrt R (limited n xs)"
  by (simp add: limited_def sorted_wrt_take)

text \<open>Identifiers handed out by the counter never repeat until it is exhausted.\<close>

lemma itoa_unat_inj: "itoa (unat a) = itoa (unat b) \<longleftrightarrow> (a :: 64 word) = b"
  by (metis itoa_inj word_unat_eq_iff)

lemma seq_next: "n \<noteq> - 1 \<Longrightarrow> n < n + (1 :: 64 word)"
  using unatSuc[of n] by (simp add: word_less_nat_alt add.commute eq_neg_iff_add_eq_0)

end
