(* ===== verification/Nit_Tasks.thy ===== *)
theory Nit_Tasks
  imports Nit_Models
begin

text \<open>
  The task store of the in-memory backend (\<open>internal/store/memory/tasks.go\<close>): submission, claiming
  under a lease, heartbeats, completion, failure, expiry and cancellation. Every method runs under
  the store's mutex, so it is one atomic step on the record \<open>mem\<close>. The system clock and the
  random token of a claim are arguments. Operations that change nothing when they fail return
  \<open>store_error + mem\<close>; \<open>Claim\<close> releases expired leases even when it then finds no task, so it
  returns a new store in every case.

  The second half is the dispatch contract of \<open>pkg/store/store.go\<close>: a step relation over all
  interleavings of store operations, an invariant of the reachable states, and the properties the
  contract promises (one running task per partition, FIFO dispatch, fencing, recovery, idempotent
  submission), together with the per-task lifecycle that the store refines.
\<close>

subsection \<open>Operations\<close>

record claim_options =
  co_Holder :: string
  co_Kinds :: "task_kind list"
  co_LeaseFor :: duration
  co_Now :: instant

record task_filter =
  f_Tenant :: tenant_id
  f_States :: "task_state list"
  f_Kinds :: "task_kind list"
  f_UserID :: id
  f_RepositoryID :: id
  f_Branch :: string
  f_Limit :: int

definition Minute :: duration where "Minute = 60000000000"

fun containsState :: "task_state list \<Rightarrow> task_state \<Rightarrow> bool" where
  "containsState [] s = False"
| "containsState (x # xs) s = (if x = s then True else containsState xs s)"

fun containsKind :: "task_kind list \<Rightarrow> task_kind \<Rightarrow> bool" where
  "containsKind [] k = False"
| "containsKind (x # xs) k = (if x = k then True else containsKind xs k)"

definition put_task :: "id \<Rightarrow> task \<Rightarrow> mem \<Rightarrow> mem" where
  "put_task k t s = s\<lparr> m_tasks := AList.update k t (m_tasks s) \<rparr>"

definition same_request :: "task \<Rightarrow> task \<Rightarrow> bool" where
  "same_request t existing =
     (t_TenantID existing = t_TenantID t \<and> t_RequestID existing = t_RequestID t)"

text \<open>\<open>Create\<close> returns the task together with an error when the request is a duplicate.\<close>

definition created_task :: "instant \<Rightarrow> id \<Rightarrow> task \<Rightarrow> task" where
  "created_task clock i t =
     (let t1 = t\<lparr> t_ID := i \<rparr>;
          t2 = (if t_State t1 = OtherState [] then t1\<lparr> t_State := TaskQueued \<rparr> else t1);
          t3 = (if t_CreatedAt t2 = 0 then t2\<lparr> t_CreatedAt := clock \<rparr> else t2)
      in t3\<lparr> t_UpdatedAt := t_CreatedAt t3 \<rparr>)"

definition Create :: "instant \<Rightarrow> mem \<Rightarrow> task \<Rightarrow> mem \<times> task \<times> store_error option" where
  "Create clock s t =
     (case (if t_RequestID t \<noteq> [] then find_val (same_request t) (m_tasks s) else None) of
        Some (k, existing) \<Rightarrow> (s, existing, Some ErrDuplicateRequest)
      | None \<Rightarrow>
          (let (i, s1) = (if t_ID t = [] then nextID ''task'' s else (t_ID t, s));
               created = created_task clock i t
           in (put_task i created s1, created, None)))"

definition ByID :: "mem \<Rightarrow> id \<Rightarrow> store_error + task" where
  "ByID s i = (case map_of (m_tasks s) i of None \<Rightarrow> Inl ErrNotFound | Some t \<Rightarrow> Inr t)"

definition ByRequestID :: "mem \<Rightarrow> tenant_id \<Rightarrow> string \<Rightarrow> store_error + task" where
  "ByRequestID s tenant r =
     (case find_val (\<lambda>t. t_TenantID t = tenant \<and> t_RequestID t = r) (m_tasks s) of
        None \<Rightarrow> Inl ErrNotFound
      | Some (k, t) \<Rightarrow> Inr t)"

definition listed :: "task_filter \<Rightarrow> task \<Rightarrow> bool" where
  "listed f t =
     (if f_Tenant f \<noteq> [] \<and> t_TenantID t \<noteq> f_Tenant f then False
      else if f_UserID f \<noteq> [] \<and> t_UserID t \<noteq> f_UserID f then False
      else if f_RepositoryID f \<noteq> [] \<and> t_RepositoryID t \<noteq> f_RepositoryID f then False
      else if f_Branch f \<noteq> [] \<and> t_Branch t \<noteq> f_Branch f then False
      else if f_States f \<noteq> [] \<and> \<not> containsState (f_States f) (t_State t) then False
      else if f_Kinds f \<noteq> [] \<and> \<not> containsKind (f_Kinds f) (t_Kind t) then False
      else True)"

text \<open>Dispatch order: older first, the identifier breaking ties. A listing is newest first.\<close>

abbreviation age :: "task \<Rightarrow> instant \<times> id" where
  "age t \<equiv> (t_CreatedAt t, t_ID t)"

definition List_tasks :: "mem \<Rightarrow> task_filter \<Rightarrow> task list" where
  "List_tasks s f =
     limited (f_Limit f) (rev (sort_key age (filter (listed f) (map snd (m_tasks s)))))"

definition release_one :: "instant \<Rightarrow> task \<Rightarrow> task" where
  "release_one now t =
     (if t_State t \<noteq> TaskRunning \<or> \<not> Expired (t_Lease t) now then t
      else t\<lparr> t_State := TaskQueued, t_Lease := None, t_StartedAt := None,
              t_UpdatedAt := now \<rparr>)"

definition releaseExpiredLocked :: "instant \<Rightarrow> mem \<Rightarrow> mem \<times> nat" where
  "releaseExpiredLocked now s =
     (s\<lparr> m_tasks := map_vals (release_one now) (m_tasks s) \<rparr>,
      length (filter (\<lambda>(k, t). t_State t = TaskRunning \<and> Expired (t_Lease t) now) (m_tasks s)))"

definition ReleaseExpired :: "mem \<Rightarrow> instant \<Rightarrow> mem \<times> nat" where
  "ReleaseExpired s now = releaseExpiredLocked now s"

definition busyPartitionsLocked :: "mem \<Rightarrow> string list" where
  "busyPartitionsLocked s =
     map (\<lambda>(k, t). t_PartitionKey t)
       (filter (\<lambda>(k, t). t_State t = TaskRunning \<and> t_PartitionKey t \<noteq> []) (m_tasks s))"

definition claimable :: "task_kind list \<Rightarrow> string list \<Rightarrow> task \<Rightarrow> bool" where
  "claimable kinds busy t =
     (if t_State t \<noteq> TaskQueued then False
      else if kinds \<noteq> [] \<and> \<not> containsKind kinds (t_Kind t) then False
      else if t_PartitionKey t \<noteq> [] \<and> t_PartitionKey t \<in> set busy then False
      else True)"

definition leased :: "claim_options \<Rightarrow> instant \<Rightarrow> string \<Rightarrow> task \<Rightarrow> task" where
  "leased opts now tok t =
     (let leaseFor = (if co_LeaseFor opts \<le> 0 then Minute else co_LeaseFor opts)
      in t\<lparr> t_State := TaskRunning,
            t_Attempts := t_Attempts t + 1,
            t_UpdatedAt := now,
            t_Lease := Some \<lparr> l_Holder = co_Holder opts, l_Token = tok,
                               l_ExpiresAt = now + leaseFor \<rparr>,
            t_StartedAt := (case t_StartedAt t of None \<Rightarrow> Some now | Some st \<Rightarrow> Some st) \<rparr>)"

definition claim_now :: "instant \<Rightarrow> claim_options \<Rightarrow> instant" where
  "claim_now clock opts = (if co_Now opts = 0 then clock else co_Now opts)"

definition Claim ::
  "instant \<Rightarrow> string \<Rightarrow> mem \<Rightarrow> claim_options \<Rightarrow> mem \<times> (store_error + task)" where
  "Claim clock tok s opts =
     (let now = claim_now clock opts;
          s1 = fst (releaseExpiredLocked now s);
          busy = busyPartitionsLocked s1;
          candidates = filter (\<lambda>(k, t). claimable (co_Kinds opts) busy t) (m_tasks s1)
      in case sort_key (\<lambda>(k, t). age t) candidates of
           [] \<Rightarrow> (s1, Inl ErrNoTask)
         | (k, t) # _ \<Rightarrow>
             (let claimed = leased opts now tok t in (put_task k claimed s1, Inr claimed)))"

definition checkLease :: "task \<Rightarrow> string \<Rightarrow> store_error + unit" where
  "checkLease t tok =
     (if t_State t \<noteq> TaskRunning then Inl ErrLeaseLost
      else case t_Lease t of
             None \<Rightarrow> Inl ErrLeaseLost
           | Some l \<Rightarrow> if l_Token l \<noteq> tok then Inl ErrLeaseLost else Inr ())"

definition checkFinishOrder :: "task \<Rightarrow> instant \<Rightarrow> store_error + unit" where
  "checkFinishOrder t at =
     (case t_StartedAt t of
        None \<Rightarrow> Inr ()
      | Some st \<Rightarrow> if \<not> at < st then Inr () else Inl ErrConflict)"

definition Heartbeat :: "mem \<Rightarrow> id \<Rightarrow> string \<Rightarrow> instant \<Rightarrow> store_error + mem" where
  "Heartbeat s i tok until =
     rbind (ByID s i) (\<lambda>t.
     rbind (checkLease t tok) (\<lambda>_.
     Inr (put_task i (t\<lparr> t_Lease := map_option (\<lambda>l. l\<lparr> l_ExpiresAt := until \<rparr>) (t_Lease t),
                         t_UpdatedAt := until \<rparr>) s)))"

definition Complete ::
  "mem \<Rightarrow> id \<Rightarrow> string \<Rightarrow> bytes \<Rightarrow> instant \<Rightarrow> store_error + mem" where
  "Complete s i tok result at =
     rbind (ByID s i) (\<lambda>t.
     rbind (checkLease t tok) (\<lambda>_.
     rbind (checkFinishOrder t at) (\<lambda>_.
     Inr (put_task i (t\<lparr> t_State := TaskSucceeded, t_Result := result, t_Error := None,
                         t_Lease := None, t_UpdatedAt := at, t_FinishedAt := Some at \<rparr>) s))))"

definition Fail ::
  "mem \<Rightarrow> id \<Rightarrow> string \<Rightarrow> protocol_error option \<Rightarrow> bool \<Rightarrow> instant \<Rightarrow> store_error + mem" where
  "Fail s i tok cause requeue at =
     rbind (ByID s i) (\<lambda>t.
     rbind (checkLease t tok) (\<lambda>_.
     let t1 = t\<lparr> t_Error := cause, t_Lease := None, t_UpdatedAt := at \<rparr>
     in if requeue
        then Inr (put_task i (t1\<lparr> t_State := TaskQueued, t_StartedAt := None \<rparr>) s)
        else Inr (put_task i (t1\<lparr> t_State := TaskFailed, t_FinishedAt := Some at \<rparr>) s)))"

definition ahead_of :: "task \<Rightarrow> task \<Rightarrow> bool" where
  "ahead_of t other =
     (if t_ID other = t_ID t \<or> t_PartitionKey other \<noteq> t_PartitionKey t then False
      else if t_State other = TaskRunning then True
      else if t_State other = TaskQueued
        then t_CreatedAt other < t_CreatedAt t
             \<or> (t_CreatedAt other = t_CreatedAt t \<and> t_ID other < t_ID t)
      else False)"

definition QueuePosition :: "mem \<Rightarrow> id \<Rightarrow> store_error + nat" where
  "QueuePosition s i =
     rbind (ByID s i) (\<lambda>t.
       if t_State t \<noteq> TaskQueued then Inr 0
       else if t_PartitionKey t = [] then Inr 0
       else Inr (length (filter (ahead_of t) (map snd (m_tasks s)))))"

definition Cancel :: "mem \<Rightarrow> id \<Rightarrow> instant \<Rightarrow> store_error + mem" where
  "Cancel s i at =
     rbind (ByID s i) (\<lambda>t.
       if t_State t \<noteq> TaskQueued then Inl ErrConflict
       else Inr (put_task i (t\<lparr> t_State := TaskCancelled, t_UpdatedAt := at,
                               t_FinishedAt := Some at \<rparr>) s))"


lemma containsState_iff [simp]: "containsState xs s \<longleftrightarrow> s \<in> set xs"
  by (induction xs) auto

lemma containsKind_iff [simp]: "containsKind xs k \<longleftrightarrow> k \<in> set xs"
  by (induction xs) auto

subsection \<open>The table of tasks as a function\<close>

definition task_at :: "mem \<Rightarrow> id \<Rightarrow> task option" where
  "task_at s k = map_of (m_tasks s) k"

definition keyed :: "mem \<Rightarrow> bool" where
  "keyed s = distinct (map fst (m_tasks s))"

lemma keyed_put [simp]: "keyed s \<Longrightarrow> keyed (put_task k t s)"
  by (simp add: keyed_def put_task_def)

lemma task_at_put [simp]:
  "task_at (put_task k t s) j = (if j = k then Some t else task_at s j)"
  by (simp add: task_at_def put_task_def)

lemma seq_put [simp]: "m_seq (put_task k t s) = m_seq s"
  by (simp add: put_task_def)

lemma keyed_release [simp]: "keyed (fst (releaseExpiredLocked now s)) = keyed s"
  by (simp add: keyed_def releaseExpiredLocked_def)

lemma task_at_release [simp]:
  "task_at (fst (releaseExpiredLocked now s)) k = map_option (release_one now) (task_at s k)"
  by (simp add: task_at_def releaseExpiredLocked_def)

lemma seq_release [simp]: "m_seq (fst (releaseExpiredLocked now s)) = m_seq s"
  by (simp add: releaseExpiredLocked_def)

lemma task_at_iff: "keyed s \<Longrightarrow> task_at s k = Some t \<longleftrightarrow> (k, t) \<in> set (m_tasks s)"
  by (simp add: keyed_def task_at_def)

lemma ByID_Inr_iff: "ByID s i = Inr t \<longleftrightarrow> task_at s i = Some t"
  by (auto simp: ByID_def task_at_def split: option.splits)

lemma ByID_Inl_iff: "ByID s i = Inl e \<longleftrightarrow> task_at s i = None \<and> e = ErrNotFound"
  by (auto simp: ByID_def task_at_def split: option.splits)

definition holds_lease :: "task \<Rightarrow> string \<Rightarrow> bool" where
  "holds_lease t tok =
     (t_State t = TaskRunning \<and> (\<exists>l. t_Lease t = Some l \<and> l_Token l = tok))"

lemma checkLease_Inr_iff: "checkLease t tok = Inr () \<longleftrightarrow> holds_lease t tok"
  by (auto simp: checkLease_def holds_lease_def split: option.splits)

lemma checkLease_Inl_iff: "checkLease t tok = Inl e \<longleftrightarrow> \<not> holds_lease t tok \<and> e = ErrLeaseLost"
  by (auto simp: checkLease_def holds_lease_def split: option.splits)

lemma busy_iff:
  assumes "keyed s" "p \<noteq> []"
  shows "p \<in> set (busyPartitionsLocked s) \<longleftrightarrow>
    (\<exists>k t. task_at s k = Some t \<and> t_State t = TaskRunning \<and> t_PartitionKey t = p)"
  using assms by (force simp: busyPartitionsLocked_def task_at_iff)

text \<open>What may be dispatched after the expired leases have been released.\<close>

definition dispatchable :: "task_kind list \<Rightarrow> mem \<Rightarrow> task \<Rightarrow> bool" where
  "dispatchable kinds s t \<longleftrightarrow>
     t_State t = TaskQueued \<and> (kinds = [] \<or> t_Kind t \<in> set kinds) \<and>
     (t_PartitionKey t = [] \<or>
      (\<forall>k t'. task_at s k = Some t' \<longrightarrow> t_State t' = TaskRunning \<longrightarrow>
         t_PartitionKey t' \<noteq> t_PartitionKey t))"

lemma claimable_iff:
  "keyed s \<Longrightarrow> claimable kinds (busyPartitionsLocked s) t \<longleftrightarrow> dispatchable kinds s t"
  using busy_iff[of s "t_PartitionKey t"] by (auto simp: claimable_def dispatchable_def)

lemma sort_key_Cons:
  assumes "sort_key f xs = y # ys"
  shows "y \<in> set xs" "\<forall>x \<in> set xs. f y \<le> f x"
proof -
  have s: "set (y # ys) = set xs" by (metis assms set_sort)
  show "y \<in> set xs" using s by auto
  have "sorted (map f (y # ys))" by (metis assms sorted_sort_key)
  then show "\<forall>x \<in> set xs. f y \<le> f x" using s by auto
qed

lemma Claim_cases:
  assumes "Claim clock tok s opts = (s', r)" and "keyed s"
  defines "s1 \<equiv> fst (releaseExpiredLocked (claim_now clock opts) s)"
  obtains (none) "s' = s1" "r = Inl ErrNoTask"
      "\<And>k t. task_at s1 k = Some t \<Longrightarrow> \<not> dispatchable (co_Kinds opts) s1 t"
    | (some) k t where "task_at s1 k = Some t" "dispatchable (co_Kinds opts) s1 t"
      "\<And>k' t'. task_at s1 k' = Some t' \<Longrightarrow> dispatchable (co_Kinds opts) s1 t' \<Longrightarrow> age t \<le> age t'"
      "s' = put_task k (leased opts (claim_now clock opts) tok t) s1"
      "r = Inr (leased opts (claim_now clock opts) tok t)"
proof -
  let ?c = "filter (\<lambda>(k, t). claimable (co_Kinds opts) (busyPartitionsLocked s1) t) (m_tasks s1)"
  have k1: "keyed s1" using assms(2) by (simp add: s1_def)
  have mem: "(k, t) \<in> set ?c \<longleftrightarrow> task_at s1 k = Some t \<and> dispatchable (co_Kinds opts) s1 t" for k t
    using k1 by (auto simp: claimable_iff task_at_iff)
  show thesis
  proof (cases "sort_key (\<lambda>(k, t). age t) ?c")
    case Nil
    then have "set ?c = {}" by (metis empty_set set_sort)
    then have "\<not> dispatchable (co_Kinds opts) s1 t" if "task_at s1 k = Some t" for k t
      using mem[of k t] that by (metis empty_iff)
    moreover have "s' = s1" "r = Inl ErrNoTask"
      using assms(1) Nil by (auto simp: Claim_def Let_def s1_def)
    ultimately show thesis using none by blast
  next
    case (Cons y ys)
    obtain k t where y: "y = (k, t)" by (cases y)
    note sk = sort_key_Cons[OF Cons[unfolded y]]
    show thesis
    proof (rule some[of k t])
      show "task_at s1 k = Some t" "dispatchable (co_Kinds opts) s1 t" using sk(1) mem by auto
      show "age t \<le> age t'"
        if "task_at s1 k' = Some t'" "dispatchable (co_Kinds opts) s1 t'" for k' t'
        using sk(2) mem[of k' t'] that by fastforce
    qed (use assms(1) Cons y in \<open>auto simp: Claim_def Let_def s1_def\<close>)
  qed
qed

subsection \<open>All interleavings of store operations\<close>

text \<open>
  A state pairs the store with the set of tokens handed out so far. A submission is what the
  server builds: no identifier, not yet leased, and queued or with no state. The counter of
  identifiers must not be exhausted, and a claim draws a token never drawn before, which is what
  128 random bits are for. The last rule is every other operation of the same store: it leaves
  the tasks alone and may draw identifiers.
\<close>

type_synonym world = "mem \<times> string set"

inductive step :: "world \<Rightarrow> world \<Rightarrow> bool" where
  submit: "t_ID t = [] \<Longrightarrow> t_State t = TaskQueued \<or> t_State t = OtherState [] \<Longrightarrow>
    t_Lease t = None \<Longrightarrow> m_seq s \<noteq> - 1 \<Longrightarrow> step (s, U) (fst (Create clock s t), U)"
| claim: "tok \<notin> U \<Longrightarrow> step (s, U) (fst (Claim clock tok s opts), insert tok U)"
| heartbeat: "Heartbeat s i tok until = Inr s' \<Longrightarrow> step (s, U) (s', U)"
| complete: "Complete s i tok result at = Inr s' \<Longrightarrow> step (s, U) (s', U)"
| fail: "Fail s i tok cause requeue at = Inr s' \<Longrightarrow> step (s, U) (s', U)"
| reap: "step (s, U) (fst (ReleaseExpired s now), U)"
| cancel: "Cancel s i at = Inr s' \<Longrightarrow> step (s, U) (s', U)"
| other: "m_tasks s' = m_tasks s \<Longrightarrow> m_seq s \<le> m_seq s' \<Longrightarrow> step (s, U) (s', U)"

abbreviation steps :: "world \<Rightarrow> world \<Rightarrow> bool" where
  "steps \<equiv> step\<^sup>*\<^sup>*"

definition reachable :: "world \<Rightarrow> bool" where
  "reachable w = steps (New_store, {}) w"

subsection \<open>The invariant\<close>

definition task_id :: "64 word \<Rightarrow> id" where
  "task_id n = ''task-'' @ itoa (unat n)"

definition running :: "task \<Rightarrow> bool" where
  "running t \<longleftrightarrow> t_State t = TaskRunning"

definition wf_task :: "64 word \<Rightarrow> string set \<Rightarrow> id \<Rightarrow> task \<Rightarrow> bool" where
  "wf_task n U k t \<longleftrightarrow>
     t_ID t = k \<and> (\<exists>m. m \<le> n \<and> k = task_id m) \<and>
     (\<forall>x. t_State t \<noteq> OtherState x) \<and>
     (running t \<longleftrightarrow> t_Lease t \<noteq> None) \<and>
     (\<forall>l. t_Lease t = Some l \<longrightarrow> l_Token l \<in> U)"

definition compatible :: "task \<Rightarrow> task \<Rightarrow> bool" where
  "compatible t t' \<longleftrightarrow>
     \<not> (running t \<and> running t' \<and> t_PartitionKey t = t_PartitionKey t' \<and> t_PartitionKey t \<noteq> []) \<and>
     \<not> (\<exists>tok. holds_lease t tok \<and> holds_lease t' tok) \<and>
     \<not> (same_request t t' \<and> t_RequestID t \<noteq> [])"

fun task_inv :: "world \<Rightarrow> bool" where
  "task_inv (s, U) \<longleftrightarrow>
     keyed s \<and>
     (\<forall>k t. task_at s k = Some t \<longrightarrow> wf_task (m_seq s) U k t) \<and>
     (\<forall>k t k' t'. task_at s k = Some t \<longrightarrow> task_at s k' = Some t' \<longrightarrow> k \<noteq> k' \<longrightarrow> compatible t t')"

declare task_inv.simps [simp del]

lemma compatible_sym: "compatible t t' \<Longrightarrow> compatible t' t"
  by (auto simp: compatible_def same_request_def)

lemma task_invI:
  assumes "keyed s" "\<And>k t. task_at s k = Some t \<Longrightarrow> wf_task (m_seq s) U k t"
    "\<And>k t k' t'. task_at s k = Some t \<Longrightarrow> task_at s k' = Some t' \<Longrightarrow> k \<noteq> k' \<Longrightarrow> compatible t t'"
  shows "task_inv (s, U)"
  using assms by (auto simp: task_inv.simps)

lemma task_invD:
  assumes "task_inv (s, U)"
  shows task_inv_keyed: "keyed s"
    and task_inv_wf: "task_at s k = Some t \<Longrightarrow> wf_task (m_seq s) U k t"
    and task_inv_compatible:
      "task_at s k = Some t \<Longrightarrow> task_at s k' = Some t' \<Longrightarrow> k \<noteq> k' \<Longrightarrow> compatible t t'"
  using assms by (auto simp: task_inv.simps)

lemma wf_task_mono: "wf_task n U k t \<Longrightarrow> n \<le> n' \<Longrightarrow> U \<subseteq> V \<Longrightarrow> wf_task n' V k t"
  unfolding wf_task_def by (meson order_trans subsetD)

lemma task_inv_mono:
  assumes inv: "task_inv (s, U)"
    and le: "m_tasks s' = m_tasks s" "m_seq s \<le> m_seq s'" "U \<subseteq> V"
  shows "task_inv (s', V)"
proof (rule task_invI)
  have eq: "task_at s' = task_at s" using le(1) by (simp add: task_at_def fun_eq_iff)
  show "keyed s'" using task_inv_keyed[OF inv] le(1) by (simp add: keyed_def)
  show "wf_task (m_seq s') V k t" if "task_at s' k = Some t" for k t
    using task_inv_wf[OF inv] that le(2,3) unfolding eq by (blast intro: wf_task_mono)
  show "compatible t t'" if "task_at s' k = Some t" "task_at s' k' = Some t'" "k \<noteq> k'" for k t k' t'
    using task_inv_compatible[OF inv] that unfolding eq by blast
qed

text \<open>Replacing one task keeps the invariant when the new row is well formed and fits the others.\<close>

lemma task_inv_put:
  assumes inv: "task_inv (s, U)" and "U \<subseteq> V"
    and wf: "wf_task (m_seq s) V k t"
    and new: "\<And>k' t'. k' \<noteq> k \<Longrightarrow> task_at s k' = Some t' \<Longrightarrow> compatible t t'"
  shows "task_inv (put_task k t s, V)"
proof (rule task_invI)
  show "keyed (put_task k t s)" using task_inv_keyed[OF inv] by simp
  show "wf_task (m_seq (put_task k t s)) V j u" if "task_at (put_task k t s) j = Some u" for j u
    using that wf task_inv_wf[OF inv, of j u] \<open>U \<subseteq> V\<close> by (auto simp: wf_task_def split: if_splits)
  show "compatible u u'" if "task_at (put_task k t s) j = Some u"
    "task_at (put_task k t s) j' = Some u'" "j \<noteq> j'" for j u j' u'
  proof (cases "j = k \<or> j' = k")
    case True
    then show ?thesis using that new[of j' u'] compatible_sym[OF new[of j u]] by auto
  next
    case False
    then show ?thesis using that task_inv_compatible[OF inv, of j u j' u'] by simp
  qed
qed

text \<open>A row that stops running, or that keeps its lease, stays compatible with every other row.\<close>

lemma compatible_mono:
  assumes "compatible t u" "t_PartitionKey t' = t_PartitionKey t"
    "t_TenantID t' = t_TenantID t" "t_RequestID t' = t_RequestID t"
    "running t' \<Longrightarrow> running t" "\<And>tok. holds_lease t' tok \<Longrightarrow> holds_lease t tok"
  shows "compatible t' u"
  using assms by (auto simp: compatible_def same_request_def)

lemma release_one_fields [simp]:
  "t_ID (release_one now t) = t_ID t" "t_TenantID (release_one now t) = t_TenantID t"
  "t_RequestID (release_one now t) = t_RequestID t" "t_Kind (release_one now t) = t_Kind t"
  "t_PartitionKey (release_one now t) = t_PartitionKey t"
  "t_CreatedAt (release_one now t) = t_CreatedAt t"
  "t_Attempts (release_one now t) = t_Attempts t"
  by (simp_all add: release_one_def)

lemma release_one_running: "running (release_one now t) \<Longrightarrow> running t"
  by (simp add: release_one_def running_def split: if_splits)

lemma release_one_holds: "holds_lease (release_one now t) tok \<Longrightarrow> holds_lease t tok"
  by (simp add: release_one_def holds_lease_def split: if_splits)

lemma wf_release: "wf_task n U k t \<Longrightarrow> wf_task n U k (release_one now t)"
  by (auto simp: wf_task_def release_one_def running_def)

lemma task_inv_release:
  assumes "task_inv (s, U)"
  shows "task_inv (fst (releaseExpiredLocked now s), U)"
proof (rule task_invI)
  show "keyed (fst (releaseExpiredLocked now s))" using task_inv_keyed[OF assms] by simp
next
  fix k t assume "task_at (fst (releaseExpiredLocked now s)) k = Some t"
  then show "wf_task (m_seq (fst (releaseExpiredLocked now s))) U k t"
    using task_inv_wf[OF assms] by (auto intro: wf_release)
next
  fix k t k' t' assume t: "task_at (fst (releaseExpiredLocked now s)) k = Some t"
    and t': "task_at (fst (releaseExpiredLocked now s)) k' = Some t'" and "k \<noteq> k'"
  obtain u u' where u: "task_at s k = Some u" "t = release_one now u"
    "task_at s k' = Some u'" "t' = release_one now u'"
    using t t' by auto
  have "compatible u u'" using task_inv_compatible[OF assms u(1) u(3) \<open>k \<noteq> k'\<close>] .
  then have "compatible t u'"
    unfolding u by (rule compatible_mono) (auto dest: release_one_running release_one_holds)
  from compatible_sym[OF this] have "compatible t' t"
    unfolding u by (rule compatible_mono) (auto dest: release_one_running release_one_holds)
  then show "compatible t t'" by (rule compatible_sym)
qed

lemma task_inv_put_weaker:
  assumes inv: "task_inv (s, U)" and t: "task_at s k = Some t"
    and "t_ID t' = t_ID t" "t_PartitionKey t' = t_PartitionKey t"
    "t_TenantID t' = t_TenantID t" "t_RequestID t' = t_RequestID t"
    "running t' \<longleftrightarrow> t_Lease t' \<noteq> None" "\<And>x. t_State t' \<noteq> OtherState x"
    "running t' \<Longrightarrow> running t" "\<And>tok. holds_lease t' tok \<Longrightarrow> holds_lease t tok"
  shows "task_inv (put_task k t' s, U)"
proof (rule task_inv_put[OF inv subset_refl])
  have wf: "wf_task (m_seq s) U k t" by (rule task_inv_wf[OF inv t])
  have "l_Token l \<in> U" if l: "t_Lease t' = Some l" for l
  proof -
    have "holds_lease t' (l_Token l)" using l assms(7) by (simp add: holds_lease_def running_def)
    then have "holds_lease t (l_Token l)" by (rule assms(10))
    then show ?thesis using wf by (auto simp: wf_task_def holds_lease_def)
  qed
  then show "wf_task (m_seq s) U k t'"
    using wf assms(3,7,8) by (simp add: wf_task_def)
  show "compatible t' u" if "k' \<noteq> k" "task_at s k' = Some u" for k' u
    using task_inv_compatible[OF inv t that(2) that(1)[symmetric]]
    by (rule compatible_mono) (use assms(4-6,9,10) in blast)+
qed

subsection \<open>Every operation keeps the invariant\<close>

lemma Heartbeat_InrE:
  assumes "Heartbeat s i tok until = Inr s'"
  obtains t where "task_at s i = Some t" "holds_lease t tok"
    "s' = put_task i (t\<lparr> t_Lease := map_option (\<lambda>l. l\<lparr> l_ExpiresAt := until \<rparr>) (t_Lease t),
                        t_UpdatedAt := until \<rparr>) s"
  using assms
  by (auto simp: Heartbeat_def rbind_Inr_iff ByID_Inr_iff checkLease_Inr_iff)

lemma Complete_InrE:
  assumes "Complete s i tok result at = Inr s'"
  obtains t where "task_at s i = Some t" "holds_lease t tok" "checkFinishOrder t at = Inr ()"
    "s' = put_task i (t\<lparr> t_State := TaskSucceeded, t_Result := result, t_Error := None,
                        t_Lease := None, t_UpdatedAt := at, t_FinishedAt := Some at \<rparr>) s"
  using assms
  by (auto simp: Complete_def rbind_Inr_iff ByID_Inr_iff checkLease_Inr_iff)

lemma Fail_InrE:
  assumes "Fail s i tok cause requeue at = Inr s'"
  obtains t where "task_at s i = Some t" "holds_lease t tok"
    "s' = put_task i
       (if requeue
        then t\<lparr> t_Error := cause, t_Lease := None, t_UpdatedAt := at,
                t_State := TaskQueued, t_StartedAt := None \<rparr>
        else t\<lparr> t_Error := cause, t_Lease := None, t_UpdatedAt := at,
                t_State := TaskFailed, t_FinishedAt := Some at \<rparr>) s"
  using assms
  by (auto simp: Fail_def rbind_Inr_iff ByID_Inr_iff checkLease_Inr_iff Let_def split: if_splits)

lemma Cancel_InrE:
  assumes "Cancel s i at = Inr s'"
  obtains t where "task_at s i = Some t" "t_State t = TaskQueued"
    "s' = put_task i (t\<lparr> t_State := TaskCancelled, t_UpdatedAt := at,
                        t_FinishedAt := Some at \<rparr>) s"
  using assms by (auto simp: Cancel_def rbind_Inr_iff ByID_Inr_iff split: if_splits)

lemma Heartbeat_inv [nit_inv]:
  assumes "task_inv (s, U)" "Heartbeat s i tok until = Inr s'"
  shows "task_inv (s', U)"
  using assms(2)
proof (cases rule: Heartbeat_InrE)
  case (1 t)
  show ?thesis unfolding 1(3)
    by (rule task_inv_put_weaker[OF assms(1) 1(1)])
      (use 1(2) in \<open>auto simp: running_def holds_lease_def\<close>)
qed

lemma Complete_inv [nit_inv]:
  assumes "task_inv (s, U)" "Complete s i tok result at = Inr s'"
  shows "task_inv (s', U)"
  using assms(2)
proof (cases rule: Complete_InrE)
  case (1 t)
  show ?thesis unfolding 1(4)
    by (rule task_inv_put_weaker[OF assms(1) 1(1)]) (auto simp: running_def holds_lease_def)
qed

lemma Fail_inv [nit_inv]:
  assumes "task_inv (s, U)" "Fail s i tok cause requeue at = Inr s'"
  shows "task_inv (s', U)"
  using assms(2)
proof (cases rule: Fail_InrE)
  case (1 t)
  show ?thesis unfolding 1(3)
    by (rule task_inv_put_weaker[OF assms(1) 1(1)])
      (auto simp: running_def holds_lease_def split: if_splits)
qed

lemma Cancel_inv [nit_inv]:
  assumes "task_inv (s, U)" "Cancel s i at = Inr s'"
  shows "task_inv (s', U)"
  using assms(2)
proof (cases rule: Cancel_InrE)
  case (1 t)
  have "t_Lease t = None"
    using task_inv_wf[OF assms(1) 1(1)] 1(2) by (simp add: wf_task_def running_def)
  then show ?thesis unfolding 1(3)
    by (intro task_inv_put_weaker[OF assms(1) 1(1)]) (auto simp: running_def holds_lease_def)
qed

lemma leased_fields [simp]:
  "t_ID (leased opts now tok t) = t_ID t" "t_TenantID (leased opts now tok t) = t_TenantID t"
  "t_RequestID (leased opts now tok t) = t_RequestID t"
  "t_PartitionKey (leased opts now tok t) = t_PartitionKey t"
  "t_State (leased opts now tok t) = TaskRunning"
  "t_Attempts (leased opts now tok t) = t_Attempts t + 1"
  "t_Kind (leased opts now tok t) = t_Kind t"
  "t_CreatedAt (leased opts now tok t) = t_CreatedAt t"
  by (simp_all add: leased_def Let_def)

lemma leased_lease: "\<exists>l. t_Lease (leased opts now tok t) = Some l \<and> l_Token l = tok"
  by (simp add: leased_def Let_def)

lemma holds_leased [simp]: "holds_lease (leased opts now tok t) tok' \<longleftrightarrow> tok' = tok"
  using leased_lease[of opts now tok t] by (auto simp: holds_lease_def)

lemma Claim_inv [nit_inv]:
  assumes inv: "task_inv (s, U)" and "tok \<notin> U"
  shows "task_inv (fst (Claim clock tok s opts), insert tok U)"
proof -
  let ?s1 = "fst (releaseExpiredLocked (claim_now clock opts) s)"
  obtain s' r where c: "Claim clock tok s opts = (s', r)" by fastforce
  have inv1: "task_inv (?s1, U)" by (rule task_inv_release[OF inv])
  from c task_inv_keyed[OF inv] have "task_inv (s', insert tok U)"
  proof (cases rule: Claim_cases)
    case none
    show ?thesis unfolding none(1) using inv1 by (rule task_inv_mono) auto
  next
    case (some k t)
    let ?t = "leased opts (claim_now clock opts) tok t"
    show ?thesis unfolding some(4)
    proof (rule task_inv_put[OF inv1])
      show "wf_task (m_seq ?s1) (insert tok U) k ?t"
        using task_inv_wf[OF inv1 some(1)] leased_lease[of opts "claim_now clock opts" tok t]
        unfolding wf_task_def running_def by (metis insertI1 leased_fields(1,5) option.distinct(1)
            option.inject task_state.distinct(17))
      show "compatible ?t t'" if "k' \<noteq> k" "task_at ?s1 k' = Some t'" for k' t'
      proof -
        have "\<not> holds_lease t' tok"
          using task_inv_wf[OF inv1 that(2)] \<open>tok \<notin> U\<close> by (auto simp: wf_task_def holds_lease_def)
        moreover have "\<not> (running t' \<and> t_PartitionKey t = t_PartitionKey t' \<and> t_PartitionKey t \<noteq> [])"
          using some(2) that(2) unfolding dispatchable_def running_def by metis
        ultimately show ?thesis
          using task_inv_compatible[OF inv1 some(1) that(2) that(1)[symmetric]]
          by (auto simp: compatible_def same_request_def)
      qed
    qed blast
  qed
  then show ?thesis using c by simp
qed

lemma created_task_fields [simp]:
  "t_ID (created_task clock i t) = i" "t_TenantID (created_task clock i t) = t_TenantID t"
  "t_RequestID (created_task clock i t) = t_RequestID t"
  "t_Lease (created_task clock i t) = t_Lease t"
  "t_State (created_task clock i t) =
     (if t_State t = OtherState [] then TaskQueued else t_State t)"
  "t_PartitionKey (created_task clock i t) = t_PartitionKey t"
  "t_Attempts (created_task clock i t) = t_Attempts t"
  "t_Kind (created_task clock i t) = t_Kind t"
  by (simp_all add: created_task_def Let_def)

lemma task_id_inj [simp]: "task_id m = task_id n \<longleftrightarrow> m = n"
  by (simp add: task_id_def itoa_unat_inj)

lemma Create_cases:
  assumes "Create clock s t = (s', u, e)" "t_ID t = []"
  obtains (duplicate) k where "t_RequestID t \<noteq> []" "(k, u) \<in> set (m_tasks s)" "same_request t u"
      "s' = s" "e = Some ErrDuplicateRequest"
    | (fresh) "t_RequestID t = [] \<or> (\<forall>v \<in> snd ` set (m_tasks s). \<not> same_request t v)"
      "u = created_task clock (task_id (m_seq s + 1)) t"
      "s' = put_task (task_id (m_seq s + 1)) u (s\<lparr> m_seq := m_seq s + 1 \<rparr>)" "e = None"
proof (cases "if t_RequestID t \<noteq> [] then find_val (same_request t) (m_tasks s) else None")
  case None
  then have "t_RequestID t = [] \<or> (\<forall>v \<in> snd ` set (m_tasks s). \<not> same_request t v)"
    by (simp add: find_val_None_iff split: if_splits)
  moreover have "u = created_task clock (task_id (m_seq s + 1)) t"
    "s' = put_task (task_id (m_seq s + 1)) u (s\<lparr> m_seq := m_seq s + 1 \<rparr>)" "e = None"
    using assms None by (auto simp: Create_def nextID_def Let_def task_id_def)
  ultimately show thesis using fresh by blast
next
  case (Some kv)
  obtain k v where kv: "kv = (k, v)" by (cases kv)
  have f: "t_RequestID t \<noteq> []" "find_val (same_request t) (m_tasks s) = Some (k, v)"
    using Some kv by (auto split: if_splits)
  have "s' = s" "u = v" "e = Some ErrDuplicateRequest" using assms(1) f by (auto simp: Create_def)
  then show thesis using duplicate find_val_SomeD[OF f(2)] f(1) by auto
qed

lemma task_at_seq [simp]: "task_at (s\<lparr> m_seq := n \<rparr>) k = task_at s k"
  by (simp add: task_at_def)

lemma Create_inv [nit_inv]:
  assumes inv: "task_inv (s, U)" and t: "t_ID t = []" "t_Lease t = None" "m_seq s \<noteq> - 1"
    "t_State t = TaskQueued \<or> t_State t = OtherState []"
  shows "task_inv (fst (Create clock s t), U)"
proof -
  obtain s' u e where c: "Create clock s t = (s', u, e)" by (metis prod_cases3)
  from c t(1) have "task_inv (s', U)"
  proof (cases rule: Create_cases)
    case (duplicate k)
    then show ?thesis using inv by simp
  next
    case fresh
    have up: "m_seq s \<le> m_seq s + 1"
      using seq_next[OF t(3)] by simp
    have inv1: "task_inv (s\<lparr> m_seq := m_seq s + 1 \<rparr>, U)"
      using inv by (rule task_inv_mono) (use up in simp_all)
    show ?thesis unfolding fresh(3)
    proof (rule task_inv_put[OF inv1 subset_refl])
      show "wf_task (m_seq (s\<lparr> m_seq := m_seq s + 1 \<rparr>)) U (task_id (m_seq s + 1)) u"
        using t(2,4) unfolding fresh(2) by (auto simp: wf_task_def running_def)
      show "compatible u t'" if "task_at (s\<lparr> m_seq := m_seq s + 1 \<rparr>) k' = Some t'" for k' t'
      proof -
        have "t' \<in> snd ` set (m_tasks s)"
          using that task_at_iff[OF task_inv_keyed[OF inv]] by force
        then show ?thesis using fresh(1) t(4) unfolding fresh(2)
          by (auto simp: compatible_def running_def holds_lease_def same_request_def)
      qed
    qed
  qed
  then show ?thesis using c by simp
qed

lemma step_inv: "step w w' \<Longrightarrow> task_inv w \<Longrightarrow> task_inv w'"
proof (induction rule: step.induct)
  case (other s' s U)
  then show ?case using task_inv_mono by blast
qed (auto intro: nit_inv task_inv_release simp: ReleaseExpired_def)

lemma steps_inv: "steps w w' \<Longrightarrow> task_inv w \<Longrightarrow> task_inv w'"
  by (induction rule: rtranclp_induct) (auto intro: step_inv)

lemma init_inv: "task_inv (New_store, {})"
  by (simp add: task_inv.simps New_store_def keyed_def task_at_def)

lemma reachable_inv: "reachable w \<Longrightarrow> task_inv w"
  using steps_inv init_inv by (auto simp: reachable_def)

lemma reachable_steps: "reachable w \<Longrightarrow> steps w w' \<Longrightarrow> reachable w'"
  by (auto simp: reachable_def)

subsection \<open>The lifecycle of one task\<close>

text \<open>
  The specification of a task seen alone: it waits, is held under a token by one attempt, and is
  done. A grant needs a token that is not in \<open>U\<close> and costs one attempt; only the holder renews,
  gives back or finishes; a waiting task may be cancelled; a done task does nothing.
\<close>

datatype status = Waiting int | Held int string | Done task_state

definition status_of :: "task \<Rightarrow> status" where
  "status_of t = (case t_State t of
       TaskQueued \<Rightarrow> Waiting (t_Attempts t)
     | TaskRunning \<Rightarrow>
         Held (t_Attempts t) (case t_Lease t of None \<Rightarrow> [] | Some l \<Rightarrow> l_Token l)
     | x \<Rightarrow> Done x)"

inductive lifecycle :: "string set \<Rightarrow> status \<Rightarrow> status \<Rightarrow> bool" for U where
  grant: "tok \<notin> U \<Longrightarrow> lifecycle U (Waiting n) (Held (n + 1) tok)"
| renew: "lifecycle U (Held n tok) (Held n tok)"
| give_back: "lifecycle U (Held n tok) (Waiting n)"
| succeed: "lifecycle U (Held n tok) (Done TaskSucceeded)"
| give_up: "lifecycle U (Held n tok) (Done TaskFailed)"
| withdraw: "lifecycle U (Waiting n) (Done TaskCancelled)"

inductive_cases lifecycle_DoneE [elim!]: "lifecycle U (Done x) st"
inductive_cases lifecycle_to_HeldE: "lifecycle U st (Held n tok)"

lemma lifecycle_mono: "lifecycle V st st' \<Longrightarrow> U \<subseteq> V \<Longrightarrow> lifecycle U st st'"
  by (induction rule: lifecycle.induct) (auto intro: lifecycle.intros)

lemma lifecycle_trancl_mono:
  "(lifecycle V)\<^sup>+\<^sup>+ st st' \<Longrightarrow> U \<subseteq> V \<Longrightarrow> (lifecycle U)\<^sup>+\<^sup>+ st st'"
  by (induction rule: tranclp_induct)
    (blast intro: tranclp.r_into_trancl tranclp.trancl_into_trancl dest: lifecycle_mono)+

lemma lifecycle_Done: "(lifecycle U)\<^sup>+\<^sup>+ (Done x) st \<Longrightarrow> False"
  by (auto dest: tranclpD)

definition same_work :: "task \<Rightarrow> task \<Rightarrow> bool" where
  "same_work t t' \<longleftrightarrow>
     t_ID t' = t_ID t \<and> t_TenantID t' = t_TenantID t \<and> t_RequestID t' = t_RequestID t \<and>
     t_Kind t' = t_Kind t \<and> t_UserID t' = t_UserID t \<and> t_WorkspaceID t' = t_WorkspaceID t \<and>
     t_RepositoryID t' = t_RepositoryID t \<and> t_Branch t' = t_Branch t \<and>
     t_PartitionKey t' = t_PartitionKey t \<and> t_Payload t' = t_Payload t \<and>
     t_CreatedAt t' = t_CreatedAt t"

lemma same_work_refl [simp]: "same_work t t"
  by (simp add: same_work_def)

lemma same_work_trans: "same_work t u \<Longrightarrow> same_work u v \<Longrightarrow> same_work t v"
  by (simp add: same_work_def)

text \<open>What a step may do to one row: nothing, or move it along its lifecycle.\<close>

definition evolves :: "string set \<Rightarrow> task \<Rightarrow> task \<Rightarrow> bool" where
  "evolves U t t' \<longleftrightarrow> same_work t t' \<and> (t' = t \<or> (lifecycle U)\<^sup>+\<^sup>+ (status_of t) (status_of t'))"

lemma evolves_refl [simp]: "evolves U t t"
  by (simp add: evolves_def)

lemma evolves_lifecycle:
  "same_work t t' \<Longrightarrow> lifecycle U (status_of t) (status_of t') \<Longrightarrow> evolves U t t'"
  by (auto simp: evolves_def)

lemma evolves_trans: "evolves U t u \<Longrightarrow> U \<subseteq> V \<Longrightarrow> evolves V u v \<Longrightarrow> evolves U t v"
  unfolding evolves_def
  by (meson lifecycle_trancl_mono same_work_trans tranclp_trans)

lemma status_held: "holds_lease t tok \<Longrightarrow> status_of t = Held (t_Attempts t) tok"
  by (auto simp: holds_lease_def status_of_def)

lemma status_held_iff:
  assumes "wf_task n U k t"
  shows "status_of t = Held a tok \<longleftrightarrow> holds_lease t tok \<and> a = t_Attempts t"
  using assms
  by (auto simp: holds_lease_def status_of_def wf_task_def running_def
      split: task_state.splits option.splits)

lemma release_evolves:
  assumes "wf_task n U k t"
  shows "evolves U t (release_one now t)"
proof (cases "t_State t \<noteq> TaskRunning \<or> \<not> Expired (t_Lease t) now")
  case True
  then have "release_one now t = t" by (simp add: release_one_def)
  then show ?thesis by simp
next
  case False
  show ?thesis
    by (rule evolves_lifecycle)
      (use False in \<open>auto simp: release_one_def same_work_def status_of_def intro: lifecycle.intros\<close>)
qed

lemma leased_evolves:
  assumes "t_State t = TaskQueued" "tok \<notin> U"
  shows "evolves U t (leased opts now tok t)"
proof (rule evolves_lifecycle)
  show "same_work t (leased opts now tok t)" by (simp add: same_work_def leased_def Let_def)
  have "status_of (leased opts now tok t) = Held (t_Attempts t + 1) tok"
    using status_held[of "leased opts now tok t" tok] by simp
  then show "lifecycle U (status_of t) (status_of (leased opts now tok t))"
    using assms lifecycle.grant by (simp add: status_of_def)
qed

lemma put_evolves:
  assumes "task_at s i = Some t" "evolves U t t'" "task_at s k = Some u"
  shows "\<exists>u'. task_at (put_task i t' s) k = Some u' \<and> evolves U u u'"
  using assms by auto

lemma step_evolves:
  assumes "step (s, U) (s', U')" "task_inv (s, U)" "task_at s k = Some t"
  shows "\<exists>t'. task_at s' k = Some t' \<and> evolves U t t'"
  using assms(1)
proof (cases rule: step.cases)
  case (submit v clock)
  obtain s'' u e where c: "Create clock s v = (s'', u, e)" by (metis prod_cases3)
  from c submit(3) have "\<exists>t'. task_at s'' k = Some t' \<and> evolves U t t'"
  proof (cases rule: Create_cases)
    case fresh
    have "k \<noteq> task_id (m_seq s + 1)"
    proof
      assume "k = task_id (m_seq s + 1)"
      then have "m_seq s + 1 \<le> m_seq s"
        using task_inv_wf[OF assms(2,3)] by (auto simp: wf_task_def)
      then show False using seq_next[OF submit(6)] by simp
    qed
    then show ?thesis using assms(3) fresh(3) by simp
  qed (use assms(3) in auto)
  then show ?thesis using submit(1) c by simp
next
  case (claim tok clock opts)
  let ?s1 = "fst (releaseExpiredLocked (claim_now clock opts) s)"
  obtain s'' r where c: "Claim clock tok s opts = (s'', r)" by fastforce
  have r: "task_at ?s1 k = Some (release_one (claim_now clock opts) t)"
    "evolves U t (release_one (claim_now clock opts) t)"
    using assms(3) release_evolves[OF task_inv_wf[OF assms(2,3)]] by simp_all
  from c task_inv_keyed[OF assms(2)] have "\<exists>t'. task_at s'' k = Some t' \<and> evolves U t t'"
  proof (cases rule: Claim_cases)
    case none
    then show ?thesis using r by blast
  next
    case (some j u)
    have "evolves U u (leased opts (claim_now clock opts) tok u)"
      using some(2) claim(3) by (intro leased_evolves) (auto simp: dispatchable_def)
    from put_evolves[OF some(1) this r(1)] show ?thesis
      unfolding some(4) using r(2) evolves_trans by blast
  qed
  then show ?thesis using claim(1) c by simp
next
  case (heartbeat i tok until)
  from heartbeat(2) show ?thesis
  proof (cases rule: Heartbeat_InrE)
    case (1 u)
    show ?thesis unfolding 1(3)
      by (rule put_evolves[OF 1(1) _ assms(3)], rule evolves_lifecycle)
        (use 1(2) in \<open>auto simp: same_work_def status_of_def holds_lease_def intro: lifecycle.intros\<close>)
  qed
next
  case (complete i tok result at)
  from complete(2) show ?thesis
  proof (cases rule: Complete_InrE)
    case (1 u)
    show ?thesis unfolding 1(4)
      by (rule put_evolves[OF 1(1) _ assms(3)], rule evolves_lifecycle)
        (use 1(2) in \<open>auto simp: same_work_def status_of_def holds_lease_def intro: lifecycle.intros\<close>)
  qed
next
  case (fail i tok cause requeue at)
  from fail(2) show ?thesis
  proof (cases rule: Fail_InrE)
    case (1 u)
    show ?thesis unfolding 1(3)
      by (rule put_evolves[OF 1(1) _ assms(3)], rule evolves_lifecycle)
        (use 1(2) in \<open>auto simp: same_work_def status_of_def holds_lease_def intro: lifecycle.intros\<close>)
  qed
next
  case (reap now)
  then show ?thesis using assms(3) release_evolves[OF task_inv_wf[OF assms(2,3)]]
    by (simp add: ReleaseExpired_def)
next
  case (cancel i at)
  from cancel(2) show ?thesis
  proof (cases rule: Cancel_InrE)
    case (1 u)
    show ?thesis unfolding 1(3)
      by (rule put_evolves[OF 1(1) _ assms(3)], rule evolves_lifecycle)
        (use 1(2) in \<open>auto simp: same_work_def status_of_def intro: lifecycle.intros\<close>)
  qed
next
  case other
  then show ?thesis using assms(3) by (auto simp: task_at_def)
qed

lemma step_tokens: "step (s, U) (s', U') \<Longrightarrow> U \<subseteq> U'"
  by (cases rule: step.cases) auto

lemma steps_evolve:
  assumes "steps (s, U) w" "task_inv (s, U)" "task_at s k = Some t"
  shows "U \<subseteq> snd w \<and> (\<exists>t'. task_at (fst w) k = Some t' \<and> evolves U t t')"
  using assms(1)
proof (induction rule: rtranclp_induct)
  case base
  then show ?case using assms(3) by simp
next
  case (step v w)
  obtain s1 U1 where v: "v = (s1, U1)" by (cases v)
  obtain s2 U2 where w: "w = (s2, U2)" by (cases w)
  obtain u where u: "U \<subseteq> U1" "task_at s1 k = Some u" "evolves U t u"
    using step.IH v by auto
  have st: "step (s1, U1) (s2, U2)" using step.hyps(2) v w by simp
  have "task_inv (s1, U1)" using steps_inv[OF step.hyps(1) assms(2)] v by simp
  from step_evolves[OF st this u(2)] obtain t' where t': "task_at s2 k = Some t'" "evolves U1 u t'"
    by blast
  have "evolves U t t'" using evolves_trans[OF u(3) u(1) t'(2)] .
  then show ?case using t'(1) u(1) step_tokens[OF st] w by auto
qed

lemma step_new_row:
  assumes "step (s, U) (s', U')" "task_inv (s, U)" "task_at s k = None" "task_at s' k = Some t'"
  shows "t_State t' = TaskQueued"
  using assms(1)
proof (cases rule: step.cases)
  case (submit v clock)
  obtain s'' u e where c: "Create clock s v = (s'', u, e)" by (metis prod_cases3)
  from c submit(3) show ?thesis
    by (cases rule: Create_cases) (use assms(3,4) submit(1,4) c in \<open>auto split: if_splits\<close>)
next
  case (claim tok clock opts)
  obtain s'' r where c: "Claim clock tok s opts = (s'', r)" by fastforce
  from c task_inv_keyed[OF assms(2)] show ?thesis
    by (cases rule: Claim_cases) (use assms(3,4) claim(1) c in \<open>auto split: if_splits\<close>)
next
  case other
  then show ?thesis using assms(3,4) by (simp add: task_at_def)
qed (use assms(3,4) in \<open>auto simp: ReleaseExpired_def split: if_splits
  elim!: Heartbeat_InrE Complete_InrE Fail_InrE Cancel_InrE\<close>)

lemma lifecycle_holds:
  assumes "(lifecycle U)\<^sup>+\<^sup>+ st st'" "st' = Held a tok" "tok \<in> U"
  shows "\<exists>b. st = Held b tok"
  using assms
proof (induction arbitrary: a rule: tranclp_induct)
  case (base y)
  then show ?case by (auto elim: lifecycle_to_HeldE)
next
  case (step y z)
  then have "y = Held a tok" by (auto elim: lifecycle_to_HeldE)
  then show ?case using step by blast
qed

definition nobody_holds :: "string \<Rightarrow> mem \<Rightarrow> bool" where
  "nobody_holds tok s \<longleftrightarrow> (\<forall>k t. task_at s k = Some t \<longrightarrow> \<not> holds_lease t tok)"

lemma stale_step:
  assumes st: "step (s, U) (s', U')" and inv: "task_inv (s, U)"
    and stale: "tok \<in> U" "nobody_holds tok s"
  shows "nobody_holds tok s'"
  unfolding nobody_holds_def
proof (intro allI impI notI)
  fix k t' assume t': "task_at s' k = Some t'" "holds_lease t' tok"
  show False
  proof (cases "task_at s k")
    case None
    then show False using step_new_row[OF st inv None t'(1)] t'(2) by (simp add: holds_lease_def)
  next
    case (Some t)
    then have not: "\<not> holds_lease t tok" using stale(2) by (simp add: nobody_holds_def)
    have "evolves U t t'" using step_evolves[OF st inv Some] t'(1) by auto
    then have "(lifecycle U)\<^sup>+\<^sup>+ (status_of t) (Held (t_Attempts t') tok)"
      using not t'(2) status_held[OF t'(2)] by (auto simp: evolves_def)
    then obtain b where "status_of t = Held b tok" using lifecycle_holds stale(1) by blast
    then show False using status_held_iff[OF task_inv_wf[OF inv Some]] not by blast
  qed
qed

lemma stale_steps:
  assumes "steps (s, U) w" "task_inv (s, U)" "tok \<in> U" "nobody_holds tok s"
  shows "tok \<in> snd w \<and> nobody_holds tok (fst w)"
  using assms(1)
proof (induction rule: rtranclp_induct)
  case base
  then show ?case using assms(3,4) by simp
next
  case (step v w)
  obtain s1 U1 s2 U2 where vw: "v = (s1, U1)" "w = (s2, U2)" by (cases v, cases w)
  have st: "step (s1, U1) (s2, U2)" using step.hyps(2) vw by simp
  have "task_inv (s1, U1)" using steps_inv[OF step.hyps(1) assms(2)] vw by simp
  from stale_step[OF st this] show ?case using step.IH step_tokens[OF st] vw by auto
qed

text \<open>An operation that presents a token nobody holds is refused.\<close>

lemma not_held_refused:
  assumes "nobody_holds tok s" "task_at s i = Some t"
  shows "Heartbeat s i tok until = Inl ErrLeaseLost"
    and "Complete s i tok result at = Inl ErrLeaseLost"
    and "Fail s i tok cause requeue at = Inl ErrLeaseLost"
proof -
  have b: "ByID s i = Inr t" using assms(2) by (simp add: ByID_Inr_iff)
  have c: "checkLease t tok = Inl ErrLeaseLost"
    using assms by (simp add: checkLease_Inl_iff nobody_holds_def)
  show "Heartbeat s i tok until = Inl ErrLeaseLost"
    "Complete s i tok result at = Inl ErrLeaseLost"
    "Fail s i tok cause requeue at = Inl ErrLeaseLost"
    by (simp_all add: Heartbeat_def Complete_def Fail_def b c)
qed

subsection \<open>The dispatch contract\<close>

text \<open>Two pushes to one branch and a pull, submitted to an empty store.\<close>

definition ex_task :: "task_kind \<Rightarrow> string \<Rightarrow> string \<Rightarrow> instant \<Rightarrow> task" where
  "ex_task kind part req at = \<lparr> t_ID = [], t_TenantID = ''default'', t_RequestID = req,
     t_Kind = kind, t_State = OtherState [], t_UserID = ''user-1'', t_WorkspaceID = ''ws-1'',
     t_RepositoryID = ''repo-1'', t_Branch = ''main'', t_PartitionKey = part, t_Payload = [],
     t_Result = [], t_Error = None, t_Attempts = 0, t_Lease = None, t_CreatedAt = at,
     t_UpdatedAt = 0, t_StartedAt = None, t_FinishedAt = None \<rparr>"

definition ex_opts :: "instant \<Rightarrow> claim_options" where
  "ex_opts now = \<lparr> co_Holder = ''worker'', co_Kinds = [], co_LeaseFor = 10, co_Now = now \<rparr>"

definition ex_queued :: mem where
  "ex_queued = fst (Create 1 (fst (Create 1 New_store (ex_task TaskPush ''r:main'' ''req-1'' 100)))
     (ex_task TaskPush ''r:main'' ''req-2'' 101))"

definition ex_claimed :: mem where
  "ex_claimed = fst (Claim 1 ''tok-a'' ex_queued (ex_opts 200))"

definition ex_taken_over :: mem where
  "ex_taken_over = fst (Claim 1 ''tok-b'' ex_claimed (ex_opts 300))"

lemma ex_queued_reachable: "reachable (ex_queued, {})"
proof -
  have 1: "step (New_store, {}) (fst (Create 1 New_store (ex_task TaskPush ''r:main'' ''req-1'' 100)), {})"
    by (rule step.submit) (simp_all add: ex_task_def New_store_def)
  have 2: "step (fst (Create 1 New_store (ex_task TaskPush ''r:main'' ''req-1'' 100)), {}) (ex_queued, {})"
    unfolding ex_queued_def
    by (rule step.submit)
      (simp_all add: ex_task_def New_store_def Create_def nextID_def put_task_def created_task_def
        Let_def)
  show ?thesis unfolding reachable_def using 1 2 by (meson rtranclp.simps)
qed

lemma ex_claimed_reachable: "reachable (ex_claimed, {''tok-a''})"
  unfolding ex_claimed_def
  by (rule reachable_steps[OF ex_queued_reachable r_into_rtranclp]) (rule step.claim, simp)

lemma ex_taken_over_step:
  "step (ex_claimed, {''tok-a''}) (ex_taken_over, {''tok-b'', ''tok-a''})"
  unfolding ex_taken_over_def by (rule step.claim) simp

lemma ex_taken_over_reachable: "reachable (ex_taken_over, {''tok-b'', ''tok-a''})"
  by (rule reachable_steps[OF ex_claimed_reachable r_into_rtranclp[of step, OF ex_taken_over_step]])

text \<open>
  Claim C14. Pushes to one branch are serialized. However submissions, claims, heartbeats, completions,
  failures, expiries and cancellations interleave, at most one task with a given non-empty partition
  key is running, and no two running tasks share a token. A push carries the key of its branch; a pull
  has none, and any number of pulls run beside each other and beside a push.
\<close>
theorem partition_exclusion:
  assumes "reachable (s, U)" "task_at s k = Some t" "task_at s k' = Some t'"
    and "t_State t = TaskRunning" "t_State t' = TaskRunning"
    and "t_PartitionKey t = t_PartitionKey t' \<and> t_PartitionKey t \<noteq> []
      \<or> (\<exists>l l'. t_Lease t = Some l \<and> t_Lease t' = Some l' \<and> l_Token l = l_Token l')"
  shows "k = k'"
proof (rule ccontr)
  assume "k \<noteq> k'"
  then have "compatible t t'"
    using task_inv_compatible[OF reachable_inv[OF assms(1)] assms(2,3)] by simp
  then show False using assms(4-6) by (auto simp: compatible_def running_def holds_lease_def)
qed

theorem partition_exclusion_witness:
  "\<exists>t. task_at ex_claimed ''task-1'' = Some t \<and> t_State t = TaskRunning \<and>
     (\<forall>k' t'. task_at ex_claimed k' = Some t' \<longrightarrow> t_State t' = TaskRunning \<longrightarrow>
        t_PartitionKey t' = ''r:main'' \<longrightarrow> k' = ''task-1'')"
proof -
  have "map_option (\<lambda>t. (t_State t, t_PartitionKey t)) (task_at ex_claimed ''task-1'')
      = Some (TaskRunning, ''r:main'')"
    by code_simp
  then obtain t where t: "task_at ex_claimed ''task-1'' = Some t" "t_State t = TaskRunning"
    "t_PartitionKey t = ''r:main''" by auto
  have "k' = ''task-1''" if "task_at ex_claimed k' = Some t'" "t_State t' = TaskRunning"
    "t_PartitionKey t' = ''r:main''" for k' t'
    by (rule partition_exclusion[OF ex_claimed_reachable that(1) t(1) that(2) t(2)])
      (use that(3) t(3) in simp)
  with t show ?thesis by blast
qed

text \<open>
  Claim C18. Fencing. Once a token has been issued and no task is held under it any more (its lease
  expired, or the task was given back, finished or claimed again), it never becomes valid again:
  after any further operations, a heartbeat, a completion or a failure presenting it for any task
  is refused with \<open>ErrLeaseLost\<close>.
\<close>
theorem stale_token_fenced:
  assumes "reachable (s, U)" "tok \<in> U" "nobody_holds tok s"
    and "steps (s, U) (s', U')" "task_at s' i = Some t"
  shows "Heartbeat s' i tok until = Inl ErrLeaseLost
    \<and> Complete s' i tok result at = Inl ErrLeaseLost
    \<and> Fail s' i tok cause requeue at = Inl ErrLeaseLost"
  using stale_steps[OF assms(4) reachable_inv[OF assms(1)] assms(2,3)] not_held_refused assms(5)
  by simp

text \<open>The lease of \<open>tok-a\<close> expires at 210; at 300 the same task is claimed under \<open>tok-b\<close>.\<close>

lemma nobody_holds_code:
  "nobody_holds tok s \<longleftrightarrow> list_all (\<lambda>(k, t). \<not> (t_State t = TaskRunning \<and>
     (case t_Lease t of None \<Rightarrow> False | Some l \<Rightarrow> l_Token l = tok))) (m_tasks s)" if "keyed s"
  using that
  by (fastforce simp: nobody_holds_def list_all_iff task_at_iff holds_lease_def
      split: option.splits)

theorem stale_token_fenced_witness:
  "Complete ex_taken_over ''task-1'' ''tok-a'' [] 301 = Inl ErrLeaseLost \<and>
   Complete ex_taken_over ''task-1'' ''tok-b'' [] 301 \<noteq> Inl ErrLeaseLost"
proof -
  have k: "keyed ex_taken_over" by code_simp
  have n: "nobody_holds ''tok-a'' ex_taken_over" unfolding nobody_holds_code[OF k] by code_simp
  have t: "task_at ex_taken_over ''task-1'' \<noteq> None" by code_simp
  have h: "isl (Complete ex_taken_over ''task-1'' ''tok-b'' [] 301) = False" by code_simp
  obtain t where "task_at ex_taken_over ''task-1'' = Some t" using t by auto
  from stale_token_fenced[OF ex_taken_over_reachable _ n rtranclp.rtrancl_refl this]
  show ?thesis using h by auto
qed

text \<open>
  FIFO dispatch. A successful claim first releases every lapsed lease, then takes the
  oldest task that is queued, of a wanted kind and whose partition has nothing running; it leases
  exactly that task and leaves every other one as the release left it.
\<close>
theorem claim_takes_oldest:
  assumes "keyed s" "Claim clock tok s opts = (s', Inr t)"
  shows "\<exists>k u. let s1 = fst (ReleaseExpired s (claim_now clock opts)) in
    task_at s1 k = Some u \<and> dispatchable (co_Kinds opts) s1 u \<and>
    (\<forall>k' u'. task_at s1 k' = Some u' \<longrightarrow> dispatchable (co_Kinds opts) s1 u' \<longrightarrow> age u \<le> age u') \<and>
    t = leased opts (claim_now clock opts) tok u \<and>
    (\<forall>j. task_at s' j = (if j = k then Some t else task_at s1 j))"
  using assms(2,1)
proof (cases rule: Claim_cases)
  case (some k u)
  then show ?thesis
    unfolding ReleaseExpired_def Let_def by (intro exI[of _ k] exI[of _ u]) simp
qed simp

theorem claim_takes_oldest_witness:
  "map_option t_ID (task_at ex_queued ''task-2'') = Some ''task-2'' \<and>
   map_sum (\<lambda>e. e) t_ID (snd (Claim 1 ''tok-a'' ex_queued (ex_opts 200))) = Inr ''task-1'' \<and>
   (\<exists>k u. task_at (fst (ReleaseExpired ex_queued 200)) k = Some u \<and> t_ID u = ''task-1'')"
proof -
  have k: "keyed ex_queued" by code_simp
  have 1: "map_option t_ID (task_at ex_queued ''task-2'') = Some ''task-2''" by code_simp
  have 2: "map_sum (\<lambda>e. e) t_ID (snd (Claim 1 ''tok-a'' ex_queued (ex_opts 200))) = Inr ''task-1''"
    by code_simp
  then obtain t where t: "snd (Claim 1 ''tok-a'' ex_queued (ex_opts 200)) = Inr t" "t_ID t = ''task-1''"
    by (cases "snd (Claim 1 ''tok-a'' ex_queued (ex_opts 200))") auto
  then have "Claim 1 ''tok-a'' ex_queued (ex_opts 200)
      = (fst (Claim 1 ''tok-a'' ex_queued (ex_opts 200)), Inr t)"
    by (metis prod.collapse)
  from claim_takes_oldest[OF k this] obtain k u where
    "task_at (fst (ReleaseExpired ex_queued (claim_now 1 (ex_opts 200)))) k = Some u"
    "t = leased (ex_opts 200) (claim_now 1 (ex_opts 200)) ''tok-a'' u"
    by (auto simp: Let_def)
  moreover have "claim_now 1 (ex_opts 200) = 200" by code_simp
  ultimately show ?thesis using 1 2 t(2) by auto
qed

text \<open>
  Claim C22. No branch is stranded by a dead worker. When a running task's lease has lapsed and its
  kind is wanted, the next claim at that instant returns a task, and one at least as old, without
  any reaper having to run.
\<close>
theorem dead_worker_recovered:
  assumes "reachable (s, U)" "task_at s k = Some t" "t_State t = TaskRunning"
    and "Expired (t_Lease t) (claim_now clock opts)"
    and "co_Kinds opts = [] \<or> t_Kind t \<in> set (co_Kinds opts)"
  shows "\<exists>u. snd (Claim clock tok s opts) = Inr u \<and> age u \<le> age t"
proof -
  let ?now = "claim_now clock opts"
  let ?s1 = "fst (releaseExpiredLocked ?now s)"
  have inv: "task_inv (s, U)" by (rule reachable_inv[OF assms(1)])
  have t1: "task_at ?s1 k = Some (release_one ?now t)" using assms(2) by simp
  have q: "t_State (release_one ?now t) = TaskQueued" using assms(3,4) by (simp add: release_one_def)
  have "t_PartitionKey u \<noteq> t_PartitionKey t"
    if u: "task_at ?s1 j = Some u" "t_State u = TaskRunning" and p: "t_PartitionKey t \<noteq> []" for j u
  proof -
    obtain v where v: "task_at s j = Some v" "u = release_one ?now v" using u(1) by auto
    have rv: "running v" using u(2) v(2) release_one_running by (simp add: running_def)
    have "j \<noteq> k" using t1 u q by auto
    from task_inv_compatible[OF inv v(1) assms(2) this] show ?thesis
      using rv assms(3) p v(2) by (auto simp: compatible_def running_def)
  qed
  then have d: "dispatchable (co_Kinds opts) ?s1 (release_one ?now t)"
    using q assms(5) by (auto simp: dispatchable_def)
  obtain s' r where c: "Claim clock tok s opts = (s', r)" by fastforce
  from c task_inv_keyed[OF inv] show ?thesis
  proof (cases rule: Claim_cases)
    case none
    then show ?thesis using t1 d by blast
  next
    case (some j u)
    have "age u \<le> age (release_one ?now t)" using some(3)[OF t1 d] .
    then show ?thesis using c some(5) by simp
  qed
qed

theorem dead_worker_recovered_witness:
  "\<exists>u. snd (Claim 1 ''tok-b'' ex_claimed (ex_opts 300)) = Inr u \<and> age u \<le> (100, ''task-1'')"
proof -
  have "map_option (\<lambda>t. (t_State t, Expired (t_Lease t) (claim_now 1 (ex_opts 300)), age t))
      (task_at ex_claimed ''task-1'') = Some (TaskRunning, True, (100, ''task-1''))"
    by code_simp
  then obtain t where t: "task_at ex_claimed ''task-1'' = Some t" "t_State t = TaskRunning"
    "Expired (t_Lease t) (claim_now 1 (ex_opts 300))" "age t = (100, ''task-1'')" by auto
  have "co_Kinds (ex_opts 300) = []" by (simp add: ex_opts_def)
  then show ?thesis
    using dead_worker_recovered[OF ex_claimed_reachable t(1-3), of "''tok-b''"] t(4) by simp
qed

text \<open>
  Claim C19. The store refines the lifecycle of a single task. Over any run, a task is never lost
  and never changes what it is (owner, request, kind, branch, partition, payload, age); its status
  only moves along the specification, where a grant uses a token that was not issued before and
  costs one attempt; and a task in a terminal state is never touched again, in any field.
\<close>
theorem task_lifecycle_refinement:
  assumes "reachable (s, U)" "steps (s, U) (s', U')" "task_at s k = Some t"
  shows "\<exists>t'. task_at s' k = Some t' \<and> same_work t t' \<and>
    (lifecycle U)\<^sup>*\<^sup>* (status_of t) (status_of t') \<and> (Terminal (t_State t) \<longrightarrow> t' = t)"
proof -
  obtain t' where t': "task_at s' k = Some t'" "evolves U t t'"
    using steps_evolve[OF assms(2) reachable_inv[OF assms(1)] assms(3)] by auto
  have "t' = t" if "Terminal (t_State t)"
  proof -
    have "\<exists>x. status_of t = Done x"
      using that by (auto simp: Terminal_def status_of_def split: task_state.splits)
    then show ?thesis using t'(2) lifecycle_Done unfolding evolves_def by metis
  qed
  then show ?thesis using t' by (auto simp: evolves_def tranclp_into_rtranclp)
qed

theorem task_lifecycle_refinement_witness:
  "\<exists>t'. task_at ex_taken_over ''task-1'' = Some t' \<and>
     (lifecycle {''tok-a''})\<^sup>*\<^sup>* (Held 1 ''tok-a'') (status_of t')"
proof -
  have "map_option status_of (task_at ex_claimed ''task-1'') = Some (Held 1 ''tok-a'')" by code_simp
  then obtain t where t: "task_at ex_claimed ''task-1'' = Some t" "status_of t = Held 1 ''tok-a''"
    by auto
  have "steps (ex_claimed, {''tok-a''}) (ex_taken_over, {''tok-b'', ''tok-a''})"
    using ex_taken_over_step by (rule r_into_rtranclp)
  from task_lifecycle_refinement[OF ex_claimed_reachable this t(1)] show ?thesis
    unfolding t(2) by blast
qed

text \<open>
  Idempotent submission. Once a request has been accepted, a later submission by the same
  tenant under the same request id, after any number of other operations, changes nothing and
  returns that same task with \<open>ErrDuplicateRequest\<close>.
\<close>
theorem submission_idempotent:
  assumes "reachable (s, U)" "t_ID t = []" "t_RequestID t \<noteq> []"
    and "step (s, U) (s1, U)" "Create clock s t = (s1, u, e)"
    and "steps (s1, U) (s2, U2)" "same_request t t2"
  shows "\<exists>v. Create clock2 s2 t2 = (s2, v, Some ErrDuplicateRequest) \<and> t_ID v = t_ID u"
proof -
  have r1: "reachable (s1, U)" using reachable_steps[OF assms(1)] assms(4) by blast
  have inv: "task_inv (s, U)" by (rule reachable_inv[OF assms(1)])
  have u: "task_at s1 (t_ID u) = Some u \<and> same_request t u"
    using assms(5,2)
  proof (cases rule: Create_cases)
    case (duplicate k)
    have "task_at s k = Some u" using duplicate(2) task_at_iff[OF task_inv_keyed[OF inv]] by simp
    moreover from this have "t_ID u = k" using task_inv_wf[OF inv] by (auto simp: wf_task_def)
    ultimately show ?thesis using duplicate by simp
  next
    case fresh
    then show ?thesis by (simp add: same_request_def)
  qed
  obtain v where v: "task_at s2 (t_ID u) = Some v" "evolves U u v"
    using steps_evolve[OF assms(6) reachable_inv[OF r1]] u by fastforce
  have inv2: "task_inv (s2, U2)" by (rule reachable_inv[OF reachable_steps[OF r1 assms(6)]])
  have sv: "t_ID v = t_ID u" "same_request t2 v"
    using v(2) u assms(7) by (auto simp: evolves_def same_work_def same_request_def)
  have "find_val (same_request t2) (m_tasks s2) = Some (t_ID u, v)"
  proof (rule find_val_unique)
    show "(t_ID u, v) \<in> set (m_tasks s2)"
      using v(1) task_at_iff[OF task_inv_keyed[OF inv2]] by simp
    show "same_request t2 v" by (rule sv(2))
    show "k' = t_ID u \<and> v' = v" if "(k', v') \<in> set (m_tasks s2)" "same_request t2 v'" for k' v'
    proof -
      have k': "task_at s2 k' = Some v'" using that(1) task_at_iff[OF task_inv_keyed[OF inv2]] by simp
      have "k' = t_ID u"
        using task_inv_compatible[OF inv2 k' v(1)] that(2) sv(2) assms(3,7)
        by (auto simp: compatible_def same_request_def)
      then show ?thesis using k' v(1) by simp
    qed
  qed
  moreover have "t_RequestID t2 \<noteq> []" using assms(3,7) by (simp add: same_request_def)
  ultimately show ?thesis using sv(1) by (simp add: Create_def)
qed

theorem submission_idempotent_witness:
  "\<exists>v. Create 500 ex_taken_over (ex_task TaskPush ''r:main'' ''req-2'' 400)
     = (ex_taken_over, v, Some ErrDuplicateRequest)"
proof -
  let ?s = "fst (Create 1 New_store (ex_task TaskPush ''r:main'' ''req-1'' 100))"
  let ?t = "ex_task TaskPush ''r:main'' ''req-2'' 101"
  have r: "reachable (?s, {})"
    unfolding reachable_def
    by (rule r_into_rtranclp[of step], rule step.submit) (simp_all add: ex_task_def New_store_def)
  have st: "step (?s, {}) (ex_queued, {})"
    unfolding ex_queued_def
    by (rule step.submit)
      (simp_all add: ex_task_def New_store_def Create_def nextID_def put_task_def created_task_def
        Let_def)
  have "step (ex_queued, {}) (ex_claimed, {''tok-a''})"
    unfolding ex_claimed_def by (rule step.claim) simp
  then have run: "steps (ex_queued, {}) (ex_taken_over, {''tok-b'', ''tok-a''})"
    by (rule converse_rtranclp_into_rtranclp[OF _ r_into_rtranclp[of step, OF ex_taken_over_step]])
  obtain s' u e where "Create 1 ?s ?t = (s', u, e)" by (rule prod_cases3)
  moreover from this have "s' = ex_queued" by (simp add: ex_queued_def)
  ultimately have c: "Create 1 ?s ?t = (ex_queued, u, e)" by simp
  have t: "t_ID ?t = []" "t_RequestID ?t \<noteq> []" by (simp_all add: ex_task_def)
  have "same_request ?t (ex_task TaskPush ''r:main'' ''req-2'' 400)"
    by (simp add: ex_task_def same_request_def)
  from submission_idempotent[OF r t st c run this, of 500] show ?thesis by blast
qed

text \<open>
  The position shown to a waiting developer is the number of tasks of the same branch
  that run or were submitted earlier, and position zero means that nothing of that branch stands
  between the task and a worker that takes its kind.
\<close>
theorem queue_position_counts:
  assumes "reachable (s, U)" "task_at s i = Some t" "t_State t = TaskQueued" "t_PartitionKey t \<noteq> []"
  shows "QueuePosition s i = Inr (card {k. \<exists>u. task_at s k = Some u \<and> k \<noteq> i \<and>
      t_PartitionKey u = t_PartitionKey t \<and>
      (t_State u = TaskRunning \<or> t_State u = TaskQueued \<and> age u < age t)})
    \<and> (QueuePosition s i = Inr 0 \<longrightarrow> dispatchable [t_Kind t] s t)"
proof -
  have inv: "task_inv (s, U)" by (rule reachable_inv[OF assms(1)])
  note k = task_inv_keyed[OF inv]
  let ?A = "{k. \<exists>u. task_at s k = Some u \<and> k \<noteq> i \<and> t_PartitionKey u = t_PartitionKey t \<and>
      (t_State u = TaskRunning \<or> t_State u = TaskQueued \<and> age u < age t)}"
  let ?F = "filter (\<lambda>(k, u). ahead_of t u) (m_tasks s)"
  have ID: "t_ID u = j" if "task_at s j = Some u" for j u
    using task_inv_wf[OF inv that] by (simp add: wf_task_def)
  have ahead: "ahead_of t u \<longleftrightarrow> j \<noteq> i \<and> t_PartitionKey u = t_PartitionKey t \<and>
      (t_State u = TaskRunning \<or> t_State u = TaskQueued \<and> age u < age t)"
    if "task_at s j = Some u" for j u
    using ID[OF that] ID[OF assms(2)] by (auto simp: ahead_of_def)
  have "fst ` set ?F = {j. \<exists>u. task_at s j = Some u \<and> ahead_of t u}"
    unfolding task_at_iff[OF k] by force
  also have "\<dots> = ?A" using ahead by (intro Collect_cong ex_cong) blast
  finally have "fst ` set ?F = ?A" .
  moreover have d: "distinct (map fst ?F)"
    using k by (simp add: keyed_def distinct_map_filter)
  ultimately have "length ?F = card ?A"
    using distinct_card[OF d] by simp
  moreover have "length (filter (ahead_of t) (map snd (m_tasks s))) = length ?F"
    by (simp add: filter_map comp_def case_prod_unfold)
  ultimately have pos: "QueuePosition s i = Inr (card ?A)"
    using assms(2-4) ByID_Inr_iff[of s i t] by (simp add: QueuePosition_def)
  have fin: "finite ?A"
  proof (rule finite_subset)
    show "?A \<subseteq> fst ` set (m_tasks s)" unfolding task_at_iff[OF k] by force
  qed simp
  have "dispatchable [t_Kind t] s t" if "QueuePosition s i = Inr 0"
  proof -
    have e: "?A = {}" using that pos fin by simp
    have "t_PartitionKey u \<noteq> t_PartitionKey t" if u: "task_at s j = Some u" "t_State u = TaskRunning"
      for j u
    proof
      assume "t_PartitionKey u = t_PartitionKey t"
      moreover have "j \<noteq> i" using u assms(2,3) by auto
      ultimately have "j \<in> ?A" using u by blast
      then show False using e by blast
    qed
    then show ?thesis using assms(3) by (simp add: dispatchable_def)
  qed
  then show ?thesis using pos by blast
qed

theorem queue_position_counts_witness:
  "QueuePosition ex_claimed ''task-2'' = Inr 1 \<and>
   QueuePosition ex_claimed ''task-2'' = Inr (card {k. \<exists>u. task_at ex_claimed k = Some u \<and>
     k \<noteq> ''task-2'' \<and> t_PartitionKey u = ''r:main'' \<and>
     (t_State u = TaskRunning \<or> t_State u = TaskQueued \<and> age u < (101, ''task-2''))})"
proof -
  have 1: "QueuePosition ex_claimed ''task-2'' = Inr 1" by code_simp
  have "map_option (\<lambda>t. (t_State t, t_PartitionKey t, age t)) (task_at ex_claimed ''task-2'')
      = Some (TaskQueued, ''r:main'', (101, ''task-2''))"
    by code_simp
  then obtain t where t: "task_at ex_claimed ''task-2'' = Some t" "t_State t = TaskQueued"
    "t_PartitionKey t = ''r:main''" "age t = (101, ''task-2'')" by auto
  have "t_PartitionKey t \<noteq> []" using t(3) by simp
  from queue_position_counts[OF ex_claimed_reachable t(1,2) this] show ?thesis
    unfolding t(3,4) using 1 by blast
qed

text \<open>
  The busy set is keyed by the partition key alone: a running push of one tenant keeps
  a push of another tenant off the same repository name and branch, which the tenant-scoped lease
  table of the SQL backends does not do.
\<close>
theorem partition_ignores_tenant:
  assumes "keyed s" "task_at s k = Some t" "t_State t = TaskRunning" "t_PartitionKey t \<noteq> []"
    and "\<not> Expired (t_Lease t) (claim_now clock opts)"
    and "Claim clock tok s opts = (s', Inr u)" "t_TenantID u \<noteq> t_TenantID t"
  shows "t_PartitionKey u \<noteq> t_PartitionKey t"
proof -
  let ?s1 = "fst (releaseExpiredLocked (claim_now clock opts) s)"
  have "task_at ?s1 k = Some t" using assms(2,5) by (simp add: release_one_def)
  note t1 = this
  from assms(6,1) show ?thesis
  proof (cases rule: Claim_cases)
    case (some j v)
    then show ?thesis using t1 assms(3,4) unfolding dispatchable_def
      by (metis leased_fields(4) sum.inject(2))
  qed simp
qed

definition ex_two_tenants :: mem where
  "ex_two_tenants = fst (Create 1 (fst (Create 1 ex_claimed
     ((ex_task TaskPush ''r:main'' ''req-3'' 50)\<lparr> t_TenantID := ''acme'' \<rparr>)))
     ((ex_task TaskPush ''r:dev'' ''req-4'' 60)\<lparr> t_TenantID := ''acme'' \<rparr>))"

theorem partition_ignores_tenant_witness:
  "\<exists>u. snd (Claim 1 ''tok-c'' ex_two_tenants (ex_opts 205)) = Inr u \<and>
     t_TenantID u = ''acme'' \<and> t_PartitionKey u \<noteq> ''r:main''"
proof -
  have k: "keyed ex_two_tenants" by code_simp
  have "map_option (\<lambda>t. (t_State t, t_PartitionKey t, t_TenantID t,
      Expired (t_Lease t) (claim_now 1 (ex_opts 205)))) (task_at ex_two_tenants ''task-1'')
      = Some (TaskRunning, ''r:main'', ''default'', False)"
    by code_simp
  then obtain t where t: "task_at ex_two_tenants ''task-1'' = Some t" "t_State t = TaskRunning"
    "t_PartitionKey t = ''r:main''" "t_TenantID t = ''default''"
    "\<not> Expired (t_Lease t) (claim_now 1 (ex_opts 205))" by auto
  have "map_sum (\<lambda>e. e) t_TenantID (snd (Claim 1 ''tok-c'' ex_two_tenants (ex_opts 205)))
      = Inr ''acme''"
    by code_simp
  then obtain u where u: "snd (Claim 1 ''tok-c'' ex_two_tenants (ex_opts 205)) = Inr u"
    "t_TenantID u = ''acme''"
    by (cases "snd (Claim 1 ''tok-c'' ex_two_tenants (ex_opts 205))") auto
  then obtain s' where "Claim 1 ''tok-c'' ex_two_tenants (ex_opts 205) = (s', Inr u)"
    by (metis prod.collapse)
  from partition_ignores_tenant[OF k t(1,2) _ t(5) this] show ?thesis using t(3,4) u by auto
qed

end
