(* ===== verification/Nit_Queue.thy ===== *)
theory Nit_Queue
  imports Nit_Tasks
begin

text \<open>
  The work queue over a task store (\<open>internal/queue/queue.go\<close>, \<open>worker.go\<close>). The interface
  \<open>store.TaskStore\<close> the queue calls is the record \<open>task_store\<close> of its methods; the in-memory
  backend of \<open>Nit_Tasks\<close> is the instance \<open>memory_tasks\<close>. What the queue relies on is the locale
  \<open>fenced_store\<close>, interpreted on that instance.

  A handle is the claimed task with its token, whether lease renewal has been stopped, and the
  cause its context was cancelled with (the first cancellation wins, as with Go's
  \<open>CancelCauseFunc\<close>). The renewal goroutine is its tick; \<open>stop\<close> waits for it, so no tick follows a
  stop. The time of each call is an argument, as the queue's clock is an option.
\<close>

subsection \<open>The task store interface\<close>

record 's task_store =
  ts_Create :: "instant \<Rightarrow> 's \<Rightarrow> task \<Rightarrow> 's \<times> task option \<times> store_error option"
  ts_ByRequestID :: "'s \<Rightarrow> tenant_id \<Rightarrow> string \<Rightarrow> store_error + task"
  ts_Claim :: "instant \<Rightarrow> string \<Rightarrow> 's \<Rightarrow> claim_options \<Rightarrow> 's \<times> (store_error + task)"
  ts_Heartbeat :: "'s \<Rightarrow> id \<Rightarrow> string \<Rightarrow> instant \<Rightarrow> store_error + 's"
  ts_Complete :: "'s \<Rightarrow> id \<Rightarrow> string \<Rightarrow> bytes \<Rightarrow> instant \<Rightarrow> store_error + 's"
  ts_Fail :: "'s \<Rightarrow> id \<Rightarrow> string \<Rightarrow> protocol_error option \<Rightarrow> bool \<Rightarrow> instant \<Rightarrow> store_error + 's"
  ts_ReleaseExpired :: "'s \<Rightarrow> instant \<Rightarrow> 's \<times> nat"
  ts_QueuePosition :: "'s \<Rightarrow> id \<Rightarrow> store_error + nat"

definition memory_tasks :: "mem task_store" where
  "memory_tasks = \<lparr>
     ts_Create = (\<lambda>clock s t. case Create clock s t of (s', u, e) \<Rightarrow> (s', Some u, e)),
     ts_ByRequestID = ByRequestID,
     ts_Claim = Claim,
     ts_Heartbeat = Heartbeat,
     ts_Complete = Complete,
     ts_Fail = Fail,
     ts_ReleaseExpired = ReleaseExpired,
     ts_QueuePosition = QueuePosition \<rparr>"

subsection \<open>Options and partition keys\<close>

record queue_options =
  q_LeaseFor :: duration
  q_HeartbeatEvery :: duration
  q_MaxAttempts :: int
  q_PollEvery :: duration

definition Second :: duration where "Second = 1000000000"

definition applyDefaults :: "queue_options \<Rightarrow> queue_options" where
  "applyDefaults o0 =
     (let o1 = (if q_LeaseFor o0 \<le> 0 then o0\<lparr> q_LeaseFor := 60 * Second \<rparr> else o0);
          o2 = (if q_HeartbeatEvery o1 \<le> 0
                then o1\<lparr> q_HeartbeatEvery := q_LeaseFor o1 div 3 \<rparr> else o1);
          o3 = (if q_MaxAttempts o2 \<le> 0 then o2\<lparr> q_MaxAttempts := 3 \<rparr> else o2)
      in if q_PollEvery o3 \<le> 0 then o3\<lparr> q_PollEvery := Second \<rparr> else o3)"

definition PartitionKey :: "task_kind \<Rightarrow> string \<Rightarrow> string \<Rightarrow> string" where
  "PartitionKey kind repository branch =
     (if kind \<noteq> TaskPush then [] else repository @ '':'' @ branch)"

subsection \<open>Submission\<close>

definition Queue_Submit ::
  "'s task_store \<Rightarrow> instant \<Rightarrow> 's \<Rightarrow> task \<Rightarrow> 's \<times> (store_error + task option \<times> bool)" where
  "Queue_Submit ts now s t =
     (let t1 = (if t_CreatedAt t = 0 then t\<lparr> t_CreatedAt := now \<rparr> else t);
          t2 = (if t_State t1 = OtherState [] then t1\<lparr> t_State := TaskQueued \<rparr> else t1)
      in case ts_Create ts now s t2 of
           (s', created, None) \<Rightarrow> (s', Inr (created, False))
         | (s', created, Some e) \<Rightarrow>
             if e = ErrDuplicateRequest
             then (case created of
                     Some c \<Rightarrow> (s', Inr (Some c, True))
                   | None \<Rightarrow>
                       (case ts_ByRequestID ts s' (t_TenantID t2) (t_RequestID t2) of
                          Inl e' \<Rightarrow> (s', Inl e')
                        | Inr found \<Rightarrow> (s', Inr (Some found, True))))
             else (s', Inl e))"

subsection \<open>Handles\<close>

datatype cancel_cause = CauseLeaseLost store_error | CauseFinished

record handle =
  h_Task :: task
  h_token :: string
  h_stopped :: bool
  h_cause :: "cancel_cause option"

text \<open>A claim whose task carried no lease would dereference nil; \<open>None\<close> is that panic.\<close>

definition Queue_Claim ::
  "'s task_store \<Rightarrow> queue_options \<Rightarrow> instant \<Rightarrow> string \<Rightarrow> 's \<Rightarrow> string \<Rightarrow> task_kind list \<Rightarrow>
     's \<times> (store_error + handle option)" where
  "Queue_Claim ts opts now tok s holder kinds =
     (case ts_Claim ts now tok s
             \<lparr> co_Holder = holder, co_Kinds = kinds, co_LeaseFor = q_LeaseFor opts, co_Now = now \<rparr> of
        (s', Inl e) \<Rightarrow> (s', Inl e)
      | (s', Inr t) \<Rightarrow>
          (s', Inr (map_option
             (\<lambda>l. \<lparr> h_Task = t, h_token = l_Token l, h_stopped = False, h_cause = None \<rparr>)
             (t_Lease t))))"

definition cancel_with :: "cancel_cause \<Rightarrow> handle \<Rightarrow> handle" where
  "cancel_with c h = (case h_cause h of None \<Rightarrow> h\<lparr> h_cause := Some c \<rparr> | Some _ \<Rightarrow> h)"

text \<open>One tick of the renewal loop; it does nothing once the loop has ended.\<close>

definition keepAlive_tick ::
  "'s task_store \<Rightarrow> queue_options \<Rightarrow> instant \<Rightarrow> 's \<Rightarrow> handle \<Rightarrow> 's \<times> handle" where
  "keepAlive_tick ts opts now s h =
     (if h_stopped h \<or> h_cause h \<noteq> None then (s, h)
      else case ts_Heartbeat ts s (t_ID (h_Task h)) (h_token h) (now + q_LeaseFor opts) of
             Inr s' \<Rightarrow> (s', h)
           | Inl e \<Rightarrow> (s, cancel_with (CauseLeaseLost e) h))"

definition stop :: "cancel_cause \<Rightarrow> handle \<Rightarrow> handle" where
  "stop c h = (if h_stopped h then h else cancel_with c (h\<lparr> h_stopped := True \<rparr>))"

definition Handle_Complete ::
  "'s task_store \<Rightarrow> instant \<Rightarrow> 's \<Rightarrow> handle \<Rightarrow> bytes \<Rightarrow> handle \<times> (store_error + 's)" where
  "Handle_Complete ts now s h result =
     (stop CauseFinished h, ts_Complete ts s (t_ID (h_Task h)) (h_token h) result now)"

definition isPermanent :: "string \<Rightarrow> bool" where
  "isPermanent code =
     (if code = CodeUnauthorizedPaths \<or> code = CodeUnknownRepository
         \<or> code = CodeStaleSyncPoint \<or> code = CodeUnknownSyncPoint
         \<or> code = CodePatchTooLarge \<or> code = CodeUnsupportedVersion
      then True else False)"

definition fail_requeues :: "queue_options \<Rightarrow> handle \<Rightarrow> protocol_error option \<Rightarrow> bool" where
  "fail_requeues opts h cause =
     (let requeue = t_Attempts (h_Task h) < q_MaxAttempts opts
      in case cause of
           None \<Rightarrow> requeue
         | Some e \<Rightarrow> if isPermanent (e_Code e) then False else requeue)"

definition Handle_Fail ::
  "'s task_store \<Rightarrow> queue_options \<Rightarrow> instant \<Rightarrow> 's \<Rightarrow> handle \<Rightarrow> protocol_error option \<Rightarrow>
     handle \<times> (store_error + 's \<times> bool)" where
  "Handle_Fail ts opts now s h cause =
     (let requeue = fail_requeues opts h cause
      in (stop CauseFinished h,
          rbind (ts_Fail ts s (t_ID (h_Task h)) (h_token h) cause requeue now)
            (\<lambda>s'. Inr (s', requeue))))"

definition Handle_Release ::
  "'s task_store \<Rightarrow> instant \<Rightarrow> 's \<Rightarrow> handle \<Rightarrow> handle \<times> (store_error + 's)" where
  "Handle_Release ts now s h =
     (stop CauseFinished h, ts_Fail ts s (t_ID (h_Task h)) (h_token h) None True now)"

definition ReapExpired :: "'s task_store \<Rightarrow> instant \<Rightarrow> 's \<Rightarrow> 's \<times> nat" where
  "ReapExpired ts now s = ts_ReleaseExpired ts s now"

definition Position :: "'s task_store \<Rightarrow> 's \<Rightarrow> id \<Rightarrow> store_error + nat" where
  "Position ts s i = ts_QueuePosition ts s i"

subsection \<open>The runner\<close>

text \<open>
  What a handler's error says: whether it wraps \<open>context.Canceled\<close>, the protocol error it wraps if
  any, and its text.
\<close>

record run_error =
  re_Canceled :: bool
  re_Protocol :: "protocol_error option"
  re_Text :: string

definition asProtocolError :: "run_error \<Rightarrow> protocol_error" where
  "asProtocolError e =
     (case re_Protocol e of
        Some p \<Rightarrow> p
      | None \<Rightarrow> \<lparr> e_Code = ''internal'', e_Message = re_Text e, e_Denials = [], e_RetryAfter = 0 \<rparr>)"

definition Permanent :: "string \<Rightarrow> string \<Rightarrow> protocol_error" where
  "Permanent code message =
     \<lparr> e_Code = code, e_Message = message, e_Denials = [], e_RetryAfter = 0 \<rparr>"

text \<open>
  The part of \<open>execute\<close> after the handler returned; \<open>ctx_done\<close> says whether the worker is being
  shut down. A store error is only logged.
\<close>

definition settle ::
  "'s task_store \<Rightarrow> queue_options \<Rightarrow> instant \<Rightarrow> bool \<Rightarrow> 's \<Rightarrow> handle \<Rightarrow> run_error + bytes \<Rightarrow> 's" where
  "settle ts opts now ctx_done s h outcome =
     (case outcome of
        Inl e \<Rightarrow>
          (if ctx_done \<and> re_Canceled e
           then (case snd (Handle_Release ts now s h) of Inl _ \<Rightarrow> s | Inr s' \<Rightarrow> s')
           else (case snd (Handle_Fail ts opts now s h (Some (asProtocolError e))) of
                   Inl _ \<Rightarrow> s
                 | Inr (s', requeued) \<Rightarrow> s'))
      | Inr result \<Rightarrow>
          (case snd (Handle_Complete ts now s h result) of Inl _ \<Rightarrow> s | Inr s' \<Rightarrow> s'))"

text \<open>
  One turn of \<open>Run\<close>: stop when the context is done, sleep when nothing was claimed, otherwise
  execute. \<open>work\<close> is everything that happens between the claim and the handler's return: the
  handler itself, renewal ticks, and other workers using the same store.
\<close>

datatype turn = Stopped | Slept | Executed handle

definition Run_once ::
  "'s task_store \<Rightarrow> queue_options \<Rightarrow> instant \<Rightarrow> instant \<Rightarrow> string \<Rightarrow> bool \<Rightarrow> bool \<Rightarrow> string \<Rightarrow>
     task_kind list \<Rightarrow> ('s \<Rightarrow> handle \<Rightarrow> 's \<times> handle \<times> (run_error + bytes)) \<Rightarrow> 's \<Rightarrow> 's \<times> turn option"
where
  "Run_once ts opts now later tok ctx_done ctx_done_after holder kinds work s =
     (if ctx_done then (s, Some Stopped)
      else case Queue_Claim ts opts now tok s holder kinds of
             (s', Inl _) \<Rightarrow> (s', Some Slept)
           | (s', Inr None) \<Rightarrow> (s', None)
           | (s', Inr (Some h)) \<Rightarrow>
               (case work s' h of
                  (s2, h2, outcome) \<Rightarrow>
                    (settle ts opts later ctx_done_after s2 h2 outcome, Some (Executed h2))))"

definition Reaper_interval :: "duration \<Rightarrow> duration" where
  "Reaper_interval d = (if d \<le> 0 then 30 * Second else d)"

subsection \<open>What the queue relies on\<close>

definition completed_row :: "bytes \<Rightarrow> instant \<Rightarrow> task \<Rightarrow> task" where
  "completed_row result at t = t\<lparr> t_State := TaskSucceeded, t_Result := result, t_Error := None,
     t_Lease := None, t_UpdatedAt := at, t_FinishedAt := Some at \<rparr>"

definition failed_row :: "protocol_error option \<Rightarrow> bool \<Rightarrow> instant \<Rightarrow> task \<Rightarrow> task" where
  "failed_row cause requeue at t =
     (if requeue
      then t\<lparr> t_Error := cause, t_Lease := None, t_UpdatedAt := at,
              t_State := TaskQueued, t_StartedAt := None \<rparr>
      else t\<lparr> t_Error := cause, t_Lease := None, t_UpdatedAt := at,
              t_State := TaskFailed, t_FinishedAt := Some at \<rparr>)"

text \<open>What the runner records when it still holds the lease, and when it does not.\<close>

definition outcome_row ::
  "queue_options \<Rightarrow> instant \<Rightarrow> bool \<Rightarrow> handle \<Rightarrow> run_error + bytes \<Rightarrow> task \<Rightarrow> task" where
  "outcome_row opts now ctx_done h outcome t =
     (case outcome of
        Inr result \<Rightarrow> completed_row result now t
      | Inl e \<Rightarrow>
          if ctx_done \<and> re_Canceled e then failed_row None True now t
          else failed_row (Some (asProtocolError e))
                 (fail_requeues opts h (Some (asProtocolError e))) now t)"

text \<open>
  The contract: the holder of the current token, and nobody else, can finish or give back a task,
  and doing so changes that row only; a claim returns the row as it now stands, held under the
  drawn token, one attempt later.
\<close>

locale fenced_store =
  fixes ts :: "'s task_store"
    and row :: "'s \<Rightarrow> id \<Rightarrow> task option"
    and good :: "'s \<Rightarrow> bool"
  assumes claim_holds: "good s \<Longrightarrow> ts_Claim ts clock tok s opts = (s', Inr t) \<Longrightarrow>
      good s' \<and> row s' (t_ID t) = Some t \<and> holds_lease t tok \<and>
      (\<exists>u. row s (t_ID t) = Some u \<and> t_Attempts t = t_Attempts u + 1)"
    and complete_held: "row s i = Some t \<Longrightarrow> holds_lease t tok \<Longrightarrow>
      checkFinishOrder t at = Inr () \<Longrightarrow>
      \<exists>s'. ts_Complete ts s i tok result at = Inr s' \<and>
        row s' = (row s)(i \<mapsto> completed_row result at t)"
    and complete_unheld: "\<forall>t. row s i = Some t \<longrightarrow> \<not> holds_lease t tok \<Longrightarrow>
      \<exists>e. ts_Complete ts s i tok result at = Inl e"
    and fail_held: "row s i = Some t \<Longrightarrow> holds_lease t tok \<Longrightarrow>
      \<exists>s'. ts_Fail ts s i tok cause requeue at = Inr s' \<and>
        row s' = (row s)(i \<mapsto> failed_row cause requeue at t)"
    and fail_unheld: "\<forall>t. row s i = Some t \<longrightarrow> \<not> holds_lease t tok \<Longrightarrow>
      \<exists>e. ts_Fail ts s i tok cause requeue at = Inl e"
begin

text \<open>A successful claim never panics: its handle carries the row and its token.\<close>

lemma claim_handle:
  assumes "good s" "Queue_Claim ts opts now tok s holder kinds = (s', Inr ho)"
  shows "\<exists>h. ho = Some h \<and> h_token h = tok \<and> holds_lease (h_Task h) tok \<and>
    row s' (t_ID (h_Task h)) = Some (h_Task h) \<and>
    (\<exists>u. row s (t_ID (h_Task h)) = Some u \<and> t_Attempts (h_Task h) = t_Attempts u + 1)"
proof -
  let ?o = "\<lparr> co_Holder = holder, co_Kinds = kinds, co_LeaseFor = q_LeaseFor opts, co_Now = now \<rparr>"
  obtain t where t: "ts_Claim ts now tok s ?o = (s', Inr t)"
    and ho: "ho = map_option
      (\<lambda>l. \<lparr> h_Task = t, h_token = l_Token l, h_stopped = False, h_cause = None \<rparr>) (t_Lease t)"
    using assms(2) by (auto simp: Queue_Claim_def split: prod.splits sum.splits)
  from claim_holds[OF assms(1) t] ho show ?thesis by (auto simp: holds_lease_def)
qed

lemma settle_held:
  assumes "row s (t_ID (h_Task h)) = Some t" "holds_lease t (h_token h)"
    "checkFinishOrder t now = Inr ()"
  shows "row (settle ts opts now ctx_done s h outcome)
    = (row s)(t_ID (h_Task h) \<mapsto> outcome_row opts now ctx_done h outcome t)"
proof (cases outcome)
  case (Inl e)
  then show ?thesis
    using fail_held[OF assms(1,2), of None True now]
      fail_held[OF assms(1,2), of "Some (asProtocolError e)"
        "fail_requeues opts h (Some (asProtocolError e))" now]
    by (auto simp: settle_def outcome_row_def Handle_Release_def Handle_Fail_def Let_def)
next
  case (Inr result)
  then show ?thesis
    using complete_held[OF assms, of result]
    by (auto simp: settle_def outcome_row_def Handle_Complete_def)
qed

lemma settle_unheld:
  assumes "\<forall>t. row s (t_ID (h_Task h)) = Some t \<longrightarrow> \<not> holds_lease t (h_token h)"
  shows "settle ts opts now ctx_done s h outcome = s"
proof (cases outcome)
  case (Inl e)
  then show ?thesis
    using fail_unheld[OF assms, where cause = None and requeue = True and at = now]
      fail_unheld[OF assms, where cause = "Some (asProtocolError e)" and at = now
        and requeue = "fail_requeues opts h (Some (asProtocolError e))"]
    by (auto simp: settle_def Handle_Release_def Handle_Fail_def Let_def)
next
  case (Inr result)
  then show ?thesis
    using complete_unheld[OF assms, where result = result and at = now] by (auto simp: settle_def Handle_Complete_def)
qed

end

subsection \<open>The in-memory store keeps the contract\<close>

definition good_rows :: "mem \<Rightarrow> bool" where
  "good_rows s \<longleftrightarrow> keyed s \<and> (\<forall>k t. task_at s k = Some t \<longrightarrow> t_ID t = k)"

lemma good_rowsI:
  "keyed s \<Longrightarrow> (\<And>k t. task_at s k = Some t \<Longrightarrow> t_ID t = k) \<Longrightarrow> good_rows s"
  unfolding good_rows_def by blast

lemma good_rowsD:
  assumes "good_rows s"
  shows good_rows_keyed: "keyed s" and good_rows_id: "task_at s k = Some t \<Longrightarrow> t_ID t = k"
  using assms unfolding good_rows_def by blast+

lemma reachable_good: "reachable (s, U) \<Longrightarrow> good_rows s"
  using task_inv_keyed[OF reachable_inv] task_inv_wf[OF reachable_inv]
  unfolding wf_task_def by (blast intro: good_rowsI)

lemma good_release:
  assumes "good_rows s"
  shows "good_rows (fst (releaseExpiredLocked now s))"
proof (rule good_rowsI)
  show "keyed (fst (releaseExpiredLocked now s))" using good_rows_keyed[OF assms] by simp
  show "t_ID t = k" if "task_at (fst (releaseExpiredLocked now s)) k = Some t" for k t
    using that good_rows_id[OF assms] by fastforce
qed

lemma good_put: "good_rows s \<Longrightarrow> t_ID t = k \<Longrightarrow> good_rows (put_task k t s)"
  by (rule good_rowsI) (auto dest: good_rows_keyed good_rows_id split: if_splits)

lemma Claim_good:
  assumes "good_rows s" "Claim clock tok s opts = (s', Inr t)"
  shows "good_rows s' \<and> task_at s' (t_ID t) = Some t \<and> holds_lease t tok \<and>
    (\<exists>u. task_at s (t_ID t) = Some u \<and> t_Attempts t = t_Attempts u + 1)"
  using assms(2) good_rows_keyed[OF assms(1)]
proof (cases rule: Claim_cases)
  case (some j u)
  note g = good_release[OF assms(1)]
  have t: "t = leased opts (claim_now clock opts) tok u" using some(5) by simp
  have ID: "t_ID t = j" using good_rows_id[OF g some(1)] t by simp
  obtain v where v: "task_at s j = Some v" "u = release_one (claim_now clock opts) v"
    using some(1) by auto
  have "good_rows s'" unfolding some(4) t[symmetric] by (rule good_put[OF g ID])
  moreover have "task_at s' j = Some t" unfolding some(4) t[symmetric] by simp
  ultimately show ?thesis unfolding ID using v t by simp
qed simp

lemma ByID_at: "task_at s i = Some t \<Longrightarrow> ByID s i = Inr t"
  by (simp add: ByID_Inr_iff)

lemma put_row: "task_at (put_task i t s) = (task_at s)(i \<mapsto> t)"
  by (simp add: fun_eq_iff)

lemma unheld_refused:
  assumes "\<forall>t. task_at s i = Some t \<longrightarrow> \<not> holds_lease t tok"
  shows "(\<exists>e. Complete s i tok result at = Inl e) \<and> (\<exists>e. Fail s i tok cause requeue at = Inl e)"
proof (cases "task_at s i")
  case None
  then have "ByID s i = Inl ErrNotFound" by (simp add: ByID_Inl_iff)
  then show ?thesis by (simp add: Complete_def Fail_def)
next
  case (Some t)
  then have "checkLease t tok = Inl ErrLeaseLost" using assms by (simp add: checkLease_Inl_iff)
  then show ?thesis by (simp add: Complete_def Fail_def ByID_at[OF Some])
qed

interpretation memory_queue: fenced_store memory_tasks task_at good_rows
proof unfold_locales
  fix s s' clock tok opts t
  assume "good_rows s" "ts_Claim memory_tasks clock tok s opts = (s', Inr t)"
  then show "good_rows s' \<and> task_at s' (t_ID t) = Some t \<and> holds_lease t tok \<and>
      (\<exists>u. task_at s (t_ID t) = Some u \<and> t_Attempts t = t_Attempts u + 1)"
    using Claim_good by (simp add: memory_tasks_def)
next
  fix s i t tok at result
  assume "task_at s i = Some t" "holds_lease t tok" "checkFinishOrder t at = Inr ()"
  then show "\<exists>s'. ts_Complete memory_tasks s i tok result at = Inr s' \<and>
      task_at s' = (task_at s)(i \<mapsto> completed_row result at t)"
    using checkLease_Inr_iff[of t tok]
    by (simp add: memory_tasks_def Complete_def ByID_at put_row completed_row_def)
next
  fix s i t tok cause requeue at
  assume "task_at s i = Some t" "holds_lease t tok"
  then show "\<exists>s'. ts_Fail memory_tasks s i tok cause requeue at = Inr s' \<and>
      task_at s' = (task_at s)(i \<mapsto> failed_row cause requeue at t)"
    using checkLease_Inr_iff[of t tok]
    by (simp add: memory_tasks_def Fail_def ByID_at put_row failed_row_def Let_def)
qed (use unheld_refused in \<open>simp_all add: memory_tasks_def\<close>)

subsection \<open>Properties of the queue over the in-memory store\<close>

definition ex_qopts :: queue_options where
  "ex_qopts = applyDefaults
     \<lparr> q_LeaseFor = 10, q_HeartbeatEvery = 0, q_MaxAttempts = 2, q_PollEvery = 0 \<rparr>"

definition ex_handle :: handle where
  "ex_handle = (case snd (Queue_Claim memory_tasks ex_qopts 200 ''tok-a'' ex_queued ''worker'' []) of
     Inr (Some h) \<Rightarrow> h
   | _ \<Rightarrow> \<lparr> h_Task = ex_task TaskPush [] [] 0, h_token = [], h_stopped = True, h_cause = None \<rparr>)"

definition ex_error :: "string \<Rightarrow> run_error" where
  "ex_error code = \<lparr> re_Canceled = False, re_Protocol = Some (Permanent code ''boom''), re_Text = [] \<rparr>"

lemma ex_handle_holds:
  "map_option (\<lambda>t. (t_State t, map_option l_Token (t_Lease t), t_Attempts t, t_StartedAt t))
     (task_at ex_claimed (t_ID (h_Task ex_handle)))
   = Some (TaskRunning, Some (h_token ex_handle), 1, Some 200)"
  by code_simp

lemma ex_handle_row:
  obtains t where "task_at ex_claimed (t_ID (h_Task ex_handle)) = Some t"
    "holds_lease t (h_token ex_handle)" "checkFinishOrder t 205 = Inr ()" "t_Attempts t = 1"
  using ex_handle_holds by (auto simp: holds_lease_def checkFinishOrder_def)

text \<open>
  When the handler returns and the worker still holds the lease, exactly the claimed task
  is updated, in one of four ways: succeeded with the result; back on the queue without an error
  when the worker is shutting down; back on the queue with the error when attempts remain and the
  error is not permanent; failed for good with the error otherwise.
\<close>
theorem runner_records_outcome:
  assumes "task_at s (t_ID (h_Task h)) = Some t" "holds_lease t (h_token h)"
    "checkFinishOrder t now = Inr ()"
  shows "\<exists>t'. task_at (settle memory_tasks opts now ctx_done s h outcome)
        = (task_at s)(t_ID (h_Task h) \<mapsto> t') \<and>
      t_Lease t' = None \<and> t_Attempts t' = t_Attempts t \<and>
      (case outcome of
         Inr result \<Rightarrow> t_State t' = TaskSucceeded \<and> t_Result t' = result \<and> t_Error t' = None
       | Inl e \<Rightarrow>
           if ctx_done \<and> re_Canceled e then t_State t' = TaskQueued \<and> t_Error t' = None
           else t_Error t' = Some (asProtocolError e) \<and>
             (if t_Attempts (h_Task h) < q_MaxAttempts opts \<and>
                 e_Code (asProtocolError e) \<notin> {CodeUnauthorizedPaths, CodeUnknownRepository,
                   CodeStaleSyncPoint, CodeUnknownSyncPoint, CodePatchTooLarge,
                   CodeUnsupportedVersion}
              then t_State t' = TaskQueued else t_State t' = TaskFailed))"
  unfolding memory_queue.settle_held[OF assms]
  by (intro exI[of _ "outcome_row opts now ctx_done h outcome t"])
    (auto simp: outcome_row_def completed_row_def failed_row_def fail_requeues_def isPermanent_def
      split: sum.split)

theorem runner_records_outcome_witness:
  "\<exists>t'. task_at (settle memory_tasks ex_qopts 205 False ex_claimed ex_handle (Inr ''done''))
      (t_ID (h_Task ex_handle)) = Some t' \<and> t_State t' = TaskSucceeded \<and> t_Result t' = ''done''"
proof -
  obtain t where t: "task_at ex_claimed (t_ID (h_Task ex_handle)) = Some t"
    "holds_lease t (h_token ex_handle)" "checkFinishOrder t 205 = Inr ()" by (rule ex_handle_row)
  from runner_records_outcome[OF t, of ex_qopts False "Inr ''done''"] show ?thesis by auto
qed

text \<open>
  Claim C23. The retry budget is final. A failure reported on the last allowed attempt, or one whose
  code is permanent, fails the task with that error, and no later operation of any worker ever
  runs or changes it again.
\<close>
theorem retry_budget_final:
  assumes "reachable (s, U)" "task_at s (t_ID (h_Task h)) = Some t" "holds_lease t (h_token h)"
    and "q_MaxAttempts opts \<le> t_Attempts (h_Task h) \<or> isPermanent (e_Code (asProtocolError e))"
    and "\<not> (ctx_done \<and> re_Canceled e)" "checkFinishOrder t now = Inr ()"
    and "steps (settle memory_tasks opts now ctx_done s h (Inl e), U) (s', U')"
  shows "\<exists>t'. task_at s' (t_ID (h_Task h)) = Some t' \<and> t_State t' = TaskFailed \<and>
    t_Error t' = Some (asProtocolError e)"
proof -
  let ?i = "t_ID (h_Task h)"
  let ?s1 = "settle memory_tasks opts now ctx_done s h (Inl e)"
  have no: "\<not> fail_requeues opts h (Some (asProtocolError e))"
    using assms(4) by (auto simp: fail_requeues_def Let_def)
  have row: "task_at ?s1 ?i = Some (failed_row (Some (asProtocolError e)) False now t)"
    using memory_queue.settle_held[OF assms(2,3,6), of opts ctx_done "Inl e"] assms(5) no
    by (auto simp: outcome_row_def)
  have "\<exists>s1. Fail s ?i (h_token h) (Some (asProtocolError e)) False now = Inr s1"
    using memory_queue.fail_held[OF assms(2,3), of "Some (asProtocolError e)" False now]
    by (auto simp: memory_tasks_def)
  then have "Fail s ?i (h_token h) (Some (asProtocolError e)) False now = Inr ?s1"
    using assms(5) no
    by (auto simp: settle_def Handle_Fail_def Let_def memory_tasks_def)
  then have "step (s, U) (?s1, U)" by (rule step.fail)
  then have r1: "reachable (?s1, U)" using reachable_steps[OF assms(1)] by blast
  have "evolves U (failed_row (Some (asProtocolError e)) False now t) t' \<Longrightarrow>
      t' = failed_row (Some (asProtocolError e)) False now t" for t'
    using lifecycle_Done by (fastforce simp: evolves_def status_of_def failed_row_def)
  then have "task_at s' ?i = Some (failed_row (Some (asProtocolError e)) False now t)"
    using steps_evolve[OF assms(7) reachable_inv[OF r1] row] by auto
  then show ?thesis by (simp add: failed_row_def)
qed

theorem retry_budget_final_witness:
  "\<exists>t'. task_at (settle memory_tasks ex_qopts 205 False ex_claimed ex_handle
        (Inl (ex_error CodeUnauthorizedPaths))) (t_ID (h_Task ex_handle)) = Some t' \<and>
     t_State t' = TaskFailed"
proof -
  obtain t where t: "task_at ex_claimed (t_ID (h_Task ex_handle)) = Some t"
    "holds_lease t (h_token ex_handle)" "checkFinishOrder t 205 = Inr ()" by (rule ex_handle_row)
  have "isPermanent (e_Code (asProtocolError (ex_error CodeUnauthorizedPaths)))"
    by (simp add: isPermanent_def asProtocolError_def ex_error_def Permanent_def)
  then show ?thesis
    using retry_budget_final[OF ex_claimed_reachable t(1,2) _ _ t(3) rtranclp.rtrancl_refl,
        of ex_qopts "ex_error CodeUnauthorizedPaths" False]
    by blast
qed

text \<open>
  A worker that lost its lease records nothing and is told. Once no task is held under
  its token, then after any further operations whatever it reports leaves the store as it is, and
  the next renewal tick cancels its handle with a lost lease.
\<close>
theorem lost_lease_records_nothing:
  assumes "reachable (s, U)" "h_token h \<in> U" "nobody_holds (h_token h) s" "steps (s, U) (s', U')"
  shows "settle memory_tasks opts now ctx_done s' h outcome = s' \<and>
    (\<not> h_stopped h \<longrightarrow> h_cause h = None \<longrightarrow>
      (\<exists>e. keepAlive_tick memory_tasks opts now s' h = (s', h\<lparr> h_cause := Some (CauseLeaseLost e) \<rparr>)))"
proof -
  have none: "nobody_holds (h_token h) s'"
    using stale_steps[OF assms(4) reachable_inv[OF assms(1)] assms(2,3)] by simp
  have "\<exists>e. Heartbeat s' i (h_token h) until = Inl e" for i until
  proof (cases "task_at s' i")
    case None
    then show ?thesis by (simp add: Heartbeat_def ByID_Inl_iff[THEN iffD2])
  next
    case (Some t)
    then show ?thesis using not_held_refused(1)[OF none Some] by blast
  qed
  then have "\<exists>e. keepAlive_tick memory_tasks opts now s' h = (s', h\<lparr> h_cause := Some (CauseLeaseLost e) \<rparr>)"
    if "\<not> h_stopped h" "h_cause h = None"
    using that
    by (auto simp: keepAlive_tick_def cancel_with_def memory_tasks_def split: sum.split)
      (metis sum.distinct(1))+
  moreover have "settle memory_tasks opts now ctx_done s' h outcome = s'"
    using none by (intro memory_queue.settle_unheld) (simp add: nobody_holds_def)
  ultimately show ?thesis by blast
qed

theorem lost_lease_records_nothing_witness:
  "settle memory_tasks ex_qopts 305 False ex_taken_over ex_handle (Inr ''late'') = ex_taken_over"
proof -
  have k: "keyed ex_taken_over" by code_simp
  have h: "h_token ex_handle = ''tok-a''" by code_simp
  have n: "nobody_holds ''tok-a'' ex_taken_over" unfolding nobody_holds_code[OF k] by code_simp
  show ?thesis
    using lost_lease_records_nothing[OF ex_taken_over_reachable _ _ rtranclp.rtrancl_refl,
        of ex_handle] h n by simp
qed

text \<open>
  A merge conflict is retried. A handler error carrying the code for a conflict, which the
  worker raises as one that will fail identically every time, puts the task back on the queue
  while attempts remain, since the queue does not list that code among the permanent ones.
\<close>
theorem conflict_is_retried:
  assumes "task_at s (t_ID (h_Task h)) = Some t" "holds_lease t (h_token h)"
    "checkFinishOrder t now = Inr ()"
    and "re_Protocol e = Some (Permanent CodeConflict msg)"
    and "t_Attempts (h_Task h) < q_MaxAttempts opts"
  shows "\<exists>t'. task_at (settle memory_tasks opts now ctx_done s h (Inl e)) (t_ID (h_Task h)) = Some t'
    \<and> t_State t' = TaskQueued"
proof -
  have "\<not> isPermanent CodeConflict"
    by (simp add: isPermanent_def CodeConflict_def CodeUnauthorizedPaths_def
        CodeUnknownRepository_def CodeStaleSyncPoint_def CodeUnknownSyncPoint_def
        CodePatchTooLarge_def CodeUnsupportedVersion_def)
  then have "fail_requeues opts h (Some (asProtocolError e))"
    using assms(4,5) by (simp add: fail_requeues_def asProtocolError_def Permanent_def)
  then show ?thesis
    using memory_queue.settle_held[OF assms(1-3), of opts ctx_done "Inl e"]
    by (simp add: outcome_row_def failed_row_def)
qed

theorem conflict_is_retried_witness:
  "\<exists>t'. task_at (settle memory_tasks ex_qopts 205 False ex_claimed ex_handle
        (Inl (ex_error CodeConflict))) (t_ID (h_Task ex_handle)) = Some t' \<and>
     t_State t' = TaskQueued"
proof -
  obtain t where t: "task_at ex_claimed (t_ID (h_Task ex_handle)) = Some t"
    "holds_lease t (h_token ex_handle)" "checkFinishOrder t 205 = Inr ()" by (rule ex_handle_row)
  have "t_Attempts (h_Task ex_handle) < q_MaxAttempts ex_qopts" by code_simp
  then show ?thesis
    using conflict_is_retried[OF t, of "ex_error CodeConflict" "''boom''" ex_qopts False]
    by (simp add: ex_error_def)
qed

text \<open>
  A shutdown costs an attempt. Claiming a task and releasing it because the worker is
  shutting down returns it to the queue with one attempt more than before, although no failure is
  recorded.
\<close>
theorem release_costs_attempt:
  assumes "reachable (s, U)" "re_Canceled e"
    and "Queue_Claim memory_tasks opts now tok s holder kinds = (s1, Inr (Some h))"
  shows "\<exists>t t'. task_at s (t_ID (h_Task h)) = Some t \<and>
    task_at (settle memory_tasks opts later True s1 h (Inl e)) (t_ID (h_Task h)) = Some t' \<and>
    t_State t' = TaskQueued \<and> t_Error t' = None \<and> t_Attempts t' = t_Attempts t + 1"
proof -
  from memory_queue.claim_handle[OF reachable_good[OF assms(1)] assms(3)]
  obtain u where u: "h_token h = tok" "holds_lease (h_Task h) tok"
    "task_at s1 (t_ID (h_Task h)) = Some (h_Task h)"
    "task_at s (t_ID (h_Task h)) = Some u" "t_Attempts (h_Task h) = t_Attempts u + 1"
    by auto
  from memory_queue.fail_held[OF u(3), of tok None True later] u(2)
  obtain s' where "Fail s1 (t_ID (h_Task h)) tok None True later = Inr s'"
    "task_at s' = (task_at s1)(t_ID (h_Task h) \<mapsto> failed_row None True later (h_Task h))"
    by (auto simp: memory_tasks_def)
  then have "task_at (settle memory_tasks opts later True s1 h (Inl e)) (t_ID (h_Task h))
      = Some (failed_row None True later (h_Task h))"
    using assms(2) u(1) by (simp add: settle_def Handle_Release_def memory_tasks_def)
  then show ?thesis using u(4,5) by (simp add: failed_row_def)
qed

theorem release_costs_attempt_witness:
  "\<exists>t'. task_at (settle memory_tasks ex_qopts 205 True ex_claimed ex_handle
        (Inl \<lparr> re_Canceled = True, re_Protocol = None, re_Text = [] \<rparr>)) (t_ID (h_Task ex_handle))
      = Some t' \<and> t_State t' = TaskQueued \<and> t_Attempts t' = 1"
proof -
  let ?c = "Queue_Claim memory_tasks ex_qopts 200 ''tok-a'' ex_queued ''worker'' []"
  have c: "?c = (ex_claimed, Inr (Some ex_handle))" by code_simp
  have a: "map_option t_Attempts (task_at ex_queued (t_ID (h_Task ex_handle))) = Some 0" by code_simp
  from release_costs_attempt[OF ex_queued_reachable _ c,
      of "\<lparr> re_Canceled = True, re_Protocol = None, re_Text = [] \<rparr>" 205]
  show ?thesis using a by auto
qed

end
