(* ===== verification/Nit_Store.thy ===== *)
theory Nit_Store
  imports Nit_Models Nit_Policy
begin

text \<open>
  The rest of the in-memory backend: users, workspaces, repositories, sync points, artifacts, the
  audit log, policy versions (\<open>internal/store/memory/memory.go\<close>), sessions (\<open>sessions.go\<close>) and
  tenants (\<open>tenants.go\<close>), the reconciliation of a policy bundle into the store
  (\<open>internal/bootstrap/bootstrap.go\<close>) and the paging loop of the audit export
  (\<open>cmd/nitctl/export.go\<close>). Every method is one atomic step on \<open>mem\<close>; the system clock is an
  argument.
\<close>

definition lookup :: "('k \<times> 'v) list \<Rightarrow> 'k \<Rightarrow> store_error + 'v" where
  "lookup m k = (case map_of m k of None \<Rightarrow> Inl ErrNotFound | Some v \<Rightarrow> Inr v)"

definition found :: "('k \<times> 'v) option \<Rightarrow> store_error + 'v" where
  "found r = (case r of None \<Rightarrow> Inl ErrNotFound | Some (k, v) \<Rightarrow> Inr v)"

subsection \<open>Users\<close>

definition User_ByID :: "mem \<Rightarrow> id \<Rightarrow> store_error + store_user" where
  "User_ByID s i = lookup (m_users s) i"

definition is_user :: "tenant_id \<Rightarrow> user_id \<Rightarrow> store_user \<Rightarrow> bool" where
  "is_user tenant pid u = (su_TenantID u = tenant \<and> su_PolicyUserID u = pid)"

definition User_ByPolicyID :: "mem \<Rightarrow> tenant_id \<Rightarrow> user_id \<Rightarrow> store_error + store_user" where
  "User_ByPolicyID s tenant pid = found (find_val (is_user tenant pid) (m_users s))"

definition User_Upsert :: "mem \<Rightarrow> store_user \<Rightarrow> mem \<times> store_user" where
  "User_Upsert s u =
     (case find_val (is_user (su_TenantID u) (su_PolicyUserID u)) (m_users s) of
        Some (k, existing) \<Rightarrow>
          (let updated = u\<lparr> su_ID := k, su_CreatedAt := su_CreatedAt existing \<rparr>
           in (s\<lparr> m_users := AList.update k updated (m_users s) \<rparr>, updated))
      | None \<Rightarrow>
          (let (i, s1) = (if su_ID u = [] then nextID ''user'' s else (su_ID u, s));
               created = u\<lparr> su_ID := i \<rparr>
           in (s1\<lparr> m_users := AList.update i created (m_users s1) \<rparr>, created)))"

subsection \<open>Workspaces\<close>

definition Workspace_ByID :: "mem \<Rightarrow> id \<Rightarrow> store_error + workspace" where
  "Workspace_ByID s i = lookup (m_workspaces s) i"

definition Workspace_ListByUser :: "mem \<Rightarrow> id \<Rightarrow> workspace list" where
  "Workspace_ListByUser s uid =
     sort_key w_ID (filter (\<lambda>w. w_UserID w = uid) (map snd (m_workspaces s)))"

definition Workspace_Create :: "mem \<Rightarrow> workspace \<Rightarrow> mem \<times> workspace" where
  "Workspace_Create s w =
     (let (i, s1) = (if w_ID w = [] then nextID ''ws'' s else (w_ID w, s));
          created = w\<lparr> w_ID := i \<rparr>
      in (s1\<lparr> m_workspaces := AList.update i created (m_workspaces s1) \<rparr>, created))"

definition Workspace_Touch :: "mem \<Rightarrow> id \<Rightarrow> instant \<Rightarrow> store_error + mem" where
  "Workspace_Touch s i at =
     rbind (lookup (m_workspaces s) i) (\<lambda>w.
       Inr (s\<lparr> m_workspaces := AList.update i (w\<lparr> w_LastSeenAt := Some at \<rparr>) (m_workspaces s) \<rparr>))"

subsection \<open>Repositories\<close>

definition Repo_ByID :: "mem \<Rightarrow> id \<Rightarrow> store_error + store_repository" where
  "Repo_ByID s i = lookup (m_repos s) i"

definition is_repo :: "tenant_id \<Rightarrow> repo_id \<Rightarrow> store_repository \<Rightarrow> bool" where
  "is_repo tenant pid r = (sr_TenantID r = tenant \<and> sr_PolicyRepoID r = pid)"

definition Repo_ByPolicyID :: "mem \<Rightarrow> tenant_id \<Rightarrow> repo_id \<Rightarrow> store_error + store_repository" where
  "Repo_ByPolicyID s tenant pid = found (find_val (is_repo tenant pid) (m_repos s))"

definition Repo_List :: "mem \<Rightarrow> tenant_id \<Rightarrow> store_repository list" where
  "Repo_List s tenant =
     sort_key sr_PolicyRepoID (filter (\<lambda>r. sr_TenantID r = tenant) (map snd (m_repos s)))"

text \<open>The index by policy id is built once, before any row is written.\<close>

definition byPolicyID :: "mem \<Rightarrow> tenant_id \<Rightarrow> (repo_id \<times> store_repository) list" where
  "byPolicyID s tenant =
     fold (\<lambda>(k, r) m. if sr_TenantID r = tenant then AList.update (sr_PolicyRepoID r) r m else m)
       (m_repos s) []"

definition reconcile_one ::
  "tenant_id \<Rightarrow> (repo_id \<times> store_repository) list \<Rightarrow> store_repository \<Rightarrow> mem \<Rightarrow> mem" where
  "reconcile_one tenant index incoming s =
     (case map_of index (sr_PolicyRepoID incoming) of
        Some existing \<Rightarrow>
          s\<lparr> m_repos := AList.update (sr_ID existing)
               (incoming\<lparr> sr_ID := sr_ID existing, sr_CreatedAt := sr_CreatedAt existing \<rparr>)
               (m_repos s) \<rparr>
      | None \<Rightarrow>
          (let (i, s1) = (if sr_ID incoming = [] then nextID ''repo'' s else (sr_ID incoming, s))
           in s1\<lparr> m_repos := AList.update i
                   (incoming\<lparr> sr_ID := i, sr_TenantID := tenant \<rparr>) (m_repos s1) \<rparr>))"

definition Reconcile :: "mem \<Rightarrow> tenant_id \<Rightarrow> store_repository list \<Rightarrow> mem" where
  "Reconcile s tenant repos = fold (reconcile_one tenant (byPolicyID s tenant)) repos s"

subsection \<open>Sync points\<close>

definition key_of :: "sync_point \<Rightarrow> sync_key" where
  "key_of sp = (syn_WorkspaceID sp, syn_RepositoryID sp, syn_Branch sp)"

definition Sync_Get :: "mem \<Rightarrow> id \<Rightarrow> id \<Rightarrow> string \<Rightarrow> store_error + sync_point" where
  "Sync_Get s w r b = lookup (m_syncPoints s) (w, r, b)"

definition Sync_Put :: "mem \<Rightarrow> sync_point \<Rightarrow> mem" where
  "Sync_Put s sp =
     (let stored = (case map_of (m_syncPoints s) (key_of sp) of
                      Some existing \<Rightarrow> sp\<lparr> syn_CreatedAt := syn_CreatedAt existing \<rparr>
                    | None \<Rightarrow> sp)
      in s\<lparr> m_syncPoints := AList.update (key_of sp) stored (m_syncPoints s) \<rparr>)"

definition CompareAndSet :: "mem \<Rightarrow> sync_point \<Rightarrow> string \<Rightarrow> store_error + mem" where
  "CompareAndSet s sp expected =
     (let existing = map_of (m_syncPoints s) (key_of sp)
      in if existing = None \<and> expected \<noteq> [] then Inl ErrNotFound
         else if (case existing of None \<Rightarrow> False | Some e \<Rightarrow> syn_UpstreamCommit e \<noteq> expected)
         then Inl ErrConflict
         else
           (let stored = (case existing of
                            Some e \<Rightarrow> sp\<lparr> syn_CreatedAt := syn_CreatedAt e \<rparr>
                          | None \<Rightarrow> sp)
            in Inr (s\<lparr> m_syncPoints := AList.update (key_of sp) stored (m_syncPoints s) \<rparr>)))"

definition Sync_ListByWorkspace :: "mem \<Rightarrow> id \<Rightarrow> sync_point list" where
  "Sync_ListByWorkspace s w =
     sort_key (\<lambda>sp. (syn_RepositoryID sp, syn_Branch sp))
       (map snd (filter (\<lambda>(k, sp). fst k = w) (m_syncPoints s)))"

definition Sync_Delete :: "mem \<Rightarrow> id \<Rightarrow> id \<Rightarrow> string \<Rightarrow> mem" where
  "Sync_Delete s w r b = s\<lparr> m_syncPoints := AList.delete (w, r, b) (m_syncPoints s) \<rparr>"

subsection \<open>Artifacts\<close>

definition is_artifact :: "tenant_id \<Rightarrow> string \<Rightarrow> artifact \<Rightarrow> bool" where
  "is_artifact tenant digest a = (a_TenantID a = tenant \<and> a_Digest a = digest)"

definition Artifact_ByDigest :: "mem \<Rightarrow> tenant_id \<Rightarrow> string \<Rightarrow> store_error + artifact" where
  "Artifact_ByDigest s tenant digest = found (find_val (is_artifact tenant digest) (m_artifacts s))"

definition Artifact_Create :: "mem \<Rightarrow> artifact \<Rightarrow> mem \<times> artifact" where
  "Artifact_Create s a =
     (case find_val (is_artifact (a_TenantID a) (a_Digest a)) (m_artifacts s) of
        Some (k, existing) \<Rightarrow> (s, existing)
      | None \<Rightarrow>
          (let (i, s1) = (if a_ID a = [] then nextID ''artifact'' s else (a_ID a, s));
               created = a\<lparr> a_ID := i \<rparr>
           in (s1\<lparr> m_artifacts := AList.update i created (m_artifacts s1) \<rparr>, created)))"

definition Artifact_Expired :: "mem \<Rightarrow> instant \<Rightarrow> int \<Rightarrow> artifact list" where
  "Artifact_Expired s now limit =
     limited limit (sort_key a_ID
       (filter (\<lambda>a. case a_ExpiresAt a of None \<Rightarrow> False | Some e \<Rightarrow> \<not> now < e)
         (map snd (m_artifacts s))))"

definition Artifact_Delete :: "mem \<Rightarrow> id \<Rightarrow> mem" where
  "Artifact_Delete s i = s\<lparr> m_artifacts := AList.delete i (m_artifacts s) \<rparr>"

subsection \<open>The audit log\<close>

record audit_query =
  aq_Tenant :: tenant_id
  aq_ActorUserID :: id
  aq_RepositoryID :: id
  aq_RequestID :: string
  aq_Since :: instant
  aq_Until :: instant
  aq_AfterID :: int
  aq_Oldest :: bool
  aq_Limit :: int

definition append_one :: "instant \<Rightarrow> audit_record \<Rightarrow> mem \<Rightarrow> mem" where
  "append_one clock r s =
     (let n = m_auditSeq s + 1;
          stored = r\<lparr> ar_ID := n,
                      ar_OccurredAt := (if ar_OccurredAt r = 0 then clock else ar_OccurredAt r) \<rparr>
      in s\<lparr> m_auditSeq := n, m_audit := m_audit s @ [stored] \<rparr>)"

definition Audit_Append :: "instant \<Rightarrow> mem \<Rightarrow> audit_record list \<Rightarrow> mem" where
  "Audit_Append clock s rs = fold (append_one clock) rs s"

definition audit_match :: "audit_query \<Rightarrow> audit_record \<Rightarrow> bool" where
  "audit_match q r =
     (if aq_Tenant q \<noteq> [] \<and> ar_TenantID r \<noteq> aq_Tenant q then False
      else if aq_ActorUserID q \<noteq> [] \<and> ar_ActorUserID r \<noteq> aq_ActorUserID q then False
      else if aq_RepositoryID q \<noteq> [] \<and> ar_RepositoryID r \<noteq> aq_RepositoryID q then False
      else if aq_RequestID q \<noteq> [] \<and> ar_RequestID r \<noteq> aq_RequestID q then False
      else if aq_Since q \<noteq> 0 \<and> ar_OccurredAt r < aq_Since q then False
      else if aq_Until q \<noteq> 0 \<and> ar_OccurredAt r > aq_Until q then False
      else if aq_AfterID q > 0 \<and> ar_ID r \<le> aq_AfterID q then False
      else True)"

definition Audit_Query :: "mem \<Rightarrow> audit_query \<Rightarrow> audit_record list" where
  "Audit_Query s q =
     limited (aq_Limit q)
       ((if aq_Oldest q then (\<lambda>xs. xs) else rev)
         (sort_key ar_ID (filter (audit_match q) (m_audit s))))"

definition CountAuditBefore :: "mem \<Rightarrow> instant \<Rightarrow> nat" where
  "CountAuditBefore s before = length (filter (\<lambda>r. ar_OccurredAt r < before) (m_audit s))"

definition PruneAudit :: "mem \<Rightarrow> instant \<Rightarrow> mem \<times> nat" where
  "PruneAudit s before =
     (s\<lparr> m_audit := filter (\<lambda>r. \<not> ar_OccurredAt r < before) (m_audit s) \<rparr>,
      length (filter (\<lambda>r. ar_OccurredAt r < before) (m_audit s)))"

text \<open>
  The export reads page after page from a cursor until one comes back empty. Its turns are
  bounded by fuel, since nothing in the loop itself bounds them.
\<close>

fun export_loop :: "nat \<Rightarrow> mem \<Rightarrow> audit_query \<Rightarrow> int \<Rightarrow> (audit_record list \<times> int) option" where
  "export_loop 0 s q cursor = None"
| "export_loop (Suc fuel) s q cursor =
     (let page = Audit_Query s (q\<lparr> aq_AfterID := cursor, aq_Oldest := True \<rparr>)
      in if page = [] then Some ([], cursor)
         else map_option (\<lambda>(rest, c). (page @ rest, c))
                (export_loop fuel s q (ar_ID (last page))))"

subsection \<open>Policy versions\<close>

definition version_key :: "tenant_id \<Rightarrow> string \<Rightarrow> string" where
  "version_key tenant version = tenant @ [CHR 0x00] @ version"

definition Version_Record :: "instant \<Rightarrow> mem \<Rightarrow> policy_version \<Rightarrow> mem" where
  "Version_Record now s v =
     (let key = version_key (pv_TenantID v) (pv_Version v)
      in case map_of (m_policyVersions s) key of
           Some existing \<Rightarrow>
             s\<lparr> m_policyVersions :=
                  AList.update key (existing\<lparr> pv_LastLoadedAt := now \<rparr>) (m_policyVersions s) \<rparr>
         | None \<Rightarrow>
             s\<lparr> m_policyVersions :=
                  AList.update key (v\<lparr> pv_FirstLoadedAt := now, pv_LastLoadedAt := now \<rparr>)
                    (m_policyVersions s) \<rparr>)"

definition Attach :: "mem \<Rightarrow> tenant_id \<Rightarrow> string \<Rightarrow> string \<Rightarrow> string \<Rightarrow> store_error + mem" where
  "Attach s tenant version ref commit =
     rbind (lookup (m_policyVersions s) (version_key tenant version)) (\<lambda>existing.
       Inr (s\<lparr> m_policyVersions := AList.update (version_key tenant version)
                (existing\<lparr> pv_Ref := ref, pv_Commit := commit \<rparr>) (m_policyVersions s) \<rparr>))"

definition Version_List :: "mem \<Rightarrow> tenant_id \<Rightarrow> int \<Rightarrow> policy_version list" where
  "Version_List s tenant limit =
     limited (if limit \<le> 0 then 50 else limit)
       (rev (sort_key (\<lambda>v. (pv_FirstLoadedAt v, pv_Version v))
         (filter (\<lambda>v. pv_TenantID v = tenant) (map snd (m_policyVersions s)))))"

definition ByVersion :: "mem \<Rightarrow> tenant_id \<Rightarrow> string \<Rightarrow> store_error + policy_version" where
  "ByVersion s tenant version = lookup (m_policyVersions s) (version_key tenant version)"

subsection \<open>Sessions\<close>

definition Session_Create :: "instant \<Rightarrow> mem \<Rightarrow> session \<Rightarrow> mem \<times> session" where
  "Session_Create clock s se =
     (let (i, s1) = (if se_ID se = [] then nextID ''session'' s else (se_ID se, s));
          created = se\<lparr> se_ID := i,
                        se_CreatedAt := (if se_CreatedAt se = 0 then clock else se_CreatedAt se) \<rparr>
      in (s1\<lparr> m_sessions := AList.update i created (m_sessions s1) \<rparr>, created))"

definition ByTokenHash :: "mem \<Rightarrow> bytes \<Rightarrow> store_error + session" where
  "ByTokenHash s hash = found (find_val (\<lambda>se. se_TokenHash se = hash) (m_sessions s))"

definition Session_ByID :: "mem \<Rightarrow> id \<Rightarrow> store_error + session" where
  "Session_ByID s i = lookup (m_sessions s) i"

definition Session_ListByUser :: "mem \<Rightarrow> id \<Rightarrow> session list" where
  "Session_ListByUser s uid =
     sort_key se_CreatedAt (filter (\<lambda>se. se_UserID se = uid) (map snd (m_sessions s)))"

definition Session_Touch :: "mem \<Rightarrow> id \<Rightarrow> instant \<Rightarrow> store_error + mem" where
  "Session_Touch s i at =
     rbind (lookup (m_sessions s) i) (\<lambda>se.
       Inr (s\<lparr> m_sessions := AList.update i (se\<lparr> se_LastUsedAt := Some at \<rparr>) (m_sessions s) \<rparr>))"

definition Revoke :: "mem \<Rightarrow> id \<Rightarrow> instant \<Rightarrow> store_error + mem" where
  "Revoke s i at =
     rbind (lookup (m_sessions s) i) (\<lambda>se.
       Inr (if se_RevokedAt se = None
            then s\<lparr> m_sessions := AList.update i (se\<lparr> se_RevokedAt := Some at \<rparr>) (m_sessions s) \<rparr>
            else s))"

subsection \<open>Tenants\<close>

definition AdminGroups :: "mem \<Rightarrow> tenant_id \<Rightarrow> group_id list" where
  "AdminGroups s tenant = (case map_of (m_adminGroups s) tenant of None \<Rightarrow> [] | Some gs \<Rightarrow> gs)"

definition SetAdminGroups :: "mem \<Rightarrow> tenant_id \<Rightarrow> group_id list \<Rightarrow> mem" where
  "SetAdminGroups s tenant groups =
     s\<lparr> m_adminGroups :=
          AList.update tenant (filter (\<lambda>g. g \<noteq> []) groups) (m_adminGroups s) \<rparr>"

subsection \<open>Reconciling a bundle\<close>

definition defaultBranch :: "string \<Rightarrow> string" where
  "defaultBranch b = (if b = [] then ''main'' else b)"

definition repo_row :: "instant \<Rightarrow> policy \<Rightarrow> tenant_id \<Rightarrow> repository \<Rightarrow> store_repository" where
  "repo_row now p tenant r =
     \<lparr> sr_ID = [], sr_TenantID = tenant, sr_PolicyRepoID = r_ID r, sr_Remote = r_Remote r,
       sr_Forge = r_Forge r, sr_DefaultBranch = defaultBranch (r_DefaultBranch r),
       sr_PolicyVersion = p_version p, sr_CreatedAt = 0, sr_UpdatedAt = now \<rparr>"

definition ReconcilePolicy :: "instant \<Rightarrow> mem \<Rightarrow> policy \<Rightarrow> tenant_id \<Rightarrow> mem" where
  "ReconcilePolicy now s p tenant =
     (let s1 = Version_Record now s
            \<lparr> pv_TenantID = tenant, pv_Version = p_version p, pv_FirstLoadedAt = 0,
              pv_LastLoadedAt = 0, pv_Source = ''policy bundle loaded by this deployment'',
              pv_Ref = [], pv_Commit = [] \<rparr>
      in Reconcile s1 tenant (map (repo_row now p tenant) (Policy_Repositories p)))"

definition ReconcileUser ::
  "instant \<Rightarrow> mem \<Rightarrow> policy \<Rightarrow> tenant_id \<Rightarrow> user_id \<Rightarrow> user_id + mem \<times> store_user" where
  "ReconcileUser now s p tenant i =
     (case Policy_User p i of
        None \<Rightarrow> Inl i
      | Some declared \<Rightarrow>
          Inr (User_Upsert s
            \<lparr> su_ID = [], su_TenantID = tenant, su_PolicyUserID = u_ID declared,
              su_Email = u_Email declared, su_DisplayName = [],
              su_Disabled = u_Disabled declared, su_CreatedAt = 0, su_UpdatedAt = now \<rparr>))"

subsection \<open>Racing operations on one sync point\<close>

definition ex_sync :: "string \<Rightarrow> sync_point" where
  "ex_sync commit = \<lparr> syn_TenantID = ''default'', syn_WorkspaceID = ''ws-1'',
     syn_RepositoryID = ''repo-1'', syn_Branch = ''main'', syn_UpstreamCommit = commit,
     syn_PolicyVersion = ''v1'', syn_CreatedAt = 5, syn_UpdatedAt = 5 \<rparr>"

text \<open>
  Sync points move by compare-and-set. A successful call read the expected commit (or no
  record and an empty expectation), replaced exactly that record, kept its creation time and left
  every other workspace and branch alone; and of two operations that start from the same commit
  the second is refused with \<open>ErrConflict\<close>.
\<close>
theorem sync_point_cas:
  assumes "CompareAndSet s sp expected = Inr s1"
  shows "(case Sync_Get s (syn_WorkspaceID sp) (syn_RepositoryID sp) (syn_Branch sp) of
        Inl e \<Rightarrow> e = ErrNotFound \<and> expected = [] \<and>
          Sync_Get s1 (syn_WorkspaceID sp) (syn_RepositoryID sp) (syn_Branch sp) = Inr sp
      | Inr old \<Rightarrow> syn_UpstreamCommit old = expected \<and>
          Sync_Get s1 (syn_WorkspaceID sp) (syn_RepositoryID sp) (syn_Branch sp)
            = Inr (sp\<lparr> syn_CreatedAt := syn_CreatedAt old \<rparr>))
    \<and> (\<forall>w r b. (w, r, b) \<noteq> key_of sp \<longrightarrow> Sync_Get s1 w r b = Sync_Get s w r b)
    \<and> (\<forall>sp2. key_of sp2 = key_of sp \<longrightarrow> syn_UpstreamCommit sp \<noteq> expected \<longrightarrow>
        CompareAndSet s1 sp2 expected = Inl ErrConflict)"
proof (cases "map_of (m_syncPoints s) (key_of sp)")
  case None
  then have "expected = []" "s1 = s\<lparr> m_syncPoints := AList.update (key_of sp) sp (m_syncPoints s) \<rparr>"
    using assms by (auto simp: CompareAndSet_def Let_def split: if_splits)
  then show ?thesis using None
    by (auto simp: Sync_Get_def lookup_def CompareAndSet_def key_of_def)
next
  case (Some old)
  then have "syn_UpstreamCommit old = expected"
    "s1 = s\<lparr> m_syncPoints := AList.update (key_of sp)
       (sp\<lparr> syn_CreatedAt := syn_CreatedAt old \<rparr>) (m_syncPoints s) \<rparr>"
    using assms by (auto simp: CompareAndSet_def Let_def split: if_splits)
  then show ?thesis using Some
    by (auto simp: Sync_Get_def lookup_def CompareAndSet_def key_of_def)
qed

theorem sync_point_cas_witness:
  "\<exists>s1. CompareAndSet (Sync_Put New_store (ex_sync ''c1'')) (ex_sync ''c2'') ''c1'' = Inr s1 \<and>
     CompareAndSet s1 (ex_sync ''c3'') ''c1'' = Inl ErrConflict"
proof -
  let ?s = "Sync_Put New_store (ex_sync ''c1'')"
  have "isl (CompareAndSet ?s (ex_sync ''c2'') ''c1'') = False" by code_simp
  then obtain s1 where s1: "CompareAndSet ?s (ex_sync ''c2'') ''c1'' = Inr s1"
    by (cases "CompareAndSet ?s (ex_sync ''c2'') ''c1''") auto
  have "key_of (ex_sync ''c3'') = key_of (ex_sync ''c2'')"
    "syn_UpstreamCommit (ex_sync ''c2'') \<noteq> ''c1''"
    by (simp_all add: key_of_def ex_sync_def)
  then show ?thesis using sync_point_cas[OF s1] s1 by blast
qed

subsection \<open>The audit log is append-only and exports completely\<close>

inductive audited :: "mem \<Rightarrow> bool" where
  start: "audited New_store"
| append: "audited s \<Longrightarrow> audited (Audit_Append clock s rs)"
| prune: "audited s \<Longrightarrow> audited (fst (PruneAudit s before))"
| other: "audited s \<Longrightarrow> m_audit s' = m_audit s \<Longrightarrow> m_auditSeq s' = m_auditSeq s \<Longrightarrow> audited s'"

definition audit_inv :: "mem \<Rightarrow> bool" where
  "audit_inv s \<longleftrightarrow> sorted_wrt (<) (map ar_ID (m_audit s)) \<and>
     (\<forall>r \<in> set (m_audit s). 0 < ar_ID r \<and> ar_ID r \<le> m_auditSeq s) \<and> 0 \<le> m_auditSeq s"

lemma append_one_inv: "audit_inv s \<Longrightarrow> audit_inv (append_one clock r s)"
  by (auto simp: audit_inv_def append_one_def Let_def sorted_wrt_append)

lemma Append_inv: "audit_inv s \<Longrightarrow> audit_inv (Audit_Append clock s rs)"
  by (induction rs arbitrary: s) (simp_all add: Audit_Append_def append_one_inv)

lemma sorted_wrt_map_filter:
  "sorted_wrt R (map f xs) \<Longrightarrow> sorted_wrt R (map f (filter P xs))"
  by (induction xs) auto

lemma audited_inv: "audited s \<Longrightarrow> audit_inv s"
proof (induction rule: audited.induct)
  case start
  then show ?case by (simp add: audit_inv_def New_store_def)
next
  case (append s clock rs)
  then show ?case by (simp add: Append_inv)
next
  case (prune s before)
  then show ?case by (auto simp: audit_inv_def PruneAudit_def sorted_wrt_map_filter)
next
  case (other s s')
  then show ?case by (simp add: audit_inv_def)
qed

text \<open>The records of a window after a cursor, in the order they were written.\<close>

definition window :: "mem \<Rightarrow> audit_query \<Rightarrow> int \<Rightarrow> audit_record list" where
  "window s q cursor = filter (audit_match (q\<lparr> aq_AfterID := cursor \<rparr>)) (m_audit s)"

lemma match_after:
  "audit_match (q\<lparr> aq_AfterID := c \<rparr>) r \<longleftrightarrow>
     audit_match (q\<lparr> aq_AfterID := 0 \<rparr>) r \<and> (c \<le> 0 \<or> c < ar_ID r)"
  by (auto simp: audit_match_def)

lemma sorted_window: "audit_inv s \<Longrightarrow> sorted_wrt (<) (map ar_ID (window s q c))"
  by (simp add: audit_inv_def window_def sorted_wrt_map_filter)

lemma page_is_prefix:
  assumes "audit_inv s"
  shows "Audit_Query s (q\<lparr> aq_AfterID := c, aq_Oldest := True \<rparr>) = limited (aq_Limit q) (window s q c)"
proof -
  have m: "audit_match (q\<lparr> aq_AfterID := c, aq_Oldest := True \<rparr>) = audit_match (q\<lparr> aq_AfterID := c \<rparr>)"
    by (auto simp: audit_match_def fun_eq_iff)
  have "sorted (map ar_ID (window s q c))"
    using sorted_window[OF assms] strict_sorted_imp_sorted by blast
  then show ?thesis unfolding Audit_Query_def m window_def by (simp add: sort_key_id_if_sorted)
qed

lemma filter_after_nth:
  fixes f :: "'a \<Rightarrow> int"
  assumes "sorted_wrt (<) (map f xs)" "k < length xs"
  shows "filter (\<lambda>x. f (xs ! k) < f x) xs = drop (Suc k) xs"
  using assms
proof (induction xs arbitrary: k)
  case (Cons x xs)
  show ?case
  proof (cases k)
    case 0
    then show ?thesis using Cons.prems(1) by (auto intro: filter_True)
  next
    case (Suc j)
    then have "j < length xs" using Cons.prems(2) by simp
    moreover have "\<not> f (xs ! j) < f x"
      using Cons.prems(1) \<open>j < length xs\<close> by (auto simp: not_less order_le_less)
    ultimately show ?thesis using Cons Suc by simp
  qed
qed simp

lemma window_after_page:
  assumes inv: "audit_inv s" and ne: "window s q c \<noteq> []"
  defines "page \<equiv> limited (aq_Limit q) (window s q c)"
  shows "page \<noteq> [] \<and> window s q c = page @ window s q (ar_ID (last page))"
proof -
  let ?w = "window s q c"
  obtain k where k: "page = take (Suc k) ?w" "k < length ?w"
  proof (cases "aq_Limit q > 0 \<and> int (length ?w) > aq_Limit q")
    case True
    then have "page = take (Suc (nat (aq_Limit q) - 1)) ?w" by (simp add: page_def limited_def)
    moreover have "nat (aq_Limit q) - 1 < length ?w" using True by linarith
    ultimately show thesis using that by blast
  next
    case False
    then have "page = ?w" by (auto simp: page_def limited_def)
    then show thesis using ne that[of "length ?w - 1"] by simp
  qed
  have last: "last page = ?w ! k" using k by (simp add: take_Suc_conv_app_nth)
  let ?c = "ar_ID (?w ! k)"
  have mem: "?w ! k \<in> set ?w" using k(2) by simp
  then have pos: "0 < ?c" using inv by (auto simp: window_def audit_inv_def)
  have "audit_match (q\<lparr> aq_AfterID := c \<rparr>) (?w ! k)" using mem by (simp add: window_def)
  then have after: "c \<le> 0 \<or> c < ?c" unfolding match_after[where c = c] by blast
  have cut: "audit_match (q\<lparr> aq_AfterID := ?c \<rparr>) r \<longleftrightarrow>
      audit_match (q\<lparr> aq_AfterID := c \<rparr>) r \<and> ?c < ar_ID r" for r
    unfolding match_after[where c = ?c] match_after[where c = c] using pos after by linarith
  have "window s q ?c = filter (\<lambda>r. ?c < ar_ID r) ?w"
    using cut unfolding window_def filter_filter by (rule filter_cong[OF refl])
  also have "\<dots> = drop (Suc k) ?w" by (rule filter_after_nth[OF sorted_window[OF inv] k(2)])
  finally have "?w = page @ window s q ?c" using k(1) by simp
  moreover have "page \<noteq> []" using k by (cases ?w) auto
  ultimately show ?thesis using last by simp
qed

text \<open>
  Claim C25. The audit export is complete and ends. Whatever was appended and pruned before, and for
  every page size, the paging loop needs at most one turn more than there are records, and the
  concatenation of its pages is exactly the records of the window after the cursor, each once, in
  the order they were written.
\<close>
theorem export_complete:
  assumes "audited s" "length (m_audit s) < fuel"
  shows "\<exists>c. export_loop fuel s q cursor
    = Some (filter (audit_match (q\<lparr> aq_AfterID := cursor \<rparr>)) (m_audit s), c)"
proof -
  have inv: "audit_inv s" by (rule audited_inv[OF assms(1)])
  have main: "length (window s q cursor) < fuel \<Longrightarrow>
      \<exists>c. export_loop fuel s q cursor = Some (window s q cursor, c)" for cursor
  proof (induction fuel arbitrary: cursor)
    case (Suc fuel)
    note page = page_is_prefix[OF inv, where q = q and c = cursor]
    show ?case
    proof (cases "window s q cursor = []")
      case True
      then show ?thesis using page by (simp add: limited_def)
    next
      case False
      let ?page = "limited (aq_Limit q) (window s q cursor)"
      have p: "?page \<noteq> []" "window s q cursor = ?page @ window s q (ar_ID (last ?page))"
        using window_after_page[OF inv False] by auto
      have "length (window s q cursor) = length ?page + length (window s q (ar_ID (last ?page)))"
        by (subst p(2)) simp
      then have "length (window s q (ar_ID (last ?page))) < fuel"
        using p(1) Suc.prems by (cases ?page) auto
      from Suc.IH[OF this] show ?thesis using p page by auto
    qed
  qed simp
  have "length (window s q cursor) < fuel"
    using assms(2) length_filter_le[of _ "m_audit s"] unfolding window_def by (rule le_less_trans[rotated])
  from main[OF this] show ?thesis unfolding window_def .
qed

definition ex_audit :: "instant \<Rightarrow> audit_record" where
  "ex_audit at = \<lparr> ar_ID = 0, ar_TenantID = ''default'', ar_OccurredAt = at, ar_ActorUserID = ''user-1'',
     ar_ActorLabel = ''ana'', ar_Action = ''push'', ar_RepositoryID = ''repo-1'', ar_Branch = ''main'',
     ar_Path = ''a'', ar_Effect = EffectAllow, ar_Reason = ReasonAllowedByRule, ar_RuleID = ''r'',
     ar_Guard = [], ar_PolicyVersion = ''v1'', ar_RequestID = [], ar_TaskID = [], ar_Detail = [] \<rparr>"

definition ex_query :: audit_query where
  "ex_query = \<lparr> aq_Tenant = ''default'', aq_ActorUserID = [], aq_RepositoryID = [],
     aq_RequestID = [], aq_Since = 0, aq_Until = 30, aq_AfterID = 0, aq_Oldest = True, aq_Limit = 1 \<rparr>"

definition ex_log :: mem where
  "ex_log = fst (PruneAudit (Audit_Append 1 New_store (map ex_audit [10, 20, 30, 40])) 15)"

theorem export_complete_witness:
  "map_option (\<lambda>(rs, c). map ar_ID rs) (export_loop 5 ex_log ex_query 0) = Some [2, 3]"
proof -
  have a: "audited ex_log" unfolding ex_log_def by (intro audited.intros)
  have l: "length (m_audit ex_log) < 5" by code_simp
  have f: "map ar_ID (filter (audit_match (ex_query\<lparr> aq_AfterID := 0 \<rparr>)) (m_audit ex_log)) = [2, 3]"
    by code_simp
  from export_complete[OF a l, of ex_query 0] show ?thesis using f by auto
qed

subsection \<open>Revocation is permanent\<close>

text \<open>
  The session table under its own operations; a session is created without an identifier, the
  identifiers come from the counter shared by all tables, and every other operation of the store
  leaves the sessions alone.
\<close>

inductive session_step :: "mem \<Rightarrow> mem \<Rightarrow> bool" where
  create: "se_ID se = [] \<Longrightarrow> m_seq s \<noteq> - 1 \<Longrightarrow> session_step s (fst (Session_Create clock s se))"
| touch: "Session_Touch s i at = Inr s' \<Longrightarrow> session_step s s'"
| revoke: "Revoke s i at = Inr s' \<Longrightarrow> session_step s s'"
| other: "m_sessions s' = m_sessions s \<Longrightarrow> m_seq s \<le> m_seq s' \<Longrightarrow> session_step s s'"

definition session_id :: "64 word \<Rightarrow> id" where
  "session_id n = ''session-'' @ itoa (unat n)"

definition session_ids_issued :: "mem \<Rightarrow> bool" where
  "session_ids_issued s \<longleftrightarrow> (\<forall>k \<in> fst ` set (m_sessions s). \<exists>n. n \<le> m_seq s \<and> k = session_id n)"

lemma session_id_inj [simp]: "session_id m = session_id n \<longleftrightarrow> m = n"
  by (simp add: session_id_def itoa_unat_inj)

lemma Session_Create_eq:
  assumes "se_ID se = []"
  shows "fst (Session_Create clock s se) = s\<lparr> m_seq := m_seq s + 1,
    m_sessions := AList.update (session_id (m_seq s + 1))
      (se\<lparr> se_ID := session_id (m_seq s + 1),
           se_CreatedAt := (if se_CreatedAt se = 0 then clock else se_CreatedAt se) \<rparr>)
      (m_sessions s) \<rparr>"
  using assms by (simp add: Session_Create_def nextID_def Let_def session_id_def)

lemma session_update_ids:
  assumes "session_ids_issued s" "map_of (m_sessions s) i = Some x"
  shows "session_ids_issued (s\<lparr> m_sessions := AList.update i y (m_sessions s) \<rparr>)"
  using assms by (auto simp: session_ids_issued_def dest!: map_of_SomeD)

lemma lookup_Inr_iff: "lookup m k = Inr v \<longleftrightarrow> map_of m k = Some v"
  by (auto simp: lookup_def split: option.splits)

lemma session_step_ids:
  assumes "session_step s s'" "session_ids_issued s"
  shows "session_ids_issued s'"
  using assms
proof (cases rule: session_step.cases)
  case (create se clock)
  have "m_seq s \<le> m_seq s + 1" using seq_next[OF create(3)] by simp
  then show ?thesis using assms(2) create(1) Session_Create_eq[OF create(2)]
    by (auto simp: session_ids_issued_def intro: order_trans)
next
  case (touch i at)
  then show ?thesis using assms(2) session_update_ids
    by (auto simp: Session_Touch_def rbind_Inr_iff lookup_Inr_iff)
next
  case (revoke i at)
  then show ?thesis using assms(2) session_update_ids
    by (auto simp: Revoke_def rbind_Inr_iff lookup_Inr_iff split: if_splits)
next
  case other
  then show ?thesis using assms(2) by (auto simp: session_ids_issued_def intro: order_trans)
qed

lemma session_step_revoked:
  assumes "session_step s s'" "session_ids_issued s"
    "map_of (m_sessions s) i = Some se" "se_RevokedAt se = Some at"
  shows "\<exists>se'. map_of (m_sessions s') i = Some se' \<and> se_RevokedAt se' = Some at"
  using assms(1)
proof (cases rule: session_step.cases)
  case (create v clock)
  obtain n where "n \<le> m_seq s" "i = session_id n"
    using assms(2,3) by (force simp: session_ids_issued_def dest: map_of_SomeD)
  then have "i \<noteq> session_id (m_seq s + 1)" using seq_next[OF create(3)] by auto
  then show ?thesis using assms(3,4) create(1) Session_Create_eq[OF create(2)] by simp
next
  case (touch j t)
  then show ?thesis using assms(3,4) by (auto simp: Session_Touch_def rbind_Inr_iff lookup_Inr_iff)
next
  case (revoke j t)
  then show ?thesis using assms(3,4)
    by (auto simp: Revoke_def rbind_Inr_iff lookup_Inr_iff split: if_splits)
next
  case other
  then show ?thesis using assms(3,4) by simp
qed

text \<open>
  A revoked session never authenticates again. Whatever happens to the store afterwards,
  the session keeps the instant of its first revocation and is inactive at every time.
\<close>
theorem revocation_permanent:
  assumes "session_ids_issued s" "Revoke s i at = Inr s1" "session_step\<^sup>*\<^sup>* s1 s2"
  shows "\<exists>se first. map_of (m_sessions s2) i = Some se \<and> se_RevokedAt se = Some first \<and>
    (case map_of (m_sessions s) i of
       Some old \<Rightarrow> first = (case se_RevokedAt old of None \<Rightarrow> at | Some x \<Rightarrow> x) | None \<Rightarrow> False) \<and>
    (\<forall>now. \<not> Active se now)"
proof -
  obtain old where old: "map_of (m_sessions s) i = Some old"
    using assms(2) by (auto simp: Revoke_def rbind_Inr_iff lookup_Inr_iff)
  let ?first = "case se_RevokedAt old of None \<Rightarrow> at | Some x \<Rightarrow> x"
  have r1: "\<exists>se. map_of (m_sessions s1) i = Some se \<and> se_RevokedAt se = Some ?first"
    using assms(2) old by (auto simp: Revoke_def rbind_Inr_iff lookup_Inr_iff)
  have ids1: "session_ids_issued s1"
    using session_step_ids[OF session_step.revoke[OF assms(2)] assms(1)] .
  from assms(3) have "session_ids_issued s2 \<and>
      (\<exists>se. map_of (m_sessions s2) i = Some se \<and> se_RevokedAt se = Some ?first)"
    by (induction rule: rtranclp_induct)
      (use r1 ids1 session_step_ids session_step_revoked in blast)+
  then obtain se where "map_of (m_sessions s2) i = Some se" "se_RevokedAt se = Some ?first" by blast
  then show ?thesis using old by (auto simp: Active_def)
qed

definition ex_sessions :: mem where
  "ex_sessions = fst (Session_Create 1 New_store \<lparr> se_ID = [], se_TenantID = ''default'',
     se_UserID = ''user-1'', se_TokenHash = ''h'', se_Label = [], se_CreatedAt = 0,
     se_ExpiresAt = Some 100, se_LastUsedAt = None, se_RevokedAt = None \<rparr>)"

theorem revocation_permanent_witness:
  "\<exists>s1 se. Revoke ex_sessions ''session-1'' 7 = Inr s1 \<and>
     map_of (m_sessions s1) ''session-1'' = Some se \<and> se_RevokedAt se = Some 7 \<and> \<not> Active se 8"
proof -
  have k: "map fst (m_sessions ex_sessions) = [''session-1''] \<and> m_seq ex_sessions = 1" by code_simp
  have "''session-1'' = session_id 1" by code_simp
  moreover have "fst ` set (m_sessions ex_sessions) = {''session-1''}"
    using k by (metis list.set(1,2) set_map)
  ultimately have ids: "session_ids_issued ex_sessions"
    using k unfolding session_ids_issued_def by auto
  have "map_option se_RevokedAt (map_of (m_sessions ex_sessions) ''session-1'') = Some None" by code_simp
  then obtain old where old: "map_of (m_sessions ex_sessions) ''session-1'' = Some old"
    "se_RevokedAt old = None" by auto
  then obtain s1 where s1: "Revoke ex_sessions ''session-1'' 7 = Inr s1"
    by (simp add: Revoke_def lookup_Inr_iff[THEN iffD2])
  from revocation_permanent[OF ids s1 rtranclp.rtrancl_refl] show ?thesis using old s1 by auto
qed

end
