(* ===== verification/Nit_Message.thy ===== *)
theory Nit_Message
  imports Nit_Models
begin

text \<open>
  The message of the commit a push publishes (\<open>internal/worker/message.go\<close>): the author's text with
  counterfeit \<open>Nit-\<close> lines removed, followed by nit's own trailers. The regular expressions are
  written out as scanners over bytes: the case-insensitive class of the counterfeit pattern
  also accepts the two letters Go's case folding adds to the ASCII ones (the long s and the Kelvin
  sign), and \<open>strings.TrimSpace\<close> removes the UTF-8 encoding of every Unicode space.
\<close>

subsection \<open>The task specification of a push\<close>

record push_spec =
  tp_RequestID :: string
  tp_Repository :: repo_id
  tp_Remote :: string
  tp_Forge :: string
  tp_Branch :: string
  tp_BaseCommit :: string
  tp_PatchDigest :: string
  tp_PatchEncoding :: encoding
  tp_Message :: string
  tp_DroppedFiles :: int
  tp_AuthorName :: string
  tp_AuthorEmail :: string
  tp_UserID :: id
  tp_WorkspaceID :: id
  tp_PolicyUserID :: user_id
  tp_PolicyVersion :: string

subsection \<open>Character classes\<close>

definition blank :: "char \<Rightarrow> bool" where
  "blank c = (c = CHR '' '' \<or> c = CHR 0x09)"

definition letter :: "char \<Rightarrow> bool" where
  "letter c = (CHR ''A'' \<le> c \<and> c \<le> CHR ''Z'' \<or> CHR ''a'' \<le> c \<and> c \<le> CHR ''z'')"

definition name_char :: "char \<Rightarrow> bool" where
  "name_char c = (letter c \<or> CHR ''0'' \<le> c \<and> c \<le> CHR ''9'' \<or> c = CHR ''-'')"

subsection \<open>Counterfeit lines\<close>

function skip_name :: "bytes \<Rightarrow> bytes" where
  "skip_name xs =
     (case xs of
        [] \<Rightarrow> []
      | x # ys \<Rightarrow>
          if name_char x then skip_name ys
          else if prefix [CHR 0xC5, CHR 0xBF] xs then skip_name (drop 2 xs)
          else if prefix [CHR 0xE2, CHR 0x84, CHR 0xAA] xs then skip_name (drop 3 xs)
          else xs)"
  by auto
termination by (relation "measure length") auto

declare skip_name.simps [simp del]

definition nit_prefix :: "bytes \<Rightarrow> bool" where
  "nit_prefix l =
     (length l \<ge> 4 \<and> l ! 0 \<in> {CHR ''N'', CHR ''n''} \<and> l ! 1 \<in> {CHR ''I'', CHR ''i''} \<and>
      l ! 2 \<in> {CHR ''T'', CHR ''t''} \<and> l ! 3 = CHR ''-'')"

text \<open>Whether \<open>counterfeitTrailer\<close> matches a line; a match always covers the whole line.\<close>

definition counterfeit :: "bytes \<Rightarrow> bool" where
  "counterfeit line =
     (let l = dropWhile blank line
      in nit_prefix l \<and>
         (case dropWhile blank (skip_name (drop 4 l)) of [] \<Rightarrow> False | c # _ \<Rightarrow> c = CHR '':''))"

definition strip_counterfeits :: "bytes \<Rightarrow> bytes" where
  "strip_counterfeits m =
     join_with [newline] (map (\<lambda>l. if counterfeit l then [] else l) (split_on newline m))"

text \<open>\<open>\n{3,}\<close> replaced by two newlines.\<close>

fun collapse :: "bytes \<Rightarrow> bytes" where
  "collapse (a # b # c # xs) =
     (if a = newline \<and> b = newline \<and> c = newline then collapse (b # c # xs)
      else a # collapse (b # c # xs))"
| "collapse xs = xs"

definition sanitizeMessage :: "string \<Rightarrow> string \<Rightarrow> string" where
  "sanitizeMessage message branch =
     (let cleaned = TrimSpace (strip_counterfeits message);
          cleaned2 = TrimSpace (collapse cleaned)
      in if cleaned2 = [] then ''nit: push to '' @ branch else cleaned2)"

subsection \<open>Trailers\<close>

definition sanitizeTrailerValue :: "string \<Rightarrow> string" where
  "sanitizeTrailerValue v =
     TrimSpace (map (\<lambda>c. if c = CHR 0x0D \<or> c = newline then CHR '' '' else c) v)"

text \<open>\<open>strings.Split\<close> on two newlines.\<close>

fun split_paragraphs :: "bytes \<Rightarrow> bytes list" where
  "split_paragraphs (a # b # xs) =
     (if a = newline \<and> b = newline then [] # split_paragraphs xs
      else case split_paragraphs (b # xs) of [] \<Rightarrow> [[a]] | p # ps \<Rightarrow> (a # p) # ps)"
| "split_paragraphs xs = [xs]"

definition trailerLine :: "bytes \<Rightarrow> bool" where
  "trailerLine l =
     (case l of
        [] \<Rightarrow> False
      | c # cs \<Rightarrow>
          letter c \<and>
          (case dropWhile name_char cs of
             d # e # _ \<Rightarrow> d = CHR '':'' \<and> blank e
           | _ \<Rightarrow> False))"

definition endsWithTrailerBlock :: "bytes \<Rightarrow> bool" where
  "endsWithTrailerBlock message =
     (let paragraphs = split_paragraphs (TrimSpace message)
      in if length paragraphs = 1 then False
         else list_all trailerLine (split_on newline (last paragraphs)))"

definition appendTrailers :: "bytes \<Rightarrow> bytes \<Rightarrow> bytes" where
  "appendTrailers message block =
     (if block = [] then message
      else message @ (if endsWithTrailerBlock message then [newline] else [newline, newline]) @ block)"

definition trailerUser :: string where "trailerUser = ''Nit-User''"
definition trailerRequest :: string where "trailerRequest = ''Nit-Request''"
definition trailerTask :: string where "trailerTask = ''Nit-Task''"
definition trailerPolicyVersion :: string where "trailerPolicyVersion = ''Nit-Policy-Version''"
definition trailerBaseCommit :: string where "trailerBaseCommit = ''Nit-Base-Commit''"
definition trailerWorkspace :: string where "trailerWorkspace = ''Nit-Workspace''"
definition trailerDropped :: string where "trailerDropped = ''Nit-Dropped''"

definition key_sep :: string where "key_sep = '': ''"

definition trailers :: "push_spec \<Rightarrow> id \<Rightarrow> (string \<times> string) list" where
  "trailers spec tid =
     [(trailerUser, tp_PolicyUserID spec), (trailerRequest, tp_RequestID spec), (trailerTask, tid),
      (trailerPolicyVersion, tp_PolicyVersion spec), (trailerBaseCommit, tp_BaseCommit spec),
      (trailerWorkspace, tp_WorkspaceID spec)]"

definition trailer_lines :: "push_spec \<Rightarrow> id \<Rightarrow> bytes list" where
  "trailer_lines spec tid =
     map (\<lambda>(k, v). k @ key_sep @ sanitizeTrailerValue v)
       (filter (\<lambda>(k, v). sanitizeTrailerValue v \<noteq> []) (trailers spec tid))
     @ (if tp_DroppedFiles spec > 0
        then [trailerDropped @ key_sep @ itoa (nat (tp_DroppedFiles spec))] else [])"

definition trailer_block :: "push_spec \<Rightarrow> id \<Rightarrow> bytes" where
  "trailer_block spec tid = concat (map (\<lambda>l. l @ [newline]) (trailer_lines spec tid))"

definition commitMessage :: "push_spec \<Rightarrow> id \<Rightarrow> string" where
  "commitMessage spec tid =
     appendTrailers (sanitizeMessage (tp_Message spec) (tp_Branch spec)) (trailer_block spec tid)"

subsection \<open>Lines\<close>

abbreviation lines :: "bytes \<Rightarrow> bytes list" where
  "lines \<equiv> split_on newline"

lemma split_on_append:
  "split_on c (a @ b) =
     butlast (split_on c a) @ [last (split_on c a) @ hd (split_on c b)] @ tl (split_on c b)"
proof (induction a)
  case Nil
  then show ?case by simp
next
  case (Cons x a)
  obtain y ys where y: "split_on c a = y # ys"
    using split_on_nonempty[of c a] by (cases "split_on c a") auto
  show ?case
  proof (cases "x = c")
    case True
    then show ?thesis using Cons y by simp
  next
    case False
    then show ?thesis using Cons y by (cases ys) auto
  qed
qed

lemma split_on_subset: "l \<in> set (split_on c xs) \<Longrightarrow> set l \<subseteq> set xs"
  by (induction xs arbitrary: l) (force split: if_splits list.splits)+

lemma tl_lines_suffix: "set (tl (lines ys)) \<subseteq> set (tl (lines (p @ ys)))"
proof -
  have "tl (butlast (lines p) @ [last (lines p) @ hd (lines ys)] @ tl (lines ys))
      = tl (butlast (lines p) @ [last (lines p) @ hd (lines ys)]) @ tl (lines ys)"
    by (cases "butlast (lines p)") auto
  then show ?thesis unfolding split_on_append by auto
qed

text \<open>Cutting a text at its end only shortens its last line.\<close>

lemma lines_prefix:
  assumes "l \<in> set (lines ys)"
  shows "\<exists>z. l @ z \<in> set (lines (ys @ q))"
proof -
  have "lines ys = butlast (lines ys) @ [last (lines ys)]" by simp
  then have "set (lines ys) = set (butlast (lines ys)) \<union> {last (lines ys)}"
    by (metis set_append list.simps(15) empty_set)
  then have "l \<in> set (butlast (lines ys)) \<or> l = last (lines ys)" using assms by auto
  then show ?thesis unfolding split_on_append
    by (metis Un_iff append_Nil2 list.set_intros(1) set_append)
qed

lemma tl_lines_prefix:
  assumes "l \<in> set (tl (lines ys))"
  shows "\<exists>z. l @ z \<in> set (tl (lines (ys @ q)))"
proof -
  obtain x xs where x: "lines ys = x # xs" using assms by (cases "lines ys") auto
  show ?thesis
  proof (cases xs)
    case Nil
    then show ?thesis using assms x by simp
  next
    case (Cons y zs)
    then have ne: "xs \<noteq> []" by simp
    have l: "l \<in> set (butlast xs) \<or> l = last xs"
      using assms x append_butlast_last_id[OF ne] by (metis Un_iff empty_iff empty_set
          list.sel(3) set_ConsD set_append)
    have "tl (lines (ys @ q)) = butlast xs @ [last xs @ hd (lines q)] @ tl (lines q)"
      unfolding split_on_append x using ne by simp
    then show ?thesis using l
      by (metis Un_iff append_Nil2 list.set_intros(1) set_append)
  qed
qed

subsection \<open>Trimming\<close>

lemma trim_left_suffix: "\<exists>p. xs = p @ trim_left ps xs"
proof (induction ps xs rule: trim_left.induct)
  case (1 ps xs)
  show ?case
  proof (cases "strip_one ps xs")
    case None
    then show ?thesis by (subst trim_left.simps) simp
  next
    case (Some ys)
    obtain p where p: "xs = p @ ys" using strip_one_SomeD[OF Some] by auto
    obtain r where "ys = r @ trim_left ps ys" using "1.IH"[OF Some] by auto
    moreover have "trim_left ps xs = trim_left ps ys" by (subst trim_left.simps) (simp add: Some)
    ultimately show ?thesis using p by (metis append.assoc)
  qed
qed

lemma TrimSpace_parts: "\<exists>p q. xs = p @ TrimSpace xs @ q"
proof -
  obtain p where p: "xs = p @ trim_left space_seqs xs" using trim_left_suffix by blast
  obtain q where "rev (trim_left space_seqs xs)
      = q @ trim_left (map rev space_seqs) (rev (trim_left space_seqs xs))"
    using trim_left_suffix by blast
  then have "trim_left space_seqs xs = TrimSpace xs @ rev q"
    unfolding TrimSpace_def by (metis rev_append rev_rev_ident)
  then show ?thesis using p by metis
qed

lemma tl_lines_TrimSpace:
  assumes "l \<in> set (tl (lines (TrimSpace xs)))"
  shows "\<exists>z. l @ z \<in> set (tl (lines xs))"
proof -
  obtain p q where "xs = p @ TrimSpace xs @ q" using TrimSpace_parts by blast
  then show ?thesis
    using tl_lines_prefix[OF assms, of q] tl_lines_suffix[of "TrimSpace xs @ q" p] by auto
qed

lemma set_TrimSpace: "set (TrimSpace xs) \<subseteq> set xs"
  using TrimSpace_parts[of xs] by (metis Un_upper1 Un_upper2 order_trans set_append)

lemma lines_collapse:
  "hd (lines (collapse xs)) = hd (lines xs) \<and> set (tl (lines (collapse xs))) \<subseteq> set (tl (lines xs))"
proof (induction xs rule: collapse.induct)
  case (1 a b c xs)
  obtain y ys where y: "lines (b # c # xs) = y # ys"
    using split_on_nonempty neq_Nil_conv by metis
  obtain z zs where z: "lines (collapse (b # c # xs)) = z # zs"
    using split_on_nonempty neq_Nil_conv by metis
  show ?case
  proof (cases "a = newline \<and> b = newline \<and> c = newline")
    case True
    then have "collapse (a # b # c # xs) = collapse (b # c # xs)" by simp
    moreover have "hd (lines (b # c # xs)) = []" "hd (lines (a # b # c # xs)) = []"
      "set (tl (lines (b # c # xs))) \<subseteq> set (tl (lines (a # b # c # xs)))"
      using True by auto
    ultimately show ?thesis using "1.IH"(1)[OF True] by auto
  next
    case False
    then have e: "collapse (a # b # c # xs) = a # collapse (b # c # xs)" by (simp only: collapse.simps if_False)
    have l: "lines (a # b # c # xs) = (if a = newline then [] # lines (b # c # xs)
        else (a # hd (lines (b # c # xs))) # tl (lines (b # c # xs)))"
      by (simp only: split_on.simps(2)[of newline a "b # c # xs"] y) simp
    have r: "lines (a # collapse (b # c # xs)) = (if a = newline then [] # lines (collapse (b # c # xs))
        else (a # hd (lines (collapse (b # c # xs)))) # tl (lines (collapse (b # c # xs))))"
      by (simp add: z)
    have "set (lines (collapse (b # c # xs))) \<subseteq> set (lines (b # c # xs))"
      using "1.IH"(2)[OF False] y z by auto
    then show ?thesis unfolding e l r using "1.IH"(2)[OF False] by auto
  qed
qed auto

subsection \<open>Counterfeits and cutting\<close>

lemma not_name_char: "blank c \<or> c = CHR '':'' \<Longrightarrow> \<not> name_char c"
  by (auto simp: blank_def name_char_def letter_def less_eq_char_def)

lemma skip_name_name: "name_char x \<Longrightarrow> skip_name (x # xs) = skip_name xs"
  by (subst skip_name.simps) simp

lemma skip_name_long_s: "skip_name (CHR 0xC5 # CHR 0xBF # r) = skip_name r"
  by (subst skip_name.simps) (simp add: name_char_def letter_def less_eq_char_def)

lemma skip_name_kelvin: "skip_name (CHR 0xE2 # CHR 0x84 # CHR 0xAA # r) = skip_name r"
  by (subst skip_name.simps) (simp add: name_char_def letter_def less_eq_char_def)

lemma skip_name_stop:
  "\<not> name_char x \<Longrightarrow> \<not> prefix [CHR 0xC5, CHR 0xBF] (x # xs) \<Longrightarrow>
   \<not> prefix [CHR 0xE2, CHR 0x84, CHR 0xAA] (x # xs) \<Longrightarrow> skip_name (x # xs) = x # xs"
  by (subst skip_name.simps) (simp only: list.case if_False)

lemma skip_name_append:
  assumes "skip_name xs = y # ys" "blank y \<or> y = CHR '':''"
  shows "skip_name (xs @ z) = (y # ys) @ z"
  using assms(1)
proof (induction "length xs" arbitrary: xs rule: less_induct)
  case less
  show ?case
  proof (cases xs)
    case Nil
    then show ?thesis using less.prems by (simp add: skip_name.simps)
  next
    case (Cons x xs')
    consider (name) "name_char x"
      | (long_s) r where "xs = CHR 0xC5 # CHR 0xBF # r"
      | (kelvin) r where "xs = CHR 0xE2 # CHR 0x84 # CHR 0xAA # r"
      | (stop) "\<not> name_char x" "\<not> prefix [CHR 0xC5, CHR 0xBF] xs"
          "\<not> prefix [CHR 0xE2, CHR 0x84, CHR 0xAA] xs"
      by (auto simp: prefix_def)
    then show ?thesis
    proof cases
      case name
      then show ?thesis using less.hyps[of xs'] less.prems Cons by (simp add: skip_name_name)
    next
      case (long_s r)
      then show ?thesis using less.hyps[of r] less.prems by (simp add: skip_name_long_s)
    next
      case (kelvin r)
      then show ?thesis using less.hyps[of r] less.prems by (simp add: skip_name_kelvin)
    next
      case stop
      then have xs: "xs = y # ys" using less.prems skip_name_stop[of x xs'] Cons by simp
      have "y \<noteq> CHR 0xC5" "y \<noteq> CHR 0xE2" using assms(2) by (auto simp: blank_def)
      then show ?thesis
        using skip_name_stop[of y "ys @ z"] not_name_char[OF assms(2)] xs by simp
    qed
  qed
qed

lemma dropWhile_append_nonempty: "dropWhile P xs \<noteq> [] \<Longrightarrow> dropWhile P (xs @ z) = dropWhile P xs @ z"
  by (induction xs) auto

lemma nit_prefix_append: "nit_prefix d \<Longrightarrow> nit_prefix (d @ z)"
  by (auto simp: nit_prefix_def nth_append)

lemma counterfeit_append:
  assumes "counterfeit l"
  shows "counterfeit (l @ z)"
proof -
  let ?d = "dropWhile blank l"
  have n: "nit_prefix ?d" and c: "case dropWhile blank (skip_name (drop 4 ?d)) of
      [] \<Rightarrow> False | c # _ \<Rightarrow> c = CHR '':''"
    using assms by (simp_all add: counterfeit_def Let_def)
  have "?d \<noteq> []" using n unfolding nit_prefix_def by (metis list.size(3) not_numeral_le_zero)
  then have d: "dropWhile blank (l @ z) = ?d @ z" by (rule dropWhile_append_nonempty)
  have len: "4 \<le> length ?d" using n by (simp add: nit_prefix_def)
  have n2: "nit_prefix (?d @ z)" by (rule nit_prefix_append[OF n])
  let ?k = "skip_name (drop 4 ?d)"
  obtain r where r: "dropWhile blank ?k = CHR '':'' # r" using c by (auto split: list.splits)
  then obtain y ys where y: "?k = y # ys" by (cases ?k) auto
  have "blank y \<or> y = CHR '':''" using r y by (cases "blank y") auto
  from skip_name_append[OF y this, of z] have "skip_name (drop 4 (?d @ z)) = ?k @ z"
    using len y by simp
  moreover have "dropWhile blank (?k @ z) = CHR '':'' # r @ z"
    using dropWhile_append_nonempty[of blank ?k z] r by simp
  ultimately show ?thesis using n2 by (simp add: counterfeit_def Let_def d)
qed

lemma counterfeit_blanks:
  assumes "\<forall>c \<in> set b. blank c"
  shows "counterfeit (b @ l) = counterfeit l"
  using assms by (simp add: counterfeit_def dropWhile_append2)

lemma counterfeit_Nil [simp]: "\<not> counterfeit []"
  by (simp add: counterfeit_def nit_prefix_def)

lemma lines_strip:
  "lines (strip_counterfeits m) = map (\<lambda>l. if counterfeit l then [] else l) (lines m)"
  unfolding strip_counterfeits_def
  by (rule split_on_join) (auto simp: split_on_no_sep)

lemma strip_no_counterfeit: "l \<in> set (lines (strip_counterfeits m)) \<Longrightarrow> \<not> counterfeit l"
  by (auto simp: lines_strip split: if_splits)

lemma in_set_tl: "l \<in> set (tl xs) \<Longrightarrow> l \<in> set xs"
  by (cases xs) auto

lemma fallback_line:
  assumes "newline \<notin> set branch"
  shows "lines (''nit: push to '' @ branch) = [''nit: push to '' @ branch]"
    "\<not> counterfeit (''nit: push to '' @ branch)"
  using assms by (simp_all add: counterfeit_def nit_prefix_def blank_def)

lemma sanitized_cases:
  fixes m :: string
  defines "c \<equiv> TrimSpace (collapse (TrimSpace (strip_counterfeits m)))"
  shows "sanitizeMessage m branch = (if c = [] then ''nit: push to '' @ branch else c)"
  unfolding sanitizeMessage_def Let_def c_def by (rule refl)

lemma cleaned_tail:
  assumes "l \<in> set (tl (lines (TrimSpace (collapse (TrimSpace (strip_counterfeits m))))))"
  shows "\<not> counterfeit l"
proof -
  from tl_lines_TrimSpace[OF assms]
  obtain z where "l @ z \<in> set (tl (lines (collapse (TrimSpace (strip_counterfeits m)))))" ..
  from subsetD[OF conjunct2[OF lines_collapse] this]
  have "l @ z \<in> set (tl (lines (TrimSpace (strip_counterfeits m))))" .
  from tl_lines_TrimSpace[OF this]
  obtain z' where "(l @ z) @ z' \<in> set (tl (lines (strip_counterfeits m)))" ..
  from strip_no_counterfeit[OF in_set_tl[OF this]] show ?thesis
    using counterfeit_append[of l "z @ z'"] by auto
qed

lemma sanitized_tail:
  assumes "newline \<notin> set branch" "l \<in> set (tl (lines (sanitizeMessage m branch)))"
  shows "\<not> counterfeit l"
proof (cases "TrimSpace (collapse (TrimSpace (strip_counterfeits m))) = []")
  case True
  have "lines (sanitizeMessage m branch) = [''nit: push to '' @ branch]"
    unfolding sanitized_cases if_P[OF True] by (rule fallback_line(1)[OF assms(1)])
  then show ?thesis using assms(2) by (simp only: list.sel list.set empty_iff)
next
  case False
  then show ?thesis using assms(2) cleaned_tail unfolding sanitized_cases if_not_P[OF False] by blast
qed

subsection \<open>The lines of a commit message\<close>

lemma itoa_no_newline: "newline \<notin> set (itoa n)"
proof (induction n rule: itoa.induct)
  case (1 n)
  have d: "newline \<noteq> digit d" if "d < 10" for d
    using that by (auto simp: digit_def dest!: arg_cong[where f = "of_char :: char \<Rightarrow> nat"])
  show ?case using "1" d[of n] d[of "n mod 10"] by (subst itoa.simps) simp
qed

lemma value_no_newline: "newline \<notin> set (sanitizeTrailerValue v)"
proof -
  have "set (sanitizeTrailerValue v) \<subseteq> set (map (\<lambda>c. if c = CHR 0x0D \<or> c = newline then CHR '' '' else c) v)"
    unfolding sanitizeTrailerValue_def by (rule set_TrimSpace)
  moreover have "newline \<notin> set (map (\<lambda>c. if c = CHR 0x0D \<or> c = newline then CHR '' '' else c) v)"
    by (auto split: if_splits)
  ultimately show ?thesis by blast
qed

lemma trailer_keys_no_newline:
  "newline \<notin> set trailerUser" "newline \<notin> set trailerRequest" "newline \<notin> set trailerTask"
  "newline \<notin> set trailerPolicyVersion" "newline \<notin> set trailerBaseCommit"
  "newline \<notin> set trailerWorkspace" "newline \<notin> set trailerDropped" "newline \<notin> set key_sep"
  by code_simp+

lemma trailer_no_newline:
  assumes "l \<in> set (trailer_lines spec tid)"
  shows "newline \<notin> set l"
proof -
  have keys: "newline \<notin> set k" if "(k, v) \<in> set (trailers spec tid)" for k v
    using that trailer_keys_no_newline by (auto simp: trailers_def)
  have "(\<exists>k v. (k, v) \<in> set (trailers spec tid) \<and> l = k @ key_sep @ sanitizeTrailerValue v) \<or>
      l = trailerDropped @ key_sep @ itoa (nat (tp_DroppedFiles spec))"
    using assms by (auto simp: trailer_lines_def split: if_splits)
  then show ?thesis
    using keys trailer_keys_no_newline(7,8) value_no_newline itoa_no_newline
    by (elim disjE exE conjE) auto
qed

lemma lines_block:
  "\<forall>l \<in> set ls. newline \<notin> set l \<Longrightarrow> lines (concat (map (\<lambda>l. l @ [newline]) ls)) = ls @ [[]]"
  by (induction ls) (auto simp: split_on_append_sep)

lemma lines_commitMessage:
  "\<exists>gap. set gap \<subseteq> {[]} \<and> lines (commitMessage spec tid)
     = lines (sanitizeMessage (tp_Message spec) (tp_Branch spec)) @
       (if trailer_lines spec tid = [] then [] else gap @ trailer_lines spec tid @ [[]])"
proof (cases "trailer_lines spec tid")
  case Nil
  then show ?thesis
    by (intro exI[of _ "[]"]) (simp add: commitMessage_def appendTrailers_def trailer_block_def)
next
  case (Cons x xs)
  let ?m = "sanitizeMessage (tp_Message spec) (tp_Branch spec)"
  have b: "trailer_block spec tid \<noteq> []" using Cons by (simp add: trailer_block_def)
  have lb: "lines (trailer_block spec tid) = trailer_lines spec tid @ [[]]"
    unfolding trailer_block_def by (rule lines_block) (use trailer_no_newline in blast)
  have "lines (?m @ [newline] @ trailer_block spec tid) = lines ?m @ trailer_lines spec tid @ [[]]"
    using split_on_append_sep[of newline ?m "trailer_block spec tid"] lb by simp
  moreover have "lines (?m @ [newline, newline] @ trailer_block spec tid)
      = lines ?m @ [[]] @ trailer_lines spec tid @ [[]]"
    using split_on_append_sep[of newline ?m "newline # trailer_block spec tid"] lb by simp
  ultimately have "lines (commitMessage spec tid) = lines ?m @
      (if endsWithTrailerBlock ?m then [] else [[]]) @ trailer_lines spec tid @ [[]]"
    unfolding commitMessage_def appendTrailers_def using b by (simp only: if_False split: if_split) blast
  then show ?thesis using Cons
    by (intro exI[of _ "if endsWithTrailerBlock ?m then [] else [[]]"]) simp
qed

subsection \<open>Plain messages\<close>

text \<open>
  A message of ASCII text without vertical tab, form feed and carriage return: then trimming
  removes blanks and newlines only, and the counterfeit pattern allows for the blanks.
\<close>

definition plain :: "char \<Rightarrow> bool" where
  "plain c \<longleftrightarrow> (of_char c :: nat) < 128 \<and> c \<notin> {CHR 0x0B, CHR 0x0C, CHR 0x0D}"

definition white :: "char \<Rightarrow> bool" where
  "white c \<longleftrightarrow> blank c \<or> c = newline"

lemma lead_bytes:
  "of_char (CHR 0xC2) = (194 :: nat)" "of_char (CHR 0xE1) = (225 :: nat)"
  "of_char (CHR 0xE2) = (226 :: nat)" "of_char (CHR 0xE3) = (227 :: nat)"
  by code_simp+

lemma plain_not_lead:
  assumes "plain c"
  shows "c \<noteq> CHR 0xC2" "c \<noteq> CHR 0xE1" "c \<noteq> CHR 0xE2" "c \<noteq> CHR 0xE3"
proof -
  have "(of_char c :: nat) < 128" using assms unfolding plain_def by (rule conjunct1)
  then have "c \<noteq> CHR 0xC2 \<and> c \<noteq> CHR 0xE1 \<and> c \<noteq> CHR 0xE2 \<and> c \<noteq> CHR 0xE3"
    by (intro conjI notI) (simp only: lead_bytes, simp)+
  then show "c \<noteq> CHR 0xC2" "c \<noteq> CHR 0xE1" "c \<noteq> CHR 0xE2" "c \<noteq> CHR 0xE3" by blast+
qed

lemma strip_one_plain:
  assumes "plain c"
  shows "strip_one space_seqs (c # cs) = (if white c then Some cs else None)"
  using plain_not_lead[OF assms] assms
  by (simp add: space_seqs_def white_def blank_def plain_def) auto

lemma trim_left_plain:
  "\<forall>c \<in> set xs. plain c \<Longrightarrow> trim_left space_seqs xs = dropWhile white xs"
proof (induction xs)
  case Nil
  have "strip_one ps [] = None" for ps by (induction ps) auto
  then show ?case by (subst trim_left.simps) simp
next
  case (Cons c cs)
  then show ?case by (subst trim_left.simps) (simp add: strip_one_plain)
qed

lemma TrimSpace_plain_parts:
  assumes "\<forall>c \<in> set xs. plain c"
  shows "\<exists>p q. xs = p @ TrimSpace xs @ q \<and> (\<forall>c \<in> set p. white c)"
proof -
  obtain q where "rev (trim_left space_seqs xs)
      = q @ trim_left (map rev space_seqs) (rev (trim_left space_seqs xs))"
    using trim_left_suffix by blast
  then have "dropWhile white xs = TrimSpace xs @ rev q"
    unfolding TrimSpace_def trim_left_plain[OF assms] by (metis rev_append rev_rev_ident)
  then show ?thesis
    by (metis set_takeWhileD takeWhile_dropWhile_id)
qed

lemma hd_lines_append: "\<exists>z. hd (lines (a @ b)) = hd (lines a) @ z"
proof -
  obtain y ys where y: "lines a = y # ys" using split_on_nonempty neq_Nil_conv by metis
  then show ?thesis unfolding split_on_append by (cases ys) auto
qed

lemma TrimSpace_plain_lines:
  assumes plain: "\<forall>c \<in> set xs. plain c" and clean: "\<forall>l \<in> set (lines xs). \<not> counterfeit l"
  shows "\<forall>l \<in> set (lines (TrimSpace xs)). \<not> counterfeit l"
proof
  fix l assume l: "l \<in> set (lines (TrimSpace xs))"
  obtain y ys where y: "lines (TrimSpace xs) = y # ys" using split_on_nonempty neq_Nil_conv by metis
  show "\<not> counterfeit l"
  proof (cases "l \<in> set ys")
    case True
    then have "l \<in> set (tl (lines (TrimSpace xs)))" using y by simp
    from tl_lines_TrimSpace[OF this] obtain z where "l @ z \<in> set (tl (lines xs))" ..
    from bspec[OF clean in_set_tl[OF this]] show ?thesis by (rule contrapos_nn) (rule counterfeit_append)
  next
    case False
    then have hd: "l = hd (lines (TrimSpace xs))" using l y by simp
    obtain p q where pq: "xs = p @ TrimSpace xs @ q" "\<forall>c \<in> set p. white c"
      using TrimSpace_plain_parts[OF plain] by (elim exE conjE)
    obtain z where z: "hd (lines (TrimSpace xs @ q)) = l @ z"
      using hd_lines_append[of "TrimSpace xs" q] unfolding hd by (elim exE)
    have eq: "lines (p @ TrimSpace xs @ q) = lines xs" by (rule arg_cong[OF pq(1)[symmetric]])
    have "last (lines p) @ l @ z \<in> set (lines (p @ TrimSpace xs @ q))"
      unfolding split_on_append[of newline p] z by simp
    then have "last (lines p) @ l @ z \<in> set (lines xs)" unfolding eq .
    with clean have n: "\<not> counterfeit (last (lines p) @ l @ z)" by (rule bspec)
    have "\<forall>c \<in> set (last (lines p)). blank c"
    proof
      fix c assume c: "c \<in> set (last (lines p))"
      have "last (lines p) \<in> set (lines p)" by simp
      from split_on_no_sep[OF this] split_on_subset[OF this]
      have "c \<noteq> newline" "c \<in> set p" using c by auto
      then show "blank c" using pq(2) by (auto simp: white_def)
    qed
    from n[unfolded counterfeit_blanks[OF this]] show ?thesis
      by (rule contrapos_nn) (rule counterfeit_append)
  qed
qed

lemma collapse_set: "set (collapse xs) \<subseteq> set xs"
  by (induction xs rule: collapse.induct) auto

lemma collapse_all_lines: "set (lines (collapse xs)) \<subseteq> set (lines xs)"
proof -
  obtain y ys where y: "lines (collapse xs) = y # ys" using split_on_nonempty neq_Nil_conv by metis
  obtain z zs where z: "lines xs = z # zs" using split_on_nonempty neq_Nil_conv by metis
  show ?thesis using lines_collapse[of xs] unfolding y z by auto
qed

lemma set_join_with: "set (join_with sep ls) \<subseteq> set sep \<union> (\<Union>l \<in> set ls. set l)"
  by (induction sep ls rule: join_with.induct) auto

lemma strip_set: "set (strip_counterfeits m) \<subseteq> insert newline (set m)"
proof -
  have "set l \<subseteq> set m" if "l \<in> set (map (\<lambda>l. if counterfeit l then [] else l) (lines m))" for l
    using that split_on_subset by (fastforce split: if_splits)
  then have "(\<Union>l \<in> set (map (\<lambda>l. if counterfeit l then [] else l) (lines m)). set l) \<subseteq> set m"
    by blast
  then show ?thesis unfolding strip_counterfeits_def
    using set_join_with[of "[newline]" "map (\<lambda>l. if counterfeit l then [] else l) (lines m)"]
    by (simp only: list.set) blast
qed

lemma cleaned_plain:
  assumes "\<forall>c \<in> set m. plain c"
  shows "\<forall>l \<in> set (lines (TrimSpace (collapse (TrimSpace (strip_counterfeits m))))). \<not> counterfeit l"
proof -
  let ?s = "strip_counterfeits m"
  have nl: "plain newline" by (simp add: plain_def)
  have p1: "\<forall>c \<in> set ?s. plain c" using strip_set[of m] assms nl by blast
  have p2: "\<forall>c \<in> set (collapse (TrimSpace ?s)). plain c"
    using p1 collapse_set[of "TrimSpace ?s"] set_TrimSpace[of ?s] by blast
  have "\<forall>l \<in> set (lines ?s). \<not> counterfeit l" using strip_no_counterfeit by blast
  from TrimSpace_plain_lines[OF p1 this]
  have "\<forall>l \<in> set (lines (collapse (TrimSpace ?s))). \<not> counterfeit l"
    using collapse_all_lines[of "TrimSpace ?s"] by blast
  from TrimSpace_plain_lines[OF p2 this] show ?thesis .
qed

lemma sanitized_plain:
  assumes "newline \<notin> set branch" "\<forall>c \<in> set m. plain c" "l \<in> set (lines (sanitizeMessage m branch))"
  shows "\<not> counterfeit l"
proof (cases "TrimSpace (collapse (TrimSpace (strip_counterfeits m))) = []")
  case True
  have "lines (sanitizeMessage m branch) = [''nit: push to '' @ branch]"
    unfolding sanitized_cases if_P[OF True] by (rule fallback_line(1)[OF assms(1)])
  then have l: "l = ''nit: push to '' @ branch" using assms(3) by (simp only: list.set singleton_iff)
  show ?thesis unfolding l by (rule fallback_line(2)[OF assms(1)])
next
  case False
  then show ?thesis
    using assms(3) cleaned_plain[OF assms(2)] unfolding sanitized_cases if_not_P[OF False] by blast
qed

subsection \<open>Nobody forges a trailer\<close>

text \<open>
  Claim C24. No forged attribution below the subject line. Whatever the author wrote, every line of
  the published message after the first that has the shape of a \<open>Nit-\<close> trailer is one of the
  trailers nit itself wrote for this task; and for a plain ASCII message this also holds of the
  first line.
\<close>
theorem trailers_are_genuine:
  assumes "newline \<notin> set (tp_Branch spec)"
  shows "(\<forall>l \<in> set (tl (split_on newline (commitMessage spec tid))).
        counterfeit l \<longrightarrow> l \<in> set (trailer_lines spec tid))
    \<and> ((\<forall>c \<in> set (tp_Message spec). plain c) \<longrightarrow>
        (\<forall>l \<in> set (split_on newline (commitMessage spec tid)).
           counterfeit l \<longrightarrow> l \<in> set (trailer_lines spec tid)))"
proof -
  let ?m = "sanitizeMessage (tp_Message spec) (tp_Branch spec)"
  obtain y ys where y: "lines ?m = y # ys" using split_on_nonempty neq_Nil_conv by metis
  obtain tail where tail: "lines (commitMessage spec tid) = lines ?m @ tail"
    "\<forall>l \<in> set tail. l = [] \<or> l \<in> set (trailer_lines spec tid)"
    using lines_commitMessage[of spec tid] by (elim exE conjE) (auto split: if_splits)
  have tl: "tl (lines (commitMessage spec tid)) = tl (lines ?m) @ tail" unfolding tail(1) y by simp
  have t: "counterfeit l \<Longrightarrow> l \<in> set (trailer_lines spec tid)" if "l \<in> set tail" for l
    using tail(2) that by auto
  show ?thesis unfolding tl unfolding tail(1) set_append
    using t sanitized_tail[OF assms] sanitized_plain[OF assms] by blast
qed

definition ex_push :: "string \<Rightarrow> push_spec" where
  "ex_push m = \<lparr> tp_RequestID = ''req-1'', tp_Repository = ''r'', tp_Remote = [], tp_Forge = [],
     tp_Branch = ''main'', tp_BaseCommit = ''c0'', tp_PatchDigest = [], tp_PatchEncoding = EncodingNone,
     tp_Message = m, tp_DroppedFiles = 2, tp_AuthorName = [], tp_AuthorEmail = [], tp_UserID = [],
     tp_WorkspaceID = ''ws-1'', tp_PolicyUserID = ''alice'', tp_PolicyVersion = ''v1'' \<rparr>"

theorem trailers_are_genuine_witness:
  "''Nit-User: alice'' \<in> set (split_on newline (commitMessage
      (ex_push (''Fix'' @ [newline, newline] @ ''Nit-User: bob'')) ''task-1'')) \<and>
   ''Nit-User: bob'' \<notin> set (tl (split_on newline (commitMessage
      (ex_push (''Fix'' @ [newline, newline] @ ''Nit-User: bob'')) ''task-1'')))"
proof -
  let ?p = "ex_push (''Fix'' @ [newline, newline] @ ''Nit-User: bob'')"
  have 1: "''Nit-User: alice'' \<in> set (split_on newline (commitMessage ?p ''task-1''))" by code_simp
  have b: "newline \<notin> set (tp_Branch ?p)" by code_simp
  have c: "counterfeit ''Nit-User: bob''" "''Nit-User: bob'' \<notin> set (trailer_lines ?p ''task-1'')"
    by code_simp+
  show ?thesis using 1 c trailers_are_genuine[OF b, of "''task-1''"] by blast
qed

text \<open>
  The subject line can be forged. A message that starts with a vertical tab before
  \<open>Nit-User: bob\<close> passes the filter, which only allows for blanks before the key, and trimming then
  removes the tab: the published commit opens with a trailer nit never wrote.
\<close>
theorem subject_line_forgery:
  "hd (split_on newline (commitMessage (ex_push (CHR 0x0B # ''Nit-User: bob'')) ''task-1''))
     = ''Nit-User: bob''
   \<and> ''Nit-User: bob'' \<notin> set (trailer_lines (ex_push (CHR 0x0B # ''Nit-User: bob'')) ''task-1'')"
  by code_simp

end
