(* ===== verification/Nit_Diff.thy ===== *)
theory Nit_Diff
  imports Nit_Engine
begin

text \<open>
  Comparing two bundles (\<open>pkg/policy/diff.go\<close>) and checking expectations against one
  (\<open>pkg/policy/expect.go\<close>). The comparison expands every rule into the grants that reach a person and
  reports which grants appeared and disappeared; the lemmas relate the grants to what \<open>Evaluate\<close>
  decides, so that a change of a decision never goes unreported.
\<close>

subsection \<open>Grants\<close>

record grant =
  gr_Repository :: repo_id
  gr_Action :: action
  gr_Effect :: effect
  gr_Path :: string
  gr_Ref :: string
  gr_RuleID :: string
  gr_Via :: string

definition grant_String :: "grant \<Rightarrow> string" where
  "grant_String g =
     (let place = gr_Path g @ (if gr_Ref g \<noteq> [] then '' on '' @ gr_Ref g else []);
          via = (if gr_Via g \<noteq> [] then '' via '' @ gr_Via g else [])
      in gr_Effect g @ '' '' @ gr_Action g @ '' '' @ gr_Repository g @ '':'' @ place @ '' ('' @
         gr_RuleID g @ via @ '')'')"

definition grant_fields :: "grant \<Rightarrow> string list" where
  "grant_fields g =
     [gr_Repository g, gr_Action g, gr_Effect g, gr_Path g, gr_Ref g, gr_RuleID g, gr_Via g]"

definition grant_key :: "grant \<Rightarrow> string" where
  "grant_key g = join_with [CHR 0x00] (grant_fields g)"

record access_change =
  ch_User :: user_id
  ch_Allowed :: "grant list"
  ch_Denied :: "grant list"
  ch_NoLongerAllowed :: "grant list"
  ch_NoLongerDenied :: "grant list"

definition Widens :: "access_change \<Rightarrow> bool" where
  "Widens c = (length (ch_Allowed c) > 0 \<or> length (ch_NoLongerDenied c) > 0)"

definition Narrows :: "access_change \<Rightarrow> bool" where
  "Narrows c = (length (ch_Denied c) > 0 \<or> length (ch_NoLongerAllowed c) > 0)"

record diff =
  df_UsersAdded :: "user_id list"
  df_UsersRemoved :: "user_id list"
  df_ReposAdded :: "repo_id list"
  df_ReposRemoved :: "repo_id list"
  df_Changes :: "access_change list"

definition diff_Empty :: "diff \<Rightarrow> bool" where
  "diff_Empty d =
     (length (df_UsersAdded d) = 0 \<and> length (df_UsersRemoved d) = 0 \<and>
      length (df_ReposAdded d) = 0 \<and> length (df_ReposRemoved d) = 0 \<and> length (df_Changes d) = 0)"

definition Widening :: "diff \<Rightarrow> access_change list" where
  "Widening d = filter Widens (df_Changes d)"

definition attribution :: "rule \<Rightarrow> string" where
  "attribution r =
     (if rs_Type (rule_Subject r) = SubjectTypeUser then []
      else if rs_Type (rule_Subject r) = SubjectTypeGroup then rs_ID (rule_Subject r)
      else rs_Type (rule_Subject r))"

definition rule_refs :: "rule \<Rightarrow> string list" where
  "rule_refs r = (if length (rule_Refs r) > 0 then map pat_raw (rule_Refs r) else [[]])"

text \<open>The grants in the order the nested loops produce them.\<close>

definition rule_grants :: "repo_id \<Rightarrow> rule \<Rightarrow> grant list" where
  "rule_grants repo r =
     concat (map (\<lambda>a. concat (map (\<lambda>path. map (\<lambda>ref.
       \<lparr> gr_Repository = repo, gr_Action = a, gr_Effect = rule_Effect r, gr_Path = pat_raw path,
         gr_Ref = ref, gr_RuleID = rule_ID r, gr_Via = attribution r \<rparr>)
       (rule_refs r)) (rule_Paths r))) (rule_Actions r))"

definition expanded :: "policy \<Rightarrow> user_id \<Rightarrow> grant list" where
  "expanded p i =
     (case Policy_Subject p i of
        Inl _ \<Rightarrow> []
      | Inr s \<Rightarrow>
          concat (map (\<lambda>repo. concat (map (\<lambda>r.
            if \<not> MatchesSubject r s then [] else rule_grants (r_ID repo) r)
            (Policy_Rules p (r_ID repo)))) (Policy_Repositories p)))"

definition grantsFor :: "policy \<Rightarrow> user_id \<Rightarrow> (string \<times> grant) list" where
  "grantsFor p i = fold (\<lambda>g m. AList.update (grant_key g) g m) (expanded p i) []"

subsection \<open>Comparing\<close>

definition comparedUsers :: "policy \<Rightarrow> policy \<Rightarrow> user_id list \<times> user_id list" where
  "comparedUsers before after =
     (map u_ID (filter (\<lambda>u. Policy_User before (u_ID u) = None) (Policy_Users after)),
      map u_ID (filter (\<lambda>u. Policy_User after (u_ID u) = None) (Policy_Users before)))"

definition comparedRepos :: "policy \<Rightarrow> policy \<Rightarrow> repo_id list \<times> repo_id list" where
  "comparedRepos before after =
     (map r_ID (filter (\<lambda>r. Policy_Repository before (r_ID r) = None) (Policy_Repositories after)),
      map r_ID (filter (\<lambda>r. Policy_Repository after (r_ID r) = None) (Policy_Repositories before)))"

definition sortGrants :: "grant list \<Rightarrow> grant list" where
  "sortGrants gs = sort_key grant_key gs"

text \<open>The grants of one map whose key the other lacks, by effect.\<close>

definition missing_from ::
  "(string \<times> grant) list \<Rightarrow> (string \<times> grant) list \<Rightarrow> bool \<Rightarrow> grant list" where
  "missing_from other m deny =
     map snd (filter (\<lambda>(k, g). map_of other k = None \<and> (gr_Effect g = EffectDeny) = deny) m)"

definition change_for :: "policy \<Rightarrow> policy \<Rightarrow> user_id \<Rightarrow> access_change" where
  "change_for before after i =
     (let was = grantsFor before i; now = grantsFor after i
      in \<lparr> ch_User = i,
           ch_Allowed = sortGrants (missing_from was now False),
           ch_Denied = sortGrants (missing_from was now True),
           ch_NoLongerAllowed = sortGrants (missing_from now was False),
           ch_NoLongerDenied = sortGrants (missing_from now was True) \<rparr>)"

definition Compare :: "policy \<Rightarrow> policy \<Rightarrow> diff" where
  "Compare before after =
     \<lparr> df_UsersAdded = fst (comparedUsers before after),
       df_UsersRemoved = snd (comparedUsers before after),
       df_ReposAdded = fst (comparedRepos before after),
       df_ReposRemoved = snd (comparedRepos before after),
       df_Changes = sort_key ch_User
         (filter (\<lambda>c. \<not> (\<not> Widens c \<and> \<not> Narrows c))
           (map (change_for before after)
             (filter (\<lambda>i. Policy_User before i \<noteq> None) (map u_ID (Policy_Users after))))) \<rparr>"

subsection \<open>Grants decide\<close>

definition clean_grants :: "policy \<Rightarrow> user_id \<Rightarrow> bool" where
  "clean_grants p i \<longleftrightarrow>
     list_all (\<lambda>g. list_all (\<lambda>f. CHR 0x00 \<notin> set f) (grant_fields g)) (expanded p i)"

text \<open>Every pattern of the bundle is the result of parsing its own text, as the loader builds them.\<close>

definition parsed_patterns :: "doublestar \<Rightarrow> policy \<Rightarrow> bool" where
  "parsed_patterns ds p \<longleftrightarrow>
     list_all (\<lambda>(_, rs). list_all (\<lambda>r. list_all (\<lambda>pat. ParsePattern ds (pat_raw pat) = Inr pat)
       (rule_Paths r @ rule_Refs r)) rs) (p_rules p)"

lemma grant_key_inj:
  assumes "grant_key g = grant_key h"
    and "list_all (\<lambda>f. CHR 0x00 \<notin> set f) (grant_fields g)"
    and "list_all (\<lambda>f. CHR 0x00 \<notin> set f) (grant_fields h)"
  shows "g = h"
proof -
  have "split_on (CHR 0x00) (grant_key g) = grant_fields g"
    if "list_all (\<lambda>f. CHR 0x00 \<notin> set f) (grant_fields g)" for g
    using that unfolding grant_key_def
    by (intro split_on_join) (auto simp: list_all_iff grant_fields_def)
  then have "grant_fields g = grant_fields h" using assms by metis
  then show ?thesis by (simp add: grant_fields_def)
qed

lemma map_of_fold_update_in:
  "map_of (fold (\<lambda>g m. AList.update (f g) g m) gs m0) k = Some g
     \<Longrightarrow> map_of m0 k = Some g \<or> g \<in> set gs \<and> f g = k"
proof (induction gs arbitrary: m0)
  case (Cons a gs)
  then show ?case
    using Cons.IH[of "AList.update (f a) a m0"] by (auto simp: map_of_update_apply split: if_splits)
qed simp

lemma map_of_fold_update_dom:
  "map_of (fold (\<lambda>g m. AList.update (f g) g m) gs m0) k \<noteq> None
     \<longleftrightarrow> map_of m0 k \<noteq> None \<or> k \<in> f ` set gs"
  by (induction gs arbitrary: m0) (auto simp: map_of_update_apply simp del: map_of_update)

lemma distinct_fold_update:
  "distinct (map fst m0) \<Longrightarrow> distinct (map fst (fold (\<lambda>g m. AList.update (f g) g m) gs m0))"
  by (induction gs arbitrary: m0) auto

lemma grantsFor_lookup:
  assumes "clean_grants p i"
  shows "map_of (grantsFor p i) k = Some g \<longleftrightarrow> g \<in> set (expanded p i) \<and> grant_key g = k"
proof
  assume "map_of (grantsFor p i) k = Some g"
  then show "g \<in> set (expanded p i) \<and> grant_key g = k"
    using map_of_fold_update_in[of grant_key "expanded p i" "[]" k g] by (simp add: grantsFor_def)
next
  assume g: "g \<in> set (expanded p i) \<and> grant_key g = k"
  then have "map_of (grantsFor p i) k \<noteq> None"
    unfolding grantsFor_def map_of_fold_update_dom by auto
  then obtain h where h: "map_of (grantsFor p i) k = Some h" by blast
  then have "h \<in> set (expanded p i) \<and> grant_key h = k"
    using map_of_fold_update_in[of grant_key "expanded p i" "[]" k h] by (simp add: grantsFor_def)
  then show "map_of (grantsFor p i) k = Some g"
    using g h grant_key_inj[of g h] assms by (auto simp: clean_grants_def list_all_iff)
qed

lemma missing_from_set:
  assumes "clean_grants p i" "clean_grants q i"
  shows "set (missing_from (grantsFor q i) (grantsFor p i) deny) =
    {g \<in> set (expanded p i). g \<notin> set (expanded q i) \<and> (gr_Effect g = EffectDeny) = deny}"
proof -
  have d: "distinct (map fst (grantsFor p i))"
    unfolding grantsFor_def by (rule distinct_fold_update) simp
  have "map_of (grantsFor q i) (grant_key g) = None \<longleftrightarrow> g \<notin> set (expanded q i)"
    if "g \<in> set (expanded p i)" for g
  proof -
    have "grant_key h = grant_key g \<Longrightarrow> h \<in> set (expanded q i) \<Longrightarrow> h = g" for h
      using grant_key_inj[of h g] assms that by (simp add: clean_grants_def list_all_iff)
    then show ?thesis using grantsFor_lookup[OF assms(2), of "grant_key g"] by (metis not_None_eq)
  qed
  moreover have "(k, g) \<in> set (grantsFor p i) \<longleftrightarrow> g \<in> set (expanded p i) \<and> grant_key g = k" for k g
    using grantsFor_lookup[OF assms(1), of k g] map_of_eq_Some_iff[OF d, of k g] by simp
  ultimately show ?thesis by (fastforce simp: missing_from_def image_iff)
qed

lemma rule_grants_set:
  "g \<in> set (rule_grants repo r) \<longleftrightarrow>
     gr_Repository g = repo \<and> gr_Action g \<in> set (rule_Actions r) \<and> gr_Effect g = rule_Effect r
     \<and> gr_Path g \<in> pat_raw ` set (rule_Paths r) \<and> gr_Ref g \<in> set (rule_refs r)
     \<and> gr_RuleID g = rule_ID r \<and> gr_Via g = attribution r"
proof
  assume "gr_Repository g = repo \<and> gr_Action g \<in> set (rule_Actions r) \<and> gr_Effect g = rule_Effect r
     \<and> gr_Path g \<in> pat_raw ` set (rule_Paths r) \<and> gr_Ref g \<in> set (rule_refs r)
     \<and> gr_RuleID g = rule_ID r \<and> gr_Via g = attribution r"
  then show "g \<in> set (rule_grants repo r)" by (cases g) (auto simp: rule_grants_def)
qed (auto simp: rule_grants_def)

text \<open>A grant, read back as a rule of its own: what requests its texts cover.\<close>

definition text_matches :: "doublestar \<Rightarrow> string \<Rightarrow> string \<Rightarrow> bool" where
  "text_matches ds txt s \<longleftrightarrow>
     (case ParsePattern ds txt of Inl _ \<Rightarrow> False | Inr pat \<Rightarrow> Pattern_Match ds pat s)"

definition grant_covers :: "doublestar \<Rightarrow> grant \<Rightarrow> request \<Rightarrow> bool" where
  "grant_covers ds g req \<longleftrightarrow>
     gr_Repository g = q_Repo req \<and> gr_Action g = q_Action req \<and> text_matches ds (gr_Path g) (q_Path req)
     \<and> (gr_Ref g = [] \<or> q_Ref req \<noteq> [] \<and> text_matches ds (gr_Ref g) (q_Ref req))"

lemma rule_grants_cover:
  assumes "\<forall>pat \<in> set (rule_Paths r @ rule_Refs r). ParsePattern ds (pat_raw pat) = Inr pat"
  shows "(\<exists>g \<in> set (rule_grants (q_Repo req) r). grant_covers ds g req) \<longleftrightarrow>
    HasAction r (q_Action req) \<and> MatchesRef ds r (q_Ref req) \<and> MatchesPath ds r (q_Path req) \<noteq> None"
    (is "?l \<longleftrightarrow> ?r")
proof
  have raw: "text_matches ds (pat_raw pat) s \<longleftrightarrow> Pattern_Match ds pat s" "pat_raw pat \<noteq> []"
    if "pat \<in> set (rule_Paths r) \<union> set (rule_Refs r)" for pat s
    using assms that ParsePattern_InrD(2)[of ds "pat_raw pat" pat] by (auto simp: text_matches_def)
  show ?r if ?l
  proof -
    obtain g where g: "g \<in> set (rule_grants (q_Repo req) r)" "grant_covers ds g req" using \<open>?l\<close> by blast
    then have "MatchesRef ds r (q_Ref req)" using raw
      by (auto simp: rule_grants_set grant_covers_def MatchesRef_iff rule_refs_def dest: sym
          split: if_splits)
    then show ?r unfolding HasAction_iff MatchesPath_iff using g raw(1)
      by (auto simp: rule_grants_set grant_covers_def)
  qed
  show ?l if ?r
  proof -
    obtain pat where pat: "pat \<in> set (rule_Paths r)" "Pattern_Match ds pat (q_Path req)"
      using \<open>?r\<close> MatchesPath_iff by blast
    obtain ref where ref: "ref \<in> set (rule_refs r)"
        "ref = [] \<or> q_Ref req \<noteq> [] \<and> text_matches ds ref (q_Ref req)"
    proof (cases "rule_Refs r = []")
      case False
      then obtain pat where "pat \<in> set (rule_Refs r)" "Pattern_Match ds pat (q_Ref req)" "q_Ref req \<noteq> []"
        using \<open>?r\<close> by (auto simp: MatchesRef_iff)
      then show thesis using that[of "pat_raw pat"] raw(1)[of pat] False by (simp add: rule_refs_def)
    qed (simp add: that rule_refs_def)
    let ?g = "\<lparr> gr_Repository = q_Repo req, gr_Action = q_Action req, gr_Effect = rule_Effect r,
      gr_Path = pat_raw pat, gr_Ref = ref, gr_RuleID = rule_ID r, gr_Via = attribution r \<rparr>"
    have "?g \<in> set (rule_grants (q_Repo req) r)" "grant_covers ds ?g req"
      using pat ref raw \<open>?r\<close> by (auto simp: rule_grants_set grant_covers_def HasAction_iff)
    then show ?l by blast
  qed
qed

lemma expanded_covers:
  assumes wf: "wf_policy p" and pp: "parsed_patterns ds p" and subj: "Policy_Subject p i = Inr (q_Subject req)"
    and repo: "Policy_Repository p (q_Repo req) \<noteq> None"
  shows "(\<exists>g \<in> set (expanded p i). grant_covers ds g req \<and> P (gr_Effect g)) \<longleftrightarrow>
    (\<exists>r \<in> set (list_at (p_rules p) (q_Repo req)). applies ds req r \<and> P (rule_Effect r))"
proof -
  have k: "keyed_by r_ID (p_repos p)" using wf by (simp add: wf_policy_def)
  have repos: "q_Repo req \<in> r_ID ` set (Policy_Repositories p)"
  proof -
    obtain x where "map_of (p_repos p) (q_Repo req) = Some x"
      using repo by (auto simp: Policy_Repository_def)
    then have "x \<in> set (Policy_Repositories p)" "r_ID x = q_Repo req"
      using keyed_lookup[OF k] by (force simp: Policy_Repositories_def)+
    then show ?thesis by force
  qed
  have pats: "\<forall>pat \<in> set (rule_Paths r @ rule_Refs r). ParsePattern ds (pat_raw pat) = Inr pat"
    if "r \<in> set (list_at (p_rules p) (q_Repo req))" for r
    using that pp by (fastforce simp: parsed_patterns_def list_all_iff in_list_at dest!: map_of_SomeD)
  have ex: "g \<in> set (expanded p i) \<and> grant_covers ds g req \<longleftrightarrow>
      grant_covers ds g req \<and> (\<exists>r \<in> set (list_at (p_rules p) (q_Repo req)).
        MatchesSubject r (q_Subject req) \<and> g \<in> set (rule_grants (q_Repo req) r))" for g
  proof -
    have "g \<in> set (expanded p i) \<longleftrightarrow> (\<exists>x \<in> set (Policy_Repositories p).
        \<exists>r \<in> set (list_at (p_rules p) (r_ID x)). MatchesSubject r (q_Subject req)
          \<and> g \<in> set (rule_grants (r_ID x) r))"
      by (auto simp: expanded_def subj Policy_Rules_def)
    moreover have "r_ID x = q_Repo req" if "g \<in> set (rule_grants (r_ID x) r)" "grant_covers ds g req" for x r
      using that by (simp add: rule_grants_set grant_covers_def)
    ultimately show ?thesis using repos by (metis imageE)
  qed
  have eff: "gr_Effect g = rule_Effect r" if "g \<in> set (rule_grants (q_Repo req) r)" for g r
    using that by (simp add: rule_grants_set)
  show ?thesis (is "?l \<longleftrightarrow> ?r")
  proof
    assume ?l
    then obtain g r where "r \<in> set (list_at (p_rules p) (q_Repo req))" "MatchesSubject r (q_Subject req)"
        "g \<in> set (rule_grants (q_Repo req) r)" "grant_covers ds g req" "P (gr_Effect g)"
      using ex by blast
    then show ?r using rule_grants_cover[OF pats, of r] eff by metis
  next
    assume ?r
    then obtain r where r: "r \<in> set (list_at (p_rules p) (q_Repo req))" "applies ds req r"
        "P (rule_Effect r)" by blast
    then obtain g where "g \<in> set (rule_grants (q_Repo req) r)" "grant_covers ds g req"
      using rule_grants_cover[OF pats, of r] by blast
    then show ?l using ex eff r by metis
  qed
qed

lemma Policy_Users_in:
  assumes "wf_policy p" "Policy_User p i = Some u"
  shows "i \<in> set (map u_ID (Policy_Users p))"
proof -
  have "keyed_by u_ID (p_users p)" using assms(1) by (simp add: wf_policy_def)
  then have "(i, u) \<in> set (p_users p)" "u_ID u = i"
    using assms(2) keyed_lookup[of u_ID "p_users p" i u] by (auto simp: Policy_User_def)
  then show ?thesis by (force simp: Policy_Users_def)
qed

lemma Compare_change_in:
  assumes "wf_policy after" "Policy_User before i \<noteq> None" "Policy_User after i \<noteq> None"
    and "Widens (change_for before after i) \<or> Narrows (change_for before after i)"
  shows "change_for before after i \<in> set (df_Changes (Compare before after))"
  using assms Policy_Users_in[OF assms(1), of i] by (auto simp: Compare_def)

lemma sortGrants_empty_iff [simp]: "sortGrants gs = [] \<longleftrightarrow> gs = []"
  by (metis sortGrants_def set_empty set_sort)

lemma missing_nonempty:
  assumes "clean_grants p i" "clean_grants q i"
  shows "missing_from (grantsFor q i) (grantsFor p i) deny \<noteq> [] \<longleftrightarrow>
    (\<exists>g \<in> set (expanded p i) - set (expanded q i). (gr_Effect g = EffectDeny) = deny)"
proof -
  have "missing_from (grantsFor q i) (grantsFor p i) deny \<noteq> [] \<longleftrightarrow>
      set (missing_from (grantsFor q i) (grantsFor p i) deny) \<noteq> {}" by simp
  then show ?thesis unfolding missing_from_set[OF assms] by blast
qed

lemma change_for_iff:
  assumes "clean_grants before i" "clean_grants after i"
  shows "Widens (change_for before after i) \<longleftrightarrow>
      (\<exists>g \<in> set (expanded after i) - set (expanded before i). gr_Effect g \<noteq> EffectDeny)
      \<or> (\<exists>g \<in> set (expanded before i) - set (expanded after i). gr_Effect g = EffectDeny)"
    and "Narrows (change_for before after i) \<longleftrightarrow>
      (\<exists>g \<in> set (expanded after i) - set (expanded before i). gr_Effect g = EffectDeny)
      \<or> (\<exists>g \<in> set (expanded before i) - set (expanded after i). gr_Effect g \<noteq> EffectDeny)"
  by (simp_all add: Widens_def Narrows_def change_for_def Let_def missing_nonempty assms)

text \<open>One direction of a change, for either order of the two bundles.\<close>

lemma decision_change_moves_grant:
  assumes wf: "wf_policy p" "wf_policy q" and pp: "parsed_patterns ds p" "parsed_patterns ds q"
    and subj: "Policy_Subject p i = Inr s" "Policy_Subject q i = Inr t"
    and repo: "Policy_Repository p (q_Repo req) \<noteq> None"
    and dis: "\<not> disabled p i"
    and d: "\<not> d_Allowed (Evaluate ds p (req\<lparr>q_Subject := s\<rparr>))"
      "d_Allowed (Evaluate ds q (req\<lparr>q_Subject := t\<rparr>))"
  shows "(\<exists>g \<in> set (expanded q i) - set (expanded p i). gr_Effect g \<noteq> EffectDeny)
      \<or> (\<exists>g \<in> set (expanded p i) - set (expanded q i). gr_Effect g = EffectDeny)"
proof -
  let ?p = "req\<lparr>q_Subject := s\<rparr>" and ?q = "req\<lparr>q_Subject := t\<rparr>"
  have ids: "s_UserID s = i" using subj(1) by (auto simp: Policy_Subject_def split: if_splits)
  have repo2: "Policy_Repository q (q_Repo ?q) \<noteq> None"
    using d(2) by (simp add: Evaluate_allowed_iff Policy_Repository_def)
  have cov: "grant_covers ds g ?p \<longleftrightarrow> grant_covers ds g ?q" for g by (simp add: grant_covers_def)
  note ep = expanded_covers[OF wf(1) pp(1), of i ?p] and eq = expanded_covers[OF wf(2) pp(2), of i ?q]
  have P: "deny_applies ds p ?p \<or> \<not> allow_applies ds p ?p"
    using d(1) dis repo ids by (auto simp: Evaluate_allowed_iff Policy_Repository_def)
  have Q: "\<not> deny_applies ds q ?q" "allow_applies ds q ?q"
    using d(2) by (simp_all add: Evaluate_allowed_iff)
  have dp: "deny_applies ds p ?p \<longleftrightarrow> (\<exists>g \<in> set (expanded p i). grant_covers ds g ?p \<and> gr_Effect g = EffectDeny)"
    "allow_applies ds p ?p \<longleftrightarrow> (\<exists>g \<in> set (expanded p i). grant_covers ds g ?p \<and> gr_Effect g \<noteq> EffectDeny)"
    using ep[of "\<lambda>e. e = EffectDeny"] ep[of "\<lambda>e. e \<noteq> EffectDeny"] subj repo
    by (simp_all add: deny_applies_def allow_applies_def)
  have dq: "deny_applies ds q ?q \<longleftrightarrow> (\<exists>g \<in> set (expanded q i). grant_covers ds g ?q \<and> gr_Effect g = EffectDeny)"
    "allow_applies ds q ?q \<longleftrightarrow> (\<exists>g \<in> set (expanded q i). grant_covers ds g ?q \<and> gr_Effect g \<noteq> EffectDeny)"
    using eq[of "\<lambda>e. e = EffectDeny"] eq[of "\<lambda>e. e \<noteq> EffectDeny"] subj repo2
    by (simp_all add: deny_applies_def allow_applies_def)
  show ?thesis using P Q unfolding dp dq cov by blast
qed

subsection \<open>Expectations\<close>

record expectation =
  ex_Name :: string
  ex_Repository :: repo_id
  ex_Path :: string
  ex_Ref :: string
  ex_Users :: "user_id list"
  ex_Groups :: "group_id list"
  ex_Actions :: "action list"
  ex_Expect :: effect
  ex_Rule :: string

record failure =
  fl_Expectation :: string
  fl_User :: user_id
  fl_Repository :: repo_id
  fl_Path :: string
  fl_Action :: action
  fl_Wanted :: effect
  fl_Got :: effect
  fl_Because :: string

record check_result =
  cr_Checked :: nat
  cr_Failures :: "failure list"
  cr_Hollow :: "failure list"

datatype expectation_problem =
    NoName
  | NoRepository
  | NoPath
  | NoActions
  | NotAnAction action
  | BadExpect effect
  | AssertsNothing
  | EmptyGroup group_id
  | NoSuchRepository repo_id
  | NoSuchUser user_id

datatype expectation_error = ErrExpectation string expectation_problem

definition failure_String :: "failure \<Rightarrow> string" where
  "failure_String f =
     fl_Expectation f @ '': '' @ fl_User f @ '' '' @ fl_Action f @ '' '' @ fl_Repository f @ '':'' @
     fl_Path f @ '' '' @ [CHR 0xE2, CHR 0x80, CHR 0x94] @ '' wanted '' @ fl_Wanted f @ '', got '' @ fl_Got f @
     '' ('' @ fl_Because f @ '')''"

definition expectation_validate :: "expectation \<Rightarrow> expectation_error + unit" where
  "expectation_validate e =
     (let err = (\<lambda>pr. Inl (ErrExpectation (ex_Name e) pr))
      in if TrimSpace (ex_Name e) = [] then Inl (ErrExpectation [] NoName)
         else if ex_Repository e = [] then err NoRepository
         else if ex_Path e = [] then err NoPath
         else if length (ex_Actions e) = 0 then err NoActions
         else rbind (check_each (\<lambda>a. if \<not> Action_Valid a then err (NotAnAction a) else Inr ()) (ex_Actions e))
           (\<lambda>_. if ex_Expect e \<noteq> EffectAllow \<and> ex_Expect e \<noteq> EffectDeny then err (BadExpect (ex_Expect e))
                else if length (ex_Users e) = 0 \<and> length (ex_Groups e) = 0 then err AssertsNothing
                else Inr ()))"

text \<open>The users whose resolved subject is in the group, in the order of \<open>Users\<close>.\<close>

definition members_of :: "policy \<Rightarrow> group_id \<Rightarrow> user_id list" where
  "members_of p g =
     filter (\<lambda>i. case Policy_Subject p i of Inl _ \<Rightarrow> False | Inr s \<Rightarrow> InGroup s g)
       (map u_ID (Policy_Users p))"

definition expectation_subjects :: "policy \<Rightarrow> expectation \<Rightarrow> expectation_error + user_id list" where
  "expectation_subjects p e =
     rbind (for_each (\<lambda>g seen.
         if length (members_of p g) = 0 then Inl (ErrExpectation (ex_Name e) (EmptyGroup g))
         else Inr (fold List.insert (members_of p g) seen))
       (ex_Groups e) (fold List.insert (ex_Users e) []))
     (\<lambda>seen. Inr (sort seen))"

definition check_action ::
  "doublestar \<Rightarrow> policy \<Rightarrow> expectation \<Rightarrow> user_id \<Rightarrow> subject \<Rightarrow> action \<Rightarrow> check_result \<Rightarrow> check_result" where
  "check_action ds p e i s a res =
     (let d = Evaluate ds p \<lparr>q_Repo = ex_Repository e, q_Ref = ex_Ref e, q_Subject = s,
                              q_Path = ex_Path e, q_Action = a\<rparr>;
          res = res\<lparr>cr_Checked := cr_Checked res + 1\<rparr>;
          got = (if d_Allowed d then EffectAllow else EffectDeny);
          failed = \<lparr>fl_Expectation = ex_Name e, fl_User = i, fl_Repository = ex_Repository e,
                    fl_Path = ex_Path e, fl_Action = a, fl_Wanted = ex_Expect e, fl_Got = got,
                    fl_Because = decision_String d\<rparr>
      in if got \<noteq> ex_Expect e then res\<lparr>cr_Failures := cr_Failures res @ [failed]\<rparr>
         else if ex_Rule e \<noteq> [] \<and> d_RuleID d \<noteq> ex_Rule e
           then res\<lparr>cr_Failures := cr_Failures res @
             [failed\<lparr>fl_Because := ''wanted rule '' @ ex_Rule e @ '', got '' @ decision_String d\<rparr>]\<rparr>
         else if ex_Expect e = EffectDeny \<and> ex_Rule e = [] \<and> d_Reason d = ReasonNoMatchingRule
           then res\<lparr>cr_Hollow := cr_Hollow res @ [failed]\<rparr>
         else res)"

definition check_user ::
  "doublestar \<Rightarrow> policy \<Rightarrow> expectation \<Rightarrow> user_id \<Rightarrow> check_result \<Rightarrow> expectation_error + check_result" where
  "check_user ds p e i res =
     (case Policy_Subject p i of
        Inl _ \<Rightarrow> Inl (ErrExpectation (ex_Name e) (NoSuchUser i))
      | Inr s \<Rightarrow> Inr (fold (check_action ds p e i s) (ex_Actions e) res))"

definition check_expectation ::
  "doublestar \<Rightarrow> policy \<Rightarrow> expectation \<Rightarrow> check_result \<Rightarrow> expectation_error + check_result" where
  "check_expectation ds p e res =
     rbind (expectation_validate e) (\<lambda>_.
     rbind (expectation_subjects p e) (\<lambda>subjects.
       if Policy_Repository p (ex_Repository e) = None
         then Inl (ErrExpectation (ex_Name e) (NoSuchRepository (ex_Repository e)))
       else for_each (check_user ds p e) subjects res))"

definition expect_Check :: "doublestar \<Rightarrow> policy \<Rightarrow> expectation list \<Rightarrow> expectation_error + check_result" where
  "expect_Check ds p es =
     for_each (check_expectation ds p) es \<lparr>cr_Checked = 0, cr_Failures = [], cr_Hollow = []\<rparr>"

subsection \<open>What a clean run says\<close>

definition asked :: "expectation \<Rightarrow> subject \<Rightarrow> action \<Rightarrow> request" where
  "asked e s a = \<lparr>q_Repo = ex_Repository e, q_Ref = ex_Ref e, q_Subject = s, q_Path = ex_Path e, q_Action = a\<rparr>"

text \<open>The expectation is met: the outcome is the one wanted, and by the rule that was named.\<close>

definition met :: "expectation \<Rightarrow> decision \<Rightarrow> bool" where
  "met e d \<longleftrightarrow> (d_Allowed d \<longleftrightarrow> ex_Expect e = EffectAllow) \<and> (ex_Rule e \<noteq> [] \<longrightarrow> d_RuleID d = ex_Rule e)"

text \<open>The expectation rests on a rule: it does not hold only because nothing matched.\<close>

definition solid :: "expectation \<Rightarrow> decision \<Rightarrow> bool" where
  "solid e d \<longleftrightarrow> met e d \<and>
     (ex_Expect e = EffectDeny \<longrightarrow> ex_Rule e = [] \<longrightarrow> d_Reason d \<noteq> ReasonNoMatchingRule)"

lemma check_action_backward:
  assumes "ex_Expect e = EffectAllow \<or> ex_Expect e = EffectDeny"
  shows "cr_Failures (check_action ds p e i s a res) = [] \<Longrightarrow>
      cr_Failures res = [] \<and> met e (Evaluate ds p (asked e s a))"
    and "cr_Failures (check_action ds p e i s a res) = [] \<and> cr_Hollow (check_action ds p e i s a res) = [] \<Longrightarrow>
      (cr_Failures res = [] \<and> cr_Hollow res = []) \<and> solid e (Evaluate ds p (asked e s a))"
  using assms by (auto simp: check_action_def Let_def met_def solid_def asked_def split: if_splits)

lemma validate_expect:
  "expectation_validate e = Inr () \<Longrightarrow> ex_Expect e = EffectAllow \<or> ex_Expect e = EffectDeny"
  by (auto simp: expectation_validate_def Let_def rbind_Inr_iff split: if_splits)

lemma fold_insert_set: "set (fold List.insert xs ys) = set xs \<union> set ys"
  by (induction xs arbitrary: ys) auto

lemma subjects_set:
  assumes "expectation_subjects p e = Inr us"
  shows "set us = set (ex_Users e) \<union> (\<Union>g \<in> set (ex_Groups e). set (members_of p g))"
proof -
  have *: "for_each (\<lambda>g seen. if length (members_of p g) = 0 then Inl (ErrExpectation (ex_Name e) (EmptyGroup g))
         else Inr (fold List.insert (members_of p g) seen)) gs seen = Inr seen' \<Longrightarrow>
      set seen' = set seen \<union> (\<Union>g \<in> set gs. set (members_of p g))" for gs seen seen'
    by (induction gs arbitrary: seen) (auto simp: fold_insert_set split: if_splits)
  obtain seen where "for_each (\<lambda>g seen. if length (members_of p g) = 0
         then Inl (ErrExpectation (ex_Name e) (EmptyGroup g))
         else Inr (fold List.insert (members_of p g) seen)) (ex_Groups e) (fold List.insert (ex_Users e) [])
       = Inr seen" "us = sort seen"
    using assms unfolding expectation_subjects_def by (auto elim!: rbind_InrE simp del: length_0_conv)
  then show ?thesis using *[of "ex_Groups e"] by (simp add: fold_insert_set)
qed

lemma Policy_Subject_iff:
  "Policy_Subject p i = Inr s \<longleftrightarrow>
     map_of (p_users p) i \<noteq> None \<and> s = \<lparr>s_UserID = i, s_Groups = list_at (p_memberships p) i\<rparr>"
  by (auto simp: Policy_Subject_def)

lemma members_of_iff:
  assumes "wf_policy p"
  shows "i \<in> set (members_of p g) \<longleftrightarrow> (\<exists>s. Policy_Subject p i = Inr s \<and> InGroup s g)"
  using Policy_Users_in[OF assms, of i]
  by (auto simp: members_of_def Policy_User_def Policy_Subject_def split: sum.splits if_splits
      simp del: set_map)

lemma Check_backward:
  assumes run: "expect_Check ds p es = Inr res" and "cr_Failures res = []"
    and e: "e \<in> set es"
  obtains us where "expectation_subjects p e = Inr us"
    and "\<And>i a. i \<in> set us \<Longrightarrow> a \<in> set (ex_Actions e) \<Longrightarrow>
      \<exists>s. Policy_Subject p i = Inr s \<and> met e (Evaluate ds p (asked e s a))
        \<and> (cr_Hollow res = [] \<longrightarrow> solid e (Evaluate ds p (asked e s a)))"
proof -
  define good where "good = (\<lambda>r :: check_result. cr_Failures r = [] \<and> (cr_Hollow res = [] \<longrightarrow> cr_Hollow r = []))"
  define fine where "fine = (\<lambda>e s a. met e (Evaluate ds p (asked e s a))
        \<and> (cr_Hollow res = [] \<longrightarrow> solid e (Evaluate ds p (asked e s a))))"
  have act: "good r \<and> fine e s a"
    if "expectation_validate e = Inr ()" "good (check_action ds p e i s a r)" for e i s a r
    using check_action_backward[OF validate_expect[OF that(1)], of ds p i s a r] that(2)
    unfolding good_def fine_def by blast
  have usr: "good r \<and> (\<exists>s. Policy_Subject p i = Inr s \<and> (\<forall>a \<in> set (ex_Actions e). fine e s a))"
    if u: "expectation_validate e = Inr ()" "check_user ds p e i r = Inr r'" "good r'" for e i r r'
  proof -
    obtain s where s: "Policy_Subject p i = Inr s"
        "r' = fold (check_action ds p e i s) (ex_Actions e) r"
      using u(2) by (cases "Policy_Subject p i") (auto simp: check_user_def)
    then show ?thesis
      using fold_backward[where Q = good and R = "fine e s", OF act[OF u(1), of i s] u(3)[unfolded s(2)]]
      by blast
  qed
  have exp: "good r \<and> (\<exists>us. expectation_subjects p e = Inr us \<and> (\<forall>i \<in> set us.
      \<exists>s. Policy_Subject p i = Inr s \<and> (\<forall>a \<in> set (ex_Actions e). fine e s a)))"
    if c: "check_expectation ds p e r = Inr r'" "good r'" for e r r'
  proof -
    obtain us where us: "expectation_validate e = Inr ()" "expectation_subjects p e = Inr us"
        "for_each (check_user ds p e) us r = Inr r'"
      using c(1) by (auto simp: check_expectation_def elim!: rbind_InrE split: if_splits)
    have "good r \<and> (\<forall>i \<in> set us. \<exists>s. Policy_Subject p i = Inr s \<and> (\<forall>a \<in> set (ex_Actions e). fine e s a))"
      by (rule for_each_backward[where Q = good and f = "check_user ds p e", OF usr[OF us(1)] us(3) c(2)])
    then show ?thesis using us(2) by blast
  qed
  have "good res" using assms(2) by (simp add: good_def)
  then have "\<forall>e \<in> set es. \<exists>us. expectation_subjects p e = Inr us \<and> (\<forall>i \<in> set us.
      \<exists>s. Policy_Subject p i = Inr s \<and> (\<forall>a \<in> set (ex_Actions e). fine e s a))"
    using for_each_backward[where Q = good and f = "check_expectation ds p" and R = "\<lambda>e. \<exists>us.
      expectation_subjects p e = Inr us \<and> (\<forall>i \<in> set us. \<exists>s. Policy_Subject p i = Inr s
        \<and> (\<forall>a \<in> set (ex_Actions e). fine e s a))", OF _ run[unfolded expect_Check_def]] exp
    by presburger
  then obtain us where "expectation_subjects p e = Inr us" "\<forall>i \<in> set us.
      \<exists>s. Policy_Subject p i = Inr s \<and> (\<forall>a \<in> set (ex_Actions e). fine e s a)"
    using e by blast
  then show thesis using that[of us] unfolding fine_def by blast
qed

subsection \<open>Properties\<close>

text \<open>
  No change of a decision escapes the comparison of two compiled bundles: when a person who
  is in both and enabled in both, and a repository known to both, is refused a request by the first
  bundle and granted it by the second, the report lists that person among the widened ones; in the
  other direction it lists them with a narrowing. The subject of each request is the one each bundle
  resolves, so the cause may be a rule, a group inclusion or a membership.
\<close>

theorem diff_reports_decision_change:
  assumes "Compile sp = Inr before" and "Compile sp' = Inr after"
    and "parsed_patterns ds before" and "parsed_patterns ds after"
    and "clean_grants before i" and "clean_grants after i"
    and "Policy_Subject before i = Inr s" and "Policy_Subject after i = Inr t"
    and "Policy_Repository before (q_Repo req) \<noteq> None" and "Policy_Repository after (q_Repo req) \<noteq> None"
    and "\<not> disabled before i" and "\<not> disabled after i"
  shows "(\<not> d_Allowed (Evaluate ds before (req\<lparr>q_Subject := s\<rparr>)) \<longrightarrow>
      d_Allowed (Evaluate ds after (req\<lparr>q_Subject := t\<rparr>)) \<longrightarrow>
      (\<exists>c \<in> set (Widening (Compare before after)). ch_User c = i))
    \<and> (d_Allowed (Evaluate ds before (req\<lparr>q_Subject := s\<rparr>)) \<longrightarrow>
      \<not> d_Allowed (Evaluate ds after (req\<lparr>q_Subject := t\<rparr>)) \<longrightarrow>
      (\<exists>c \<in> set (df_Changes (Compare before after)). ch_User c = i \<and> Narrows c))"
proof -
  have wf: "wf_policy before" "wf_policy after"
    using Compile_wf[OF assms(1)] Compile_wf[OF assms(2)] by simp_all
  have users: "Policy_User before i \<noteq> None" "Policy_User after i \<noteq> None"
    using assms(7,8) by (simp_all add: Policy_Subject_iff Policy_User_def)
  have ch: "ch_User (change_for before after i) = i" by (simp add: change_for_def Let_def)
  note iff = change_for_iff[OF assms(5,6)] and in_cmp = Compare_change_in[OF wf(2) users]
  have "\<exists>c \<in> set (Widening (Compare before after)). ch_User c = i"
    if "\<not> d_Allowed (Evaluate ds before (req\<lparr>q_Subject := s\<rparr>))"
      "d_Allowed (Evaluate ds after (req\<lparr>q_Subject := t\<rparr>))"
    using decision_change_moves_grant[OF wf assms(3,4,7,8,9,11) that] ch in_cmp iff(1)
    by (auto simp: Widening_def)
  moreover have "\<exists>c \<in> set (df_Changes (Compare before after)). ch_User c = i \<and> Narrows c"
    if "d_Allowed (Evaluate ds before (req\<lparr>q_Subject := s\<rparr>))"
      "\<not> d_Allowed (Evaluate ds after (req\<lparr>q_Subject := t\<rparr>))"
    using decision_change_moves_grant[OF wf(2,1) assms(4,3,8,7,10,12) that(2,1)] ch in_cmp iff(2) by blast
  ultimately show ?thesis by blast
qed

text \<open>
  A run of expectations that reports no failure is conclusive: everybody an expectation
  names, and everybody who is transitively in a group it names, is decided for each of its actions the
  way it says and, when it names a rule, by that rule; and if the run reports no denial that held by
  default either, no expected denial rests on the mere absence of a rule.
\<close>

theorem expectations_hold:
  assumes "Compile sp = Inr p" and "expect_Check ds p es = Inr res" and "cr_Failures res = []"
    and "e \<in> set es" and "a \<in> set (ex_Actions e)"
    and "i \<in> set (ex_Users e) \<or> (\<exists>s. Policy_Subject p i = Inr s \<and> (\<exists>g \<in> set (ex_Groups e). InGroup s g))"
  shows "\<exists>s. Policy_Subject p i = Inr s \<and>
    (let d = Evaluate ds p (asked e s a)
     in (d_Allowed d \<longleftrightarrow> ex_Expect e = EffectAllow) \<and> (ex_Rule e \<noteq> [] \<longrightarrow> d_RuleID d = ex_Rule e)
        \<and> (cr_Hollow res = [] \<and> ex_Expect e = EffectDeny \<longrightarrow> d_Reason d \<noteq> ReasonNoMatchingRule))"
proof -
  obtain us where us: "expectation_subjects p e = Inr us"
    and ok: "\<And>i a. i \<in> set us \<Longrightarrow> a \<in> set (ex_Actions e) \<Longrightarrow>
      \<exists>s. Policy_Subject p i = Inr s \<and> met e (Evaluate ds p (asked e s a))
        \<and> (cr_Hollow res = [] \<longrightarrow> solid e (Evaluate ds p (asked e s a)))"
    using Check_backward[OF assms(2-4)] by metis
  have wf: "wf_policy p" using Compile_wf[OF assms(1)] by simp
  have "i \<in> set us" unfolding subjects_set[OF us] using assms(6) members_of_iff[OF wf] by blast
  then obtain s where s: "Policy_Subject p i = Inr s" "met e (Evaluate ds p (asked e s a))"
      "cr_Hollow res = [] \<longrightarrow> solid e (Evaluate ds p (asked e s a))"
    using ok assms(5) by blast
  have "d_RuleID (Evaluate ds p (asked e s a)) = []"
    if "d_Reason (Evaluate ds p (asked e s a)) = ReasonNoMatchingRule"
    using that by (auto simp: Evaluate_def denied_def explained_def split: if_splits option.splits prod.splits)
  then show ?thesis using s by (auto simp: met_def solid_def Let_def)
qed

definition disabled_spec :: spec where
  "disabled_spec = ex_spec\<lparr>sp_Users := [(ex_user ''amy'')\<lparr>u_Disabled := True\<rparr>]\<rparr>"

definition disabled_policy :: policy where
  "disabled_policy = (case Compile disabled_spec of Inr p \<Rightarrow> p)"

lemma disabled_compiles: "Compile disabled_spec = Inr disabled_policy"
  by code_simp

text \<open>
  The comparison does not look at the flag that disables a person: re-enabling somebody
  turns refusals into grants and the report of the change is empty.
\<close>

theorem diff_misses_disabled:
  "diff_Empty (Compare disabled_policy ex_policy)
   \<and> \<not> d_Allowed (Evaluate ex_ds disabled_policy (ex_request ActionRead ''README''))
   \<and> d_Allowed (Evaluate ex_ds ex_policy (ex_request ActionRead ''README''))"
  by code_simp

subsection \<open>Witnesses\<close>

definition opened_spec :: spec where
  "opened_spec = ex_spec\<lparr>sp_Rules := [(''api'', [ex_rule [] EffectAllow [ActionRead, ActionWrite] MatchAll])]\<rparr>"

definition opened_policy :: policy where
  "opened_policy = (case Compile opened_spec of Inr p \<Rightarrow> p)"

lemma opened_compiles: "Compile opened_spec = Inr opened_policy"
  by code_simp

theorem diff_reports_decision_change_witness:
  "(\<exists>c \<in> set (Widening (Compare ex_policy opened_policy)). ch_User c = ''amy'')
   \<and> (\<exists>c \<in> set (df_Changes (Compare opened_policy ex_policy)). ch_User c = ''amy'' \<and> Narrows c)"
proof -
  have s: "Policy_Subject ex_policy ''amy'' = Inr ex_subject"
    "Policy_Subject opened_policy ''amy'' = Inr ex_subject" by code_simp+
  have pp: "parsed_patterns ex_ds ex_policy" "parsed_patterns ex_ds opened_policy"
    "clean_grants ex_policy ''amy''" "clean_grants opened_policy ''amy''" by code_simp+
  have r: "Policy_Repository ex_policy (q_Repo (ex_request ActionRead ''key'')) \<noteq> None"
    "Policy_Repository opened_policy (q_Repo (ex_request ActionRead ''key'')) \<noteq> None"
    "\<not> disabled ex_policy ''amy''" "\<not> disabled opened_policy ''amy''" by code_simp+
  have d: "\<not> d_Allowed (Evaluate ex_ds ex_policy ((ex_request ActionRead ''key'')\<lparr>q_Subject := ex_subject\<rparr>))"
    "d_Allowed (Evaluate ex_ds opened_policy ((ex_request ActionRead ''key'')\<lparr>q_Subject := ex_subject\<rparr>))"
    by code_simp+
  show ?thesis
    using d diff_reports_decision_change[OF ex_compiles opened_compiles pp s r]
      diff_reports_decision_change[OF opened_compiles ex_compiles pp(2,1,4,3) s(2,1) r(2,1,4,3)]
    by simp
qed

definition ex_expectation :: expectation where
  "ex_expectation = \<lparr>ex_Name = ''nobody reads the key'', ex_Repository = ''api'', ex_Path = ''key'',
     ex_Ref = [], ex_Users = [], ex_Groups = [''dev''], ex_Actions = [ActionRead], ex_Expect = EffectDeny,
     ex_Rule = ''no-key''\<rparr>"

theorem expectations_hold_witness:
  "\<exists>s. Policy_Subject ex_policy ''amy'' = Inr s
     \<and> \<not> d_Allowed (Evaluate ex_ds ex_policy (asked ex_expectation s ActionRead))
     \<and> d_RuleID (Evaluate ex_ds ex_policy (asked ex_expectation s ActionRead)) = ''no-key''"
proof -
  have run: "expect_Check ex_ds ex_policy [ex_expectation] = Inr \<lparr>cr_Checked = 1, cr_Failures = [], cr_Hollow = []\<rparr>"
    "Policy_Subject ex_policy ''amy'' = Inr ex_subject" by code_simp+
  have m: "ActionRead \<in> set (ex_Actions ex_expectation)"
    "\<exists>g \<in> set (ex_Groups ex_expectation). InGroup ex_subject g"
    by (simp_all add: ex_expectation_def ex_subject_def)
  show ?thesis
    using expectations_hold[OF ex_compiles run(1) _ _ m(1), of "''amy''"] run(2) m(2)
    by (auto simp: ex_expectation_def Let_def)
qed

end
