(* ===== verification/Nit_Blob.thy ===== *)
theory Nit_Blob
  imports Nit_Prelude
begin

text \<open>
  The content-addressed blob stores: the interface and the digest of \<open>pkg/blob/blob.go\<close>, the map of
  \<open>pkg/blob/memory.go\<close>, the directory of \<open>internal/blob/filesystem/filesystem.go\<close> and the
  two-location store of \<open>pkg/blob/fallback.go\<close>. The hash function SHA-256 is the parameter \<open>sha\<close>;
  its hexadecimal rendering is modelled. A directory is a map from paths to contents, and the calls
  that touch it succeed (a failing disk is not modelled); the payload arrives through a reader that
  fills the buffer it is given, as a reader over a byte slice does. Sizes are \<open>int64\<close> values, so the
  ceiling plus one is taken modulo \<open>2^64\<close>.

  The locale \<open>blob_store\<close> is the contract of the interface; each store is an instance of it, the
  two-location store by a sublocale over the contracts of its parts.
\<close>

subsection \<open>Digests\<close>

datatype blob_error =
    BlobErrNotFound
  | BlobErrDigestMismatch string string
  | BlobErrTooLarge
  | MalformedDigest string
  | UnsupportedDigest string
  | BlobPanic

record descriptor =
  ds_Digest :: string
  ds_Size :: int

definition DigestPrefix :: string where "DigestPrefix = ''sha256:''"

definition hex_digit :: "nat \<Rightarrow> char" where
  "hex_digit n = (''0123456789abcdef'') ! n"

fun hex_encode :: "bytes \<Rightarrow> string" where
  "hex_encode [] = []"
| "hex_encode (b # bs) =
     hex_digit (of_char b div 16) # hex_digit (of_char b mod 16) # hex_encode bs"

definition Digest :: "(bytes \<Rightarrow> bytes) \<Rightarrow> bytes \<Rightarrow> string" where
  "Digest sha b = DigestPrefix @ hex_encode (sha b)"

definition is_hex :: "char \<Rightarrow> bool" where
  "is_hex c = (c \<ge> CHR ''0'' \<and> c \<le> CHR ''9'' \<or> c \<ge> CHR ''a'' \<and> c \<le> CHR ''f'')"

definition ValidateDigest :: "string \<Rightarrow> blob_error + unit" where
  "ValidateDigest d =
     (if length d \<noteq> length DigestPrefix + 64 then Inl (MalformedDigest d)
      else if take (length DigestPrefix) d \<noteq> DigestPrefix then Inl (UnsupportedDigest d)
      else check_each (\<lambda>c. if \<not> is_hex c then Inl (MalformedDigest d) else Inr ())
             (drop (length DigestPrefix) d))"

abbreviation valid_digest :: "string \<Rightarrow> bool" where
  "valid_digest d \<equiv> ValidateDigest d = Inr ()"

text \<open>A value of type \<open>int64\<close> after the addition wrapped, and \<open>io.LimitReader\<close> read to its end.\<close>

definition wrap64 :: "int \<Rightarrow> int" where
  "wrap64 n = sint (word_of_int n :: 64 word)"

definition LimitReader :: "bytes \<Rightarrow> int \<Rightarrow> bytes" where
  "LimitReader r n = take (nat n) r"

lemma wrap64_id: "- (2 ^ 63) \<le> n \<Longrightarrow> n < 2 ^ 63 \<Longrightarrow> wrap64 n = n"
  by (simp add: wrap64_def sint_sbintrunc' signed_take_bit_int_eq_self)

lemma hex_digit_is_hex: "n < 16 \<Longrightarrow> is_hex (hex_digit n)"
proof -
  have "list_all (\<lambda>n. is_hex (hex_digit n)) [0..<16]" by code_simp
  then show "n < 16 \<Longrightarrow> is_hex (hex_digit n)" by (simp add: list_all_iff)
qed

lemma length_hex_encode [simp]: "length (hex_encode bs) = 2 * length bs"
  by (induction bs) auto

lemma hex_encode_is_hex: "c \<in> set (hex_encode bs) \<Longrightarrow> is_hex c"
proof (induction bs)
  case (Cons b bs)
  have "(of_char b :: nat) < 256" by (rule nat_of_char_less_256)
  then have "(of_char b :: nat) div 16 < 16" "(of_char b :: nat) mod 16 < 16" by linarith+
  then show ?case using Cons hex_digit_is_hex by auto
qed simp

lemma digest_valid: "length (sha b) = 32 \<Longrightarrow> valid_digest (Digest sha b)"
  by (auto simp: ValidateDigest_def Digest_def DigestPrefix_def check_each_Inr_iff hex_encode_is_hex)

subsection \<open>The interface\<close>

record 's blob_ops =
  b_Put :: "bytes \<Rightarrow> string \<Rightarrow> int \<Rightarrow> 's \<Rightarrow> blob_error + (descriptor \<times> 's)"
  b_Get :: "string \<Rightarrow> 's \<Rightarrow> blob_error + bytes"
  b_Stat :: "string \<Rightarrow> 's \<Rightarrow> blob_error + descriptor"
  b_Delete :: "string \<Rightarrow> 's \<Rightarrow> blob_error + 's"

subsection \<open>The map\<close>

type_synonym blob_mem = "(string \<times> bytes) list"

definition NewMemory :: blob_mem where "NewMemory = []"

definition Memory_Put ::
  "(bytes \<Rightarrow> bytes) \<Rightarrow> bytes \<Rightarrow> string \<Rightarrow> int \<Rightarrow> blob_mem \<Rightarrow> blob_error + (descriptor \<times> blob_mem)" where
  "Memory_Put sha r expected maxSize m =
     rbind (if expected \<noteq> [] then ValidateDigest expected else Inr ()) (\<lambda>_.
       let content = (if maxSize > 0 then LimitReader r (wrap64 (maxSize + 1)) else r);
           digest = DigestPrefix @ hex_encode (sha content)
       in if maxSize > 0 \<and> int (length content) > maxSize then Inl BlobErrTooLarge
          else if expected \<noteq> [] \<and> digest \<noteq> expected then Inl (BlobErrDigestMismatch expected digest)
          else Inr (\<lparr>ds_Digest = digest, ds_Size = int (length content)\<rparr>, AList.update digest content m))"

definition Memory_Get :: "string \<Rightarrow> blob_mem \<Rightarrow> blob_error + bytes" where
  "Memory_Get digest m =
     rbind (ValidateDigest digest) (\<lambda>_.
       case map_of m digest of None \<Rightarrow> Inl BlobErrNotFound | Some content \<Rightarrow> Inr content)"

definition Memory_Stat :: "string \<Rightarrow> blob_mem \<Rightarrow> blob_error + descriptor" where
  "Memory_Stat digest m =
     rbind (ValidateDigest digest) (\<lambda>_.
       case map_of m digest of
         None \<Rightarrow> Inl BlobErrNotFound
       | Some content \<Rightarrow> Inr \<lparr>ds_Digest = digest, ds_Size = int (length content)\<rparr>)"

definition Memory_Delete :: "string \<Rightarrow> blob_mem \<Rightarrow> blob_error + blob_mem" where
  "Memory_Delete digest m = rbind (ValidateDigest digest) (\<lambda>_. Inr (AList.delete digest m))"

definition Memory :: "(bytes \<Rightarrow> bytes) \<Rightarrow> blob_mem blob_ops" where
  "Memory sha = \<lparr>b_Put = Memory_Put sha, b_Get = Memory_Get, b_Stat = Memory_Stat, b_Delete = Memory_Delete\<rparr>"

subsection \<open>The directory\<close>

text \<open>
  The state of the directory store: its root, in the cleaned form \<open>filepath.Join\<close> gives it, and the
  files below it.
\<close>

record fs_store =
  fs_root :: string
  fs_files :: "(string \<times> bytes) list"

definition fs_path :: "fs_store \<Rightarrow> string \<Rightarrow> blob_error + string" where
  "fs_path s digest =
     rbind (ValidateDigest digest) (\<lambda>_.
       let hex = drop (length DigestPrefix) digest
       in Inr (join_with ''/'' [fs_root s, take 2 hex, take 2 (drop 2 hex), hex]))"

text \<open>
  \<open>io.Copy\<close> through the limited reader: each round hands the reader a buffer of \<open>buf\<close> bytes, which it
  shortens to one byte past what is left of the ceiling, a sum of \<open>int64\<close> that wraps around; a buffer cut to
  a negative length is a panic. \<open>written\<close> is what reached the file. The buffer is never empty in the code,
  and no \<open>int64\<close> that is not negative gives the sum zero; the tests for them only make the recursion end
  for every argument.
\<close>

function copy_limited :: "int \<Rightarrow> int \<Rightarrow> bytes \<Rightarrow> bytes \<Rightarrow> blob_error + bytes" where
  "copy_limited buf remaining src written =
     (if remaining < 0 \<or> buf \<le> 0 then Inl BlobErrTooLarge
      else let bound = wrap64 (remaining + 1);
               size = nat (if buf > bound then bound else buf);
               chunk = take size src
           in if bound \<le> 0 then Inl BlobPanic
              else if src = [] then Inr written
              else if remaining - int (length chunk) < 0 then Inl BlobErrTooLarge
              else copy_limited buf (remaining - int (length chunk)) (drop size src) (written @ chunk))"
  by pat_completeness auto
termination
  by (relation "measure (\<lambda>(_, _, src, _). length src)") (auto split: if_splits)

declare copy_limited.simps [simp del]

lemma copy_limited_spec:
  "0 \<le> remaining \<Longrightarrow> remaining < 2 ^ 63 - 1 \<Longrightarrow> 0 < buf \<Longrightarrow>
     copy_limited buf remaining src written =
       (if int (length src) > remaining then Inl BlobErrTooLarge else Inr (written @ src))"
proof (induction buf remaining src written rule: copy_limited.induct)
  case (1 buf remaining src written)
  define size where "size = nat (if buf > remaining + 1 then remaining + 1 else buf)"
  have sz: "0 < size" "int size \<le> remaining + 1" using "1.prems" by (auto simp: size_def)
  have bound: "wrap64 (remaining + 1) = remaining + 1" using "1.prems" by (intro wrap64_id) auto
  show ?case
  proof (cases "src = [] \<or> remaining - int (length (take size src)) < 0")
    case True
    then show ?thesis
      using "1.prems" sz by (subst copy_limited.simps) (auto simp: bound size_def[symmetric] Let_def min_def split: if_splits)
  next
    case False
    then have "copy_limited buf remaining src written =
        copy_limited buf (remaining - int (length (take size src))) (drop size src) (written @ take size src)"
      using "1.prems" by (subst copy_limited.simps) (simp add: bound size_def[symmetric] Let_def)
    also have "\<dots> = (if int (length (drop size src)) > remaining - int (length (take size src))
        then Inl BlobErrTooLarge else Inr ((written @ take size src) @ drop size src))"
      using "1.IH"[of "remaining + 1" size "take size src"] "1.prems" False size_def bound by auto
    also have "\<dots> = (if int (length src) > remaining then Inl BlobErrTooLarge else Inr (written @ src))"
      by (auto simp: min_def split: if_splits)
    finally show ?thesis .
  qed
qed

definition copy_buffer :: int where "copy_buffer = 32768"

definition FS_Put ::
  "(bytes \<Rightarrow> bytes) \<Rightarrow> bytes \<Rightarrow> string \<Rightarrow> int \<Rightarrow> fs_store \<Rightarrow> blob_error + (descriptor \<times> fs_store)" where
  "FS_Put sha r expected maxSize s =
     rbind (if expected \<noteq> [] then ValidateDigest expected else Inr ()) (\<lambda>_.
     rbind (if maxSize > 0 then copy_limited copy_buffer maxSize r [] else Inr r) (\<lambda>content.
       let digest = DigestPrefix @ hex_encode (sha content);
           d = \<lparr>ds_Digest = digest, ds_Size = int (length content)\<rparr>
       in if expected \<noteq> [] \<and> digest \<noteq> expected then Inl (BlobErrDigestMismatch expected digest)
          else rbind (fs_path s digest) (\<lambda>final.
            if map_of (fs_files s) final \<noteq> None then Inr (d, s)
            else Inr (d, s\<lparr>fs_files := AList.update final content (fs_files s)\<rparr>))))"

definition FS_Get :: "string \<Rightarrow> fs_store \<Rightarrow> blob_error + bytes" where
  "FS_Get digest s =
     rbind (fs_path s digest) (\<lambda>path.
       case map_of (fs_files s) path of None \<Rightarrow> Inl BlobErrNotFound | Some content \<Rightarrow> Inr content)"

definition FS_Stat :: "string \<Rightarrow> fs_store \<Rightarrow> blob_error + descriptor" where
  "FS_Stat digest s =
     rbind (fs_path s digest) (\<lambda>path.
       case map_of (fs_files s) path of
         None \<Rightarrow> Inl BlobErrNotFound
       | Some content \<Rightarrow> Inr \<lparr>ds_Digest = digest, ds_Size = int (length content)\<rparr>)"

definition FS_Delete :: "string \<Rightarrow> fs_store \<Rightarrow> blob_error + fs_store" where
  "FS_Delete digest s =
     rbind (fs_path s digest) (\<lambda>path. Inr (s\<lparr>fs_files := AList.delete path (fs_files s)\<rparr>))"

definition Filesystem :: "(bytes \<Rightarrow> bytes) \<Rightarrow> fs_store blob_ops" where
  "Filesystem sha = \<lparr>b_Put = FS_Put sha, b_Get = FS_Get, b_Stat = FS_Stat, b_Delete = FS_Delete\<rparr>"

subsection \<open>Two locations\<close>

definition or_else :: "blob_error + 'a \<Rightarrow> blob_error + 'a \<Rightarrow> blob_error + 'a" where
  "or_else a b = (if a = Inl BlobErrNotFound then b else a)"

definition Fallback :: "'s blob_ops \<Rightarrow> 't blob_ops \<Rightarrow> ('s \<times> 't) blob_ops" where
  "Fallback Primary Secondary =
     \<lparr>b_Put = (\<lambda>r expected maxSize (p, s).
        rbind (b_Put Primary r expected maxSize p) (\<lambda>(d, p'). Inr (d, (p', s)))),
      b_Get = (\<lambda>digest (p, s). or_else (b_Get Primary digest p) (b_Get Secondary digest s)),
      b_Stat = (\<lambda>digest (p, s). or_else (b_Stat Primary digest p) (b_Stat Secondary digest s)),
      b_Delete = (\<lambda>digest (p, s).
        rbind (b_Delete Primary digest p) (\<lambda>p'.
        rbind (b_Delete Secondary digest s) (\<lambda>s'. Inr (p', s'))))\<rparr>"

subsection \<open>The contract\<close>

text \<open>
  The payloads in play: the hash gives 32 bytes for each and tells them apart. (No hash does so for
  all byte strings, so the set is a parameter.)
\<close>

definition sha_ok :: "(bytes \<Rightarrow> bytes) \<Rightarrow> bytes set \<Rightarrow> bool" where
  "sha_ok sha U \<longleftrightarrow> inj_on sha U \<and> (\<forall>b \<in> U. length (sha b) = 32)"

definition addressed :: "(bytes \<Rightarrow> bytes) \<Rightarrow> bytes set \<Rightarrow> (string \<Rightarrow> bytes option) \<Rightarrow> bool" where
  "addressed sha U m \<longleftrightarrow> sha_ok sha U \<and> (\<forall>d c. m d = Some c \<longrightarrow> c \<in> U \<and> d = Digest sha c)"

lemma hex_encode_inj: "hex_encode a = hex_encode b \<Longrightarrow> a = b"
proof (induction a arbitrary: b)
  case (Cons x a)
  then obtain y b' where b: "b = y # b'" by (cases b) auto
  have dig: "hex_digit m = hex_digit n \<Longrightarrow> m = n" if "m < 16" "n < 16" for m n
  proof -
    have "distinct (map hex_digit [0..<16])" by code_simp
    then have "inj_on hex_digit (set [0..<16])" by (simp add: distinct_map del: upt_rec_numeral)
    then show "hex_digit m = hex_digit n \<Longrightarrow> m = n" using that by (auto dest: inj_onD)
  qed
  have "(of_char z :: nat) div 16 < 16" "(of_char z :: nat) mod 16 < 16" for z :: char
    using nat_of_char_less_256[of z] by linarith+
  then have "(of_char x :: nat) div 16 = of_char y div 16" "(of_char x :: nat) mod 16 = of_char y mod 16"
    using Cons.prems by (auto simp: b intro: dig)
  then have "(of_char x :: nat) = of_char y" by (metis div_mult_mod_eq)
  then show ?case using Cons by (simp add: b of_char_eq_iff)
qed (metis hex_encode.elims list.distinct(1))

lemma Digest_inj: "sha_ok sha U \<Longrightarrow> a \<in> U \<Longrightarrow> b \<in> U \<Longrightarrow> Digest sha a = Digest sha b \<longleftrightarrow> a = b"
  by (auto simp: Digest_def sha_ok_def dest: hex_encode_inj inj_onD)

lemma addressed_upd:
  "addressed sha U m \<Longrightarrow> c \<in> U \<Longrightarrow> addressed sha U (m(Digest sha c \<mapsto> c))"
  by (simp add: addressed_def)

lemma addressed_del: "addressed sha U m \<Longrightarrow> addressed sha U (m(d := None))"
  by (simp add: addressed_def)

locale blob_store =
  fixes ops :: "'s blob_ops" and sha :: "bytes \<Rightarrow> bytes" and U :: "bytes set"
    and contents :: "'s \<Rightarrow> string \<Rightarrow> bytes option" and valid :: "'s \<Rightarrow> bool"
  assumes valid_addressed: "valid s \<Longrightarrow> addressed sha U (contents s)"
    and put: "valid s \<Longrightarrow> r \<in> U \<Longrightarrow> m < 2 ^ 63 - 1 \<Longrightarrow> b_Put ops r e m s = Inr (desc, s') \<Longrightarrow>
      valid s' \<and> contents s' = (contents s)(Digest sha r \<mapsto> r)
      \<and> desc = \<lparr>ds_Digest = Digest sha r, ds_Size = int (length r)\<rparr>"
    and put_iff: "valid s \<Longrightarrow> r \<in> U \<Longrightarrow> m < 2 ^ 63 - 1 \<Longrightarrow>
      (\<exists>x. b_Put ops r e m s = Inr x) \<longleftrightarrow> (m > 0 \<longrightarrow> int (length r) \<le> m) \<and> (e \<noteq> [] \<longrightarrow> e = Digest sha r)"
    and get: "valid s \<Longrightarrow> b_Get ops d s = rbind (ValidateDigest d)
      (\<lambda>_. case contents s d of None \<Rightarrow> Inl BlobErrNotFound | Some c \<Rightarrow> Inr c)"
    and stat: "valid s \<Longrightarrow> b_Stat ops d s = rbind (ValidateDigest d)
      (\<lambda>_. case contents s d of None \<Rightarrow> Inl BlobErrNotFound
           | Some c \<Rightarrow> Inr \<lparr>ds_Digest = d, ds_Size = int (length c)\<rparr>)"
    and delete: "valid s \<Longrightarrow> b_Delete ops d s = Inr s' \<Longrightarrow> valid s' \<and> contents s' = (contents s)(d := None)"
    and delete_iff: "valid s \<Longrightarrow> (\<exists>s'. b_Delete ops d s = Inr s') \<longleftrightarrow> valid_digest d"
    and delete_err: "valid s \<Longrightarrow> \<not> valid_digest d \<Longrightarrow> b_Delete ops d s = map_sum id (\<lambda>_. s) (ValidateDigest d)"

text \<open>A sequence of uploads and deletions; one that fails changes nothing.\<close>

datatype blob_cmd = Upload bytes string int | Remove string

fun blob_run :: "'s blob_ops \<Rightarrow> blob_cmd list \<Rightarrow> 's \<Rightarrow> 's" where
  "blob_run ops [] s = s"
| "blob_run ops (Upload r e m # cs) s =
     blob_run ops cs (case b_Put ops r e m s of Inl _ \<Rightarrow> s | Inr (_, s') \<Rightarrow> s')"
| "blob_run ops (Remove d # cs) s =
     blob_run ops cs (case b_Delete ops d s of Inl _ \<Rightarrow> s | Inr s' \<Rightarrow> s')"

fun cmd_ok :: "bytes set \<Rightarrow> blob_cmd \<Rightarrow> bool" where
  "cmd_ok U (Upload r e m) = (r \<in> U \<and> m < 2 ^ 63 - 1)"
| "cmd_ok U (Remove d) = True"

context blob_store
begin

lemma put_then_get:
  assumes "valid s" "r \<in> U" "m < 2 ^ 63 - 1" "b_Put ops r e m s = Inr (d, s')"
  shows "ds_Digest d = Digest sha r" "contents s' (ds_Digest d) = Some r" "valid s'"
  using put[OF assms] by auto

lemma stored_valid_digest:
  assumes "valid s" "contents s d = Some c"
  shows "valid_digest d"
  using valid_addressed[OF assms(1)] assms(2) digest_valid[of sha c]
  by (auto simp: addressed_def sha_ok_def)

lemma upload_keeps:
  assumes "valid s" "r \<in> U" "m < 2 ^ 63 - 1" "contents s d = Some c" "b_Put ops r e m s = Inr (x, s')"
  shows "valid s' \<and> contents s' d = Some c"
proof -
  have "c \<in> U" "d = Digest sha c" "sha_ok sha U"
    using valid_addressed[OF assms(1)] assms(4) by (auto simp: addressed_def)
  then show ?thesis
    using put[OF assms(1-3,5)] assms(4) Digest_inj[of sha U c r] assms(2) by auto
qed

lemma run_keeps:
  "list_all (cmd_ok U) cs \<Longrightarrow> Remove d \<notin> set cs \<Longrightarrow> valid s \<Longrightarrow> contents s d = Some c \<Longrightarrow>
     valid (blob_run ops cs s) \<and> contents (blob_run ops cs s) d = Some c"
proof (induction cs arbitrary: s)
  case (Cons x cs)
  show ?case
  proof (cases x)
    case (Upload r e m)
    then show ?thesis
      using Cons upload_keeps[of s r m d c e] by (auto split: sum.split prod.split)
  next
    case (Remove d')
    then show ?thesis
      using Cons delete[of s d'] by (auto split: sum.split)
  qed
qed simp

text \<open>What was stored is read back unchanged, whatever else is uploaded and removed meanwhile.\<close>

lemma read_your_write:
  assumes "valid s" "r \<in> U" "m < 2 ^ 63 - 1" "b_Put ops r e m s = Inr (desc, s')"
    and "list_all (cmd_ok U) cs" "Remove (ds_Digest desc) \<notin> set cs"
  shows "ds_Digest desc = Digest sha r \<and> b_Get ops (ds_Digest desc) (blob_run ops cs s') = Inr r"
proof -
  note pg = put_then_get[OF assms(1-4)]
  have "valid (blob_run ops cs s')" "contents (blob_run ops cs s') (ds_Digest desc) = Some r"
    using run_keeps[OF assms(5,6) pg(3,2)] by simp_all
  then show ?thesis using get stored_valid_digest pg(1) by simp
qed

end

subsection \<open>The three stores keep it\<close>

definition mem_valid :: "(bytes \<Rightarrow> bytes) \<Rightarrow> bytes set \<Rightarrow> blob_mem \<Rightarrow> bool" where
  "mem_valid sha U m \<longleftrightarrow> addressed sha U (map_of m)"

lemma limited_payload:
  assumes "m < 2 ^ 63 - 1" "m > 0"
  shows "(int (length (LimitReader r (wrap64 (m + 1)))) > m) = (int (length r) > m)"
    "int (length r) \<le> m \<Longrightarrow> LimitReader r (wrap64 (m + 1)) = r"
  using assms by (auto simp: LimitReader_def wrap64_id min_def)

lemma sha_ok_valid: "addressed sha U c \<Longrightarrow> r \<in> U \<Longrightarrow> valid_digest (Digest sha r)"
  by (simp add: addressed_def sha_ok_def digest_valid)

interpretation memory_blobs: blob_store "Memory sha" sha U map_of "mem_valid sha U" for sha U
proof
  fix s s' :: blob_mem and r :: bytes and m :: int and e d :: string and desc :: descriptor
  assume v: "mem_valid sha U s"
  then show "addressed sha U (map_of s)" by (simp add: mem_valid_def)
  show "b_Get (Memory sha) d s = rbind (ValidateDigest d)
      (\<lambda>_. case map_of s d of None \<Rightarrow> Inl BlobErrNotFound | Some c \<Rightarrow> Inr c)"
    by (simp add: Memory_def Memory_Get_def)
  show "b_Stat (Memory sha) d s = rbind (ValidateDigest d)
      (\<lambda>_. case map_of s d of None \<Rightarrow> Inl BlobErrNotFound
           | Some c \<Rightarrow> Inr \<lparr>ds_Digest = d, ds_Size = int (length c)\<rparr>)"
    by (simp add: Memory_def Memory_Stat_def)
  show "mem_valid sha U s' \<and> map_of s' = (map_of s)(d := None)" if "b_Delete (Memory sha) d s = Inr s'"
    using that v addressed_del[of sha U "map_of s" d]
    by (auto simp: Memory_def Memory_Delete_def mem_valid_def rbind_Inr_iff delete_conv' fun_upd_def)
  show "(\<exists>s'. b_Delete (Memory sha) d s = Inr s') \<longleftrightarrow> valid_digest d"
    by (auto simp: Memory_def Memory_Delete_def rbind_Inr_iff)
  show "b_Delete (Memory sha) d s = map_sum id (\<lambda>_. s) (ValidateDigest d)" if "\<not> valid_digest d"
    using that by (cases "ValidateDigest d") (auto simp: Memory_def Memory_Delete_def)
  assume r: "r \<in> U" "m < 2 ^ 63 - 1"
  have D: "valid_digest (Digest sha r)" using sha_ok_valid v r(1) by (auto simp: mem_valid_def)
  show "(\<exists>x. b_Put (Memory sha) r e m s = Inr x) \<longleftrightarrow>
      (m > 0 \<longrightarrow> int (length r) \<le> m) \<and> (e \<noteq> [] \<longrightarrow> e = Digest sha r)"
    using D limited_payload[OF r(2), of r]
    by (cases "m > 0") (auto simp: Memory_def Memory_Put_def rbind_Inr_iff Digest_def Let_def)
  show "mem_valid sha U s' \<and> map_of s' = (map_of s)(Digest sha r \<mapsto> r)
      \<and> desc = \<lparr>ds_Digest = Digest sha r, ds_Size = int (length r)\<rparr>"
    if "b_Put (Memory sha) r e m s = Inr (desc, s')"
    using that limited_payload[OF r(2), of r] addressed_upd[of sha U "map_of s" r] v r(1)
    by (cases "m > 0") (auto simp: Memory_def Memory_Put_def rbind_Inr_iff mem_valid_def Digest_def Let_def
        split: if_splits)
qed

text \<open>The directory: the path of a digest, and what the store holds under it.\<close>

definition shard_path :: "string \<Rightarrow> string \<Rightarrow> string" where
  "shard_path root d =
     (let hex = drop (length DigestPrefix) d
      in root @ ''/'' @ take 2 hex @ ''/'' @ take 2 (drop 2 hex) @ ''/'' @ hex)"

definition fs_contents :: "fs_store \<Rightarrow> string \<Rightarrow> bytes option" where
  "fs_contents s d = (if valid_digest d then map_of (fs_files s) (shard_path (fs_root s) d) else None)"

definition fs_valid :: "(bytes \<Rightarrow> bytes) \<Rightarrow> bytes set \<Rightarrow> fs_store \<Rightarrow> bool" where
  "fs_valid sha U s \<longleftrightarrow> addressed sha U (fs_contents s)"

lemma fs_path_eq: "fs_path s d = rbind (ValidateDigest d) (\<lambda>_. Inr (shard_path (fs_root s) d))"
  by (simp add: fs_path_def shard_path_def Let_def)

lemma valid_digestD:
  assumes "valid_digest d"
  shows "length d = 71" "d = DigestPrefix @ drop 7 d" "\<forall>c \<in> set (drop 7 d). is_hex c"
proof -
  have "length DigestPrefix = 7" by (simp add: DigestPrefix_def)
  then show "length d = 71" "d = DigestPrefix @ drop 7 d" "\<forall>c \<in> set (drop 7 d). is_hex c"
    using assms append_take_drop_id[of 7 d]
    by (auto simp: ValidateDigest_def check_each_Inr_iff simp del: append_take_drop_id split: if_splits)
qed

lemma shard_path_inj:
  assumes "valid_digest d" "valid_digest d'" "shard_path root d = shard_path root d'"
  shows "d = d'"
proof -
  have pre: "length DigestPrefix = 7" by (simp add: DigestPrefix_def)
  have "drop 7 d = drop 7 d'"
    using assms(3) valid_digestD(1)[OF assms(1)] valid_digestD(1)[OF assms(2)]
    by (simp add: shard_path_def pre Let_def append_eq_append_conv)
  then show ?thesis using valid_digestD(2) assms(1,2) by metis
qed

lemma fs_contents_update:
  assumes "valid_digest d"
  shows "fs_contents (s\<lparr>fs_files := AList.update (shard_path (fs_root s) d) c (fs_files s)\<rparr>)
      = (fs_contents s)(d \<mapsto> c)"
    and "fs_contents (s\<lparr>fs_files := AList.delete (shard_path (fs_root s) d) (fs_files s)\<rparr>)
      = (fs_contents s)(d := None)"
  using assms shard_path_inj[OF _ assms]
  by (auto simp: fs_contents_def fun_eq_iff delete_conv')

lemma FS_Put_eq:
  assumes "valid_digest (Digest sha r)" "m < 2 ^ 63 - 1"
  shows "FS_Put sha r e m s =
    rbind (if e \<noteq> [] then ValidateDigest e else Inr ()) (\<lambda>_.
      if m > 0 \<and> int (length r) > m then Inl BlobErrTooLarge
      else if e \<noteq> [] \<and> Digest sha r \<noteq> e then Inl (BlobErrDigestMismatch e (Digest sha r))
      else Inr (\<lparr>ds_Digest = Digest sha r, ds_Size = int (length r)\<rparr>,
        if map_of (fs_files s) (shard_path (fs_root s) (Digest sha r)) \<noteq> None then s
        else s\<lparr>fs_files := AList.update (shard_path (fs_root s) (Digest sha r)) r (fs_files s)\<rparr>))"
proof -
  have copy: "(if m > 0 then copy_limited copy_buffer m r [] else Inr r) =
      (if m > 0 \<and> int (length r) > m then Inl BlobErrTooLarge else Inr r)"
    using assms(2) by (simp add: copy_limited_spec copy_buffer_def)
  show ?thesis unfolding FS_Put_def copy
    using assms(1) by (cases "Digest sha r = e") (auto simp: Digest_def[symmetric] Let_def fs_path_eq)
qed

interpretation file_blobs: blob_store "Filesystem sha" sha U fs_contents "fs_valid sha U" for sha U
proof
  fix s s' :: fs_store and r :: bytes and m :: int and e d :: string and desc :: descriptor
  assume v: "fs_valid sha U s"
  then show "addressed sha U (fs_contents s)" by (simp add: fs_valid_def)
  show "b_Get (Filesystem sha) d s = rbind (ValidateDigest d)
      (\<lambda>_. case fs_contents s d of None \<Rightarrow> Inl BlobErrNotFound | Some c \<Rightarrow> Inr c)"
    by (cases "ValidateDigest d") (simp_all add: Filesystem_def FS_Get_def fs_path_eq fs_contents_def)
  show "b_Stat (Filesystem sha) d s = rbind (ValidateDigest d)
      (\<lambda>_. case fs_contents s d of None \<Rightarrow> Inl BlobErrNotFound
           | Some c \<Rightarrow> Inr \<lparr>ds_Digest = d, ds_Size = int (length c)\<rparr>)"
    by (cases "ValidateDigest d") (simp_all add: Filesystem_def FS_Stat_def fs_path_eq fs_contents_def)
  show "fs_valid sha U s' \<and> fs_contents s' = (fs_contents s)(d := None)" if "b_Delete (Filesystem sha) d s = Inr s'"
    using that v addressed_del[of sha U "fs_contents s" d] fs_contents_update(2)[of d s]
    by (auto simp: Filesystem_def FS_Delete_def fs_valid_def rbind_Inr_iff fs_path_eq)
  show "(\<exists>s'. b_Delete (Filesystem sha) d s = Inr s') \<longleftrightarrow> valid_digest d"
    by (auto simp: Filesystem_def FS_Delete_def rbind_Inr_iff fs_path_eq)
  show "b_Delete (Filesystem sha) d s = map_sum id (\<lambda>_. s) (ValidateDigest d)" if "\<not> valid_digest d"
    using that by (cases "ValidateDigest d") (auto simp: Filesystem_def FS_Delete_def fs_path_eq)
  assume r: "r \<in> U" "m < 2 ^ 63 - 1"
  have D: "valid_digest (Digest sha r)" using sha_ok_valid v r(1) by (auto simp: fs_valid_def)
  have put: "b_Put (Filesystem sha) r e m s = FS_Put sha r e m s" by (simp add: Filesystem_def)
  show "(\<exists>x. b_Put (Filesystem sha) r e m s = Inr x) \<longleftrightarrow>
      (m > 0 \<longrightarrow> int (length r) \<le> m) \<and> (e \<noteq> [] \<longrightarrow> e = Digest sha r)"
    using D unfolding put FS_Put_eq[OF D r(2)] by (auto simp: rbind_Inr_iff)
  show "fs_valid sha U s' \<and> fs_contents s' = (fs_contents s)(Digest sha r \<mapsto> r)
      \<and> desc = \<lparr>ds_Digest = Digest sha r, ds_Size = int (length r)\<rparr>"
    if p: "b_Put (Filesystem sha) r e m s = Inr (desc, s')"
  proof -
    have st: "desc = \<lparr>ds_Digest = Digest sha r, ds_Size = int (length r)\<rparr>"
      "s' = (if map_of (fs_files s) (shard_path (fs_root s) (Digest sha r)) \<noteq> None then s
         else s\<lparr>fs_files := AList.update (shard_path (fs_root s) (Digest sha r)) r (fs_files s)\<rparr>)"
      using p unfolding put FS_Put_eq[OF D r(2)] by (auto simp: rbind_Inr_iff split: if_splits)
    have same: "c = r" if "fs_contents s (Digest sha r) = Some c" for c
      using that v Digest_inj[of sha U c r] r(1) by (auto simp: fs_valid_def addressed_def)
    have "fs_contents s' = (fs_contents s)(Digest sha r \<mapsto> r)"
    proof (cases "map_of (fs_files s) (shard_path (fs_root s) (Digest sha r))")
      case None
      then show ?thesis using st(2) fs_contents_update(1)[OF D, of s r] by simp
    next
      case (Some c)
      then have "fs_contents s (Digest sha r) = Some c" using D by (simp add: fs_contents_def)
      then show ?thesis using st(2) Some same[of c] by (auto simp: fun_eq_iff)
    qed
    then show ?thesis using st(1) addressed_upd[of sha U "fs_contents s" r] v r(1) by (simp add: fs_valid_def)
  qed
qed

text \<open>Two stores that keep the contract over one hash make a store that keeps it.\<close>

definition both_contents ::
  "('s \<Rightarrow> string \<Rightarrow> bytes option) \<Rightarrow> ('t \<Rightarrow> string \<Rightarrow> bytes option) \<Rightarrow> 's \<times> 't \<Rightarrow> string \<Rightarrow> bytes option" where
  "both_contents cp cq st = cq (snd st) ++ cp (fst st)"

definition both_valid :: "('s \<Rightarrow> bool) \<Rightarrow> ('t \<Rightarrow> bool) \<Rightarrow> 's \<times> 't \<Rightarrow> bool" where
  "both_valid vp vq st \<longleftrightarrow> vp (fst st) \<and> vq (snd st)"

lemma addressed_add: "addressed sha U m \<Longrightarrow> addressed sha U n \<Longrightarrow> addressed sha U (m ++ n)"
  by (auto simp: addressed_def map_add_def split: option.splits)

locale two_stores =
  primary: blob_store p sha U cp vp + secondary: blob_store q sha U cq vq
  for p :: "'s blob_ops" and q :: "'t blob_ops" and sha :: "bytes \<Rightarrow> bytes" and U :: "bytes set"
    and cp :: "'s \<Rightarrow> string \<Rightarrow> bytes option" and vp :: "'s \<Rightarrow> bool"
    and cq :: "'t \<Rightarrow> string \<Rightarrow> bytes option" and vq :: "'t \<Rightarrow> bool"

sublocale two_stores \<subseteq> fallback: blob_store "Fallback p q" sha U "both_contents cp cq" "both_valid vp vq"
proof
  fix st st' :: "'s \<times> 't" and r :: bytes and m :: int and e d :: string and desc :: descriptor
  assume v: "both_valid vp vq st"
  obtain s t where st: "st = (s, t)" by (cases st)
  have vs: "vp s" "vq t" using v by (simp_all add: both_valid_def st)
  note defs = Fallback_def st both_contents_def both_valid_def
  show "addressed sha U (both_contents cp cq st)"
    using addressed_add primary.valid_addressed[OF vs(1)] secondary.valid_addressed[OF vs(2)]
    by (simp add: defs)
  show "b_Get (Fallback p q) d st = rbind (ValidateDigest d)
      (\<lambda>_. case both_contents cp cq st d of None \<Rightarrow> Inl BlobErrNotFound | Some c \<Rightarrow> Inr c)"
    using primary.get[OF vs(1)] secondary.get[OF vs(2)]
    by (cases "ValidateDigest d") (auto simp: defs or_else_def map_add_def ValidateDigest_def split: option.splits if_splits)
  show "b_Stat (Fallback p q) d st = rbind (ValidateDigest d)
      (\<lambda>_. case both_contents cp cq st d of None \<Rightarrow> Inl BlobErrNotFound
           | Some c \<Rightarrow> Inr \<lparr>ds_Digest = d, ds_Size = int (length c)\<rparr>)"
    using primary.stat[OF vs(1)] secondary.stat[OF vs(2)]
    by (cases "ValidateDigest d") (auto simp: defs or_else_def map_add_def ValidateDigest_def split: option.splits if_splits)
  show "both_valid vp vq st' \<and> both_contents cp cq st' = (both_contents cp cq st)(d := None)"
    if "b_Delete (Fallback p q) d st = Inr st'"
    using that primary.delete[OF vs(1), of d] secondary.delete[OF vs(2), of d]
    by (auto simp: defs rbind_Inr_iff map_add_def fun_eq_iff split: option.split)
  show "(\<exists>st'. b_Delete (Fallback p q) d st = Inr st') \<longleftrightarrow> valid_digest d"
    using primary.delete_iff[OF vs(1), of d] secondary.delete_iff[OF vs(2), of d]
    by (auto simp: defs rbind_Inr_iff)
  show "b_Delete (Fallback p q) d st = map_sum id (\<lambda>_. st) (ValidateDigest d)" if "\<not> valid_digest d"
    using primary.delete_err[OF vs(1) that] that
    by (cases "ValidateDigest d") (auto simp: defs)
  assume r: "r \<in> U" "m < 2 ^ 63 - 1"
  show "(\<exists>x. b_Put (Fallback p q) r e m st = Inr x) \<longleftrightarrow>
      (m > 0 \<longrightarrow> int (length r) \<le> m) \<and> (e \<noteq> [] \<longrightarrow> e = Digest sha r)"
    unfolding primary.put_iff[OF vs(1) r, symmetric] by (auto simp: defs rbind_Inr_iff)
  show "both_valid vp vq st' \<and> both_contents cp cq st' = (both_contents cp cq st)(Digest sha r \<mapsto> r)
      \<and> desc = \<lparr>ds_Digest = Digest sha r, ds_Size = int (length r)\<rparr>"
    if "b_Put (Fallback p q) r e m st = Inr (desc, st')"
    using that primary.put[OF vs(1) r, of e] vs
    by (auto simp: defs rbind_Inr_iff)
qed

interpretation moved_blobs: two_stores "Filesystem sha" "Filesystem sha" sha U
  fs_contents "fs_valid sha U" fs_contents "fs_valid sha U" for sha U ..

interpretation mixed_blobs: two_stores "Memory sha" "Filesystem sha" sha U
  map_of "mem_valid sha U" fs_contents "fs_valid sha U" for sha U ..

subsection \<open>Properties\<close>

text \<open>
  A payload accepted by the store that reads from a second location is filed under the
  digest of its own bytes and is read back byte for byte after any further uploads and deletions of
  other digests, whichever of the two locations they touch; a malformed digest is refused before the
  store is consulted. (The payloads in play are told apart by the hash, and no ceiling is the largest
  \<open>int64\<close>.)
\<close>

theorem blob_read_your_write:
  assumes "both_valid (fs_valid sha U) (fs_valid sha U) s" and "r \<in> U" and "m < 2 ^ 63 - 1"
    and "b_Put (Fallback (Filesystem sha) (Filesystem sha)) r e m s = Inr (desc, s')"
    and "list_all (cmd_ok U) cs" and "Remove (ds_Digest desc) \<notin> set cs"
  shows "ds_Digest desc = Digest sha r \<and> (e \<noteq> [] \<longrightarrow> e = Digest sha r)
    \<and> b_Get (Fallback (Filesystem sha) (Filesystem sha)) (ds_Digest desc)
        (blob_run (Fallback (Filesystem sha) (Filesystem sha)) cs s') = Inr r
    \<and> (\<forall>d. \<not> valid_digest d \<longrightarrow> isl (b_Get (Fallback (Filesystem sha) (Filesystem sha)) d s'))"
proof -
  have "isl (b_Get (Fallback (Filesystem sha) (Filesystem sha)) d s')" if "\<not> valid_digest d" for d
    using that moved_blobs.fallback.get moved_blobs.fallback.put_then_get(3)[OF assms(1-4)]
    by (cases "ValidateDigest d") simp_all
  then show ?thesis
    using moved_blobs.fallback.read_your_write[OF assms]
      moved_blobs.fallback.put_iff[OF assms(1-3), of e] assms(4) by blast
qed

text \<open>
  A digest that reaches the directory names a file strictly inside its root, in two levels
  of two hexadecimal digits: no component contains a separator or a dot, so no digest a client sends
  can climb out of the root, and two digests never share a file.
\<close>

theorem digest_path_confined:
  assumes "fs_path s d = Inr path"
  shows "\<exists>a b hex. path = fs_root s @ ''/'' @ a @ ''/'' @ b @ ''/'' @ hex
      \<and> length a = 2 \<and> length b = 2 \<and> length hex = 64
      \<and> (\<forall>c \<in> set (a @ b @ hex). c \<noteq> CHR ''/'' \<and> c \<noteq> CHR ''.'')
      \<and> (\<forall>d'. fs_path s d' = Inr path \<longrightarrow> d' = d)"
proof -
  have v: "valid_digest d" and path: "path = shard_path (fs_root s) d"
    using assms by (auto simp: fs_path_eq rbind_Inr_iff)
  have pre: "length DigestPrefix = 7" by (simp add: DigestPrefix_def)
  have hex: "c \<noteq> CHR ''/'' \<and> c \<noteq> CHR ''.''" if "is_hex c" for c
  proof -
    have "\<not> is_hex (CHR ''/'')" "\<not> is_hex (CHR ''.'')" by code_simp+
    then show ?thesis using that by auto
  qed
  have "d' = d" if "fs_path s d' = Inr path" for d'
    using that shard_path_inj[OF _ v] path by (auto simp: fs_path_eq rbind_Inr_iff)
  moreover have "c \<noteq> CHR ''/'' \<and> c \<noteq> CHR ''.''"
    if "c \<in> set (take 2 (drop 7 d) @ take 2 (drop 2 (drop 7 d)) @ drop 7 d)" for c
    using that valid_digestD(3)[OF v] hex in_set_takeD in_set_dropD by (metis Un_iff set_append)
  ultimately show ?thesis
    using valid_digestD(1)[OF v]
    by (intro exI[of _ "take 2 (drop 7 d)"] exI[of _ "take 2 (drop 2 (drop 7 d))"] exI[of _ "drop 7 d"])
      (simp add: path shard_path_def pre Let_def)
qed

text \<open>
  Claim C40. The ceiling of an upload is exact below the largest \<open>int64\<close> and wraps at it. Below, each store accepts
  precisely the payloads that are not longer, announced with their own digest or with none, and the map
  stores them whole. At the largest \<open>int64\<close> the limit plus one is negative: the map reads nothing, so that it
  accepts an upload precisely when it announces no digest or the digest of the empty payload, and
  stores an empty blob in its place; the directory cuts its buffer to a negative length and panics.
\<close>

theorem upload_ceiling_wraps:
  assumes "\<And>b. length (sha b) = 32" "0 < m" "m < 2 ^ 63"
  shows "(Memory_Put sha r e m st = Inr (d, st') \<longleftrightarrow>
      (let content = (if m = 2 ^ 63 - 1 then [] else r)
       in int (length content) \<le> m \<and> e \<in> {[], Digest sha content}
        \<and> d = \<lparr>ds_Digest = Digest sha content, ds_Size = int (length content)\<rparr>
        \<and> st' = AList.update (Digest sha content) content st))
    \<and> ((\<exists>x. FS_Put sha r e m s = Inr x) \<longleftrightarrow> m \<noteq> 2 ^ 63 - 1 \<and> int (length r) \<le> m \<and> e \<in> {[], Digest sha r})
    \<and> (m = 2 ^ 63 - 1 \<and> (e = [] \<or> valid_digest e) \<longrightarrow> FS_Put sha r e m s = Inl BlobPanic)"
proof (cases "m = 2 ^ 63 - 1")
  case True
  have w: "wrap64 (m + 1) = - (2 ^ 63)" unfolding True by code_simp
  have "copy_limited copy_buffer m r [] = Inl BlobPanic"
    by (subst copy_limited.simps) (use assms(2) in \<open>simp add: w copy_buffer_def Let_def\<close>)
  then have "(\<nexists>x. FS_Put sha r e m s = Inr x)" "e = [] \<or> valid_digest e \<Longrightarrow> FS_Put sha r e m s = Inl BlobPanic"
    using assms(2) by (auto simp: FS_Put_def rbind_Inr_iff)
  moreover have "LimitReader r (wrap64 (m + 1)) = []" by (simp add: w LimitReader_def)
  ultimately show ?thesis
    using True assms(2) digest_valid[of sha "[]"] assms(1)
    by (auto simp: Memory_Put_def rbind_Inr_iff Digest_def Let_def)
next
  case False
  then have m: "m < 2 ^ 63 - 1" using assms(3) by simp
  have D: "valid_digest (Digest sha r)" using assms(1) by (rule digest_valid)
  have "Memory_Put sha r e m st = Inr (d, st') \<longleftrightarrow> int (length r) \<le> m \<and> e \<in> {[], Digest sha r}
      \<and> d = \<lparr>ds_Digest = Digest sha r, ds_Size = int (length r)\<rparr> \<and> st' = AList.update (Digest sha r) r st"
    using assms(2) D limited_payload[OF m assms(2), of r]
    by (auto simp: Memory_Put_def rbind_Inr_iff Digest_def Let_def)
  moreover have "(\<exists>x. FS_Put sha r e m s = Inr x) \<longleftrightarrow> int (length r) \<le> m \<and> e \<in> {[], Digest sha r}"
    unfolding FS_Put_eq[OF D m] using assms(2) D by (auto simp: rbind_Inr_iff)
  ultimately show ?thesis using False by (simp add: Let_def)
qed

subsection \<open>Witnesses\<close>

definition ex_sha :: "bytes \<Rightarrow> bytes" where
  "ex_sha b = take 32 (b @ replicate 32 (CHR 0x00))"

definition ex_root :: fs_store where
  "ex_root = \<lparr>fs_root = ''/var/blobs'', fs_files = []\<rparr>"

theorem blob_read_your_write_witness:
  "\<exists>desc s'. b_Put (Fallback (Filesystem ex_sha) (Filesystem ex_sha)) ''patch'' [] 100 (ex_root, ex_root) = Inr (desc, s')
     \<and> b_Get (Fallback (Filesystem ex_sha) (Filesystem ex_sha)) (ds_Digest desc)
         (blob_run (Fallback (Filesystem ex_sha) (Filesystem ex_sha)) [Upload ''other'' [] 0] s') = Inr ''patch''"
proof -
  let ?U = "{''patch'', ''other''}"
  have sha: "sha_ok ex_sha ?U"
    unfolding sha_ok_def by (intro conjI) (simp_all add: inj_on_def ex_sha_def)
  then have v: "both_valid (fs_valid ex_sha ?U) (fs_valid ex_sha ?U) (ex_root, ex_root)"
    by (simp add: both_valid_def fs_valid_def addressed_def fs_contents_def ex_root_def)
  have "\<exists>x. b_Put (Fallback (Filesystem ex_sha) (Filesystem ex_sha)) ''patch'' [] 100 (ex_root, ex_root) = Inr x"
    using moved_blobs.fallback.put_iff[OF v, of "''patch''" 100 "[]"] by simp
  then obtain desc s' where p: "b_Put (Fallback (Filesystem ex_sha) (Filesystem ex_sha)) ''patch'' [] 100
      (ex_root, ex_root) = Inr (desc, s')" by force
  then show ?thesis
    using blob_read_your_write[OF v _ _ p, of "[Upload ''other'' [] 0]"] by auto
qed

theorem digest_path_confined_witness:
  "\<exists>path a b hex. fs_path ex_root (Digest ex_sha ''patch'') = Inr path
     \<and> path = ''/var/blobs'' @ ''/'' @ a @ ''/'' @ b @ ''/'' @ hex \<and> length hex = 64"
proof -
  have "valid_digest (Digest ex_sha ''patch'')" by (rule digest_valid) (simp add: ex_sha_def)
  then obtain path where "fs_path ex_root (Digest ex_sha ''patch'') = Inr path" by (simp add: fs_path_eq)
  then show ?thesis
    using digest_path_confined[of ex_root "Digest ex_sha ''patch''" path] by (auto simp: ex_root_def)
qed

theorem upload_ceiling_wraps_witness:
  "Memory_Put ex_sha ''patch'' [] (2 ^ 63 - 1) [] = Inr (\<lparr>ds_Digest = Digest ex_sha [], ds_Size = 0\<rparr>, [(Digest ex_sha [], [])])
   \<and> FS_Put ex_sha ''patch'' [] (2 ^ 63 - 1) ex_root = Inl BlobPanic"
proof -
  have "length (ex_sha b) = 32" for b by (simp add: ex_sha_def)
  from upload_ceiling_wraps[of ex_sha "2 ^ 63 - 1" "''patch''" "[]" "[]", OF this, of
      "\<lparr>ds_Digest = Digest ex_sha [], ds_Size = 0\<rparr>" "[(Digest ex_sha [], [])]" ex_root]
  show ?thesis by simp
qed

end
