(* ===== verification/Nit_Token.thy ===== *)
theory Nit_Token
  imports Nit_Models
begin

text \<open>
  \<open>internal/synctoken/synctoken.go\<close>: the signed tokens by which a client names the commit its workspace
  is a projection of. The unpadded URL alphabet of \<open>encoding/base64\<close> is modelled, its tolerance of line
  breaks and of stray low bits in the last character included. HKDF and HMAC (\<open>crypto\<close>) and the JSON
  form of a payload (\<open>payload_json\<close>) are parameters; the clock is an argument of \<open>Sign\<close>.
\<close>

subsection \<open>Base64, raw URL alphabet\<close>

definition b64_alphabet :: string where
  "b64_alphabet = ''ABCDEFGHIJKLMNOPQRSTUVWXYZabcdefghijklmnopqrstuvwxyz0123456789-_''"

definition b64_char :: "int \<Rightarrow> char" where "b64_char n = b64_alphabet ! nat n"

definition b64_value :: "char \<Rightarrow> int option" where
  "b64_value c = map_option int (index_byte c b64_alphabet)"

definition byte_of :: "int \<Rightarrow> char" where "byte_of n = char_of (n mod 256)"

fun b64_encode :: "bytes \<Rightarrow> string" where
  "b64_encode [] = []"
| "b64_encode [a] =
     (let n = of_char a * 65536 in [b64_char (n div 262144), b64_char (n div 4096 mod 64)])"
| "b64_encode [a, b] =
     (let n = of_char a * 65536 + of_char b * 256
      in [b64_char (n div 262144), b64_char (n div 4096 mod 64), b64_char (n div 64 mod 64)])"
| "b64_encode (a # b # c # rest) =
     (let n = of_char a * 65536 + of_char b * 256 + of_char c
      in b64_char (n div 262144) # b64_char (n div 4096 mod 64) # b64_char (n div 64 mod 64)
         # b64_char (n mod 64) # b64_encode rest)"

fun b64_quanta :: "int list \<Rightarrow> bytes option" where
  "b64_quanta [] = Some []"
| "b64_quanta [w] = None"
| "b64_quanta [w, x] = (let n = w * 262144 + x * 4096 in Some [byte_of (n div 65536)])"
| "b64_quanta [w, x, y] =
     (let n = w * 262144 + x * 4096 + y * 64 in Some [byte_of (n div 65536), byte_of (n div 256)])"
| "b64_quanta (w # x # y # z # rest) =
     (let n = w * 262144 + x * 4096 + y * 64 + z
      in map_option (\<lambda>bs. byte_of (n div 65536) # byte_of (n div 256) # byte_of n # bs) (b64_quanta rest))"

definition b64_decode :: "string \<Rightarrow> bytes option" where
  "b64_decode s =
     (let cs = filter (\<lambda>c. c \<noteq> CHR 0x0A \<and> c \<noteq> CHR 0x0D) s
      in if list_ex (\<lambda>c. b64_value c = None) cs then None
         else b64_quanta (map (\<lambda>c. the (b64_value c)) cs))"

subsection \<open>Tokens\<close>

record payload =
  pl_Workspace :: id
  pl_Repository :: id
  pl_Branch :: string
  pl_UpstreamCommit :: string
  pl_PolicyVersion :: string
  pl_IssuedAt :: int

record crypto =
  cy_hkdf :: "bytes \<Rightarrow> string \<Rightarrow> nat \<Rightarrow> bytes"
  cy_hmac :: "bytes \<Rightarrow> bytes \<Rightarrow> bytes"

record payload_json =
  js_Marshal :: "payload \<Rightarrow> bytes"
  js_Unmarshal :: "bytes \<Rightarrow> payload option"

datatype token_error =
    ErrMalformed
  | ErrBadSignature
  | ShortKey nat
  | SignerNeedsTenant

definition version :: string where "version = ''st2''"
definition legacyVersion :: string where "legacyVersion = ''st1''"
definition MinKeyBytes :: nat where "MinKeyBytes = 32"

record root =
  rt_key :: bytes

record signer =
  sg_key :: bytes
  sg_root :: bytes
  sg_tenant :: tenant_id

definition NewRoot :: "bytes \<Rightarrow> token_error + root" where
  "NewRoot key = (if length key < MinKeyBytes then Inl (ShortKey (length key)) else Inr \<lparr>rt_key = key\<rparr>)"

definition For :: "crypto \<Rightarrow> root \<Rightarrow> tenant_id \<Rightarrow> token_error + signer" where
  "For cy r tenant =
     (if tenant = [] then Inl SignerNeedsTenant
      else Inr \<lparr>sg_key = cy_hkdf cy (rt_key r) (''nit/'' @ version @ ''/tenant/'' @ tenant) 32,
                sg_root = rt_key r, sg_tenant = tenant\<rparr>)"

definition macWith :: "crypto \<Rightarrow> bytes \<Rightarrow> string \<Rightarrow> string" where
  "macWith cy key message = b64_encode (cy_hmac cy key message)"

definition mac :: "crypto \<Rightarrow> signer \<Rightarrow> string \<Rightarrow> string" where
  "mac cy s message = macWith cy (sg_key s) message"

definition Sign :: "crypto \<Rightarrow> payload_json \<Rightarrow> int \<Rightarrow> signer \<Rightarrow> payload \<Rightarrow> string" where
  "Sign cy js now s p =
     (let p = (if pl_IssuedAt p = 0 then p\<lparr>pl_IssuedAt := now\<rparr> else p);
          encoded = b64_encode (js_Marshal js p);
          signed = version @ ''.'' @ encoded
      in signed @ ''.'' @ mac cy s signed)"

definition Verify :: "crypto \<Rightarrow> payload_json \<Rightarrow> signer \<Rightarrow> string \<Rightarrow> token_error + payload" where
  "Verify cy js s token =
     (case split_on (CHR ''.'') token of
        [v, body, sig] \<Rightarrow>
          rbind (if v = version then Inr (sg_key s)
                 else if v = legacyVersion then
                   (if sg_tenant s \<noteq> DefaultTenant then Inl ErrBadSignature else Inr (sg_root s))
                 else Inl ErrMalformed) (\<lambda>key.
            if sig \<noteq> macWith cy key (v @ ''.'' @ body) then Inl ErrBadSignature
            else case b64_decode body of
                   None \<Rightarrow> Inl ErrMalformed
                 | Some raw \<Rightarrow> (case js_Unmarshal js raw of None \<Rightarrow> Inl ErrMalformed | Some p \<Rightarrow> Inr p))
      | _ \<Rightarrow> Inl ErrMalformed)"

definition Matches :: "payload \<Rightarrow> id \<Rightarrow> id \<Rightarrow> string \<Rightarrow> bool" where
  "Matches p workspace repository branch =
     (pl_Workspace p = workspace \<and> pl_Repository p = repository \<and> pl_Branch p = branch)"

subsection \<open>The encoding is faithful\<close>

lemma b64_table:
  assumes "0 \<le> n" "n < 64"
  shows "b64_value (b64_char n) = Some n" "b64_char n \<noteq> CHR ''.''" "b64_char n \<noteq> CHR 0x0A" "b64_char n \<noteq> CHR 0x0D"
proof -
  have "list_all (\<lambda>n. b64_value (b64_char n) = Some n \<and> b64_char n \<noteq> CHR ''.'' \<and> b64_char n \<noteq> CHR 0x0A
      \<and> b64_char n \<noteq> CHR 0x0D) [0..63]" by code_simp
  moreover have "n \<in> set [0..63]" using assms by simp
  ultimately show "b64_value (b64_char n) = Some n" "b64_char n \<noteq> CHR ''.''" "b64_char n \<noteq> CHR 0x0A"
    "b64_char n \<noteq> CHR 0x0D" by (simp_all add: list_all_iff del: set_upto)
qed

text \<open>The six-bit digits of an encoding, from which the characters are drawn.\<close>

fun b64_digits :: "bytes \<Rightarrow> int list" where
  "b64_digits [] = []"
| "b64_digits [a] = (let n = of_char a * 65536 in [n div 262144, n div 4096 mod 64])"
| "b64_digits [a, b] =
     (let n = of_char a * 65536 + of_char b * 256 in [n div 262144, n div 4096 mod 64, n div 64 mod 64])"
| "b64_digits (a # b # c # rest) =
     (let n = of_char a * 65536 + of_char b * 256 + of_char c
      in n div 262144 # n div 4096 mod 64 # n div 64 mod 64 # n mod 64 # b64_digits rest)"

lemma b64_encode_digits: "b64_encode bs = map b64_char (b64_digits bs)"
  by (induction bs rule: b64_encode.induct) (auto simp: Let_def)

lemma byte_bound: "0 \<le> (of_char a :: int)" "(of_char a :: int) < 256"
proof -
  have e: "(of_char a :: int) = int (of_char a)" by (rule of_nat_of_char[symmetric])
  show "0 \<le> (of_char a :: int)" unfolding e by (rule of_nat_0_le_iff)
  show "(of_char a :: int) < 256" unfolding e using nat_of_char_less_256[of a] by linarith
qed

lemma triple:
  assumes "0 \<le> a" "a < 256" "0 \<le> b" "b < 256" "0 \<le> c" "c < (256 :: int)" and n: "n = a * 65536 + b * 256 + c"
  shows "n div 65536 = a" "n div 256 mod 256 = b" "n mod 256 = c" "0 \<le> n div 262144" "n div 262144 < 64"
proof -
  define k where "k = a * 256 + b"
  have nk: "n = k * 256 + c" by (simp add: n k_def)
  have "n div 256 = k" "n mod 256 = c" using assms(5,6) unfolding nk by simp_all
  then have 1: "n div 256 = a * 256 + b" "n mod 256 = c" by (simp_all add: k_def)
  then show "n mod 256 = c" "n div 256 mod 256 = b" using assms(3,4) by simp_all
  have "n div 65536 = n div 256 div 256" by (simp add: div_mult2_eq[symmetric] zdiv_zmult2_eq[symmetric])
  then show a: "n div 65536 = a" using 1(1) assms(3,4) by simp
  have "n div 262144 = n div 65536 div 4" by (simp add: zdiv_zmult2_eq[symmetric])
  then show "0 \<le> n div 262144" "n div 262144 < 64" using a assms(1,2) by simp_all
qed

lemma b64_digits_bound: "d \<in> set (b64_digits bs) \<Longrightarrow> 0 \<le> d \<and> d < 64"
proof (induction bs rule: b64_digits.induct)
  case (4 a b c rest)
  define n where "n = of_char a * 65536 + of_char b * 256 + (of_char c :: int)"
  have "0 \<le> n div 262144" "n div 262144 < 64"
    by (rule triple(4,5)[OF byte_bound[of a] byte_bound[of b] byte_bound[of c] n_def])+
  moreover have "0 \<le> n div 4096 mod 64 \<and> n div 4096 mod 64 < 64" "0 \<le> n div 64 mod 64 \<and> n div 64 mod 64 < 64"
    "0 \<le> n mod 64 \<and> n mod 64 < 64" by simp_all
  ultimately show ?case using 4 unfolding b64_digits.simps Let_def n_def[symmetric] by (simp only: list.set insert_iff empty_iff) blast
next
  case (2 a)
  define n where "n = of_char a * (65536 :: int)"
  have "n = of_char a * 65536 + 0 * 256 + 0" by (simp add: n_def)
  from triple(4,5)[OF byte_bound[of a] _ _ _ _ this]
  have "0 \<le> n div 262144" "n div 262144 < 64" by simp_all
  moreover have "0 \<le> n div 4096 mod 64 \<and> n div 4096 mod 64 < 64" "0 \<le> n div 64 mod 64 \<and> n div 64 mod 64 < 64"
    "0 \<le> n mod 64 \<and> n mod 64 < 64" by simp_all
  ultimately show ?case using 2 unfolding b64_digits.simps Let_def n_def[symmetric] by (simp only: list.set insert_iff empty_iff) blast
next
  case (3 a b)
  define n where "n = of_char a * 65536 + of_char b * (256 :: int)"
  have "n = of_char a * 65536 + of_char b * 256 + 0" by (simp add: n_def)
  from triple(4,5)[OF byte_bound[of a] byte_bound[of b] _ _ this]
  have "0 \<le> n div 262144" "n div 262144 < 64" by simp_all
  moreover have "0 \<le> n div 4096 mod 64 \<and> n div 4096 mod 64 < 64" "0 \<le> n div 64 mod 64 \<and> n div 64 mod 64 < 64"
    "0 \<le> n mod 64 \<and> n mod 64 < 64" by simp_all
  ultimately show ?case using 3 unfolding b64_digits.simps Let_def n_def[symmetric] by (simp only: list.set insert_iff empty_iff) blast
qed simp

lemma regroup: "n div 262144 * 262144 + n div 4096 mod 64 * 4096 + n div 64 mod 64 * 64 + n mod 64 = (n :: int)"
proof -
  have "n div 4096 = n div 4096 div 64 * 64 + n div 4096 mod 64" "n div 64 = n div 64 div 64 * 64 + n div 64 mod 64"
    "n = n div 64 * 64 + n mod 64" by simp_all
  moreover have "n div 4096 div 64 = n div 262144" "n div 64 div 64 = n div 4096"
    by (simp_all add: zdiv_zmult2_eq[symmetric])
  ultimately show ?thesis by linarith
qed

lemma regroup_short:
  "n mod 64 = 0 \<Longrightarrow> n div 262144 * 262144 + n div 4096 mod 64 * 4096 + n div 64 mod 64 * 64 = (n :: int)"
  "n mod 4096 = 0 \<Longrightarrow> n div 262144 * 262144 + n div 4096 mod 64 * 4096 = n"
proof -
  show 1: "n mod 64 = 0 \<Longrightarrow> n div 262144 * 262144 + n div 4096 mod 64 * 4096 + n div 64 mod 64 * 64 = n"
    using regroup[of n] by simp
  assume m: "n mod 4096 = 0"
  then obtain k where "n = k * 4096" by (metis mod_0_imp_dvd dvdE mult.commute)
  then have "n mod 64 = 0" "n div 64 mod 64 = 0" by simp_all
  then show "n div 262144 * 262144 + n div 4096 mod 64 * 4096 = n" using 1 by simp
qed

lemma byte_of_char [simp]: "n mod 256 = of_char a \<Longrightarrow> byte_of n = a"
  by (simp add: byte_of_def)

lemma byte_mod [simp]: "(of_char a :: int) mod 256 = of_char a"
  using byte_bound[of a] by simp

lemma b64_quanta_digits: "b64_quanta (b64_digits bs) = Some bs"
proof (induction bs rule: b64_digits.induct)
  case (2 a)
  define n where "n = of_char a * (65536 :: int)"
  have "n mod 4096 = 0" "n div 65536 = of_char a" by (simp_all add: n_def)
  note n = this
  have e: "n div 262144 * 262144 + n div 4096 mod 64 * 4096 = n"
    by (rule regroup_short(2)[OF n(1)])
  have "byte_of (n div 65536) = a"
    by (rule byte_of_char, simp only: n(2) byte_mod)
  then show ?case by (simp only: b64_digits.simps Let_def n_def[symmetric] b64_quanta.simps e)
next
  case (3 a b)
  define n where "n = of_char a * 65536 + of_char b * (256 :: int)"
  have n0: "n = of_char a * 65536 + of_char b * 256 + 0" by (simp add: n_def)
  have "n = (of_char a * 1024 + of_char b * 4) * 64" by (simp add: n_def)
  then have "n mod 64 = 0" by simp
  then have e: "n div 262144 * 262144 + n div 4096 mod 64 * 4096 + n div 64 mod 64 * 64 = n"
    by (rule regroup_short(1))
  have t: "n div 65536 = of_char a" "n div 256 mod 256 = of_char b"
    by (rule triple(1,2)[OF byte_bound[of a] byte_bound[of b] _ _ n0]; simp)+
  have "byte_of (n div 65536) = a" "byte_of (n div 256) = b"
    by (rule byte_of_char, simp only: t byte_mod)+
  then show ?case by (simp only: b64_digits.simps Let_def n_def[symmetric] b64_quanta.simps e)
next
  case (4 a b c rest)
  define n where "n = of_char a * 65536 + of_char b * 256 + (of_char c :: int)"
  note t = triple(1-3)[OF byte_bound[of a] byte_bound[of b] byte_bound[of c] n_def]
  have e: "byte_of (n div 65536) = a" "byte_of (n div 256) = b" "byte_of n = c"
    by (rule byte_of_char, simp only: t byte_mod)+
  show ?case
    by (simp only: b64_digits.simps Let_def n_def[symmetric] b64_quanta.simps regroup e 4 option.map)
qed simp

lemma b64_roundtrip: "b64_decode (b64_encode bs) = Some bs"
proof -
  have id: "filter (\<lambda>c. c \<noteq> CHR 0x0A \<and> c \<noteq> CHR 0x0D) (map b64_char ds) = map b64_char ds"
    "\<not> list_ex (\<lambda>c. b64_value c = None) (map b64_char ds)"
    "map (\<lambda>c. the (b64_value c)) (map b64_char ds) = ds" if "\<forall>d \<in> set ds. 0 \<le> d \<and> d < 64" for ds
    using that by (induction ds) (simp_all add: b64_table)
  show ?thesis
    using id[of "b64_digits bs"] b64_digits_bound[of _ bs] b64_quanta_digits[of bs]
    by (simp add: b64_decode_def b64_encode_digits Let_def)
qed

lemma b64_no_dot: "CHR ''.'' \<notin> set (b64_encode bs)"
  using b64_digits_bound b64_table(2) by (fastforce simp: b64_encode_digits)

lemma b64_inj: "b64_encode a = b64_encode b \<longleftrightarrow> a = b"
  by (metis b64_roundtrip option.inject)

subsection \<open>What a verified token is\<close>

text \<open>The key under which a signer accepts a token of a version.\<close>

definition accepting_key :: "signer \<Rightarrow> string \<Rightarrow> bytes option" where
  "accepting_key s v =
     (if v = version then Some (sg_key s)
      else if v = legacyVersion \<and> sg_tenant s = DefaultTenant then Some (sg_root s) else None)"

lemma split_three:
  "split_on c t = [v, b, g] \<longleftrightarrow> t = v @ c # b @ c # g \<and> c \<notin> set v \<and> c \<notin> set b \<and> c \<notin> set g"
proof
  assume a: "split_on c t = [v, b, g]"
  have "join_with [c] (split_on c t) = t" by (rule join_split_on)
  then have "t = v @ c # b @ c # g" unfolding a by simp
  moreover have "c \<notin> set y" if "y \<in> set [v, b, g]" for y
    using split_on_no_sep[of y c t] that unfolding a by simp
  ultimately show "t = v @ c # b @ c # g \<and> c \<notin> set v \<and> c \<notin> set b \<and> c \<notin> set g" by simp
next
  assume "t = v @ c # b @ c # g \<and> c \<notin> set v \<and> c \<notin> set b \<and> c \<notin> set g"
  then show "split_on c t = [v, b, g]" using split_on_join[of "[v, b, g]" c] by simp
qed

lemma Verify_parts:
  assumes "CHR ''.'' \<notin> set v" "CHR ''.'' \<notin> set body" "CHR ''.'' \<notin> set sig"
  shows "Verify cy js s (v @ ''.'' @ body @ ''.'' @ sig) =
    rbind (if v = version then Inr (sg_key s)
           else if v = legacyVersion then
             (if sg_tenant s \<noteq> DefaultTenant then Inl ErrBadSignature else Inr (sg_root s))
           else Inl ErrMalformed) (\<lambda>key.
      if sig \<noteq> macWith cy key (v @ ''.'' @ body) then Inl ErrBadSignature
      else case b64_decode body of
             None \<Rightarrow> Inl ErrMalformed
           | Some raw \<Rightarrow> (case js_Unmarshal js raw of None \<Rightarrow> Inl ErrMalformed | Some p \<Rightarrow> Inr p))"
proof -
  have "split_on (CHR ''.'') (v @ ''.'' @ body @ ''.'' @ sig) = [v, body, sig]"
    using assms by (simp add: split_three)
  then show ?thesis by (simp only: Verify_def list.case)
qed

lemma version_no_dot: "CHR ''.'' \<notin> set version"
  by (simp add: version_def)

lemma Verify_Sign:
  assumes p: "p' = (if pl_IssuedAt p = 0 then p\<lparr>pl_IssuedAt := now\<rparr> else p)"
  shows "Verify cy js s' (Sign cy js now s p) =
    (if macWith cy (sg_key s) (version @ ''.'' @ b64_encode (js_Marshal js p'))
          \<noteq> macWith cy (sg_key s') (version @ ''.'' @ b64_encode (js_Marshal js p')) then Inl ErrBadSignature
     else case js_Unmarshal js (js_Marshal js p') of None \<Rightarrow> Inl ErrMalformed | Some q \<Rightarrow> Inr q)"
proof -
  have "Sign cy js now s p = version @ ''.'' @ b64_encode (js_Marshal js p') @ ''.'' @
      macWith cy (sg_key s) (version @ ''.'' @ b64_encode (js_Marshal js p'))"
    unfolding Sign_def Let_def p[symmetric] by (simp add: mac_def)
  then show ?thesis
    by (simp only: Verify_parts version_no_dot b64_no_dot macWith_def not_False_eq_True)
      (simp add: b64_roundtrip)
qed

subsection \<open>Properties\<close>

text \<open>
  Claim C35. Everything a signer accepts was authenticated for it: a token verifies to a payload
  exactly when it is three dot-free parts, version, body and signature, the signature is the code of
  version and body under the key this signer accepts for that version (the tenant's own key for the
  current version; the root key for the legacy version, and only for the default tenant), and the body
  decodes to that payload.
\<close>

theorem token_verify_exact:
  "Verify cy js s token = Inr p \<longleftrightarrow>
     (\<exists>v body key raw. token = v @ ''.'' @ body @ ''.'' @ macWith cy key (v @ ''.'' @ body)
        \<and> CHR ''.'' \<notin> set v \<and> CHR ''.'' \<notin> set body
        \<and> accepting_key s v = Some key \<and> b64_decode body = Some raw \<and> js_Unmarshal js raw = Some p)"
  (is "?l \<longleftrightarrow> ?r")
proof
  assume ?l
  then obtain v body sig where t: "split_on (CHR ''.'') token = [v, body, sig]"
    by (auto simp: Verify_def split: list.splits)
  then have parts: "token = v @ ''.'' @ body @ ''.'' @ sig"
      "CHR ''.'' \<notin> set v" "CHR ''.'' \<notin> set body" "CHR ''.'' \<notin> set sig"
    by (simp_all add: split_three)
  then obtain key raw where "accepting_key s v = Some key" "sig = macWith cy key (v @ ''.'' @ body)"
      "b64_decode body = Some raw" "js_Unmarshal js raw = Some p"
    using \<open>?l\<close> unfolding parts(1) Verify_parts[OF parts(2-4)]
    by (auto simp: rbind_Inr_iff accepting_key_def split: if_splits option.splits)
  then show ?r using parts by blast
next
  assume ?r
  then obtain v body key raw where r: "token = v @ ''.'' @ body @ ''.'' @ macWith cy key (v @ ''.'' @ body)"
      "CHR ''.'' \<notin> set v" "CHR ''.'' \<notin> set body" "accepting_key s v = Some key"
      "b64_decode body = Some raw" "js_Unmarshal js raw = Some p" by blast
  have d: "CHR ''.'' \<notin> set (macWith cy key (v @ ''.'' @ body))" by (simp add: macWith_def b64_no_dot)
  show ?l
    using r(4-6) unfolding r(1) Verify_parts[OF r(2,3) d]
    by (auto simp: accepting_key_def rbind_Inr_iff split: if_splits)
qed

text \<open>
  A token a tenant's signer mints verifies for that tenant to the payload that was signed,
  stamped with the time when it carried none, and is refused as a bad signature by the signer of every
  other tenant over the same secret, provided key derivation separates the two tenants and the code of
  this token under one key is not its code under the other.
\<close>

theorem token_roundtrip_isolated:
  assumes "NewRoot key = Inr r" and "For cy r tenant = Inr s" and "For cy r other = Inr s'"
    and "p' = (if pl_IssuedAt p = 0 then p\<lparr>pl_IssuedAt := now\<rparr> else p)"
    and "js_Unmarshal js (js_Marshal js p') = Some p'"
    and "inj_on (\<lambda>info. cy_hkdf cy key info 32) {''nit/st2/tenant/'' @ tenant, ''nit/st2/tenant/'' @ other}"
    and "inj_on (\<lambda>k. cy_hmac cy k (version @ ''.'' @ b64_encode (js_Marshal js p'))) {sg_key s, sg_key s'}"
  shows "Verify cy js s (Sign cy js now s p) = Inr p'
    \<and> (Verify cy js s' (Sign cy js now s p) = (if other = tenant then Inr p' else Inl ErrBadSignature))"
proof -
  have k: "sg_key s = cy_hkdf cy key (''nit/st2/tenant/'' @ tenant) 32"
    "sg_key s' = cy_hkdf cy key (''nit/st2/tenant/'' @ other) 32"
    using assms(1-3) by (auto simp: NewRoot_def For_def version_def split: if_splits)
  have "sg_key s = sg_key s' \<longleftrightarrow> other = tenant"
    unfolding k using inj_onD[OF assms(6)] by blast
  then show ?thesis
    using assms(5) inj_onD[OF assms(7)] unfolding Verify_Sign[OF assms(4)] macWith_def b64_inj by auto
qed

subsection \<open>Witnesses\<close>

definition ex_crypto :: crypto where
  "ex_crypto = \<lparr>cy_hkdf = (\<lambda>k i n. i), cy_hmac = (\<lambda>k m. k @ m)\<rparr>"

definition ex_payload :: payload where
  "ex_payload = \<lparr>pl_Workspace = ''ws-1'', pl_Repository = ''repo-1'', pl_Branch = ''main'',
     pl_UpstreamCommit = ''9f2c'', pl_PolicyVersion = ''v1'', pl_IssuedAt = 0\<rparr>"

definition ex_json :: payload_json where
  "ex_json = \<lparr>js_Marshal = (\<lambda>p. if p = ex_payload\<lparr>pl_IssuedAt := 7\<rparr> then ''seven'' else ''other''),
     js_Unmarshal = (\<lambda>b. if b = ''seven'' then Some (ex_payload\<lparr>pl_IssuedAt := 7\<rparr>) else None)\<rparr>"

theorem token_roundtrip_isolated_witness:
  "Verify ex_crypto ex_json \<lparr>sg_key = ''nit/st2/tenant/acme'', sg_root = replicate 32 CHR ''k'', sg_tenant = ''acme''\<rparr>
     (Sign ex_crypto ex_json 7 \<lparr>sg_key = ''nit/st2/tenant/beta'', sg_root = replicate 32 CHR ''k'', sg_tenant = ''beta''\<rparr> ex_payload)
   = Inl ErrBadSignature"
proof -
  have r: "NewRoot (replicate 32 CHR ''k'') = Inr \<lparr>rt_key = replicate 32 CHR ''k''\<rparr>"
    by (simp add: NewRoot_def MinKeyBytes_def)
  have s: "For ex_crypto \<lparr>rt_key = replicate 32 CHR ''k''\<rparr> ''beta'' =
      Inr \<lparr>sg_key = ''nit/st2/tenant/beta'', sg_root = replicate 32 CHR ''k'', sg_tenant = ''beta''\<rparr>"
    "For ex_crypto \<lparr>rt_key = replicate 32 CHR ''k''\<rparr> ''acme'' =
      Inr \<lparr>sg_key = ''nit/st2/tenant/acme'', sg_root = replicate 32 CHR ''k'', sg_tenant = ''acme''\<rparr>"
    by (simp_all add: For_def ex_crypto_def version_def)
  have p: "ex_payload\<lparr>pl_IssuedAt := 7\<rparr> = (if pl_IssuedAt ex_payload = 0
      then ex_payload\<lparr>pl_IssuedAt := 7\<rparr> else ex_payload)" by (simp add: ex_payload_def)
  show ?thesis
    using token_roundtrip_isolated[OF r s p, where js = ex_json] by (simp add: ex_json_def ex_crypto_def)
qed

end
