(* ===== verification/Nit_Cache.thy ===== *)
theory Nit_Cache
  imports Nit_Profile Nit_Models
begin

text \<open>
  The cache of filtered projections: the key of \<open>pkg/pullcache/pullcache.go\<close> and the least-recently-used
  cache of \<open>internal/pullcache/cache.go\<close>. The code keeps a map from hashed keys to the elements of a
  doubly linked list; the model keeps the same two structures, an element being named by a number, so
  that their agreement is an invariant to be proved. Each step taken under the mutex is one operation:
  \<open>Get\<close> takes two, with the blob store consulted in between, and other calls may come between them.
  The hash is the parameter \<open>dg\<close>, the answer of the blob store the parameter \<open>stat\<close>, the clock an
  argument. A nil cache behaves as one whose lifetime is not positive.

  The lemmas show that the pair of structures refines a plain list of records, that it never holds more
  than its bound, and that a hit is the latest unexpired projection stored under the key.
\<close>

subsection \<open>Keys and entries\<close>

record entry =
  en_Patch :: "protocol_blob option"
  en_FilesTotal :: int
  en_FilesDelivered :: int
  en_FilesWithheld :: int

record cache_key =
  k_Repository :: string
  k_From :: string
  k_To :: string
  k_Profile :: string

definition key_bytes :: "cache_key \<Rightarrow> bytes" where
  "key_bytes k = concat (map netstring [k_Repository k, k_From k, k_To k, k_Profile k])"

definition Key_Hash :: "(bytes \<Rightarrow> string) \<Rightarrow> cache_key \<Rightarrow> string" where
  "Key_Hash dg k = dg (key_bytes k)"

lemma key_bytes_inj:
  assumes "key_bytes k = key_bytes k'"
  shows "k = k'"
proof -
  have "[k_Repository k, k_From k, k_To k, k_Profile k] = [k_Repository k', k_From k', k_To k', k_Profile k']"
    using assms unfolding key_bytes_def by (rule netstrings_inj)
  then show ?thesis by simp
qed

subsection \<open>The two structures\<close>

record cached =
  rc_key :: string
  rc_entry :: entry
  rc_expires :: instant

record lru =
  c_ttl :: duration
  c_max :: nat
  c_entries :: "(string \<times> nat) list"
  c_order :: "(nat \<times> cached) list"
  c_next :: nat

definition DefaultEntries :: nat where "DefaultEntries = 1024"

definition New_cache :: "duration \<Rightarrow> lru" where
  "New_cache ttl = \<lparr>c_ttl = ttl, c_max = DefaultEntries, c_entries = [], c_order = [], c_next = 0\<rparr>"

text \<open>\<open>Remove\<close> and \<open>MoveToFront\<close> of \<open>container/list\<close>.\<close>

definition list_remove :: "nat \<Rightarrow> (nat \<times> cached) list \<Rightarrow> (nat \<times> cached) list" where
  "list_remove i xs = filter (\<lambda>(j, _). j \<noteq> i) xs"

definition MoveToFront :: "nat \<Rightarrow> (nat \<times> cached) list \<Rightarrow> (nat \<times> cached) list" where
  "MoveToFront i xs = (case map_of xs i of None \<Rightarrow> xs | Some r \<Rightarrow> (i, r) # list_remove i xs)"

definition removeLocked :: "nat \<Rightarrow> lru \<Rightarrow> lru" where
  "removeLocked i c =
     (case map_of (c_order c) i of
        None \<Rightarrow> c
      | Some r \<Rightarrow> c\<lparr>c_entries := AList.delete (rc_key r) (c_entries c),
                     c_order := list_remove i (c_order c)\<rparr>)"

definition Get_lookup :: "instant \<Rightarrow> string \<Rightarrow> lru \<Rightarrow> entry option \<times> lru" where
  "Get_lookup now hashed c =
     (case map_of (c_entries c) hashed of
        None \<Rightarrow> (None, c)
      | Some i \<Rightarrow>
          (case map_of (c_order c) i of
             None \<Rightarrow> (None, c)
           | Some held \<Rightarrow>
               if \<not> now < rc_expires held then (None, removeLocked i c)
               else (Some (rc_entry held), c\<lparr>c_order := MoveToFront i (c_order c)\<rparr>)))"

definition Get_drop :: "string \<Rightarrow> lru \<Rightarrow> lru" where
  "Get_drop hashed c =
     (case map_of (c_entries c) hashed of None \<Rightarrow> c | Some i \<Rightarrow> removeLocked i c)"

definition Cache_Get ::
  "(bytes \<Rightarrow> string) \<Rightarrow> (string \<Rightarrow> bool) \<Rightarrow> instant \<Rightarrow> cache_key \<Rightarrow> lru \<Rightarrow> entry option \<times> lru" where
  "Cache_Get dg stat now k c =
     (if c_ttl c \<le> 0 then (None, c)
      else case Get_lookup now (Key_Hash dg k) c of
             (None, c) \<Rightarrow> (None, c)
           | (Some e, c) \<Rightarrow>
               (case en_Patch e of
                  Some b \<Rightarrow> if \<not> stat (pb_Digest b) then (None, Get_drop (Key_Hash dg k) c) else (Some e, c)
                | None \<Rightarrow> (Some e, c)))"

lemma list_remove_shorter:
  "xs \<noteq> [] \<Longrightarrow> length (list_remove (fst (last xs)) xs) < length xs"
  by (auto simp: list_remove_def intro!: length_filter_less[of "last xs"] split: prod.splits)

lemma removeLocked_back_shorter:
  assumes "c_order c \<noteq> []"
  shows "length (c_order (removeLocked (fst (last (c_order c))) c)) < length (c_order c)"
proof -
  have "map_of (c_order c) (fst (last (c_order c))) \<noteq> None"
    using assms last_in_set by (metis map_of_eq_None_iff image_eqI)
  then show ?thesis using list_remove_shorter[OF assms] by (auto simp: removeLocked_def)
qed

text \<open>The loop that evicts from the back until the bound holds.\<close>

function evict :: "lru \<Rightarrow> lru" where
  "evict c = (if length (c_order c) > c_max c then evict (removeLocked (fst (last (c_order c))) c) else c)"
  by pat_completeness auto
termination
proof (relation "measure (\<lambda>c. length (c_order c))")
  show "(removeLocked (fst (last (c_order c))) c, c) \<in> measure (\<lambda>c. length (c_order c))"
    if "c_max c < length (c_order c)" for c
    using removeLocked_back_shorter[of c] that by (cases "c_order c = []") simp_all
qed simp

declare evict.simps [simp del]

definition Put_locked :: "instant \<Rightarrow> string \<Rightarrow> entry \<Rightarrow> lru \<Rightarrow> lru" where
  "Put_locked now hashed e c =
     (case map_of (c_entries c) hashed of
        Some i \<Rightarrow>
          c\<lparr>c_order := MoveToFront i
              (map (\<lambda>(j, r). (j, if j = i then r\<lparr>rc_entry := e, rc_expires := now + c_ttl c\<rparr> else r)) (c_order c))\<rparr>
      | None \<Rightarrow>
          evict (c\<lparr>c_order := (c_next c, \<lparr>rc_key = hashed, rc_entry = e, rc_expires = now + c_ttl c\<rparr>) # c_order c,
                   c_entries := AList.update hashed (c_next c) (c_entries c),
                   c_next := Suc (c_next c)\<rparr>))"

definition Cache_Put :: "(bytes \<Rightarrow> string) \<Rightarrow> instant \<Rightarrow> cache_key \<Rightarrow> entry \<Rightarrow> lru \<Rightarrow> lru" where
  "Cache_Put dg now k e c = (if c_ttl c \<le> 0 then c else Put_locked now (Key_Hash dg k) e c)"

definition Cache_Len :: "lru \<Rightarrow> nat" where "Cache_Len c = length (c_order c)"

subsection \<open>The abstract cache: a list of records, most recently used first\<close>

definition others :: "string \<Rightarrow> cached list \<Rightarrow> cached list" where
  "others h xs = filter (\<lambda>r. rc_key r \<noteq> h) xs"

definition spec_lookup :: "instant \<Rightarrow> string \<Rightarrow> cached list \<Rightarrow> entry option \<times> cached list" where
  "spec_lookup now h xs =
     (case find (\<lambda>r. rc_key r = h) xs of
        None \<Rightarrow> (None, xs)
      | Some r \<Rightarrow> if \<not> now < rc_expires r then (None, others h xs) else (Some (rc_entry r), r # others h xs))"

definition spec_put :: "nat \<Rightarrow> duration \<Rightarrow> instant \<Rightarrow> string \<Rightarrow> entry \<Rightarrow> cached list \<Rightarrow> cached list" where
  "spec_put n ttl now h e xs =
     take n (\<lparr>rc_key = h, rc_entry = e, rc_expires = now + ttl\<rparr> # others h xs)"

definition abs_cache :: "lru \<Rightarrow> cached list" where "abs_cache c = map snd (c_order c)"

text \<open>
  The map and the list agree: a key is mapped to the element that holds its record, no two elements
  hold one key, and no element number is in use that the counter has still to give out.
\<close>

definition cache_ok :: "lru \<Rightarrow> bool" where
  "cache_ok c \<longleftrightarrow> distinct (map fst (c_order c)) \<and> distinct (map (rc_key \<circ> snd) (c_order c))
     \<and> (\<forall>i \<in> set (map fst (c_order c)). i < c_next c)
     \<and> (\<forall>h. map_of (c_entries c) h = map_option fst (find (\<lambda>x. rc_key (snd x) = h) (c_order c)))"

definition cache_inv :: "lru \<Rightarrow> bool" where
  "cache_inv c \<longleftrightarrow> cache_ok c \<and> length (c_order c) \<le> c_max c"

lemma find_map: "find P (map f xs) = map_option f (find (P \<circ> f) xs)"
  by (induction xs) auto

lemma find_filter_irrelevant: "(\<And>x. x \<in> set xs \<Longrightarrow> P x \<Longrightarrow> Q x) \<Longrightarrow> find P (filter Q xs) = find P xs"
  by (induction xs) auto

lemma find_SomeD: "find P xs = Some x \<Longrightarrow> x \<in> set xs \<and> P x"
  by (induction xs) (auto split: if_splits)

lemma find_none: "find P xs = None \<longleftrightarrow> (\<forall>x \<in> set xs. \<not> P x)"
  by (induction xs) auto

lemma list_remove_others:
  assumes "distinct (map fst xs)" "distinct (map (rc_key \<circ> snd) xs)" "(i, r) \<in> set xs"
  shows "list_remove i xs = filter (\<lambda>x. rc_key (snd x) \<noteq> rc_key r) xs"
    and "map snd (list_remove i xs) = others (rc_key r) (map snd xs)"
proof -
  have "j \<noteq> i \<longleftrightarrow> rc_key q \<noteq> rc_key r" if "(j, q) \<in> set xs" for j q
  proof
    assume "j \<noteq> i"
    then show "rc_key q \<noteq> rc_key r"
      using assms(2,3) that by (force simp: distinct_map inj_on_def)
  next
    assume "rc_key q \<noteq> rc_key r"
    then show "j \<noteq> i" using eq_key_imp_eq_value[OF assms(1,3)] that by blast
  qed
  then have "(case x of (j, _) \<Rightarrow> j \<noteq> i) = (rc_key (snd x) \<noteq> rc_key r)" if "x \<in> set xs" for x
    using that by (cases x) simp
  then show 1: "list_remove i xs = filter (\<lambda>x. rc_key (snd x) \<noteq> rc_key r) xs"
    unfolding list_remove_def by (rule filter_cong[OF refl])
  then show "map snd (list_remove i xs) = others (rc_key r) (map snd xs)"
    by (simp add: others_def filter_map comp_def)
qed

lemma lookup_cases:
  assumes ok: "cache_ok c"
  shows "map_of (c_entries c) h = None \<Longrightarrow> find (\<lambda>r. rc_key r = h) (abs_cache c) = None"
    and "map_of (c_entries c) h = Some i \<Longrightarrow>
      \<exists>r. map_of (c_order c) i = Some r \<and> (i, r) \<in> set (c_order c) \<and> rc_key r = h
        \<and> find (\<lambda>r. rc_key r = h) (abs_cache c) = Some r"
proof -
  have f: "find (\<lambda>r. rc_key r = h) (abs_cache c) = map_option snd (find (\<lambda>x. rc_key (snd x) = h) (c_order c))"
    by (simp add: abs_cache_def find_map comp_def)
  have e: "map_of (c_entries c) h = map_option fst (find (\<lambda>x. rc_key (snd x) = h) (c_order c))"
    using ok by (simp add: cache_ok_def)
  show "map_of (c_entries c) h = None \<Longrightarrow> find (\<lambda>r. rc_key r = h) (abs_cache c) = None"
    using e f by simp
  assume "map_of (c_entries c) h = Some i"
  then obtain r where r: "find (\<lambda>x. rc_key (snd x) = h) (c_order c) = Some (i, r)" using e by auto
  then have "(i, r) \<in> set (c_order c)" "rc_key r = h" by (auto dest: find_SomeD)
  moreover have "distinct (map fst (c_order c))" using ok by (simp add: cache_ok_def)
  ultimately show "\<exists>r. map_of (c_order c) i = Some r \<and> (i, r) \<in> set (c_order c) \<and> rc_key r = h
        \<and> find (\<lambda>r. rc_key r = h) (abs_cache c) = Some r"
    using r f by (auto simp: map_of_eq_Some_iff)
qed

lemma removeLocked_ok:
  assumes ok: "cache_ok c" and i: "(i, r) \<in> set (c_order c)"
  shows "cache_ok (removeLocked i c)" and "abs_cache (removeLocked i c) = others (rc_key r) (abs_cache c)"
    and "c_order (removeLocked i c) = filter (\<lambda>x. rc_key (snd x) \<noteq> rc_key r) (c_order c)"
    and "c_ttl (removeLocked i c) = c_ttl c" "c_max (removeLocked i c) = c_max c"
proof -
  have d: "distinct (map fst (c_order c))" "distinct (map (rc_key \<circ> snd) (c_order c))"
    using ok by (simp_all add: cache_ok_def)
  have r: "removeLocked i c = c\<lparr>c_entries := AList.delete (rc_key r) (c_entries c),
      c_order := list_remove i (c_order c)\<rparr>"
    using i d(1) by (simp add: removeLocked_def map_of_eq_Some_iff)
  note lr = list_remove_others[OF d i]
  show "abs_cache (removeLocked i c) = others (rc_key r) (abs_cache c)"
    by (simp add: r abs_cache_def lr(2))
  show "c_order (removeLocked i c) = filter (\<lambda>x. rc_key (snd x) \<noteq> rc_key r) (c_order c)"
    by (simp add: r lr(1))
  show "c_ttl (removeLocked i c) = c_ttl c" "c_max (removeLocked i c) = c_max c" by (simp_all add: r)
  have "map_option fst (find (\<lambda>x. rc_key (snd x) = h) (filter (\<lambda>x. rc_key (snd x) \<noteq> rc_key r) (c_order c)))
      = (if h = rc_key r then None else map_of (c_entries c) h)" for h
  proof (cases "h = rc_key r")
    case False
    then show ?thesis using ok find_filter_irrelevant[of "c_order c" "\<lambda>x. rc_key (snd x) = h"]
      by (simp add: cache_ok_def)
  qed (simp add: find_none)
  then show "cache_ok (removeLocked i c)"
    using ok d by (auto simp: cache_ok_def r lr(1) delete_conv' distinct_map inj_on_def)
qed

lemma MoveToFront_eq:
  assumes "cache_ok c" "(i, r) \<in> set (c_order c)"
  shows "MoveToFront i (c_order c) = (i, r) # filter (\<lambda>x. rc_key (snd x) \<noteq> rc_key r) (c_order c)"
  using assms list_remove_others(1)[of "c_order c" i r]
  by (simp add: MoveToFront_def cache_ok_def map_of_eq_Some_iff)

text \<open>Replacing the list by one with the record of one key in front and the rest unchanged.\<close>

lemma front_ok:
  assumes ok: "cache_ok c" and i: "(i, r) \<in> set (c_order c)" and k: "rc_key r' = rc_key r"
  shows "cache_ok (c\<lparr>c_order := (i, r') # filter (\<lambda>x. rc_key (snd x) \<noteq> rc_key r) (c_order c)\<rparr>)"
proof -
  have d: "distinct (map fst (c_order c))" "distinct (map (rc_key \<circ> snd) (c_order c))"
    using ok by (simp_all add: cache_ok_def)
  have "find (\<lambda>x. rc_key (snd x) = rc_key r) (c_order c) = Some (i, r)"
  proof -
    obtain x where x: "find (\<lambda>x. rc_key (snd x) = rc_key r) (c_order c) = Some x"
      using i find_none[of "\<lambda>x. rc_key (snd x) = rc_key r" "c_order c"] by fastforce
    then have "x \<in> set (c_order c)" "rc_key (snd x) = rc_key r" by (auto dest: find_SomeD)
    then have "x = (i, r)" using i d(2) by (auto simp: distinct_map inj_on_def)
    then show ?thesis using x by simp
  qed
  moreover have "find (\<lambda>x. rc_key (snd x) = h) (filter (\<lambda>x. rc_key (snd x) \<noteq> rc_key r) (c_order c))
      = find (\<lambda>x. rc_key (snd x) = h) (c_order c)" if "h \<noteq> rc_key r" for h
    using that by (intro find_filter_irrelevant) simp
  moreover have "distinct (map fst ((i, r') # filter (\<lambda>x. rc_key (snd x) \<noteq> rc_key r) (c_order c)))"
    using distinct_map_filter[OF d(1)] eq_key_imp_eq_value[OF d(1) i] by auto
  moreover have "distinct (map (rc_key \<circ> snd) ((i, r') # filter (\<lambda>x. rc_key (snd x) \<noteq> rc_key r) (c_order c)))"
    using distinct_map_filter[OF d(2)] k by auto
  moreover have "i < c_next c" using ok i by (force simp: cache_ok_def)
  ultimately show ?thesis using ok k by (simp add: cache_ok_def)
qed

subsection \<open>Each step refines its abstract counterpart\<close>

lemma Get_lookup_refines:
  assumes ok: "cache_ok c"
  shows "fst (Get_lookup now h c) = fst (spec_lookup now h (abs_cache c))"
    and "abs_cache (snd (Get_lookup now h c)) = snd (spec_lookup now h (abs_cache c))"
    and "cache_ok (snd (Get_lookup now h c))"
    and "length (c_order (snd (Get_lookup now h c))) \<le> length (c_order c)"
    and "c_ttl (snd (Get_lookup now h c)) = c_ttl c" "c_max (snd (Get_lookup now h c)) = c_max c"
proof -
  have "fst (Get_lookup now h c) = fst (spec_lookup now h (abs_cache c))
    \<and> abs_cache (snd (Get_lookup now h c)) = snd (spec_lookup now h (abs_cache c))
    \<and> cache_ok (snd (Get_lookup now h c))
    \<and> length (c_order (snd (Get_lookup now h c))) \<le> length (c_order c)
    \<and> c_ttl (snd (Get_lookup now h c)) = c_ttl c \<and> c_max (snd (Get_lookup now h c)) = c_max c"
  proof (cases "map_of (c_entries c) h")
    case None
    then show ?thesis using lookup_cases(1)[OF ok] ok by (simp add: Get_lookup_def spec_lookup_def)
  next
    case (Some i)
    then obtain r where r: "map_of (c_order c) i = Some r" "(i, r) \<in> set (c_order c)" "rc_key r = h"
        "find (\<lambda>r. rc_key r = h) (abs_cache c) = Some r" using lookup_cases(2)[OF ok] by blast
    have len: "length (filter (\<lambda>x. rc_key (snd x) \<noteq> rc_key r) (c_order c)) < length (c_order c)"
      using r(2) by (intro length_filter_less[of "(i, r)"]) simp_all
    show ?thesis
      using r Some len removeLocked_ok[OF ok r(2)] front_ok[OF ok r(2) refl]
      by (auto simp: Get_lookup_def spec_lookup_def MoveToFront_eq[OF ok r(2)] abs_cache_def others_def
          filter_map comp_def)
  qed
  then show "fst (Get_lookup now h c) = fst (spec_lookup now h (abs_cache c))"
    "abs_cache (snd (Get_lookup now h c)) = snd (spec_lookup now h (abs_cache c))"
    "cache_ok (snd (Get_lookup now h c))"
    "length (c_order (snd (Get_lookup now h c))) \<le> length (c_order c)"
    "c_ttl (snd (Get_lookup now h c)) = c_ttl c" "c_max (snd (Get_lookup now h c)) = c_max c"
    by blast+
qed

lemma Get_drop_refines:
  assumes ok: "cache_ok c"
  shows "abs_cache (Get_drop h c) = others h (abs_cache c)" and "cache_ok (Get_drop h c)"
    and "length (c_order (Get_drop h c)) \<le> length (c_order c)"
    and "c_ttl (Get_drop h c) = c_ttl c" "c_max (Get_drop h c) = c_max c"
proof -
  have "abs_cache (Get_drop h c) = others h (abs_cache c) \<and> cache_ok (Get_drop h c)
    \<and> length (c_order (Get_drop h c)) \<le> length (c_order c)
    \<and> c_ttl (Get_drop h c) = c_ttl c \<and> c_max (Get_drop h c) = c_max c"
  proof (cases "map_of (c_entries c) h")
    case None
    then have "\<forall>r \<in> set (abs_cache c). rc_key r \<noteq> h" using lookup_cases(1)[OF ok] by (simp add: find_none)
    then show ?thesis using None ok by (simp add: Get_drop_def others_def)
  next
    case (Some i)
    then obtain r where r: "(i, r) \<in> set (c_order c)" "rc_key r = h" using lookup_cases(2)[OF ok] by blast
    then show ?thesis using Some removeLocked_ok[OF ok r(1)] by (simp add: Get_drop_def)
  qed
  then show "abs_cache (Get_drop h c) = others h (abs_cache c)" "cache_ok (Get_drop h c)"
    "length (c_order (Get_drop h c)) \<le> length (c_order c)"
    "c_ttl (Get_drop h c) = c_ttl c" "c_max (Get_drop h c) = c_max c" by blast+
qed

lemma others_last:
  assumes "distinct (map rc_key xs)" "xs \<noteq> []"
  shows "others (rc_key (last xs)) xs = butlast xs"
proof -
  obtain ys y where "xs = ys @ [y]" using assms(2) by (metis append_butlast_last_id)
  moreover from this have "rc_key y \<notin> rc_key ` set ys" using assms(1) by simp
  then have "\<forall>r \<in> set ys. rc_key r \<noteq> rc_key y" by (metis imageI)
  ultimately show ?thesis by (simp add: others_def)
qed

lemma evict_refines:
  "cache_ok c \<Longrightarrow> cache_ok (evict c) \<and> abs_cache (evict c) = take (c_max c) (abs_cache c)
     \<and> length (c_order (evict c)) \<le> c_max c \<and> c_ttl (evict c) = c_ttl c \<and> c_max (evict c) = c_max c"
proof (induction c rule: evict.induct)
  case (1 c)
  show ?case
  proof (cases "length (c_order c) > c_max c")
    case True
    then have ne: "c_order c \<noteq> []" by auto
    obtain i r where l: "last (c_order c) = (i, r)" by (cases "last (c_order c)")
    then have i: "(i, r) \<in> set (c_order c)" using last_in_set[OF ne] by simp
    have r: "r = last (abs_cache c)" using l ne by (simp add: abs_cache_def last_map)
    have "distinct (map rc_key (abs_cache c))" using "1.prems" by (simp add: cache_ok_def abs_cache_def)
    then have bl: "others (rc_key r) (abs_cache c) = butlast (abs_cache c)"
      using others_last[of "abs_cache c"] ne unfolding r by (simp add: abs_cache_def)
    note rl = removeLocked_ok[OF "1.prems" i]
    have "evict c = evict (removeLocked i c)" using True l by (simp add: evict.simps[of c])
    moreover have "take (c_max c) (butlast (abs_cache c)) = take (c_max c) (abs_cache c)"
      using True by (simp add: abs_cache_def take_butlast)
    ultimately show ?thesis
      using "1.IH"[OF True] rl bl l by simp
  next
    case False
    then show ?thesis using "1.prems" by (simp add: evict.simps[of c] abs_cache_def)
  qed
qed

lemma map_of_map_restrict_one:
  "map_of (map (\<lambda>(j, q). (j, if j = i then f q else q)) xs) i = map_option f (map_of xs i)"
  by (induction xs) auto

lemma list_remove_map_one: "list_remove i (map (\<lambda>(j, q). (j, if j = i then f q else q)) xs) = list_remove i xs"
  by (induction xs) (auto simp: list_remove_def)

lemma Put_locked_refines:
  assumes inv: "cache_inv c"
  shows "cache_inv (Put_locked now h e c)"
    and "abs_cache (Put_locked now h e c) = spec_put (c_max c) (c_ttl c) now h e (abs_cache c)"
    and "c_ttl (Put_locked now h e c) = c_ttl c" "c_max (Put_locked now h e c) = c_max c"
proof -
  have ok: "cache_ok c" and len: "length (c_order c) \<le> c_max c" using inv by (simp_all add: cache_inv_def)
  have "cache_inv (Put_locked now h e c)
    \<and> abs_cache (Put_locked now h e c) = spec_put (c_max c) (c_ttl c) now h e (abs_cache c)
    \<and> c_ttl (Put_locked now h e c) = c_ttl c \<and> c_max (Put_locked now h e c) = c_max c"
  proof (cases "map_of (c_entries c) h")
    case None
    let ?r = "\<lparr>rc_key = h, rc_entry = e, rc_expires = now + c_ttl c\<rparr>"
    let ?c = "c\<lparr>c_order := (c_next c, ?r) # c_order c, c_entries := AList.update h (c_next c) (c_entries c),
                c_next := Suc (c_next c)\<rparr>"
    have new: "\<forall>x \<in> set (c_order c). rc_key (snd x) \<noteq> h"
      using None ok by (auto simp: cache_ok_def find_none)
    then have "cache_ok ?c"
      using ok by (auto simp: cache_ok_def less_Suc_eq)
    moreover have "others h (abs_cache c) = abs_cache c"
      using new by (auto simp: others_def abs_cache_def filter_id_conv)
    ultimately show ?thesis
      using evict_refines[of ?c] None
      by (simp add: Put_locked_def cache_inv_def spec_put_def) (simp add: abs_cache_def)
  next
    case (Some i)
    then obtain r where r: "map_of (c_order c) i = Some r" "(i, r) \<in> set (c_order c)" "rc_key r = h"
      using lookup_cases(2)[OF ok] by blast
    let ?r = "r\<lparr>rc_entry := e, rc_expires := now + c_ttl c\<rparr>"
    let ?xs = "map (\<lambda>(j, q). (j, if j = i then q\<lparr>rc_entry := e, rc_expires := now + c_ttl c\<rparr> else q)) (c_order c)"
    have "map_of ?xs i = Some ?r" using r(1) by (simp add: map_of_map_restrict_one)
    moreover have "list_remove i ?xs = list_remove i (c_order c)"
      by (rule list_remove_map_one)
    ultimately have m: "MoveToFront i ?xs = (i, ?r) # filter (\<lambda>x. rc_key (snd x) \<noteq> rc_key r) (c_order c)"
      using list_remove_others(1)[of "c_order c" i r] ok r(2) by (simp add: MoveToFront_def cache_ok_def)
    have short: "Suc (length (filter (\<lambda>x. rc_key (snd x) \<noteq> rc_key r) (c_order c))) \<le> length (c_order c)"
      using length_filter_less[of "(i, r)" "c_order c" "\<lambda>x. rc_key (snd x) \<noteq> rc_key r"] r(2) by simp
    have p: "Put_locked now h e c = c\<lparr>c_order := (i, ?r) # filter (\<lambda>x. rc_key (snd x) \<noteq> rc_key r) (c_order c)\<rparr>"
      using Some m by (simp add: Put_locked_def)
    have "?r = \<lparr>rc_key = h, rc_entry = e, rc_expires = now + c_ttl c\<rparr>" using r(3) by simp
    then show ?thesis
      using front_ok[OF ok r(2), of ?r] short len r(3)
      by (simp add: p cache_inv_def abs_cache_def spec_put_def others_def filter_map comp_def)
  qed
  then show "cache_inv (Put_locked now h e c)"
    "abs_cache (Put_locked now h e c) = spec_put (c_max c) (c_ttl c) now h e (abs_cache c)"
    "c_ttl (Put_locked now h e c) = c_ttl c" "c_max (Put_locked now h e c) = c_max c" by blast+
qed

subsection \<open>Interleavings\<close>

text \<open>The steps taken under the mutex, in whatever order the callers get it.\<close>

datatype cache_op = Look instant string | Drop string | Store instant string entry

fun cache_step :: "cache_op \<Rightarrow> lru \<Rightarrow> lru" where
  "cache_step (Look now h) c = snd (Get_lookup now h c)"
| "cache_step (Drop h) c = Get_drop h c"
| "cache_step (Store now h e) c = Put_locked now h e c"

fun spec_step :: "nat \<Rightarrow> duration \<Rightarrow> cache_op \<Rightarrow> cached list \<Rightarrow> cached list" where
  "spec_step n ttl (Look now h) xs = snd (spec_lookup now h xs)"
| "spec_step n ttl (Drop h) xs = others h xs"
| "spec_step n ttl (Store now h e) xs = spec_put n ttl now h e xs"

definition cache_run :: "cache_op list \<Rightarrow> lru \<Rightarrow> lru" where "cache_run tr c = fold cache_step tr c"

lemma cache_step_refines:
  assumes "cache_inv c"
  shows "cache_inv (cache_step st c)"
    and "abs_cache (cache_step st c) = spec_step (c_max c) (c_ttl c) st (abs_cache c)"
    and "c_ttl (cache_step st c) = c_ttl c" "c_max (cache_step st c) = c_max c"
proof -
  have ok: "cache_ok c" "length (c_order c) \<le> c_max c" using assms by (simp_all add: cache_inv_def)
  have "cache_inv (cache_step st c) \<and> abs_cache (cache_step st c) = spec_step (c_max c) (c_ttl c) st (abs_cache c)
    \<and> c_ttl (cache_step st c) = c_ttl c \<and> c_max (cache_step st c) = c_max c"
  proof (cases st)
    case (Look now h)
    then show ?thesis
      using Get_lookup_refines(2-6)[OF ok(1), of now h] ok(2) by (simp add: cache_inv_def)
  next
    case (Drop h)
    then show ?thesis using Get_drop_refines[OF ok(1), of h] ok(2) by (simp add: cache_inv_def)
  next
    case (Store now h e)
    then show ?thesis using Put_locked_refines[OF assms, of now h e] by simp
  qed
  then show "cache_inv (cache_step st c)"
    "abs_cache (cache_step st c) = spec_step (c_max c) (c_ttl c) st (abs_cache c)"
    "c_ttl (cache_step st c) = c_ttl c" "c_max (cache_step st c) = c_max c" by blast+
qed

lemma cache_inv_new: "cache_inv (New_cache ttl)"
  by (simp add: cache_inv_def cache_ok_def New_cache_def)

lemma cache_run_refines:
  "cache_inv (cache_run tr (New_cache ttl))
   \<and> abs_cache (cache_run tr (New_cache ttl)) = fold (spec_step DefaultEntries ttl) tr []
   \<and> c_ttl (cache_run tr (New_cache ttl)) = ttl \<and> c_max (cache_run tr (New_cache ttl)) = DefaultEntries"
proof (induction tr rule: rev_induct)
  case Nil
  then show ?case by (simp add: cache_run_def cache_inv_new) (simp add: New_cache_def abs_cache_def)
next
  case (snoc st tr)
  then show ?case
    using cache_step_refines[of "cache_run tr (New_cache ttl)" st] by (simp add: cache_run_def)
qed

text \<open>The last projection stored under a hash, with the time it was stored.\<close>

fun last_store :: "string \<Rightarrow> cache_op list \<Rightarrow> (instant \<times> entry) option" where
  "last_store h [] = None"
| "last_store h (Store now h' e # rest) = (if h' = h then Some (now, e) else last_store h rest)"
| "last_store h (_ # rest) = last_store h rest"

lemma spec_run_latest:
  "r \<in> set (fold (spec_step n ttl) tr []) \<Longrightarrow>
     last_store (rc_key r) (rev tr) = Some (rc_expires r - ttl, rc_entry r)"
proof (induction tr arbitrary: r rule: rev_induct)
  case (snoc st tr)
  show ?case
  proof (cases st)
    case (Look now h)
    then show ?thesis
      using snoc by (auto simp: spec_lookup_def others_def dest: find_SomeD split: option.splits if_splits)
  next
    case (Drop h)
    then show ?thesis using snoc by (auto simp: others_def)
  next
    case (Store now h e)
    then have "r \<in> set (\<lparr>rc_key = h, rc_entry = e, rc_expires = now + ttl\<rparr> # others h (fold (spec_step n ttl) tr []))"
      using snoc.prems by (auto simp: spec_put_def dest: in_set_takeD)
    then show ?thesis using Store snoc.IH by (auto simp: others_def)
  qed
qed simp

subsection \<open>Properties\<close>

text \<open>
  Claim C26. Whatever the interleaving of callers, the map and the linked list together behave as a
  plain list of records, most recently used first: a store puts its record in front and truncates the
  list at the bound, a lookup brings an unexpired record to the front and discards an expired one, a
  drop discards the record. At most 1024 records are ever held.
\<close>

theorem cache_refines_lru:
  "abs_cache (cache_run tr (New_cache ttl)) = fold (spec_step DefaultEntries ttl) tr []
   \<and> fst (Get_lookup now h (cache_run tr (New_cache ttl)))
       = fst (spec_lookup now h (fold (spec_step DefaultEntries ttl) tr []))
   \<and> Cache_Len (cache_run tr (New_cache ttl)) \<le> DefaultEntries"
proof -
  have "cache_inv (cache_run tr (New_cache ttl))" using cache_run_refines[of tr ttl] by blast
  then show ?thesis
    using cache_run_refines[of tr ttl] Get_lookup_refines(1)[of "cache_run tr (New_cache ttl)" now h]
    by (simp add: cache_inv_def Cache_Len_def)
qed

text \<open>
  A hit is never stale or dangling: after any interleaving, an entry \<open>Get\<close> returns for a key is
  the one most recently stored under that key's hash, it was stored less than the lifetime ago, and the
  patch it names, if any, was just found in the blob store. A cache whose lifetime is not positive never
  returns anything.
\<close>

theorem cache_hit_sound:
  assumes "fst (Cache_Get dg stat now k (cache_run tr (New_cache ttl))) = Some e"
  shows "\<exists>t. last_store (Key_Hash dg k) (rev tr) = Some (t, e) \<and> now < t + ttl \<and> 0 < ttl
    \<and> (\<forall>b. en_Patch e = Some b \<longrightarrow> stat (pb_Digest b))"
proof -
  let ?c = "cache_run tr (New_cache ttl)" and ?h = "Key_Hash dg k"
  have ref: "cache_ok ?c" "abs_cache ?c = fold (spec_step DefaultEntries ttl) tr []" "c_ttl ?c = ttl"
    using cache_run_refines[of tr ttl] by (auto simp: cache_inv_def)
  have g: "fst (Get_lookup now ?h ?c) = Some e" "0 < ttl" "\<forall>b. en_Patch e = Some b \<longrightarrow> stat (pb_Digest b)"
    using assms ref(3) by (auto simp: Cache_Get_def split: if_splits prod.splits option.splits)
  then obtain r where r: "find (\<lambda>r. rc_key r = ?h) (abs_cache ?c) = Some r" "now < rc_expires r" "rc_entry r = e"
    unfolding Get_lookup_refines(1)[OF ref(1)] spec_lookup_def by (auto split: option.splits if_splits)
  then have "r \<in> set (abs_cache ?c)" "rc_key r = ?h" by (auto dest: find_SomeD)
  then show ?thesis
    using spec_run_latest[of r DefaultEntries ttl tr] r g(2,3) unfolding ref(2) by auto
qed

subsection \<open>Witnesses\<close>

definition ex_key :: cache_key where
  "ex_key = \<lparr>k_Repository = ''r'', k_From = ''a'', k_To = ''b'', k_Profile = ''p''\<rparr>"

definition ex_entry :: entry where
  "ex_entry = \<lparr>en_Patch = None, en_FilesTotal = 2, en_FilesDelivered = 0, en_FilesWithheld = 2\<rparr>"

theorem cache_hit_sound_witness:
  "fst (Cache_Get id (\<lambda>_. False) 5 ex_key (cache_run [Store 0 (key_bytes ex_key) ex_entry] (New_cache 10)))
     = Some ex_entry
   \<and> (\<exists>t. last_store (key_bytes ex_key) (rev [Store 0 (key_bytes ex_key) ex_entry]) = Some (t, ex_entry) \<and> 5 < t + 10)"
proof -
  have "fst (Cache_Get id (\<lambda>_. False) 5 ex_key (cache_run [Store 0 (key_bytes ex_key) ex_entry] (New_cache 10)))
     = Some ex_entry" by code_simp
  then show ?thesis using cache_hit_sound by (fastforce simp: Key_Hash_def)
qed

end
