(* ===== verification/Nit_Auth.thy ===== *)
theory Nit_Auth
  imports Nit_Store Nit_Token
begin

text \<open>
  \<open>internal/auth/auth.go\<close>: bearer tokens and the principal a request acts as, over the in-memory store.
  The hash of a token (SHA-256) is the parameter \<open>sha\<close>, the random bytes of a new one are an argument,
  and the bundle in force for a tenant (\<open>policy.Sources\<close>) is the parameter \<open>policies\<close>. The lemmas follow
  one issued token through use, expiry and revocation.
\<close>

subsection \<open>Tokens\<close>

definition TokenPrefix :: string where "TokenPrefix = ''nit_''"
definition tokenBytes :: nat where "tokenBytes = 32"

datatype auth_error =
    AuthErrNoCredentials
  | AuthErrMalformed
  | AuthErrUnknownToken
  | AuthErrExpired
  | AuthErrRevoked
  | AuthErrUserDisabled
  | AuthErrUnknownSubject string
  | AuthStoreError store_error

record principal =
  pr_User :: store_user
  pr_Session :: session
  pr_Tenant :: tenant_id
  pr_Subject :: subject
  pr_PolicyVersion :: string

definition HashToken :: "(bytes \<Rightarrow> bytes) \<Rightarrow> string \<Rightarrow> bytes" where
  "HashToken sha token = sha token"

definition GenerateToken :: "(bytes \<Rightarrow> bytes) \<Rightarrow> bytes \<Rightarrow> string \<times> bytes" where
  "GenerateToken sha raw =
     (let token = TokenPrefix @ b64_encode raw in (token, HashToken sha token))"

text \<open>Case folding of the ASCII letters; none of the letters of the scheme has another fold.\<close>

definition fold_case :: "char \<Rightarrow> char" where
  "fold_case c = (if c \<ge> CHR ''A'' \<and> c \<le> CHR ''Z'' then char_of (of_char c + 32 :: nat) else c)"

definition EqualFold :: "string \<Rightarrow> string \<Rightarrow> bool" where
  "EqualFold a b = (map fold_case a = map fold_case b)"

definition bearer_scheme :: string where "bearer_scheme = ''Bearer ''"

definition BearerToken :: "string \<Rightarrow> auth_error + string" where
  "BearerToken header =
     (if header = [] then Inl AuthErrNoCredentials
      else if length header \<le> length bearer_scheme
          \<or> \<not> EqualFold (take (length bearer_scheme) header) bearer_scheme then Inl AuthErrMalformed
      else let token = TrimSpace (drop (length bearer_scheme) header)
           in if token = [] then Inl AuthErrMalformed else Inr token)"

subsection \<open>The service\<close>

definition NewService_tenant :: "tenant_id \<Rightarrow> tenant_id" where
  "NewService_tenant tenant = (if tenant = [] then DefaultTenant else tenant)"

definition Issue ::
  "(bytes \<Rightarrow> bytes) \<Rightarrow> tenant_id \<Rightarrow> instant \<Rightarrow> instant \<Rightarrow> bytes \<Rightarrow> mem \<Rightarrow> id \<Rightarrow> string \<Rightarrow> duration \<Rightarrow>
     string \<times> session \<times> mem" where
  "Issue sha tenant now later raw m userID label ttl =
     (let (token, hash) = GenerateToken sha raw;
          se = \<lparr> se_ID = [], se_TenantID = tenant, se_UserID = userID, se_TokenHash = hash,
                 se_Label = label, se_CreatedAt = now,
                 se_ExpiresAt = (if ttl > 0 then Some (later + ttl) else None),
                 se_LastUsedAt = None, se_RevokedAt = None \<rparr>;
          (m', created) = Session_Create now m se
      in (token, created, m'))"

definition Service_Revoke :: "instant \<Rightarrow> mem \<Rightarrow> id \<Rightarrow> store_error + mem" where
  "Service_Revoke now m i = Revoke m i now"

text \<open>The principal, and the store with the session's last use recorded (a failure to record is ignored).\<close>

definition Authenticate ::
  "(bytes \<Rightarrow> bytes) \<Rightarrow> (tenant_id \<Rightarrow> policy option) \<Rightarrow> instant \<Rightarrow> mem \<Rightarrow> string \<Rightarrow>
     (auth_error + principal) \<times> mem" where
  "Authenticate sha policies now m token =
     (if token = [] then (Inl AuthErrNoCredentials, m)
      else if \<not> prefix TokenPrefix token then (Inl AuthErrMalformed, m)
      else case ByTokenHash m (HashToken sha token) of
        Inl ErrNotFound \<Rightarrow> (Inl AuthErrUnknownToken, m)
      | Inl e \<Rightarrow> (Inl (AuthStoreError e), m)
      | Inr se \<Rightarrow>
          if se_TokenHash se \<noteq> HashToken sha token then (Inl AuthErrUnknownToken, m)
          else if se_RevokedAt se \<noteq> None then (Inl AuthErrRevoked, m)
          else if (case se_ExpiresAt se of None \<Rightarrow> False | Some e \<Rightarrow> \<not> now < e) then (Inl AuthErrExpired, m)
          else case User_ByID m (se_UserID se) of
            Inl ErrNotFound \<Rightarrow> (Inl AuthErrUnknownToken, m)
          | Inl e \<Rightarrow> (Inl (AuthStoreError e), m)
          | Inr u \<Rightarrow>
              if su_Disabled u then (Inl AuthErrUserDisabled, m)
              else case policies (se_TenantID se) of
                None \<Rightarrow> (Inl (AuthErrUnknownSubject (se_TenantID se)), m)
              | Some current \<Rightarrow>
                  (case Policy_Subject current (su_PolicyUserID u) of
                     Inl _ \<Rightarrow> (Inl (AuthErrUnknownSubject (su_PolicyUserID u)), m)
                   | Inr subject \<Rightarrow>
                       (Inr \<lparr> pr_User = u, pr_Session = se, pr_Tenant = se_TenantID se,
                              pr_Subject = subject, pr_PolicyVersion = p_version current \<rparr>,
                        (case Session_Touch m (se_ID se) now of Inl _ \<Rightarrow> m | Inr m' \<Rightarrow> m'))))"

subsection \<open>Following one token\<close>

lemma find_val_hash:
  assumes "\<forall>(k, se) \<in> set ss. se_TokenHash se \<noteq> h" "se_TokenHash s0 = h"
  shows "map_option snd (find_val (\<lambda>se. se_TokenHash se = h) (AList.update i s0 ss)) = Some s0"
  using assms by (induction ss) auto

lemma find_val_hash_again:
  assumes "\<forall>(k, se) \<in> set ss. se_TokenHash se \<noteq> h" "se_TokenHash s1 = h"
  shows "map_option snd (find_val (\<lambda>se. se_TokenHash se = h) (AList.update i s1 (AList.update i s0 ss))) = Some s1"
  using assms by (induction ss) auto

text \<open>
  A token issued to an enabled person of the bundle authenticates as exactly that person, under
  the tenant it was issued for and with the groups the bundle in force gives them, until the lifetime it
  was issued with has passed, from which instant it is refused as expired; and once its session is
  revoked it is refused as revoked at every instant. (No other session has the token's hash.)
\<close>

theorem issued_token_lifecycle:
  assumes "Issue sha tenant t1 t2 raw m uid label ttl = (token, se, m1)"
    and "\<forall>(k, x) \<in> set (m_sessions m). se_TokenHash x \<noteq> sha token"
    and "map_of (m_users m) uid = Some u" and "\<not> su_Disabled u"
    and "policies tenant = Some p" and "Policy_Subject p (su_PolicyUserID u) = Inr sub"
  shows "fst (Authenticate sha policies now m1 token) =
      (if ttl > 0 \<and> t2 + ttl \<le> now then Inl AuthErrExpired
       else Inr \<lparr>pr_User = u, pr_Session = se, pr_Tenant = tenant, pr_Subject = sub, pr_PolicyVersion = p_version p\<rparr>)
    \<and> map_sum id (\<lambda>m2. fst (Authenticate sha policies now m2 token)) (Service_Revoke at m1 (se_ID se))
      = Inr (Inl AuthErrRevoked)"
proof -
  let ?i = "session_id (m_seq m + 1)"
  have tok: "token = TokenPrefix @ b64_encode raw"
    using assms(1) by (auto simp: Issue_def GenerateToken_def Let_def split: prod.splits)
  have se: "se_ID se = ?i" "se_TenantID se = tenant" "se_UserID se = uid" "se_TokenHash se = sha token"
      "se_RevokedAt se = None" "se_ExpiresAt se = (if ttl > 0 then Some (t2 + ttl) else None)"
    and m1: "m_sessions m1 = AList.update ?i se (m_sessions m)" "m_users m1 = m_users m"
    using assms(1) by (auto simp: Issue_def GenerateToken_def HashToken_def Session_Create_def nextID_def
        session_id_def Let_def split: prod.splits)
  have pre: "token \<noteq> []" "prefix TokenPrefix token" by (simp_all add: tok TokenPrefix_def)
  have lk: "ByTokenHash m1 (sha token) = Inr se"
    using find_val_hash[OF assms(2), of se ?i] se(4) by (auto simp: ByTokenHash_def found_def m1)
  have user: "User_ByID m1 uid = Inr u" using assms(3) by (simp add: User_ByID_def lookup_Inr_iff m1)
  have first: "fst (Authenticate sha policies now m1 token) =
      (if ttl > 0 \<and> t2 + ttl \<le> now then Inl AuthErrExpired
       else Inr \<lparr>pr_User = u, pr_Session = se, pr_Tenant = tenant, pr_Subject = sub, pr_PolicyVersion = p_version p\<rparr>)"
    using pre lk user se assms(4-6) by (auto simp: Authenticate_def HashToken_def)
  let ?r = "se\<lparr> se_RevokedAt := Some at \<rparr>"
  have rev: "Service_Revoke at m1 (se_ID se) =
      Inr (m1\<lparr> m_sessions := AList.update ?i ?r (m_sessions m1) \<rparr>)"
    using se by (simp add: Service_Revoke_def Revoke_def lookup_def m1)
  have "ByTokenHash (m1\<lparr> m_sessions := AList.update ?i ?r (m_sessions m1) \<rparr>) (sha token) = Inr ?r"
    using find_val_hash_again[OF assms(2), of ?r ?i se] se(4) by (auto simp: ByTokenHash_def found_def m1)
  then show ?thesis
    using first rev pre se(4) by (simp add: Authenticate_def HashToken_def)
qed

definition ex_member :: store_user where
  "ex_member = \<lparr> su_ID = ''user-1'', su_TenantID = ''default'', su_PolicyUserID = ''amy'', su_Email = [],
     su_DisplayName = [], su_Disabled = False, su_CreatedAt = 1, su_UpdatedAt = 1 \<rparr>"

definition ex_accounts :: mem where
  "ex_accounts = New_store\<lparr> m_users := [(''user-1'', ex_member)] \<rparr>"

theorem issued_token_lifecycle_witness:
  "case Issue (\<lambda>x. x) ''default'' 1 1 ''entropy'' ex_accounts ''user-1'' ''laptop'' 10 of (token, se, m1) \<Rightarrow>
     fst (Authenticate (\<lambda>x. x) (\<lambda>_. Some ex_policy) 10 m1 token) \<noteq> Inl AuthErrExpired
     \<and> fst (Authenticate (\<lambda>x. x) (\<lambda>_. Some ex_policy) 11 m1 token) = Inl AuthErrExpired"
proof -
  obtain token se m1 where i: "Issue (\<lambda>x. x) ''default'' 1 1 ''entropy'' ex_accounts ''user-1'' ''laptop'' 10 = (token, se, m1)"
    by (cases "Issue (\<lambda>x. x) ''default'' 1 1 ''entropy'' ex_accounts ''user-1'' ''laptop'' 10") auto
  have u: "map_of (m_users ex_accounts) ''user-1'' = Some ex_member" "\<not> su_Disabled ex_member"
    "\<forall>(k, x) \<in> set (m_sessions ex_accounts). se_TokenHash x \<noteq> (\<lambda>x. x) token"
    by (simp_all add: ex_accounts_def New_store_def ex_member_def)
  have "map_sum (\<lambda>_. True) s_UserID (Policy_Subject ex_policy (su_PolicyUserID ex_member)) = Inr ''amy''" by code_simp
  then obtain sub where sub: "Policy_Subject ex_policy (su_PolicyUserID ex_member) = Inr sub"
    by (cases "Policy_Subject ex_policy (su_PolicyUserID ex_member)") auto
  show ?thesis
    using issued_token_lifecycle[OF i u(3) u(1,2) _ sub, of "\<lambda>_. Some ex_policy" 10]
      issued_token_lifecycle[OF i u(3) u(1,2) _ sub, of "\<lambda>_. Some ex_policy" 11]
    by (simp add: i)
qed

end
