(* ===== verification/Nit_Audit.thy ===== *)
theory Nit_Audit
  imports Nit_Store "HOL-Library.Multiset" "HOL-Library.Sublist"
begin

text \<open>
  Where decisions go after the database: the sinks of \<open>pkg/audit\<close>, the recorder of
  \<open>internal/auditlog/recorder.go\<close> that writes the database first, and the bounded queue of
  \<open>internal/auditbuf/buffer.go\<close> that keeps a slow sink off the request path. A sink is a function on a
  world of its own which returns the errors it joined (none: success). The queue is a step function over
  the events of a scheduler: callers inside \<open>Emit\<close>, the one consumer goroutine, the ticker, the timer and
  the destination. Logging is dropped.
\<close>

subsection \<open>Sinks (\<open>pkg/audit\<close>)\<close>

record sink_record =
  sk_OccurredAt :: instant
  sk_Actor :: string
  sk_Action :: string
  sk_Repository :: string
  sk_Branch :: string
  sk_Path :: string
  sk_Effect :: string
  sk_Reason :: string
  sk_RuleID :: string
  sk_Guard :: string
  sk_PolicyVersion :: string
  sk_RequestID :: string
  sk_TaskID :: string

type_synonym 'w sink = "sink_record list \<Rightarrow> 'w \<Rightarrow> string list \<times> 'w"

definition Multi :: "'w sink option list \<Rightarrow> 'w sink" where
  "Multi sinks rs w =
     fold (\<lambda>s (errs, w). case s of None \<Rightarrow> (errs, w) | Some f \<Rightarrow> (case f rs w of (e, w') \<Rightarrow> (errs @ e, w')))
       sinks ([], w)"

definition Discard :: "'w sink" where "Discard rs w = ([], w)"

record sink_mem =
  sm_records :: "sink_record list"
  sm_err :: "string option"

definition NewMemory_sink :: sink_mem where "NewMemory_sink = \<lparr>sm_records = [], sm_err = None\<rparr>"

definition SinkMemory_Emit :: "sink_mem sink" where
  "SinkMemory_Emit rs m =
     (case sm_err m of Some e \<Rightarrow> ([e], m) | None \<Rightarrow> ([], m\<lparr>sm_records := sm_records m @ rs\<rparr>))"

definition SinkMemory_Fail :: "string option \<Rightarrow> sink_mem \<Rightarrow> sink_mem" where
  "SinkMemory_Fail e m = m\<lparr>sm_err := e\<rparr>"

definition SinkMemory_Reset :: "sink_mem \<Rightarrow> sink_mem" where
  "SinkMemory_Reset m = m\<lparr>sm_records := []\<rparr>"

subsection \<open>The recorder (\<open>auditlog/recorder.go\<close>)\<close>

definition convert :: "repo_id \<Rightarrow> audit_record option list \<Rightarrow> sink_record list" where
  "convert repository records =
     concat (map (\<lambda>rec. case rec of None \<Rightarrow> [] | Some r \<Rightarrow>
       [\<lparr>sk_OccurredAt = ar_OccurredAt r, sk_Actor = ar_ActorLabel r, sk_Action = ar_Action r,
         sk_Repository = repository, sk_Branch = ar_Branch r, sk_Path = ar_Path r, sk_Effect = ar_Effect r,
         sk_Reason = reason_str (ar_Reason r), sk_RuleID = ar_RuleID r, sk_Guard = ar_Guard r,
         sk_PolicyVersion = ar_PolicyVersion r, sk_RequestID = ar_RequestID r, sk_TaskID = ar_TaskID r\<rparr>])
       records)"

definition Record_audit ::
  "instant \<Rightarrow> 'w sink option \<Rightarrow> repo_id \<Rightarrow> audit_record list \<Rightarrow> mem \<times> 'w \<Rightarrow> mem \<times> 'w" where
  "Record_audit now sink repository records s =
     (if records = [] then s
      else let m = Audit_Append now (fst s) records
           in case sink of
                None \<Rightarrow> (m, snd s)
              | Some f \<Rightarrow> (m, snd (f (convert repository (map Some records)) (snd s))))"

subsection \<open>The buffer (\<open>auditbuf/buffer.go\<close>)\<close>

definition DefaultCapacity :: int where "DefaultCapacity = 4096"
definition DefaultBatchSize :: int where "DefaultBatchSize = 256"
definition DefaultFlushEvery :: duration where "DefaultFlushEvery = 1000000000"
definition DefaultTimeout :: duration where "DefaultTimeout = 30000000000"
definition DefaultRetries :: int where "DefaultRetries = 3"
definition DefaultBackoff :: duration where "DefaultBackoff = 250000000"

record buf_options =
  bo_Capacity :: int
  bo_BatchSize :: int
  bo_FlushEvery :: duration
  bo_Timeout :: duration
  bo_Retries :: int
  bo_Backoff :: duration

definition buf_defaults :: "buf_options \<Rightarrow> buf_options" where
  "buf_defaults v =
     \<lparr>bo_Capacity = (if bo_Capacity v \<le> 0 then DefaultCapacity else bo_Capacity v),
      bo_BatchSize = (if bo_BatchSize v \<le> 0 then DefaultBatchSize else bo_BatchSize v),
      bo_FlushEvery = (if bo_FlushEvery v \<le> 0 then DefaultFlushEvery else bo_FlushEvery v),
      bo_Timeout = (if bo_Timeout v \<le> 0 then DefaultTimeout else bo_Timeout v),
      bo_Retries = (if bo_Retries v < 0 then DefaultRetries else bo_Retries v),
      bo_Backoff = (if bo_Backoff v \<le> 0 then DefaultBackoff else bo_Backoff v)\<rparr>"

text \<open>
  Where the consumer is: in the select of the main loop, in the drain after the close, offering a batch to
  the sink or sitting out a backoff (each with the loop that flushed, to which it returns), or gone.
\<close>

datatype resume = ToLoop | ToDrain | ToExit

datatype pc =
    Looping
  | Draining
  | Offering int duration resume
  | Waiting int duration resume
  | Exited

text \<open>
  \<open>b_emitters\<close> are the calls of \<open>Emit\<close> that have seen the buffer open, each with the records it has still
  to send. The last four fields are histories of what was asked of the buffer, sent into its channel,
  acknowledged by the sink and refused or given up.
\<close>

record 'r buffer =
  b_in :: "'r list"
  b_closed :: bool
  b_dropped :: "64 word"
  b_batch :: "'r list"
  b_pc :: pc
  b_emitters :: "'r list list"
  b_offered :: "'r list"
  b_sent :: "'r list"
  b_acked :: "'r list"
  b_lost :: "'r list"

definition New_buffer :: "'r buffer" where
  "New_buffer = \<lparr>b_in = [], b_closed = False, b_dropped = 0, b_batch = [], b_pc = Looping, b_emitters = [],
     b_offered = [], b_sent = [], b_acked = [], b_lost = []\<rparr>"

definition drop_records :: "'r list \<Rightarrow> 'r buffer \<Rightarrow> 'r buffer" where
  "drop_records rs b = b\<lparr>b_dropped := b_dropped b + of_nat (length rs), b_lost := b_lost b @ rs\<rparr>"

definition Emit_enter :: "'r list \<Rightarrow> 'r buffer \<Rightarrow> 'r buffer" where
  "Emit_enter rs b =
     (if rs = [] then b
      else let b = b\<lparr>b_offered := b_offered b @ rs\<rparr>
           in if b_closed b then drop_records rs b else b\<lparr>b_emitters := b_emitters b @ [rs]\<rparr>)"

text \<open>One turn of the loop of the \<open>i\<close>-th call; the last one returns.\<close>

definition Emit_send :: "buf_options \<Rightarrow> nat \<Rightarrow> 'r buffer \<Rightarrow> 'r buffer option" where
  "Emit_send v i b =
     (if i < length (b_emitters b) then
        (case b_emitters b ! i of
           [] \<Rightarrow> None
         | r # rest \<Rightarrow>
             let es = (if rest = [] then take i (b_emitters b) @ drop (Suc i) (b_emitters b)
                       else (b_emitters b)[i := rest]);
                 b1 = b\<lparr>b_emitters := es\<rparr>
             in Some (if int (length (b_in b)) < bo_Capacity v
                      then b1\<lparr>b_in := b_in b @ [r], b_sent := b_sent b @ [r]\<rparr>
                      else drop_records [r] b1))
      else None)"

definition Close_buffer :: "'r buffer \<Rightarrow> 'r buffer" where
  "Close_buffer b = b\<lparr>b_closed := True\<rparr>"

definition resumed :: "resume \<Rightarrow> pc" where
  "resumed k = (case k of ToLoop \<Rightarrow> Looping | ToDrain \<Rightarrow> Draining | ToExit \<Rightarrow> Exited)"

definition flush :: "buf_options \<Rightarrow> resume \<Rightarrow> 'r buffer \<Rightarrow> 'r buffer" where
  "flush v k b = (if b_batch b = [] then b\<lparr>b_pc := resumed k\<rparr> else b\<lparr>b_pc := Offering 0 (bo_Backoff v) k\<rparr>)"

definition receive :: "buf_options \<Rightarrow> resume \<Rightarrow> 'r buffer \<Rightarrow> 'r buffer option" where
  "receive v k b =
     (case b_in b of
        [] \<Rightarrow> None
      | r # rest \<Rightarrow>
          let b1 = b\<lparr>b_in := rest, b_batch := b_batch b @ [r]\<rparr>
          in Some (if int (length (b_batch b1)) \<ge> bo_BatchSize v then flush v k b1 else b1))"

text \<open>The answer of the sink to the batch, and what ends a backoff.\<close>

definition deliver_answer :: "buf_options \<Rightarrow> bool \<Rightarrow> int \<Rightarrow> duration \<Rightarrow> resume \<Rightarrow> 'r buffer \<Rightarrow> 'r buffer" where
  "deliver_answer v okay attempt backoff k b =
     (if okay then b\<lparr>b_acked := b_acked b @ b_batch b, b_batch := [], b_pc := resumed k\<rparr>
      else if attempt \<ge> bo_Retries v
      then (drop_records (b_batch b) b)\<lparr>b_batch := [], b_pc := resumed k\<rparr>
      else b\<lparr>b_pc := Waiting attempt backoff k\<rparr>)"

definition deliver_again :: "buf_options \<Rightarrow> int \<Rightarrow> duration \<Rightarrow> resume \<Rightarrow> 'r buffer \<Rightarrow> 'r buffer" where
  "deliver_again v attempt backoff k b =
     b\<lparr>b_pc := Offering (attempt + 1) (if backoff < 8 * bo_Backoff v then backoff * 2 else backoff) k\<rparr>"

definition deliver_abandon :: "resume \<Rightarrow> 'r buffer \<Rightarrow> 'r buffer" where
  "deliver_abandon k b = (drop_records (b_batch b) b)\<lparr>b_batch := [], b_pc := resumed k\<rparr>"

datatype 'r event =
    EmitCall "'r list" | EmitSend nat | CloseCall
  | Receive | Ticker | SeeClosed | DrainEmpty
  | Answer bool | Timer | Abandon

fun buf_step :: "buf_options \<Rightarrow> 'r event \<Rightarrow> 'r buffer \<Rightarrow> 'r buffer option" where
  "buf_step v (EmitCall rs) b = Some (Emit_enter rs b)"
| "buf_step v (EmitSend i) b = Emit_send v i b"
| "buf_step v CloseCall b = Some (Close_buffer b)"
| "buf_step v Receive b =
     (case b_pc b of Looping \<Rightarrow> receive v ToLoop b | Draining \<Rightarrow> receive v ToDrain b | _ \<Rightarrow> None)"
| "buf_step v Ticker b = (if b_pc b = Looping then Some (flush v ToLoop b) else None)"
| "buf_step v SeeClosed b = (if b_pc b = Looping \<and> b_closed b then Some (b\<lparr>b_pc := Draining\<rparr>) else None)"
| "buf_step v DrainEmpty b = (if b_pc b = Draining \<and> b_in b = [] then Some (flush v ToExit b) else None)"
| "buf_step v (Answer okay) b =
     (case b_pc b of Offering n d k \<Rightarrow> Some (deliver_answer v okay n d k b) | _ \<Rightarrow> None)"
| "buf_step v Timer b =
     (case b_pc b of Waiting n d k \<Rightarrow> Some (deliver_again v n d k b) | _ \<Rightarrow> None)"
| "buf_step v Abandon b =
     (case b_pc b of Waiting n d k \<Rightarrow> if b_closed b then Some (deliver_abandon k b) else None | _ \<Rightarrow> None)"

fun buf_run :: "buf_options \<Rightarrow> 'r event list \<Rightarrow> 'r buffer \<Rightarrow> 'r buffer option" where
  "buf_run v [] b = Some b"
| "buf_run v (e # es) b = Option.bind (buf_step v e b) (buf_run v es)"

subsection \<open>The invariant of the buffer\<close>

fun returns :: "pc \<Rightarrow> resume option" where
  "returns (Offering _ _ k) = Some k"
| "returns (Waiting _ _ k) = Some k"
| "returns _ = None"

definition pc_ok :: "buf_options \<Rightarrow> 'r buffer \<Rightarrow> bool" where
  "pc_ok v b =
     (case b_pc b of
        Looping \<Rightarrow> int (length (b_batch b)) < bo_BatchSize v
      | Draining \<Rightarrow> int (length (b_batch b)) < bo_BatchSize v \<and> b_closed b
      | Offering n d k \<Rightarrow> b_batch b \<noteq> [] \<and> 0 \<le> n \<and> n \<le> bo_Retries v \<and> (k \<noteq> ToLoop \<longrightarrow> b_closed b)
      | Waiting n d k \<Rightarrow> b_batch b \<noteq> [] \<and> 0 \<le> n \<and> n < bo_Retries v \<and> (k \<noteq> ToLoop \<longrightarrow> b_closed b)
      | Exited \<Rightarrow> b_batch b = [] \<and> b_closed b)"

definition buf_inv :: "buf_options \<Rightarrow> 'r buffer \<Rightarrow> bool" where
  "buf_inv v b \<longleftrightarrow>
     mset (b_offered b) = mset (concat (b_emitters b)) + mset (b_in b) + mset (b_batch b) + mset (b_acked b)
       + mset (b_lost b)
   \<and> b_dropped b = of_nat (length (b_lost b))
   \<and> subseq (b_acked b @ b_batch b @ b_in b) (b_sent b)
   \<and> int (length (b_in b)) \<le> bo_Capacity v
   \<and> int (length (b_batch b)) \<le> bo_BatchSize v
   \<and> [] \<notin> set (b_emitters b) \<and> pc_ok v b"

lemma buf_invI:
  assumes "mset (b_offered b) = mset (concat (b_emitters b)) + mset (b_in b) + mset (b_batch b) + mset (b_acked b)
       + mset (b_lost b)"
    and "b_dropped b = of_nat (length (b_lost b))" and "subseq (b_acked b @ b_batch b @ b_in b) (b_sent b)"
    and "int (length (b_in b)) \<le> bo_Capacity v" and "int (length (b_batch b)) \<le> bo_BatchSize v"
    and "[] \<notin> set (b_emitters b)" and "pc_ok v b"
  shows "buf_inv v b"
  using assms by (simp add: buf_inv_def)

lemma buf_invD:
  assumes "buf_inv v b"
  shows "mset (b_offered b) = mset (concat (b_emitters b)) + mset (b_in b) + mset (b_batch b) + mset (b_acked b)
       + mset (b_lost b)"
    and "b_dropped b = of_nat (length (b_lost b))" and "subseq (b_acked b @ b_batch b @ b_in b) (b_sent b)"
    and "int (length (b_in b)) \<le> bo_Capacity v" and "int (length (b_batch b)) \<le> bo_BatchSize v"
    and "[] \<notin> set (b_emitters b)" and "pc_ok v b"
  using assms by (simp_all add: buf_inv_def)

lemma Emit_enter_inv: "buf_inv v b \<Longrightarrow> buf_inv v (Emit_enter rs b)"
  by (auto simp: buf_inv_def Emit_enter_def Let_def drop_records_def pc_ok_def split: pc.splits)

lemma Close_inv: "buf_inv v b \<Longrightarrow> buf_inv v (Close_buffer b)"
  by (auto simp: buf_inv_def Close_buffer_def pc_ok_def split: pc.splits)

lemma mset_concat_take:
  assumes "i < length xss"
  shows "mset (concat xss) = mset (xss ! i) + mset (concat (take i xss @ drop (Suc i) xss))"
proof -
  have "mset (concat xss) = mset (concat (take i xss @ xss ! i # drop (Suc i) xss))"
    using id_take_nth_drop[OF assms] by simp
  then show ?thesis by simp
qed

lemma Emit_send_inv:
  assumes "buf_inv v b" "Emit_send v i b = Some b'"
  shows "buf_inv v b'"
proof -
  obtain r rest where i: "i < length (b_emitters b)" "b_emitters b ! i = r # rest"
    using assms(2) by (auto simp: Emit_send_def split: if_splits list.splits)
  define es where "es = (if rest = [] then take i (b_emitters b) @ drop (Suc i) (b_emitters b)
    else (b_emitters b)[i := rest])"
  have es: "mset (concat (b_emitters b)) = add_mset r (mset (concat es))" "[] \<notin> set es"
    using mset_concat_take[OF i(1)] i buf_invD(6)[OF assms(1)]
    by (auto simp: es_def upd_conv_take_nth_drop dest: in_set_takeD in_set_dropD)
  have b': "b' = (let b1 = b\<lparr>b_emitters := es\<rparr> in if int (length (b_in b)) < bo_Capacity v
      then b1\<lparr>b_in := b_in b @ [r], b_sent := b_sent b @ [r]\<rparr> else drop_records [r] b1)"
    using assms(2) i by (simp add: Emit_send_def es_def Let_def)
  note I = buf_invD[OF assms(1)]
  have "subseq ((b_acked b @ b_batch b @ b_in b) @ [r]) (b_sent b @ [r])"
    by (rule list_emb_append_mono[OF I(3)]) simp
  then show ?thesis
    using I es unfolding b' Let_def by (auto simp: buf_inv_def drop_records_def pc_ok_def split: pc.splits)
qed

text \<open>A flush of a state that satisfies everything but the bound on the batch of the loops.\<close>

lemma flush_inv:
  assumes "buf_inv v (b\<lparr>b_pc := q\<rparr>)" and "0 < bo_BatchSize v" "0 \<le> bo_Retries v" and "k \<noteq> ToLoop \<longrightarrow> b_closed b"
  shows "buf_inv v (flush v k b)"
  using assms by (cases k) (auto simp: buf_inv_def flush_def pc_ok_def resumed_def)

lemma receive_inv:
  assumes "buf_inv v b" "receive v k b = Some b'" "0 < bo_BatchSize v" "0 \<le> bo_Retries v"
    and "b_pc b = Looping \<and> k = ToLoop \<or> b_pc b = Draining \<and> k = ToDrain"
  shows "buf_inv v b'"
proof -
  obtain r rest where r: "b_in b = r # rest" using assms(2) by (auto simp: receive_def split: list.splits)
  define b1 where "b1 = b\<lparr>b_in := rest, b_batch := b_batch b @ [r]\<rparr>"
  have b': "b' = (if int (length (b_batch b1)) \<ge> bo_BatchSize v then flush v k b1 else b1)"
    using assms(2) r by (auto simp: receive_def b1_def Let_def)
  note I = buf_invD[OF assms(1)]
  have "buf_inv v (b1\<lparr>b_pc := Offering 0 (bo_Backoff v) k\<rparr>)"
    by (rule buf_invI) (use I r assms(3-5) in \<open>auto simp: b1_def pc_ok_def\<close>)
  moreover have "k \<noteq> ToLoop \<longrightarrow> b_closed b1" using I(7) assms(5) by (auto simp: b1_def pc_ok_def)
  ultimately have "buf_inv v (flush v k b1)" by (rule flush_inv[OF _ assms(3,4)])
  moreover have "buf_inv v b1" if "int (length (b_batch b1)) < bo_BatchSize v"
    by (rule buf_invI) (use I r assms(5) that in \<open>auto simp: b1_def pc_ok_def\<close>)
  ultimately show ?thesis unfolding b' by simp
qed

lemma subseq_drop_middle: "subseq (xs @ ys @ zs) ws \<Longrightarrow> subseq (xs @ zs) ws"
  by (rule subseq_order.trans[OF _]) (auto intro: list_emb_append_mono)

lemma deliver_inv:
  assumes "buf_inv v b" "b_pc b = Offering n d k" "0 < bo_BatchSize v"
  shows "buf_inv v (deliver_answer v okay n d k b)"
  by (rule buf_invI; use buf_invD[OF assms(1)] assms(2,3) in
    \<open>cases k; auto simp: deliver_answer_def drop_records_def pc_ok_def resumed_def intro: subseq_drop_middle\<close>)

lemma again_inv:
  assumes "buf_inv v b" "b_pc b = Waiting n d k"
  shows "buf_inv v (deliver_again v n d k b)"
  by (rule buf_invI) (use buf_invD[OF assms(1)] assms(2) in \<open>auto simp: deliver_again_def pc_ok_def\<close>)

lemma abandon_inv:
  assumes "buf_inv v b" "b_pc b = Waiting n d k" "0 < bo_BatchSize v"
  shows "buf_inv v (deliver_abandon k b)"
  by (rule buf_invI; use buf_invD[OF assms(1)] assms(2,3) in
    \<open>cases k; auto simp: deliver_abandon_def drop_records_def pc_ok_def resumed_def intro: subseq_drop_middle\<close>)

definition ready :: "buf_options \<Rightarrow> bool" where
  "ready v \<longleftrightarrow> 0 < bo_Capacity v \<and> 0 < bo_BatchSize v \<and> 0 \<le> bo_Retries v"

lemma defaults_ready: "ready (buf_defaults v)"
  by (simp add: ready_def buf_defaults_def DefaultCapacity_def DefaultBatchSize_def DefaultRetries_def)

lemma buf_step_inv:
  assumes "buf_inv v b" "buf_step v e b = Some b'" "ready v"
  shows "buf_inv v b'"
proof -
  have v: "0 < bo_BatchSize v" "0 \<le> bo_Retries v" using assms(3) by (simp_all add: ready_def)
  have self: "buf_inv v (b\<lparr>b_pc := b_pc b\<rparr>)" using assms(1) by simp
  note I = buf_invD[OF assms(1)]
  show ?thesis
  proof (cases e)
    case (EmitCall rs)
    then show ?thesis using assms Emit_enter_inv by auto
  next
    case (EmitSend i)
    then show ?thesis using assms Emit_send_inv by auto
  next
    case CloseCall
    then show ?thesis using assms Close_inv by auto
  next
    case Receive
    then show ?thesis using receive_inv[OF assms(1) _ v] assms(2) by (auto split: pc.splits)
  next
    case Ticker
    then show ?thesis using flush_inv[OF self v, of ToLoop] assms(2) by (auto split: if_splits)
  next
    case SeeClosed
    then show ?thesis using assms(1,2) by (auto simp: buf_inv_def pc_ok_def split: if_splits)
  next
    case DrainEmpty
    then show ?thesis using flush_inv[OF self v, of ToExit] assms(1,2) I(7) by (auto simp: pc_ok_def split: if_splits)
  next
    case (Answer okay)
    then show ?thesis using deliver_inv[OF assms(1) _ v(1)] assms(2) by (auto split: pc.splits)
  next
    case Timer
    then show ?thesis using again_inv[OF assms(1)] assms(2) by (auto split: pc.splits)
  next
    case Abandon
    then show ?thesis using abandon_inv[OF assms(1) _ v(1)] assms(2) by (auto split: pc.splits if_splits)
  qed
qed

lemma buf_run_invariant:
  assumes "buf_run v es b = Some b'" "P b" and "\<And>e b b'. P b \<Longrightarrow> buf_step v e b = Some b' \<Longrightarrow> P b'"
  shows "P b'"
  using assms(1,2)
proof (induction es arbitrary: b)
  case (Cons e es)
  then show ?case using assms(3) by (auto simp: Option.bind_eq_Some_conv)
qed simp

lemma New_buffer_inv: "ready v \<Longrightarrow> buf_inv v New_buffer"
  by (simp add: buf_inv_def New_buffer_def pc_ok_def ready_def)

lemma reached_inv:
  assumes "buf_run v es New_buffer = Some b" "ready v"
  shows "buf_inv v b"
  by (rule buf_run_invariant[where P = "buf_inv v", OF assms(1) New_buffer_inv[OF assms(2)]])
    (rule buf_step_inv[OF _ _ assms(2)])

text \<open>Once closed with no caller inside, the channel only shrinks and is empty when the consumer leaves.\<close>

definition shut :: "'r buffer \<Rightarrow> bool" where
  "shut b \<longleftrightarrow> b_closed b \<and> b_emitters b = []
     \<and> (b_pc b = Exited \<or> returns (b_pc b) = Some ToExit \<longrightarrow> b_in b = [])"

lemma shut_step:
  assumes "shut b" "buf_step v e b = Some b'"
  shows "shut b'"
  using assms
  by (cases e) (auto simp: shut_def Emit_enter_def Emit_send_def Close_buffer_def drop_records_def flush_def
      receive_def deliver_answer_def deliver_again_def deliver_abandon_def resumed_def Let_def
      split: if_splits pc.splits resume.splits list.splits)

lemma shut_close:
  assumes "buf_inv v b" "\<not> b_closed b" "b_emitters b = []"
  shows "shut (Close_buffer b)"
  using buf_invD(7)[OF assms(1)] assms(2,3)
  by (auto simp: shut_def Close_buffer_def pc_ok_def split: pc.splits)

subsection \<open>The drain ends\<close>

fun consumer :: "'r event \<Rightarrow> bool" where
  "consumer (EmitCall _) = False"
| "consumer (EmitSend _) = False"
| "consumer CloseCall = False"
| "consumer _ = True"

definition draining :: "'r buffer \<Rightarrow> bool" where
  "draining b \<longleftrightarrow> b_closed b \<and> b_pc b \<noteq> Looping \<and> returns (b_pc b) \<noteq> Some ToLoop"

definition drain_work :: "buf_options \<Rightarrow> 'r buffer \<Rightarrow> nat" where
  "drain_work v b =
     (let R = nat (bo_Retries v);
          base = (\<lambda>k. if k = ToDrain then length (b_in b) * (2 * R + 3) + 2 * R + 3 else 0)
      in case b_pc b of
           Draining \<Rightarrow> base ToDrain
         | Offering n _ k \<Rightarrow> base k + 2 * (R - nat n) + 1
         | Waiting n _ k \<Rightarrow> base k + 2 * (R - nat n)
         | _ \<Rightarrow> 0)"

lemma drain_step:
  assumes "buf_inv v b" "draining b" "consumer e" "buf_step v e b = Some b'" "ready v"
  shows "draining b' \<and> drain_work v b' < drain_work v b"
proof -
  note I = buf_invD(7)[OF assms(1)]
  show ?thesis
  proof (cases e)
    case Receive
    then show ?thesis using assms(2,4)
      by (auto simp: draining_def drain_work_def receive_def flush_def resumed_def Let_def
          split: pc.splits list.splits if_splits)
  next
    case DrainEmpty
    then show ?thesis using assms(2,4)
      by (auto simp: draining_def drain_work_def flush_def resumed_def Let_def split: if_splits)
  next
    case (Answer okay)
    then obtain n d k where o: "b_pc b = Offering n d k" "b' = deliver_answer v okay n d k b"
      using assms(4) by (auto split: pc.splits)
    then show ?thesis using assms(2) I
      by (cases k) (auto simp: draining_def drain_work_def deliver_answer_def drop_records_def resumed_def pc_ok_def Let_def)
  next
    case Timer
    then obtain n d k where o: "b_pc b = Waiting n d k" "b' = deliver_again v n d k b"
      using assms(4) by (auto split: pc.splits)
    then have n: "0 \<le> n" "n < bo_Retries v" using I by (simp_all add: pc_ok_def)
    then have "nat (bo_Retries v) - nat n = Suc (nat (bo_Retries v) - nat (n + 1))" by linarith
    then show ?thesis using assms(2) o by (auto simp: draining_def drain_work_def deliver_again_def Let_def)
  next
    case Abandon
    then obtain n d k where o: "b_pc b = Waiting n d k" "b' = deliver_abandon k b"
      using assms(4) by (auto split: pc.splits if_splits)
    then have n: "0 \<le> n" "n < bo_Retries v" using I by (simp_all add: pc_ok_def)
    then show ?thesis using assms(2) o
      by (cases k) (auto simp: draining_def drain_work_def deliver_abandon_def drop_records_def resumed_def Let_def)
  qed (use assms(2-4) in \<open>auto simp: draining_def split: if_splits\<close>)
qed

lemma drain_progress:
  assumes "draining b" "b_pc b \<noteq> Exited"
  shows "\<exists>e. consumer e \<and> buf_step v e b \<noteq> None"
proof (cases "b_pc b")
  case Draining
  then show ?thesis
    by (cases "b_in b") (auto simp: receive_def Let_def intro: exI[of _ Receive] exI[of _ DrainEmpty])
next
  case (Offering n d k)
  then show ?thesis by (intro exI[of _ "Answer True"]) simp
next
  case (Waiting n d k)
  then show ?thesis by (intro exI[of _ Timer]) simp
qed (use assms in \<open>auto simp: draining_def\<close>)

lemma drain_run:
  assumes "buf_inv v b" "draining b" "list_all consumer es" "buf_run v es b = Some b'" "ready v"
  shows "length es + drain_work v b' \<le> drain_work v b \<and> draining b'"
  using assms(1-4)
proof (induction es arbitrary: b)
  case (Cons e es)
  obtain b1 where b1: "buf_step v e b = Some b1" "buf_run v es b1 = Some b'"
    using Cons.prems(4) by (auto simp: Option.bind_eq_Some_conv)
  have "consumer e" "list_all consumer es" using Cons.prems(3) by simp_all
  then show ?case
    using drain_step[OF Cons.prems(1,2) _ b1(1) assms(5)] Cons.IH[OF buf_step_inv[OF Cons.prems(1) b1(1) assms(5)] _ _ b1(2)]
    by fastforce
qed simp

subsection \<open>Properties\<close>

text \<open>
  Claim C33. Nothing is lost behind the buffer's back. Whatever the interleaving of callers, consumer, ticker, timer
  and destination, every record handed to \<open>Emit\<close> is in exactly one place: still with its caller, in the
  channel, in the batch under way, acknowledged by the destination, or counted as dropped; the channel and
  the batch stay within their bounds; and what the destination acknowledged comes in the order in which
  the records entered the channel.
\<close>

theorem buffer_conserves_records:
  assumes "buf_run (buf_defaults v) es New_buffer = Some b"
  shows "mset (b_offered b) = mset (concat (b_emitters b)) + mset (b_in b) + mset (b_batch b)
        + mset (b_acked b) + mset (b_lost b)
    \<and> b_dropped b = of_nat (length (b_lost b))
    \<and> subseq (b_acked b @ b_batch b @ b_in b) (b_sent b)
    \<and> int (length (b_in b)) \<le> bo_Capacity (buf_defaults v)
    \<and> int (length (b_batch b)) \<le> bo_BatchSize (buf_defaults v)"
  using buf_invD(1-5)[OF reached_inv[OF assms defaults_ready]] by blast

text \<open>
  Closing when no caller is inside \<open>Emit\<close> leaves no gap that is not counted: when the consumer has left,
  the channel is empty and every record ever offered was acknowledged or is in the dropped count. And the
  consumer does leave: from the moment it sees the buffer closed it can always take a step until it is
  gone, and it takes at most a number of steps that depends on the queue and the retries alone.
\<close>

theorem close_drains:
  assumes "buf_run (buf_defaults v) es New_buffer = Some b" and "\<not> b_closed b" and "b_emitters b = []"
    and "buf_run (buf_defaults v) es' (Close_buffer b) = Some b'"
  shows "(b_pc b' = Exited \<longrightarrow> b_in b' = [] \<and> mset (b_offered b') = mset (b_acked b') + mset (b_lost b')
      \<and> b_dropped b' = of_nat (length (b_lost b')))
    \<and> (draining b' \<longrightarrow>
        (\<forall>cs b''. list_all consumer cs \<longrightarrow> buf_run (buf_defaults v) cs b' = Some b'' \<longrightarrow>
           length cs \<le> drain_work (buf_defaults v) b'
         \<and> (b_pc b'' \<noteq> Exited \<longrightarrow> (\<exists>e. consumer e \<and> buf_step (buf_defaults v) e b'' \<noteq> None))))"
proof -
  let ?v = "buf_defaults v"
  have i: "buf_inv ?v b" by (rule reached_inv[OF assms(1) defaults_ready])
  have i': "buf_inv ?v b'"
    by (rule buf_run_invariant[where P = "buf_inv ?v", OF assms(4) Close_inv[OF i]])
      (rule buf_step_inv[OF _ _ defaults_ready])
  have s': "shut b'"
    by (rule buf_run_invariant[where P = shut, OF assms(4) shut_close[OF i assms(2,3)]]) (rule shut_step)
  have "b_in b' = [] \<and> mset (b_offered b') = mset (b_acked b') + mset (b_lost b')
      \<and> b_dropped b' = of_nat (length (b_lost b'))" if "b_pc b' = Exited"
    using buf_invD(1,2,7)[OF i'] s' that by (simp add: shut_def pc_ok_def)
  moreover have "length cs \<le> drain_work ?v b' \<and> (b_pc b'' \<noteq> Exited \<longrightarrow> (\<exists>e. consumer e \<and> buf_step ?v e b'' \<noteq> None))"
    if "draining b'" "list_all consumer cs" "buf_run ?v cs b' = Some b''" for cs b''
    using drain_run[OF i' that defaults_ready] drain_progress[of b''] by fastforce
  ultimately show ?thesis by blast
qed

text \<open>
  A caller that saw the buffer open and sends after the consumer has drained leaves its record in the
  channel for ever: the consumer is gone, nobody is inside \<open>Emit\<close>, the record was neither delivered nor
  counted.
\<close>

theorem close_race_loses_record:
  "\<exists>es b. buf_run (buf_defaults v) es New_buffer = Some b \<and> b_pc b = Exited \<and> b_emitters b = []
     \<and> b_offered b = [r] \<and> b_acked b = [] \<and> b_dropped b = 0 \<and> b_in b = [r]"
proof -
  have c: "0 < bo_Capacity (buf_defaults v)" using defaults_ready by (simp add: ready_def)
  show ?thesis
    by (rule exI[of _ "[EmitCall [r], CloseCall, SeeClosed, DrainEmpty, EmitSend 0]"])
      (use c in \<open>simp add: New_buffer_def Emit_enter_def Close_buffer_def flush_def resumed_def Emit_send_def\<close>)
qed

text \<open>
  The recorder writes the database first and alike: whatever the sink answers, and whether there is one,
  the rows appended are the same, and a sink receives each of them once, in order, without an identifier
  of the database.
\<close>

theorem recorder_database_first:
  "fst (Record_audit now sink repo rs (m, w)) = Audit_Append now m rs
   \<and> snd (Record_audit now (Some (\<lambda>xs seen. (errs xs, seen @ [xs]))) repo rs (m, seen))
       = (if rs = [] then seen else seen @ [convert repo (map Some rs)])
   \<and> length (convert repo (map Some rs)) = length rs
   \<and> (\<forall>i < length rs. sk_Action (convert repo (map Some rs) ! i) = ar_Action (rs ! i)
        \<and> sk_Path (convert repo (map Some rs) ! i) = ar_Path (rs ! i)
        \<and> sk_Repository (convert repo (map Some rs) ! i) = repo)"
proof -
  have one: "convert repo (map Some rs) = map (\<lambda>r. hd (convert repo [Some r])) rs" for rs
    by (induction rs) (simp_all add: convert_def)
  show ?thesis
    by (subst (1 2 3 4) one)
      (simp add: Record_audit_def Let_def Audit_Append_def convert_def split: option.split)
qed

subsection \<open>Witnesses\<close>

definition ex_options :: buf_options where
  "ex_options = \<lparr>bo_Capacity = 2, bo_BatchSize = 1, bo_FlushEvery = 1, bo_Timeout = 1, bo_Retries = 1, bo_Backoff = 1\<rparr>"

definition ex_events :: "nat event list" where
  "ex_events = [EmitCall [1, 2, 3], EmitSend 0, EmitSend 0, EmitSend 0, Receive, Answer False, Timer, Answer True]"

theorem buffer_conserves_records_witness:
  "\<exists>b. buf_run (buf_defaults ex_options) ex_events New_buffer = Some b
     \<and> b_acked b = [1] \<and> b_in b = [2] \<and> b_dropped b = 1 \<and> mset (b_offered b) = {#1, 2, 3#}"
proof -
  have "map_option (\<lambda>b. (b_acked b, b_in b, b_batch b, b_lost b, b_emitters b))
      (buf_run (buf_defaults ex_options) ex_events New_buffer) = Some ([1], [2], [], [3], [])" by code_simp
  then obtain b where b: "buf_run (buf_defaults ex_options) ex_events New_buffer = Some b"
      "b_acked b = [1]" "b_in b = [2]" "b_batch b = []" "b_lost b = [3]" "b_emitters b = []" by auto
  then show ?thesis using buffer_conserves_records[OF b(1)] by (intro exI[of _ b]) simp
qed

theorem close_drains_witness:
  "\<exists>b b'. buf_run (buf_defaults ex_options) ex_events New_buffer = Some b
     \<and> buf_run (buf_defaults ex_options) [SeeClosed, Receive, Answer True, DrainEmpty] (Close_buffer b) = Some b'
     \<and> b_pc b' = Exited \<and> b_in b' = [] \<and> mset (b_offered b') = mset (b_acked b') + mset (b_lost b')"
proof -
  have "map_option (\<lambda>b. (b_closed b, b_emitters b, map_option b_pc
        (buf_run (buf_defaults ex_options) [SeeClosed, Receive, Answer True, DrainEmpty] (Close_buffer b))))
      (buf_run (buf_defaults ex_options) ex_events New_buffer) = Some (False, [], Some Exited)" by code_simp
  then obtain b b' where b: "buf_run (buf_defaults ex_options) ex_events New_buffer = Some b" "\<not> b_closed b"
      "b_emitters b = []"
      "buf_run (buf_defaults ex_options) [SeeClosed, Receive, Answer True, DrainEmpty] (Close_buffer b) = Some b'"
      "b_pc b' = Exited" by auto
  then show ?thesis using close_drains[OF b(1-4)] by blast
qed

end
