(* ===== verification/Nit_Server.thy ===== *)
theory Nit_Server
  imports Nit_Auth Nit_Blob Nit_Enforce Nit_Message Nit_Queue
begin

text \<open>
  The control plane's request handlers: \<open>internal/server/push.go\<close>, \<open>pull.go\<close>, \<open>resolve.go\<close>, the error
  bodies of \<open>http.go\<close>, and the payload codec of \<open>internal/compress/zstd.go\<close>. A handler is a function of
  the decoded request, the authenticated principal, the clock and the server's state (the in-memory store
  and a blob store), and returns the response or error together with the state it leaves: a refused push
  has been audited. What is not in the repository is a parameter, gathered in the record \<open>deps\<close>: the diff
  header parser, the glob matcher, zstd, the JSON form of task specifications and of token payloads, the
  cryptographic primitives. The bundle of a tenant (\<open>policy.Sources\<close>) is the function \<open>sd_policies\<close>.
  The text of an error is the template with its arguments filled in, without the escaping of \<open>%q\<close>
  and without an inner error appended with \<open>%v\<close>.
\<close>

subsection \<open>Compression (\<open>compress/zstd.go\<close>)\<close>

text \<open>
  A zstd decoder is the stream it produces and whether the stream ends cleanly; reading it through a
  limit stops before an error that lies beyond the limit.
\<close>

datatype compress_error = CompressErrTooLarge | ZstdError | UnsupportedEncoding string

definition is_zstd :: "encoding \<Rightarrow> bool" where
  "is_zstd enc = (enc = EncodingZstd \<or> enc = OtherEncoding [])"

definition Compress :: "(bytes \<Rightarrow> bytes) \<Rightarrow> bytes \<Rightarrow> encoding \<Rightarrow> compress_error + bytes" where
  "Compress zenc data enc =
     (if enc = EncodingNone then Inr data
      else if is_zstd enc then Inr (zenc data)
      else case enc of OtherEncoding s \<Rightarrow> Inl (UnsupportedEncoding s) | _ \<Rightarrow> Inr data)"

definition Decompress ::
  "(bytes \<Rightarrow> bytes \<times> bool) \<Rightarrow> bytes \<Rightarrow> encoding \<Rightarrow> int \<Rightarrow> compress_error + bytes" where
  "Decompress zdec data enc maxSize =
     (if enc = EncodingNone then
        (if maxSize > 0 \<and> int (length data) > maxSize then Inl CompressErrTooLarge else Inr data)
      else if is_zstd enc then
        (let (out, clean) = zdec data
         in if maxSize \<le> 0 then (if clean then Inr out else Inl ZstdError)
            else if \<not> clean \<and> int (length out) < wrap64 (maxSize + 1) then Inl ZstdError
            else let lim = LimitReader out (wrap64 (maxSize + 1))
                 in if int (length lim) > maxSize then Inl CompressErrTooLarge else Inr lim)
      else case enc of OtherEncoding s \<Rightarrow> Inl (UnsupportedEncoding s) | _ \<Rightarrow> Inr data)"

subsection \<open>Errors (\<open>http.go\<close>)\<close>

record api_error =
  ae_status :: nat
  ae_body :: protocol_error

datatype srv_error =
    Api api_error
  | StoreFailed store_error
  | BlobFailed blob_error
  | EnforceFailed enforce_error
  | JsonFailed

definition fail :: "nat \<Rightarrow> string \<Rightarrow> string \<Rightarrow> srv_error" where
  "fail status code message =
     Api \<lparr>ae_status = status,
          ae_body = \<lparr>e_Code = code, e_Message = message, e_Denials = [], e_RetryAfter = 0\<rparr>\<rparr>"

definition protocol_Version :: string where "protocol_Version = ''1''"

definition checkProtocolVersion :: "string \<Rightarrow> srv_error + unit" where
  "checkProtocolVersion v =
     (if v = [] \<or> v = protocol_Version then Inr ()
      else Inl (fail 400 CodeUnsupportedVersion
        (''client speaks protocol '' @ v @ '', this server speaks '' @ protocol_Version @
         ''; upgrade the nit CLI'')))"

subsection \<open>Requests, responses, dependencies\<close>

record push_request =
  pq_ProtocolVersion :: string
  pq_RequestID :: string
  pq_Repository :: string
  pq_Branch :: string
  pq_Workspace :: string
  pq_BaseSync :: string
  pq_Message :: string
  pq_Patch :: protocol_blob
  pq_Mode :: string
  pq_DryRun :: bool

record push_report =
  rp_PolicyVersion :: string
  rp_FilesTotal :: nat
  rp_FilesAccepted :: nat
  rp_FilesDenied :: nat
  rp_Denials :: "denial list"

record push_response =
  pp_TaskID :: string
  pp_Accepted :: bool
  pp_Report :: push_report
  pp_QueuePosition :: nat

record pull_request =
  lq_ProtocolVersion :: string
  lq_RequestID :: string
  lq_Repository :: string
  lq_Branch :: string
  lq_Workspace :: string
  lq_Sync :: string

record pull_spec =
  tl_RequestID :: string
  tl_Repository :: repo_id
  tl_Remote :: string
  tl_Forge :: string
  tl_Branch :: string
  tl_FromCommit :: string
  tl_UserID :: id
  tl_WorkspaceID :: id
  tl_PolicyUserID :: user_id
  tl_PolicyVersion :: string

record 'b deps =
  sd_blobs :: "'b blob_ops"
  sd_policies :: "tenant_id \<Rightarrow> policy option"
  sd_crypto :: crypto
  sd_json :: payload_json
  sd_signer :: signer
  sd_gd :: gitdiff
  sd_ds :: doublestar
  sd_zdec :: "bytes \<Rightarrow> bytes \<times> bool"
  sd_push_json :: "push_spec \<Rightarrow> bytes"
  sd_pull_json :: "pull_spec \<Rightarrow> bytes"
  sd_Guards :: guards
  sd_MaxPatchBytes :: int

record 'b srv =
  sv_store :: mem
  sv_blobs :: 'b

definition no_report :: push_report where
  "no_report = \<lparr>rp_PolicyVersion = [], rp_FilesTotal = 0, rp_FilesAccepted = 0, rp_FilesDenied = 0,
     rp_Denials = []\<rparr>"

subsection \<open>Resolving what a request names (\<open>resolve.go\<close>, \<open>tenant.go\<close>)\<close>

definition resolveRepository :: "tenant_id \<Rightarrow> mem \<Rightarrow> string \<Rightarrow> srv_error + store_repository" where
  "resolveRepository tenant m name =
     (if name = [] then Inl (fail 400 ''bad_request'' ''repository is required'')
      else case Repo_ByPolicyID m tenant name of
             Inr r \<Rightarrow> Inr r
           | Inl ErrNotFound \<Rightarrow>
               Inl (fail 404 CodeUnknownRepository (''repository '' @ name @ '' is not under nit control''))
           | Inl e \<Rightarrow> Inl (StoreFailed e))"

definition resolveWorkspace :: "principal \<Rightarrow> mem \<Rightarrow> string \<Rightarrow> srv_error + workspace" where
  "resolveWorkspace pr m i =
     (if i = [] then Inl (fail 400 ''bad_request'' ''workspace is required; create one with POST /v1/workspaces'')
      else case Workspace_ByID m i of
             Inl ErrNotFound \<Rightarrow> Inl (fail 404 ''unknown_workspace'' (''unknown workspace '' @ i))
           | Inl e \<Rightarrow> Inl (StoreFailed e)
           | Inr w \<Rightarrow>
               if w_UserID w \<noteq> su_ID (pr_User pr)
               then Inl (fail 404 ''unknown_workspace'' (''unknown workspace '' @ i))
               else Inr w)"

definition resolveBaseCommit ::
  "'b deps \<Rightarrow> mem \<Rightarrow> string \<Rightarrow> id \<Rightarrow> id \<Rightarrow> string \<Rightarrow> srv_error + string" where
  "resolveBaseCommit d m token workspaceID repoID branch =
     (case Sync_Get m workspaceID repoID branch of
        Inl ErrNotFound \<Rightarrow> Inl (fail 409 CodeUnknownSyncPoint
          (''this workspace has no sync point for '' @ branch @ ''; run: nit pull''))
      | Inl e \<Rightarrow> Inl (StoreFailed e)
      | Inr stored \<Rightarrow>
          if token = [] then Inl (fail 409 CodeStaleSyncPoint ''no sync token supplied; run: nit pull'')
          else case Verify (sd_crypto d) (sd_json d) (sd_signer d) token of
                 Inl _ \<Rightarrow> Inl (fail 400 ''bad_request'' ''invalid sync token'')
               | Inr p \<Rightarrow>
                   if \<not> Matches p workspaceID repoID branch
                   then Inl (fail 400 ''bad_request''
                     ''the sync token was issued for another workspace, repository or branch'')
                   else if pl_UpstreamCommit p \<noteq> syn_UpstreamCommit stored
                   then Inl (fail 409 CodeStaleSyncPoint ''your workspace is behind; run: nit pull'')
                   else Inr (syn_UpstreamCommit stored))"

definition resolvePullBase :: "'b deps \<Rightarrow> string \<Rightarrow> id \<Rightarrow> id \<Rightarrow> string \<Rightarrow> srv_error + string" where
  "resolvePullBase d token workspaceID repoID branch =
     (if token = [] then Inr []
      else case Verify (sd_crypto d) (sd_json d) (sd_signer d) token of
             Inl _ \<Rightarrow> Inl (fail 400 ''bad_request'' ''invalid sync token'')
           | Inr p \<Rightarrow>
               if \<not> Matches p workspaceID repoID branch
               then Inl (fail 400 ''bad_request''
                 ''the sync token was issued for another workspace, repository or branch'')
               else Inr (pl_UpstreamCommit p))"

definition mintSyncToken :: "'b deps \<Rightarrow> int \<Rightarrow> id \<Rightarrow> id \<Rightarrow> string \<Rightarrow> string \<Rightarrow> string \<Rightarrow> string" where
  "mintSyncToken d unix workspaceID repoID branch commit pv =
     Sign (sd_crypto d) (sd_json d) unix (sd_signer d)
       \<lparr>pl_Workspace = workspaceID, pl_Repository = repoID, pl_Branch = branch, pl_UpstreamCommit = commit,
        pl_PolicyVersion = pv, pl_IssuedAt = unix\<rparr>"

definition policyFor :: "'b deps \<Rightarrow> tenant_id \<Rightarrow> srv_error + policy" where
  "policyFor d tenant =
     (case sd_policies d tenant of
        None \<Rightarrow> Inl (fail 503 ''policy_unavailable'' ''the policy bundle for this tenant could not be loaded'')
      | Some p \<Rightarrow> Inr p)"

subsection \<open>Pushing (\<open>push.go\<close>)\<close>

definition loadPatch :: "'b deps \<Rightarrow> 'b \<Rightarrow> protocol_blob \<Rightarrow> srv_error + bytes" where
  "loadPatch d blobs desc =
     (if pb_Digest desc = [] then Inl (fail 400 ''bad_request'' ''patch.digest is required'')
      else if pb_Size desc > sd_MaxPatchBytes d
        then Inl (fail 413 CodePatchTooLarge (''the patch is '' @ itoa_int (pb_Size desc) @
          '' bytes, the limit is '' @ itoa_int (sd_MaxPatchBytes d)))
      else case b_Get (sd_blobs d) (pb_Digest desc) blobs of
        Inl BlobErrNotFound \<Rightarrow>
          Inl (fail 400 ''unknown_blob'' (''patch '' @ pb_Digest desc @ '' was not uploaded''))
      | Inl e \<Rightarrow> Inl (BlobFailed e)
      | Inr content \<Rightarrow>
          (let compressed = LimitReader content (wrap64 (sd_MaxPatchBytes d + 1))
           in if int (length compressed) > sd_MaxPatchBytes d
              then Inl (fail 413 CodePatchTooLarge (''the patch exceeds the '' @ itoa_int (sd_MaxPatchBytes d) @ '' byte limit''))
              else case Decompress (sd_zdec d) compressed (pb_Encoding desc) (sd_MaxPatchBytes d) of
                     Inl CompressErrTooLarge \<Rightarrow>
                       Inl (fail 413 CodePatchTooLarge
                         (''the patch expands beyond the '' @ itoa_int (sd_MaxPatchBytes d) @ '' byte limit''))
                   | Inl _ \<Rightarrow> Inl (fail 400 ''bad_request'' ''the patch could not be decoded'')
                   | Inr raw \<Rightarrow> Inr raw))"

definition storePatch ::
  "'b deps \<Rightarrow> tenant_id \<Rightarrow> instant \<Rightarrow> 'b srv \<Rightarrow> bytes \<Rightarrow> artifact_kind \<Rightarrow> instant option \<Rightarrow>
     srv_error + protocol_blob \<times> 'b srv" where
  "storePatch d tenant now st raw kind expiresAt =
     (case b_Put (sd_blobs d) raw [] (sd_MaxPatchBytes d) (sv_blobs st) of
        Inl e \<Rightarrow> Inl (BlobFailed e)
      | Inr (desc, blobs) \<Rightarrow>
          (let (m, _) = Artifact_Create (sv_store st)
                 \<lparr>a_ID = [], a_TenantID = tenant, a_Digest = ds_Digest desc, a_Kind = kind,
                  a_Size = ds_Size desc, a_UncompressedSize = int (length raw), a_Encoding = EncodingNone,
                  a_Locator = ds_Digest desc, a_CreatedAt = now, a_ExpiresAt = expiresAt\<rparr>
           in Inr (\<lparr>pb_Digest = ds_Digest desc, pb_Size = ds_Size desc, pb_Encoding = EncodingNone,
                    pb_UncompressedSize = int (length raw)\<rparr>, \<lparr>sv_store = m, sv_blobs = blobs\<rparr>)))"

definition denial_of :: "check \<Rightarrow> denial" where
  "denial_of c =
     \<lparr>dn_Path = ck_Path c, dn_Action = ck_Action c, dn_Guard = guard_str (ck_Guard c),
      dn_RuleID = d_RuleID (ck_Decision c), dn_Pattern = d_Pattern (ck_Decision c),
      dn_Reason = reason_str (d_Reason (ck_Decision c)), dn_Description = d_Description (ck_Decision c)\<rparr>"

definition pushReport :: "result \<Rightarrow> push_report" where
  "pushReport r =
     \<lparr>rp_PolicyVersion = res_PolicyVersion r, rp_FilesTotal = length (res_Verdicts r),
      rp_FilesAccepted = length (res_Kept r), rp_FilesDenied = length (res_Dropped r),
      rp_Denials = map denial_of (result_Denials r)\<rparr>"

definition audit_base ::
  "tenant_id \<Rightarrow> principal \<Rightarrow> instant \<Rightarrow> id \<Rightarrow> string \<Rightarrow> string \<Rightarrow> string \<Rightarrow> string \<Rightarrow> audit_record" where
  "audit_base tenant pr now repoID branch action pv requestID =
     \<lparr>ar_ID = 0, ar_TenantID = tenant, ar_OccurredAt = now, ar_ActorUserID = su_ID (pr_User pr),
      ar_ActorLabel = su_PolicyUserID (pr_User pr), ar_Action = action, ar_RepositoryID = repoID,
      ar_Branch = branch, ar_Path = [], ar_Effect = [], ar_Reason = ReasonNone, ar_RuleID = [], ar_Guard = [],
      ar_PolicyVersion = pv, ar_RequestID = requestID, ar_TaskID = [], ar_Detail = []\<rparr>"

definition push_records ::
  "tenant_id \<Rightarrow> principal \<Rightarrow> instant \<Rightarrow> store_repository \<Rightarrow> push_request \<Rightarrow> result \<Rightarrow> audit_record list" where
  "push_records tenant pr now repo req r =
     (let base = (\<lambda>action. audit_base tenant pr now (sr_ID repo) (pq_Branch req) action
                     (res_PolicyVersion r) (pq_RequestID req))
      in base (if res_Rejected r then ''push.rejected'' else ''push.accepted'')
         # map (\<lambda>c. (base ''push.denied_path'')
             \<lparr>ar_Path := ck_Path c, ar_Effect := d_Effect (ck_Decision c), ar_Reason := d_Reason (ck_Decision c),
              ar_RuleID := d_RuleID (ck_Decision c), ar_Guard := guard_str (ck_Guard c)\<rparr>) (result_Denials r))"

definition auditPush ::
  "tenant_id \<Rightarrow> principal \<Rightarrow> instant \<Rightarrow> store_repository \<Rightarrow> push_request \<Rightarrow> result \<Rightarrow> 'b srv \<Rightarrow> 'b srv" where
  "auditPush tenant pr now repo req r st =
     st\<lparr>sv_store := Audit_Append now (sv_store st) (push_records tenant pr now repo req r)\<rparr>"

definition displayName :: "principal \<Rightarrow> string" where
  "displayName pr =
     (if su_DisplayName (pr_User pr) \<noteq> [] then su_DisplayName (pr_User pr) else su_PolicyUserID (pr_User pr))"

definition push_validate :: "push_request \<Rightarrow> srv_error + unit" where
  "push_validate req =
     rbind (checkProtocolVersion (pq_ProtocolVersion req)) (\<lambda>_.
       if pq_RequestID req = [] then Inl (fail 400 ''bad_request'' ''request_id is required'')
       else if pq_Branch req = [] then Inl (fail 400 ''bad_request'' ''branch is required'')
       else if pq_Message req = [] \<and> \<not> pq_DryRun req
         then Inl (fail 400 ''bad_request'' ''message is required'')
       else Inr ())"

definition respondExistingPush :: "mem \<Rightarrow> task \<Rightarrow> srv_error + push_response" where
  "respondExistingPush m t =
     (case Position memory_tasks m (t_ID t) of
        Inl e \<Rightarrow> Inl (StoreFailed e)
      | Inr n \<Rightarrow> Inr \<lparr>pp_TaskID = t_ID t, pp_Accepted = True, pp_Report = no_report, pp_QueuePosition = n\<rparr>)"

text \<open>What a push that is not a retry is judged on, up to the decision.\<close>

record push_decision =
  pd_repo :: store_repository
  pd_workspace :: workspace
  pd_base :: string
  pd_set :: patch_set
  pd_policy :: policy
  pd_result :: result

definition push_options :: "'b deps \<Rightarrow> policy \<Rightarrow> principal \<Rightarrow> repo_id \<Rightarrow> string \<Rightarrow> options" where
  "push_options d current pr repo branch =
     \<lparr>o_Engine = Some (Evaluate (sd_ds d) current), o_Repo = repo, o_Ref = ''refs/heads/'' @ branch,
      o_Subject = pr_Subject pr, o_Guards = sd_Guards d\<rparr>"

definition push_decide ::
  "'b deps \<Rightarrow> tenant_id \<Rightarrow> principal \<Rightarrow> 'b srv \<Rightarrow> push_request \<Rightarrow> srv_error + push_decision" where
  "push_decide d tenant pr st req =
     rbind (resolveRepository tenant (sv_store st) (pq_Repository req)) (\<lambda>repo.
     rbind (resolveWorkspace pr (sv_store st) (pq_Workspace req)) (\<lambda>ws.
     rbind (resolveBaseCommit d (sv_store st) (pq_BaseSync req) (w_ID ws) (sr_ID repo) (pq_Branch req)) (\<lambda>base.
     rbind (loadPatch d (sv_blobs st) (pq_Patch req)) (\<lambda>raw.
     rbind (case Parse (sd_gd d) raw of
              Inr s \<Rightarrow> Inr s
            | Inl ErrCombinedDiff \<Rightarrow> Inl (fail 400 ''bad_request''
                ''combined (merge) diffs are not supported; push a flat diff'')
            | Inl ErrEmpty \<Rightarrow> Inl (fail 400 ''bad_request'' ''the patch contains no change'')
            | Inl _ \<Rightarrow> Inl (fail 400 ''bad_request'' ''the patch could not be parsed'')) (\<lambda>set.
     rbind (policyFor d tenant) (\<lambda>current.
       case Push (sd_ds d) set (push_options d current pr (sr_PolicyRepoID repo) (pq_Branch req))
              (if pq_Mode req = ''strip'' then ModeStrip else ModeReject) of
         Inl e \<Rightarrow> Inl (EnforceFailed e)
       | Inr result \<Rightarrow> Inr \<lparr>pd_repo = repo, pd_workspace = ws, pd_base = base, pd_set = set,
                              pd_policy = current, pd_result = result\<rparr>))))))"

definition push_task :: "tenant_id \<Rightarrow> principal \<Rightarrow> instant \<Rightarrow> push_request \<Rightarrow> push_decision \<Rightarrow> bytes \<Rightarrow> task" where
  "push_task tenant pr now req pd payload =
     \<lparr>t_ID = [], t_TenantID = tenant, t_RequestID = pq_RequestID req, t_Kind = TaskPush,
      t_State = OtherState [], t_UserID = su_ID (pr_User pr), t_WorkspaceID = w_ID (pd_workspace pd),
      t_RepositoryID = sr_ID (pd_repo pd), t_Branch = pq_Branch req,
      t_PartitionKey = PartitionKey TaskPush (sr_PolicyRepoID (pd_repo pd)) (pq_Branch req),
      t_Payload = payload, t_Result = [], t_Error = None, t_Attempts = 0, t_Lease = None,
      t_CreatedAt = now, t_UpdatedAt = 0, t_StartedAt = None, t_FinishedAt = None\<rparr>"

definition push_spec_of :: "principal \<Rightarrow> push_request \<Rightarrow> push_decision \<Rightarrow> string \<Rightarrow> push_spec" where
  "push_spec_of pr req pd digest =
     \<lparr>tp_RequestID = pq_RequestID req, tp_Repository = sr_PolicyRepoID (pd_repo pd),
      tp_Remote = sr_Remote (pd_repo pd), tp_Forge = sr_Forge (pd_repo pd), tp_Branch = pq_Branch req,
      tp_BaseCommit = pd_base pd, tp_PatchDigest = digest, tp_PatchEncoding = EncodingNone,
      tp_Message = pq_Message req, tp_DroppedFiles = int (length (res_Dropped (pd_result pd))),
      tp_AuthorName = displayName pr, tp_AuthorEmail = su_Email (pr_User pr), tp_UserID = su_ID (pr_User pr),
      tp_WorkspaceID = w_ID (pd_workspace pd), tp_PolicyUserID = su_PolicyUserID (pr_User pr),
      tp_PolicyVersion = p_version (pd_policy pd)\<rparr>"

definition push_enqueue ::
  "'b deps \<Rightarrow> tenant_id \<Rightarrow> principal \<Rightarrow> instant \<Rightarrow> push_request \<Rightarrow> push_decision \<Rightarrow> bytes \<Rightarrow> 'b srv \<Rightarrow>
     (srv_error + push_response) \<times> 'b srv" where
  "push_enqueue d tenant pr now req pd out st =
     (case storePatch d tenant now st out ArtifactPushPatch None of
        Inl e \<Rightarrow> (Inl e, st)
      | Inr (enforced, st1) \<Rightarrow>
          (let payload = sd_push_json d (push_spec_of pr req pd (pb_Digest enforced));
               (m2, submitted) = Queue_Submit memory_tasks now (sv_store st1)
                                   (push_task tenant pr now req pd payload);
               st2 = st1\<lparr>sv_store := m2\<rparr>
           in case submitted of
                Inl e \<Rightarrow> (Inl (StoreFailed e), st2)
              | Inr (None, _) \<Rightarrow> (Inl (StoreFailed ErrNotFound), st2)
              | Inr (Some t, _) \<Rightarrow>
                  (case Position memory_tasks m2 (t_ID t) of
                     Inl e \<Rightarrow> (Inl (StoreFailed e), st2)
                   | Inr n \<Rightarrow> (Inr \<lparr>pp_TaskID = t_ID t, pp_Accepted = True,
                       pp_Report = pushReport (pd_result pd), pp_QueuePosition = n\<rparr>, st2))))"

definition handlePush ::
  "'b deps \<Rightarrow> tenant_id \<Rightarrow> principal \<Rightarrow> instant \<Rightarrow> 'b srv \<Rightarrow> push_request \<Rightarrow>
     (srv_error + push_response) \<times> 'b srv" where
  "handlePush d tenant pr now st req =
     (case push_validate req of
        Inl e \<Rightarrow> (Inl e, st)
      | Inr _ \<Rightarrow>
     (case ByRequestID (sv_store st) tenant (pq_RequestID req) of
        Inr existing \<Rightarrow> (respondExistingPush (sv_store st) existing, st)
      | Inl e \<Rightarrow> if e \<noteq> ErrNotFound then (Inl (StoreFailed e), st) else
     (case push_decide d tenant pr st req of
        Inl e \<Rightarrow> (Inl e, st)
      | Inr pd \<Rightarrow>
          (let result = pd_result pd;
               report = pushReport result;
               st1 = auditPush tenant pr now (pd_repo pd) req result st
           in if res_Rejected result
              then (Inl (Api \<lparr>ae_status = 403, ae_body = \<lparr>e_Code = CodeUnauthorizedPaths,
                     e_Message = ''the patch touches paths you may not change'',
                     e_Denials = rp_Denials report, e_RetryAfter = 0\<rparr>\<rparr>), st1)
              else if pq_DryRun req
              then (Inr \<lparr>pp_TaskID = [], pp_Accepted = False, pp_Report = report, pp_QueuePosition = 0\<rparr>, st1)
              else case res_Patch result of
                     None \<Rightarrow> (Inl (fail 400 ''bad_request''
                       ''nothing remains of the patch after filtering; no change would be applied''), st1)
                   | Some out \<Rightarrow>
                       if out = [] then (Inl (fail 400 ''bad_request''
                         ''nothing remains of the patch after filtering; no change would be applied''), st1)
                       else push_enqueue d tenant pr now req pd out st1))))"

subsection \<open>Pulling (\<open>pull.go\<close>)\<close>

definition pull_spec_of ::
  "principal \<Rightarrow> pull_request \<Rightarrow> store_repository \<Rightarrow> workspace \<Rightarrow> string \<Rightarrow> string \<Rightarrow> policy \<Rightarrow> pull_spec" where
  "pull_spec_of pr req repo ws branch from current =
     \<lparr>tl_RequestID = lq_RequestID req, tl_Repository = sr_PolicyRepoID repo, tl_Remote = sr_Remote repo,
      tl_Forge = sr_Forge repo, tl_Branch = branch, tl_FromCommit = from, tl_UserID = su_ID (pr_User pr),
      tl_WorkspaceID = w_ID ws, tl_PolicyUserID = su_PolicyUserID (pr_User pr),
      tl_PolicyVersion = p_version current\<rparr>"

definition pull_task ::
  "tenant_id \<Rightarrow> principal \<Rightarrow> instant \<Rightarrow> pull_request \<Rightarrow> store_repository \<Rightarrow> workspace \<Rightarrow> string \<Rightarrow> bytes \<Rightarrow> task" where
  "pull_task tenant pr now req repo ws branch payload =
     \<lparr>t_ID = [], t_TenantID = tenant, t_RequestID = lq_RequestID req, t_Kind = TaskPull,
      t_State = OtherState [], t_UserID = su_ID (pr_User pr), t_WorkspaceID = w_ID ws,
      t_RepositoryID = sr_ID repo, t_Branch = branch,
      t_PartitionKey = PartitionKey TaskPull (sr_PolicyRepoID repo) branch,
      t_Payload = payload, t_Result = [], t_Error = None, t_Attempts = 0, t_Lease = None,
      t_CreatedAt = now, t_UpdatedAt = 0, t_StartedAt = None, t_FinishedAt = None\<rparr>"

definition pull_validate :: "pull_request \<Rightarrow> srv_error + unit" where
  "pull_validate req =
     rbind (checkProtocolVersion (lq_ProtocolVersion req)) (\<lambda>_.
       if lq_RequestID req = [] then Inl (fail 400 ''bad_request'' ''request_id is required'') else Inr ())"

text \<open>The response is the identifier of the task.\<close>

definition handlePull ::
  "'b deps \<Rightarrow> tenant_id \<Rightarrow> principal \<Rightarrow> instant \<Rightarrow> 'b srv \<Rightarrow> pull_request \<Rightarrow> (srv_error + string) \<times> 'b srv" where
  "handlePull d tenant pr now st req =
     (case pull_validate req of
        Inl e \<Rightarrow> (Inl e, st)
      | Inr _ \<Rightarrow>
     (case ByRequestID (sv_store st) tenant (lq_RequestID req) of
        Inr existing \<Rightarrow> (Inr (t_ID existing), st)
      | Inl e \<Rightarrow> if e \<noteq> ErrNotFound then (Inl (StoreFailed e), st) else
     (case resolveRepository tenant (sv_store st) (lq_Repository req) of
        Inl e \<Rightarrow> (Inl e, st)
      | Inr repo \<Rightarrow>
     (case resolveWorkspace pr (sv_store st) (lq_Workspace req) of
        Inl e \<Rightarrow> (Inl e, st)
      | Inr ws \<Rightarrow>
     (let branch = (if lq_Branch req = [] then sr_DefaultBranch repo else lq_Branch req)
      in case resolvePullBase d (lq_Sync req) (w_ID ws) (sr_ID repo) branch of
        Inl e \<Rightarrow> (Inl e, st)
      | Inr from \<Rightarrow>
     (case policyFor d tenant of
        Inl e \<Rightarrow> (Inl e, st)
      | Inr current \<Rightarrow>
     (let payload = sd_pull_json d (pull_spec_of pr req repo ws branch from current);
          (m1, submitted) = Queue_Submit memory_tasks now (sv_store st)
                              (pull_task tenant pr now req repo ws branch payload)
      in case submitted of
        Inl e \<Rightarrow> (Inl (StoreFailed e), st\<lparr>sv_store := m1\<rparr>)
      | Inr (None, _) \<Rightarrow> (Inl (StoreFailed ErrNotFound), st\<lparr>sv_store := m1\<rparr>)
      | Inr (Some t, _) \<Rightarrow>
          (Inr (t_ID t), st\<lparr>sv_store := Audit_Append now m1
             [(audit_base tenant pr now (sr_ID repo) branch ''pull.requested'' (p_version current)
                (lq_RequestID req))\<lparr>ar_TaskID := t_ID t\<rparr>]\<rparr>))))))))"

subsection \<open>Uploads and a caller's own tasks (\<open>tasks.go\<close>)\<close>

definition handleUploadBlob ::
  "'b deps \<Rightarrow> 'b srv \<Rightarrow> string \<Rightarrow> encoding \<Rightarrow> bytes \<Rightarrow> (srv_error + protocol_blob) \<times> 'b srv" where
  "handleUploadBlob d st expected enc body =
     (case b_Put (sd_blobs d) body expected (sd_MaxPatchBytes d) (sv_blobs st) of
        Inl BlobErrTooLarge \<Rightarrow> (Inl (fail 413 CodePatchTooLarge
          (''the payload exceeds the '' @ itoa_int (sd_MaxPatchBytes d) @ '' byte limit'')), st)
      | Inl (BlobErrDigestMismatch _ _) \<Rightarrow> (Inl (fail 400 ''digest_mismatch''
          ''the uploaded bytes do not match the announced digest''), st)
      | Inl e \<Rightarrow> (Inl (BlobFailed e), st)
      | Inr (desc, blobs) \<Rightarrow>
          (Inr \<lparr>pb_Digest = ds_Digest desc, pb_Size = ds_Size desc, pb_Encoding = enc, pb_UncompressedSize = 0\<rparr>,
           st\<lparr>sv_blobs := blobs\<rparr>))"

definition ownedTask :: "principal \<Rightarrow> mem \<Rightarrow> string \<Rightarrow> srv_error + task" where
  "ownedTask pr m i =
     (if i = [] then Inl (fail 400 ''bad_request'' ''task id is required'')
      else case ByID m i of
             Inl ErrNotFound \<Rightarrow> Inl (fail 404 ''unknown_task'' (''unknown task '' @ i))
           | Inl e \<Rightarrow> Inl (StoreFailed e)
           | Inr t \<Rightarrow>
               if t_UserID t \<noteq> su_ID (pr_User pr)
               then Inl (fail 404 ''unknown_task'' (''unknown task '' @ i))
               else Inr t)"

text \<open>
  The digest of the patch a finished pull produced; \<open>dec\<close> decodes a stored pull result to the digest of
  its patch, if it has one, and an undecodable result is an error.
\<close>

definition patchDigestOf :: "(bytes \<Rightarrow> string option option) \<Rightarrow> task \<Rightarrow> string option" where
  "patchDigestOf dec t =
     (if length (t_Result t) = 0 then Some []
      else if t_Kind t \<noteq> TaskPull then Some []
      else case dec (t_Result t) of
             None \<Rightarrow> None
           | Some None \<Rightarrow> Some []
           | Some (Some digest) \<Rightarrow> Some digest)"

definition handleTaskPatch ::
  "'b deps \<Rightarrow> (bytes \<Rightarrow> string option option) \<Rightarrow> principal \<Rightarrow> 'b srv \<Rightarrow> string \<Rightarrow> srv_error + bytes" where
  "handleTaskPatch d dec pr st i =
     rbind (ownedTask pr (sv_store st) i) (\<lambda>t.
       if t_State t \<noteq> TaskSucceeded
       then Inl (fail 409 ''task_not_ready'' (''task '' @ t_ID t @ '' is '' @ state_str (t_State t) @ ''; no patch is available''))
       else case patchDigestOf dec t of
         None \<Rightarrow> Inl JsonFailed
       | Some digest \<Rightarrow>
           if digest = [] then Inl (fail 404 ''no_patch'' (''task '' @ t_ID t @ '' produced no patch''))
           else case b_Get (sd_blobs d) digest (sv_blobs st) of
             Inl BlobErrNotFound \<Rightarrow> Inl (fail 410 ''patch_expired''
               (''the patch for task '' @ t_ID t @ '' is no longer available; request it again''))
           | Inl e \<Rightarrow> Inl (BlobFailed e)
           | Inr content \<Rightarrow> Inr content)"

subsection \<open>What the steps leave alone\<close>

lemma Audit_Append_frame [simp]:
  "m_tasks (Audit_Append c m rs) = m_tasks m" "m_users (Audit_Append c m rs) = m_users m"
  "m_syncPoints (Audit_Append c m rs) = m_syncPoints m" "m_repos (Audit_Append c m rs) = m_repos m"
  "m_artifacts (Audit_Append c m rs) = m_artifacts m" "m_sessions (Audit_Append c m rs) = m_sessions m"
proof -
  have "m_tasks (Audit_Append c m rs) = m_tasks m \<and> m_users (Audit_Append c m rs) = m_users m
    \<and> m_syncPoints (Audit_Append c m rs) = m_syncPoints m \<and> m_repos (Audit_Append c m rs) = m_repos m
    \<and> m_artifacts (Audit_Append c m rs) = m_artifacts m \<and> m_sessions (Audit_Append c m rs) = m_sessions m"
    unfolding Audit_Append_def by (induction rs arbitrary: m) (simp_all add: append_one_def Let_def)
  then show "m_tasks (Audit_Append c m rs) = m_tasks m" "m_users (Audit_Append c m rs) = m_users m"
    "m_syncPoints (Audit_Append c m rs) = m_syncPoints m" "m_repos (Audit_Append c m rs) = m_repos m"
    "m_artifacts (Audit_Append c m rs) = m_artifacts m" "m_sessions (Audit_Append c m rs) = m_sessions m"
    by blast+
qed

lemma Audit_Append_rows:
  "\<exists>rows. m_audit (Audit_Append c m rs) = m_audit m @ rows \<and> length rows = length rs
     \<and> (\<forall>i < length rs. \<exists>n t. rows ! i = (rs ! i)\<lparr>ar_ID := n, ar_OccurredAt := t\<rparr>)"
  unfolding Audit_Append_def
proof (induction rs arbitrary: m)
  case (Cons r rs)
  define row where "row = r\<lparr>ar_ID := m_auditSeq m + 1,
    ar_OccurredAt := (if ar_OccurredAt r = 0 then c else ar_OccurredAt r)\<rparr>"
  obtain rows where r: "m_audit (fold (append_one c) rs (append_one c r m)) = m_audit (append_one c r m) @ rows"
      "length rows = length rs" "\<forall>i < length rs. \<exists>n t. rows ! i = (rs ! i)\<lparr>ar_ID := n, ar_OccurredAt := t\<rparr>"
    using Cons[of "append_one c r m"] by blast
  have "m_audit (append_one c r m) = m_audit m @ [row]" by (simp add: append_one_def Let_def row_def)
  moreover have "\<exists>n t. row = r\<lparr>ar_ID := n, ar_OccurredAt := t\<rparr>" unfolding row_def by blast
  ultimately show ?case
    using r by (intro exI[of _ "row # rows"]) (auto simp: nth_Cons split: nat.split)
qed simp

lemma Artifact_Create_frame [simp]:
  "m_tasks (fst (Artifact_Create m a)) = m_tasks m" "m_audit (fst (Artifact_Create m a)) = m_audit m"
  by (simp_all add: Artifact_Create_def nextID_def Let_def split: option.splits prod.splits)

lemma auditPush_frame [simp]:
  "m_tasks (sv_store (auditPush tenant pr now repo req r st)) = m_tasks (sv_store st)"
  "sv_blobs (auditPush tenant pr now repo req r st) = sv_blobs st"
  by (simp_all add: auditPush_def)

lemma storePatch_frame:
  assumes "storePatch d tenant now st raw kind ex = Inr (pb, st1)"
  shows "m_tasks (sv_store st1) = m_tasks (sv_store st)" "m_audit (sv_store st1) = m_audit (sv_store st)"
    and "\<exists>desc. b_Put (sd_blobs d) raw [] (sd_MaxPatchBytes d) (sv_blobs st) = Inr (desc, sv_blobs st1)
      \<and> pb_Digest pb = ds_Digest desc"
  using assms Artifact_Create_frame
  by (auto simp: storePatch_def Let_def split: sum.splits prod.splits) (metis Artifact_Create_frame fst_conv)+

text \<open>The submission of a request id the tenant has not used creates the task with its payload.\<close>

definition stamped :: "instant \<Rightarrow> task \<Rightarrow> task" where
  "stamped now t =
     (let t1 = (if t_CreatedAt t = 0 then t\<lparr> t_CreatedAt := now \<rparr> else t)
      in if t_State t1 = OtherState [] then t1\<lparr> t_State := TaskQueued \<rparr> else t1)"

definition as_submitted :: "instant \<Rightarrow> id \<Rightarrow> task \<Rightarrow> task" where
  "as_submitted now i t = created_task now i (stamped now t)"

lemma stamped_keeps [simp]:
  "t_Payload (stamped c t) = t_Payload t" "t_Kind (stamped c t) = t_Kind t" "t_UserID (stamped c t) = t_UserID t"
  "t_ID (stamped c t) = t_ID t" "t_Branch (stamped c t) = t_Branch t" "t_RepositoryID (stamped c t) = t_RepositoryID t"
  "t_TenantID (stamped c t) = t_TenantID t" "t_RequestID (stamped c t) = t_RequestID t"
  "t_WorkspaceID (stamped c t) = t_WorkspaceID t" "t_PartitionKey (stamped c t) = t_PartitionKey t"
  by (simp_all add: stamped_def Let_def)

lemma submit_new:
  assumes "ByRequestID m (t_TenantID t) (t_RequestID t) = Inl ErrNotFound" "t_ID t = []"
  shows "\<exists>i m'. Queue_Submit memory_tasks now m t =
      (put_task i (as_submitted now i t) m', Inr (Some (as_submitted now i t), False))
      \<and> m_tasks m' = m_tasks m"
proof -
  have n: "find_val (same_request (stamped now t)) (m_tasks m) = None"
    using assms(1) by (auto simp: ByRequestID_def same_request_def find_val_None_iff split: option.splits)
  obtain i m' where i: "nextID ''task'' m = (i, m')" by (cases "nextID ''task'' m")
  then have m': "m_tasks m' = m_tasks m" by (auto simp: nextID_def Let_def)
  have "Create now m (stamped now t) = (put_task i (as_submitted now i t) m', as_submitted now i t, None)"
    using n assms(2) i by (simp add: Create_def as_submitted_def Let_def)
  then have c: "ts_Create memory_tasks now m (stamped now t)
      = (put_task i (as_submitted now i t) m', Some (as_submitted now i t), None)"
    by (simp add: memory_tasks_def)
  have "Queue_Submit memory_tasks now m t =
      (put_task i (as_submitted now i t) m', Inr (Some (as_submitted now i t), False))"
    using c unfolding Queue_Submit_def stamped_def Let_def by (simp only: prod.case option.case)
  then show ?thesis using m' by blast
qed

lemma created_task_keeps [simp]:
  "t_Payload (created_task c i t) = t_Payload t" "t_Kind (created_task c i t) = t_Kind t"
  "t_UserID (created_task c i t) = t_UserID t" "t_ID (created_task c i t) = i"
  "t_Branch (created_task c i t) = t_Branch t" "t_RepositoryID (created_task c i t) = t_RepositoryID t"
  "t_TenantID (created_task c i t) = t_TenantID t" "t_RequestID (created_task c i t) = t_RequestID t"
  "t_WorkspaceID (created_task c i t) = t_WorkspaceID t" "t_PartitionKey (created_task c i t) = t_PartitionKey t"
  by (simp_all add: created_task_def Let_def)

lemma as_submitted_keeps [simp]:
  "t_Payload (as_submitted c i t) = t_Payload t" "t_Kind (as_submitted c i t) = t_Kind t"
  "t_UserID (as_submitted c i t) = t_UserID t" "t_ID (as_submitted c i t) = i"
  "t_Branch (as_submitted c i t) = t_Branch t" "t_RepositoryID (as_submitted c i t) = t_RepositoryID t"
  "t_TenantID (as_submitted c i t) = t_TenantID t" "t_RequestID (as_submitted c i t) = t_RequestID t"
  "t_WorkspaceID (as_submitted c i t) = t_WorkspaceID t" "t_PartitionKey (as_submitted c i t) = t_PartitionKey t"
  by (simp_all add: as_submitted_def)

text \<open>How a push that is not a retry comes to be accepted.\<close>

lemma handlePush_accepted:
  assumes "handlePush d tenant pr now st req = (Inr resp, st')" "pp_Accepted resp"
    and "ByRequestID (sv_store st) tenant (pq_RequestID req) = Inl ErrNotFound"
  obtains pd out st1 where "push_decide d tenant pr st req = Inr pd" "\<not> res_Rejected (pd_result pd)"
    "res_Patch (pd_result pd) = Some out" "\<not> pq_DryRun req"
    "st1 = auditPush tenant pr now (pd_repo pd) req (pd_result pd) st"
    "push_enqueue d tenant pr now req pd out st1 = (Inr resp, st')"
  using assms by (auto simp: handlePush_def Let_def split: sum.splits if_splits option.splits)

lemma push_enqueue_task:
  assumes e: "push_enqueue d tenant pr now req pd out st = (Inr resp, st')"
    and new: "ByRequestID (sv_store st) tenant (pq_RequestID req) = Inl ErrNotFound"
  shows "\<exists>desc t. b_Put (sd_blobs d) out [] (sd_MaxPatchBytes d) (sv_blobs st) = Inr (desc, sv_blobs st')
    \<and> map_of (m_tasks (sv_store st')) (pp_TaskID resp) = Some t
    \<and> t_Kind t = TaskPush \<and> t_UserID t = su_ID (pr_User pr) \<and> t_TenantID t = tenant
    \<and> t_RepositoryID t = sr_ID (pd_repo pd) \<and> t_Branch t = pq_Branch req
    \<and> t_PartitionKey t = sr_PolicyRepoID (pd_repo pd) @ '':'' @ pq_Branch req
    \<and> t_Payload t = sd_push_json d (push_spec_of pr req pd (ds_Digest desc))"
proof -
  obtain enforced st1 where sp: "storePatch d tenant now st out ArtifactPushPatch None = Inr (enforced, st1)"
    using e by (auto simp: push_enqueue_def split: sum.splits)
  obtain desc where desc: "b_Put (sd_blobs d) out [] (sd_MaxPatchBytes d) (sv_blobs st) = Inr (desc, sv_blobs st1)"
      "pb_Digest enforced = ds_Digest desc" using storePatch_frame(3)[OF sp] by blast
  let ?t = "push_task tenant pr now req pd (sd_push_json d (push_spec_of pr req pd (ds_Digest desc)))"
  have "ByRequestID (sv_store st1) (t_TenantID ?t) (t_RequestID ?t) = Inl ErrNotFound" "t_ID ?t = []"
    using new storePatch_frame(1)[OF sp] by (simp_all add: push_task_def ByRequestID_def)
  from submit_new[OF this, of now] obtain i m' where sub: "Queue_Submit memory_tasks now (sv_store st1) ?t =
      (put_task i (as_submitted now i ?t) m', Inr (Some (as_submitted now i ?t), False))" by blast
  have fin: "st' = st1\<lparr>sv_store := put_task i (as_submitted now i ?t) m'\<rparr>" "pp_TaskID resp = i"
    using e sp sub desc(2) by (auto simp: push_enqueue_def Let_def split: sum.splits)
  have "map_of (m_tasks (sv_store st')) (pp_TaskID resp) = Some (as_submitted now i ?t)"
    by (simp add: fin put_task_def)
  then show ?thesis
    using desc(1) by (intro exI[of _ desc] exI[of _ "as_submitted now i ?t"])
      (simp add: fin, simp add: push_task_def PartitionKey_def)
qed

lemma push_decideD:
  assumes "push_decide d tenant pr st req = Inr pd"
  shows "Repo_ByPolicyID (sv_store st) tenant (pq_Repository req) = Inr (pd_repo pd)"
    and "Workspace_ByID (sv_store st) (pq_Workspace req) = Inr (pd_workspace pd)"
    and "w_UserID (pd_workspace pd) = su_ID (pr_User pr)"
    and "\<exists>stored p. Sync_Get (sv_store st) (w_ID (pd_workspace pd)) (sr_ID (pd_repo pd)) (pq_Branch req) = Inr stored
      \<and> Verify (sd_crypto d) (sd_json d) (sd_signer d) (pq_BaseSync req) = Inr p
      \<and> Matches p (w_ID (pd_workspace pd)) (sr_ID (pd_repo pd)) (pq_Branch req)
      \<and> pd_base pd = syn_UpstreamCommit stored \<and> pd_base pd = pl_UpstreamCommit p"
    and "\<exists>raw. loadPatch d (sv_blobs st) (pq_Patch req) = Inr raw \<and> Parse (sd_gd d) raw = Inr (pd_set pd)"
    and "sd_policies d tenant = Some (pd_policy pd)"
    and "Push (sd_ds d) (pd_set pd) (push_options d (pd_policy pd) pr (sr_PolicyRepoID (pd_repo pd)) (pq_Branch req))
      (if pq_Mode req = ''strip'' then ModeStrip else ModeReject) = Inr (pd_result pd)"
proof -
  obtain repo ws base raw set current where a:
      "resolveRepository tenant (sv_store st) (pq_Repository req) = Inr repo"
      "resolveWorkspace pr (sv_store st) (pq_Workspace req) = Inr ws"
      "resolveBaseCommit d (sv_store st) (pq_BaseSync req) (w_ID ws) (sr_ID repo) (pq_Branch req) = Inr base"
      "loadPatch d (sv_blobs st) (pq_Patch req) = Inr raw" "Parse (sd_gd d) raw = Inr set"
      "policyFor d tenant = Inr current"
      "Push (sd_ds d) set (push_options d current pr (sr_PolicyRepoID repo) (pq_Branch req))
        (if pq_Mode req = ''strip'' then ModeStrip else ModeReject) = Inr (pd_result pd)"
    and pd: "pd_repo pd = repo" "pd_workspace pd = ws" "pd_base pd = base" "pd_set pd = set" "pd_policy pd = current"
    using assms unfolding push_decide_def
    by (auto elim!: rbind_InrE split: sum.splits patch_error.splits)
  show "Repo_ByPolicyID (sv_store st) tenant (pq_Repository req) = Inr (pd_repo pd)"
    using a(1) pd by (auto simp: resolveRepository_def split: if_splits sum.splits store_error.splits)
  show "Workspace_ByID (sv_store st) (pq_Workspace req) = Inr (pd_workspace pd)"
    "w_UserID (pd_workspace pd) = su_ID (pr_User pr)"
    using a(2) pd by (auto simp: resolveWorkspace_def split: if_splits sum.splits store_error.splits)
  show "\<exists>stored p. Sync_Get (sv_store st) (w_ID (pd_workspace pd)) (sr_ID (pd_repo pd)) (pq_Branch req) = Inr stored
      \<and> Verify (sd_crypto d) (sd_json d) (sd_signer d) (pq_BaseSync req) = Inr p
      \<and> Matches p (w_ID (pd_workspace pd)) (sr_ID (pd_repo pd)) (pq_Branch req)
      \<and> pd_base pd = syn_UpstreamCommit stored \<and> pd_base pd = pl_UpstreamCommit p"
    using a(3) unfolding pd by (auto simp: resolveBaseCommit_def split: if_splits sum.splits store_error.splits)
  show "\<exists>raw. loadPatch d (sv_blobs st) (pq_Patch req) = Inr raw \<and> Parse (sd_gd d) raw = Inr (pd_set pd)"
    using a(4,5) pd by blast
  show "sd_policies d tenant = Some (pd_policy pd)"
    using a(6) pd by (auto simp: policyFor_def split: option.splits)
  show "Push (sd_ds d) (pd_set pd) (push_options d (pd_policy pd) pr (sr_PolicyRepoID (pd_repo pd)) (pq_Branch req))
      (if pq_Mode req = ''strip'' then ModeStrip else ModeReject) = Inr (pd_result pd)"
    using a(7) pd by simp
qed

subsection \<open>Properties\<close>

lemma accepted_push_facts:
  assumes "sd_blobs d = Filesystem sha" and "fs_valid sha U (sv_blobs st)" and "sd_MaxPatchBytes d < 2 ^ 63 - 1"
    and "\<forall>pd out. push_decide d tenant pr st req = Inr pd \<longrightarrow> res_Patch (pd_result pd) = Some out \<longrightarrow> out \<in> U"
    and "handlePush d tenant pr now st req = (Inr resp, st')" and "pp_Accepted resp"
    and "ByRequestID (sv_store st) tenant (pq_RequestID req) = Inl ErrNotFound"
  shows "\<exists>t spec repo ws current p out sections.
      map_of (m_tasks (sv_store st')) (pp_TaskID resp) = Some t
    \<and> t_Kind t = TaskPush \<and> t_UserID t = su_ID (pr_User pr) \<and> t_Branch t = pq_Branch req
    \<and> t_Payload t = sd_push_json d spec
    \<and> FS_Get (tp_PatchDigest spec) (sv_blobs st') = Inr out \<and> tp_PatchEncoding spec = EncodingNone
    \<and> (\<exists>pd. push_decide d tenant pr st req = Inr pd \<and> spec = push_spec_of pr req pd (tp_PatchDigest spec))
    \<and> fs_valid sha U (sv_blobs st') \<and> (0 < sd_MaxPatchBytes d \<longrightarrow> int (length out) \<le> sd_MaxPatchBytes d)
    \<and> Parse (sd_gd d) out = Inr sections
    \<and> sd_policies d tenant = Some current \<and> tp_PolicyVersion spec = p_version current
    \<and> (\<forall>c \<in> set (ps_Changes sections). permitted (Evaluate (sd_ds d) current)
         \<lparr>q_Repo = sr_PolicyRepoID repo, q_Ref = ''refs/heads/'' @ pq_Branch req, q_Subject = pr_Subject pr,
          q_Path = [], q_Action = []\<rparr> (push_reqs (sd_ds d) (sd_Guards d) c))
    \<and> tp_AuthorEmail spec = su_Email (pr_User pr) \<and> tp_PolicyUserID spec = su_PolicyUserID (pr_User pr)
    \<and> Workspace_ByID (sv_store st) (pq_Workspace req) = Inr ws \<and> w_UserID ws = su_ID (pr_User pr)
    \<and> Repo_ByPolicyID (sv_store st) tenant (pq_Repository req) = Inr repo
    \<and> Verify (sd_crypto d) (sd_json d) (sd_signer d) (pq_BaseSync req) = Inr p
    \<and> Matches p (w_ID ws) (sr_ID repo) (pq_Branch req) \<and> tp_BaseCommit spec = pl_UpstreamCommit p"
proof -
  obtain pd out st1 where h: "push_decide d tenant pr st req = Inr pd" "res_Patch (pd_result pd) = Some out"
      "st1 = auditPush tenant pr now (pd_repo pd) req (pd_result pd) st"
      "push_enqueue d tenant pr now req pd out st1 = (Inr resp, st')"
    using handlePush_accepted[OF assms(5-7)] by metis
  note D = push_decideD[OF h(1)]
  obtain raw p where rp: "Parse (sd_gd d) raw = Inr (pd_set pd)"
      "Verify (sd_crypto d) (sd_json d) (sd_signer d) (pq_BaseSync req) = Inr p"
      "Matches p (w_ID (pd_workspace pd)) (sr_ID (pd_repo pd)) (pq_Branch req)" "pd_base pd = pl_UpstreamCommit p"
    using D(4,5) by blast
  have new: "ByRequestID (sv_store st1) tenant (pq_RequestID req) = Inl ErrNotFound"
    using assms(7) h(3) by (simp add: ByRequestID_def)
  obtain desc t where t: "b_Put (Filesystem sha) out [] (sd_MaxPatchBytes d) (sv_blobs st1) = Inr (desc, sv_blobs st')"
      "map_of (m_tasks (sv_store st')) (pp_TaskID resp) = Some t" "t_Kind t = TaskPush"
      "t_UserID t = su_ID (pr_User pr)" "t_Branch t = pq_Branch req"
      "t_Payload t = sd_push_json d (push_spec_of pr req pd (ds_Digest desc))"
    using push_enqueue_task[OF h(4) new] unfolding assms(1) by blast
  have "fs_valid sha U (sv_blobs st1)" using assms(2) h(3) by simp
  note put = file_blobs.put_then_get[OF this _ assms(3) t(1)] file_blobs.put_iff[OF this _ assms(3), of out "[]"]
  have "out \<in> U" using assms(4) h(1,2) by blast
  note put = put(1-3)[OF this] put(4)[OF this]
  then have get: "FS_Get (ds_Digest desc) (sv_blobs st') = Inr out"
    using file_blobs.get[OF put(3)] file_blobs.stored_valid_digest[OF put(3,2)] by (simp add: Filesystem_def)
  have fits: "fs_valid sha U (sv_blobs st')" "0 < sd_MaxPatchBytes d \<longrightarrow> int (length out) \<le> sd_MaxPatchBytes d"
    using put(3,4) t(1) by auto
  let ?o = "push_options d (pd_policy pd) pr (sr_PolicyRepoID (pd_repo pd)) (pq_Branch req)"
  obtain sections where sec: "Parse (sd_gd d) out = Inr sections" "\<forall>c \<in> set (ps_Changes sections).
      permitted (Evaluate (sd_ds d) (pd_policy pd)) (options_request ?o) (push_reqs (sd_ds d) (o_Guards ?o) c)"
    using Push_authorized[OF rp(1) D(7) h(2)] by (auto simp: push_options_def)
  have req: "options_request ?o = \<lparr>q_Repo = sr_PolicyRepoID (pd_repo pd), q_Ref = ''refs/heads/'' @ pq_Branch req,
      q_Subject = pr_Subject pr, q_Path = [], q_Action = []\<rparr>" "o_Guards ?o = sd_Guards d"
    by (simp_all add: options_request_def push_options_def)
  show ?thesis
    by (rule exI[of _ t], rule exI[of _ "push_spec_of pr req pd (ds_Digest desc)"], rule exI[of _ "pd_repo pd"],
        rule exI[of _ "pd_workspace pd"], rule exI[of _ "pd_policy pd"], rule exI[of _ p], rule exI[of _ out],
        rule exI[of _ sections])
      (use t(2-6) get fits sec D(1-3,6) rp h(1) in \<open>simp add: push_spec_of_def req\<close>)
qed

text \<open>
  Claim C2. An accepted push queues exactly what was authorized. The task it creates is the caller's, on
  the branch of the request, and its specification names a blob that is in the store, within the size limit, and whose bytes parse
  to sections every one of which the bundle in force allows the caller, guards included; the author is the
  authenticated account; and the base commit is the one the caller's own workspace was last synchronized
  to on that branch, which a token signed by this server for that workspace, repository and branch names.
\<close>

theorem accepted_push_is_authorized:
  assumes "sd_blobs d = Filesystem sha" and "fs_valid sha U (sv_blobs st)" and "sd_MaxPatchBytes d < 2 ^ 63 - 1"
    and "\<forall>pd out. push_decide d tenant pr st req = Inr pd \<longrightarrow> res_Patch (pd_result pd) = Some out \<longrightarrow> out \<in> U"
    and "handlePush d tenant pr now st req = (Inr resp, st')" and "pp_Accepted resp"
    and "ByRequestID (sv_store st) tenant (pq_RequestID req) = Inl ErrNotFound"
  shows "\<exists>t spec repo ws current p out sections.
      map_of (m_tasks (sv_store st')) (pp_TaskID resp) = Some t
    \<and> t_Kind t = TaskPush \<and> t_UserID t = su_ID (pr_User pr) \<and> t_Branch t = pq_Branch req
    \<and> t_Payload t = sd_push_json d spec
    \<and> FS_Get (tp_PatchDigest spec) (sv_blobs st') = Inr out \<and> tp_PatchEncoding spec = EncodingNone
    \<and> (\<exists>pd. push_decide d tenant pr st req = Inr pd \<and> spec = push_spec_of pr req pd (tp_PatchDigest spec))
    \<and> fs_valid sha U (sv_blobs st') \<and> (0 < sd_MaxPatchBytes d \<longrightarrow> int (length out) \<le> sd_MaxPatchBytes d)
    \<and> Parse (sd_gd d) out = Inr sections
    \<and> sd_policies d tenant = Some current \<and> tp_PolicyVersion spec = p_version current
    \<and> (\<forall>c \<in> set (ps_Changes sections). permitted (Evaluate (sd_ds d) current)
         \<lparr>q_Repo = sr_PolicyRepoID repo, q_Ref = ''refs/heads/'' @ pq_Branch req, q_Subject = pr_Subject pr,
          q_Path = [], q_Action = []\<rparr> (push_reqs (sd_ds d) (sd_Guards d) c))
    \<and> tp_AuthorEmail spec = su_Email (pr_User pr) \<and> tp_PolicyUserID spec = su_PolicyUserID (pr_User pr)
    \<and> Workspace_ByID (sv_store st) (pq_Workspace req) = Inr ws \<and> w_UserID ws = su_ID (pr_User pr)
    \<and> Repo_ByPolicyID (sv_store st) tenant (pq_Repository req) = Inr repo
    \<and> Verify (sd_crypto d) (sd_json d) (sd_signer d) (pq_BaseSync req) = Inr p
    \<and> Matches p (w_ID ws) (sr_ID repo) (pq_Branch req) \<and> tp_BaseCommit spec = pl_UpstreamCommit p"
  by (rule accepted_push_facts[OF assms])

lemma Queue_Submit_audit [simp]: "m_audit (fst (Queue_Submit memory_tasks now m t)) = m_audit m"
proof -
  obtain m' u e where c: "Create now m (stamped now t) = (m', u, e)" by (cases "Create now m (stamped now t)")
  then have "m_audit m' = m_audit m"
    by (auto simp: Create_def nextID_def put_task_def Let_def split: option.splits prod.splits if_splits)
  moreover have "ts_Create memory_tasks now m (stamped now t) = (m', Some u, e)" by (simp add: memory_tasks_def c)
  then have "fst (Queue_Submit memory_tasks now m t) = m'"
    unfolding Queue_Submit_def stamped_def Let_def by (cases e) simp_all
  ultimately show ?thesis by simp
qed

lemma push_enqueue_audit [simp]:
  "m_audit (sv_store (snd (push_enqueue d tenant pr now req pd out st))) = m_audit (sv_store st)"
proof (cases "storePatch d tenant now st out ArtifactPushPatch None")
  case (Inr x)
  obtain enforced st1 where x: "x = (enforced, st1)" by (cases x)
  have "m_audit (sv_store st1) = m_audit (sv_store st)" using storePatch_frame(2) Inr x by blast
  then show ?thesis
    using Queue_Submit_audit[of now "sv_store st1"
        "push_task tenant pr now req pd (sd_push_json d (push_spec_of pr req pd (pb_Digest enforced)))"]
    by (auto simp: push_enqueue_def Inr x Let_def simp del: Queue_Submit_audit split: prod.splits sum.splits option.splits)
qed (simp add: push_enqueue_def)

text \<open>
  Claim C10. Every push that is judged is on the record, whatever comes of it: the audit log gains one
  summary row, which says whether the push was accepted, and one row per denied requirement with its
  path, each naming the caller, the request and the bundle version; nothing already written changes. A
  refused push and a dry run leave the task queue and the blob store as they were, and a refusal carries
  the same denials back to the client.
\<close>

theorem judged_push_is_audited:
  assumes "push_validate req = Inr ()" and "ByRequestID (sv_store st) tenant (pq_RequestID req) = Inl ErrNotFound"
    and "push_decide d tenant pr st req = Inr pd" and "handlePush d tenant pr now st req = (r, st')"
  shows "\<exists>rows. m_audit (sv_store st') = m_audit (sv_store st) @ rows
      \<and> length rows = Suc (length (result_Denials (pd_result pd)))
      \<and> ar_Action (hd rows) = (if res_Rejected (pd_result pd) then ''push.rejected'' else ''push.accepted'')
      \<and> map ar_Path (tl rows) = map ck_Path (result_Denials (pd_result pd))
      \<and> (\<forall>row \<in> set rows. ar_ActorUserID row = su_ID (pr_User pr) \<and> ar_RequestID row = pq_RequestID req
           \<and> ar_PolicyVersion row = res_PolicyVersion (pd_result pd))
    \<and> (res_Rejected (pd_result pd) \<or> pq_DryRun req \<longrightarrow>
         m_tasks (sv_store st') = m_tasks (sv_store st) \<and> sv_blobs st' = sv_blobs st)
    \<and> (res_Rejected (pd_result pd) \<longrightarrow> (\<exists>b. r = Inl (Api \<lparr>ae_status = 403, ae_body = b\<rparr>)
         \<and> e_Denials b = map denial_of (result_Denials (pd_result pd))))"
proof -
  let ?rs = "push_records tenant pr now (pd_repo pd) req (pd_result pd)"
  let ?st1 = "auditPush tenant pr now (pd_repo pd) req (pd_result pd) st"
  have st1: "m_audit (sv_store ?st1) = m_audit (Audit_Append now (sv_store st) ?rs)" by (simp add: auditPush_def)
  have log: "m_audit (sv_store st') = m_audit (sv_store ?st1)"
    using assms push_enqueue_audit[of d tenant pr now req pd _ ?st1]
    by (auto simp: handlePush_def Let_def split: if_splits option.splits) (metis snd_conv push_enqueue_audit)
  obtain rows where rows: "m_audit (Audit_Append now (sv_store st) ?rs) = m_audit (sv_store st) @ rows"
      "length rows = length ?rs" "\<forall>i < length ?rs. \<exists>n t. rows ! i = (?rs ! i)\<lparr>ar_ID := n, ar_OccurredAt := t\<rparr>"
    using Audit_Append_rows[of now "sv_store st" ?rs] by blast
  have nth: "f (rows ! i) = f (?rs ! i)" if "i < length ?rs" "\<And>x n t. f (x\<lparr>ar_ID := n, ar_OccurredAt := t\<rparr>) = f x"
    for i and f :: "audit_record \<Rightarrow> string" using rows(3) that by metis
  have maps: "map f rows = map f ?rs" if "\<And>x n t. f (x\<lparr>ar_ID := n, ar_OccurredAt := t\<rparr>) = f x"
    for f :: "audit_record \<Rightarrow> string" using nth[OF _ that] rows(2) by (intro nth_equalityI) auto
  have len: "length rows = Suc (length (result_Denials (pd_result pd)))"
    using rows(2) by (simp add: push_records_def Let_def)
  have hd: "ar_Action (hd rows) = (if res_Rejected (pd_result pd) then ''push.rejected'' else ''push.accepted'')"
    using maps[of ar_Action] len by (cases rows) (auto simp: push_records_def audit_base_def Let_def)
  have tl: "map ar_Path (tl rows) = map ck_Path (result_Denials (pd_result pd))"
    using maps[of ar_Path] len by (cases rows) (auto simp: push_records_def audit_base_def Let_def comp_def)
  have same: "\<forall>row \<in> set rows. f row = v" if "map f rows = map f ?rs" "\<forall>x \<in> set ?rs. f x = v"
    for f and v :: string using that by (metis (no_types, lifting) in_set_conv_nth length_map nth_map nth_mem)
  have all: "\<forall>row \<in> set rows. ar_ActorUserID row = su_ID (pr_User pr) \<and> ar_RequestID row = pq_RequestID req
      \<and> ar_PolicyVersion row = res_PolicyVersion (pd_result pd)"
    using same[OF maps[of ar_ActorUserID], of "su_ID (pr_User pr)"] same[OF maps[of ar_RequestID], of "pq_RequestID req"]
      same[OF maps[of ar_PolicyVersion], of "res_PolicyVersion (pd_result pd)"]
    by (simp add: push_records_def audit_base_def Let_def)
  have rest: "(res_Rejected (pd_result pd) \<or> pq_DryRun req \<longrightarrow>
         m_tasks (sv_store st') = m_tasks (sv_store st) \<and> sv_blobs st' = sv_blobs st)
    \<and> (res_Rejected (pd_result pd) \<longrightarrow> (\<exists>b. r = Inl (Api \<lparr>ae_status = 403, ae_body = b\<rparr>)
         \<and> e_Denials b = map denial_of (result_Denials (pd_result pd))))"
    using assms by (auto simp: handlePush_def Let_def pushReport_def split: if_splits)
  show ?thesis
    using rows(1) log st1 len hd tl all rest by (intro exI[of _ rows]) simp
qed

subsection \<open>Witnesses\<close>

definition ex_blobs :: fs_store where
  "ex_blobs = (case FS_Put ex_sha ex_raw [] 0 ex_root of Inr (_, s) \<Rightarrow> s | Inl _ \<Rightarrow> ex_root)"

definition ex_signer :: signer where
  "ex_signer = \<lparr>sg_key = ''k'', sg_root = ''r'', sg_tenant = ''default''\<rparr>"

definition ex_deps :: "fs_store deps" where
  "ex_deps = \<lparr>sd_blobs = Filesystem ex_sha, sd_policies = (\<lambda>_. Some ex_policy), sd_crypto = ex_crypto,
     sd_json = ex_json, sd_signer = ex_signer, sd_gd = ex_gd, sd_ds = ex_ds, sd_zdec = (\<lambda>b. (b, True)),
     sd_push_json = tp_PatchDigest, sd_pull_json = tl_FromCommit, sd_Guards = ex_guards, sd_MaxPatchBytes = 100\<rparr>"

definition ex_world :: "fs_store srv" where
  "ex_world = \<lparr>sv_store = New_store
     \<lparr>m_repos := [(''repo-1'', \<lparr>sr_ID = ''repo-1'', sr_TenantID = ''default'', sr_PolicyRepoID = ''api'',
        sr_Remote = [], sr_Forge = [], sr_DefaultBranch = ''main'', sr_PolicyVersion = ''v1'',
        sr_CreatedAt = 1, sr_UpdatedAt = 1\<rparr>)],
      m_workspaces := [(''ws-1'', \<lparr>w_ID = ''ws-1'', w_TenantID = ''default'', w_UserID = ''user-1'', w_Label = [],
        w_CreatedAt = 1, w_LastSeenAt = None\<rparr>)],
      m_syncPoints := [((''ws-1'', ''repo-1'', ''main''), ex_sync ''9f2c'')]\<rparr>, sv_blobs = ex_blobs\<rparr>"

definition ex_principal :: principal where
  "ex_principal = \<lparr>pr_User = ex_member, pr_Session = \<lparr>se_ID = [], se_TenantID = ''default'', se_UserID = ''user-1'',
     se_TokenHash = [], se_Label = [], se_CreatedAt = 1, se_ExpiresAt = None, se_LastUsedAt = None,
     se_RevokedAt = None\<rparr>, pr_Tenant = ''default'', pr_Subject = ex_subject, pr_PolicyVersion = ''v1''\<rparr>"

definition ex_push :: "string \<Rightarrow> push_request" where
  "ex_push m = \<lparr>pq_ProtocolVersion = ''1'', pq_RequestID = ''req-1'', pq_Repository = ''api'', pq_Branch = ''main'',
     pq_Workspace = ''ws-1'', pq_BaseSync = Sign ex_crypto ex_json 7 ex_signer ex_payload, pq_Message = ''m'',
     pq_Patch = \<lparr>pb_Digest = Digest ex_sha ex_raw, pb_Size = 10, pb_Encoding = EncodingNone, pb_UncompressedSize = 10\<rparr>,
     pq_Mode = m, pq_DryRun = False\<rparr>"

lemma ex_blobs_valid: "fs_valid ex_sha {ex_raw, ex_out} ex_blobs"
proof -
  have "ex_sha ex_raw \<noteq> ex_sha ex_out" "list_all (\<lambda>b. length (ex_sha b) = 32) [ex_raw, ex_out]" by code_simp+
  then have "sha_ok ex_sha {ex_raw, ex_out}" by (auto simp: sha_ok_def inj_on_def)
  then have v: "fs_valid ex_sha {ex_raw, ex_out} ex_root"
    by (simp add: fs_valid_def addressed_def fs_contents_def ex_root_def)
  obtain desc s' where p: "b_Put (Filesystem ex_sha) ex_raw [] 0 ex_root = Inr (desc, s')"
    using file_blobs.put_iff[OF v, of ex_raw 0 "[]"] by auto
  then have "ex_blobs = s'" by (simp add: ex_blobs_def Filesystem_def)
  then show ?thesis using file_blobs.put_then_get(3)[OF v _ _ p] by simp
qed

theorem accepted_push_is_authorized_witness:
  "\<exists>resp st'. handlePush ex_deps ''default'' ex_principal 9 ex_world (ex_push ''strip'') = (Inr resp, st')
     \<and> pp_Accepted resp \<and> (\<exists>t. map_of (m_tasks (sv_store st')) (pp_TaskID resp) = Some t \<and> t_Kind t = TaskPush)"
proof -
  let ?h = "handlePush ex_deps ''default'' ex_principal 9 ex_world (ex_push ''strip'')"
  have ok: "map_sum (\<lambda>_. ()) pp_Accepted (fst ?h) = Inr True" by code_simp
  then obtain resp st' where h: "?h = (Inr resp, st')" "pp_Accepted resp"
    by (cases ?h; cases "fst ?h") auto
  have pd: "map_sum (\<lambda>_. ()) (\<lambda>pd. res_Patch (pd_result pd)) (push_decide ex_deps ''default'' ex_principal ex_world
      (ex_push ''strip'')) = Inr (Some ex_out)" by code_simp
  have new: "ByRequestID (sv_store ex_world) ''default'' (pq_RequestID (ex_push ''strip'')) = Inl ErrNotFound"
    by code_simp
  have d: "sd_blobs ex_deps = Filesystem ex_sha" "fs_valid ex_sha {ex_raw, ex_out} (sv_blobs ex_world)"
    "sd_MaxPatchBytes ex_deps < 2 ^ 63 - 1"
    by (simp_all add: ex_deps_def ex_world_def ex_blobs_valid)
  have "\<forall>pd out. push_decide ex_deps ''default'' ex_principal ex_world (ex_push ''strip'') = Inr pd \<longrightarrow>
      res_Patch (pd_result pd) = Some out \<longrightarrow> out \<in> {ex_raw, ex_out}"
    using pd by auto
  from accepted_push_is_authorized[OF d this h new] show ?thesis using h by blast
qed

theorem judged_push_is_audited_witness:
  "\<exists>rows. m_audit (sv_store (snd (handlePush ex_deps ''default'' ex_principal 9 ex_world (ex_push ''reject'')))) = rows
     \<and> ar_Action (hd rows) = ''push.rejected'' \<and> map ar_Path (tl rows) = [''key'', ''key'']"
proof -
  let ?h = "handlePush ex_deps ''default'' ex_principal 9 ex_world (ex_push ''reject'')"
  have v: "push_validate (ex_push ''reject'') = Inr ()"
    "ByRequestID (sv_store ex_world) ''default'' (pq_RequestID (ex_push ''reject'')) = Inl ErrNotFound"
    by code_simp+
  have "map_sum (\<lambda>_. ()) (\<lambda>pd. (res_Rejected (pd_result pd), map ck_Path (result_Denials (pd_result pd))))
      (push_decide ex_deps ''default'' ex_principal ex_world (ex_push ''reject'')) = Inr (True, [''key'', ''key''])"
    by code_simp
  then obtain pd where pd: "push_decide ex_deps ''default'' ex_principal ex_world (ex_push ''reject'') = Inr pd"
      "res_Rejected (pd_result pd)" "map ck_Path (result_Denials (pd_result pd)) = [''key'', ''key'']"
    by (cases "push_decide ex_deps ''default'' ex_principal ex_world (ex_push ''reject'')") auto
  have "m_audit (sv_store ex_world) = []" by (simp add: ex_world_def New_store_def)
  then show ?thesis
    using judged_push_is_audited[OF v pd(1) surjective_pairing[of ?h]] pd(2,3) by auto
qed

end
