(* ===== verification/Nit_Worker.thy ===== *)
theory Nit_Worker
  imports Nit_Server Nit_Cache
begin

text \<open>
  The execution of tasks: \<open>internal/worker/worker.go\<close>, \<open>push.go\<close> and \<open>pull.go\<close>. A handler is a computation
  over the worker's state (the in-memory store, a blob store, the world of git and the cache of
  projections) which ends in an error or a value and keeps the state it reached. Git and the forge are
  reached through the record \<open>git_ops\<close>, which has the operations of \<open>gitx.Repo\<close> and of the mirror cache
  that the worker calls; JSON, zstd, the hash and the texts of wrapped errors are parameters gathered with
  it in \<open>wdeps\<close>. A handler reads the clock once. Where the code appends an inner error to a message of
  its own with a format verb, the message ends before it. Audit rows go to the database; a sink is in
  \<open>Nit_Audit\<close>.
\<close>

subsection \<open>Computations\<close>

type_synonym ('a, 's) work = "'s \<Rightarrow> (run_error + 'a) \<times> 's"

definition wret :: "'a \<Rightarrow> ('a, 's) work" where "wret x s = (Inr x, s)"

definition wfail :: "run_error \<Rightarrow> ('a, 's) work" where "wfail e s = (Inl e, s)"

definition wbind :: "('a, 's) work \<Rightarrow> ('a \<Rightarrow> ('b, 's) work) \<Rightarrow> ('b, 's) work" where
  "wbind m f s = (case m s of (Inl e, s') \<Rightarrow> (Inl e, s') | (Inr x, s') \<Rightarrow> f x s')"

definition wlift :: "('s \<Rightarrow> run_error + 'a) \<Rightarrow> ('a, 's) work" where "wlift f s = (f s, s)"

definition wupdate :: "('s \<Rightarrow> 's) \<Rightarrow> (unit, 's) work" where "wupdate f s = (Inr (), f s)"

text \<open>A call whose error is replaced, and a deferred call.\<close>

definition wrecode :: "(run_error \<Rightarrow> run_error) \<Rightarrow> ('a, 's) work \<Rightarrow> ('a, 's) work" where
  "wrecode h m s = (case m s of (Inl e, s') \<Rightarrow> (Inl (h e), s') | r \<Rightarrow> r)"

definition wdefer :: "('s \<Rightarrow> 's) \<Rightarrow> ('a, 's) work \<Rightarrow> ('a, 's) work" where
  "wdefer h m s = (case m s of (r, s') \<Rightarrow> (r, h s'))"

subsection \<open>Configuration and collaborators (\<open>worker.go\<close>, \<open>gitx/git.go\<close>)\<close>

datatype git_error = GitConflict | GitFailed run_error

record author =
  au_Name :: string
  au_Email :: string
  au_When :: instant

record ('g, 'r) git_ops =
  gt_Open :: "string \<Rightarrow> string \<Rightarrow> string \<Rightarrow> ('r, 'g) work"
  gt_Release :: "'r \<Rightarrow> 'g \<Rightarrow> 'g"
  gt_ResolveRef :: "'r \<Rightarrow> string \<Rightarrow> (string, 'g) work"
  gt_Checkout :: "'r \<Rightarrow> string \<Rightarrow> (unit, 'g) work"
  gt_Diff :: "'r \<Rightarrow> string \<Rightarrow> string \<Rightarrow> (bytes, 'g) work"
  gt_EmptyTree :: "'r \<Rightarrow> (string, 'g) work"
  gt_Apply :: "'r \<Rightarrow> bytes \<Rightarrow> 'g \<Rightarrow> git_error option \<times> 'g"
  gt_CommitAll :: "'r \<Rightarrow> string \<Rightarrow> author \<Rightarrow> (string, 'g) work"
  gt_Rebase :: "'r \<Rightarrow> string \<Rightarrow> author \<Rightarrow> 'g \<Rightarrow> git_error option \<times> 'g"
  gt_Push :: "'r \<Rightarrow> string \<Rightarrow> string \<Rightarrow> string \<Rightarrow> (unit, 'g) work"

record worker_config =
  wc_WorkDir :: string
  wc_MirrorBudgetBytes :: int
  wc_Tenant :: tenant_id
  wc_PullArtifactTTL :: duration
  wc_MaxPatchBytes :: int
  wc_Guards :: guards

definition worker_defaults :: "string \<Rightarrow> guards \<Rightarrow> worker_config \<Rightarrow> worker_config" where
  "worker_defaults tempDir guards c =
     (let c = (if wc_WorkDir c = [] then c\<lparr>wc_WorkDir := tempDir @ ''/nit-worker''\<rparr> else c);
          c = (if wc_Tenant c = [] then c\<lparr>wc_Tenant := DefaultTenant\<rparr> else c);
          c = (if wc_PullArtifactTTL c \<le> 0 then c\<lparr>wc_PullArtifactTTL := 24 * 3600 * Second\<rparr> else c);
          c = (if wc_MirrorBudgetBytes c < 0 then c\<lparr>wc_MirrorBudgetBytes := 0\<rparr> else c);
          c = (if wc_MaxPatchBytes c \<le> 0 then c\<lparr>wc_MaxPatchBytes := 104857600\<rparr> else c)
      in if length (gu_ProtectedPaths (wc_Guards c)) = 0 \<and> \<not> gu_SymlinksRequireAdmin (wc_Guards c)
            \<and> \<not> gu_SubmodulesRequireAdmin (wc_Guards c)
         then c\<lparr>wc_Guards := guards\<rparr> else c)"

record push_result =
  ur_UpstreamCommit :: string
  ur_NextSync :: string
  ur_Report :: push_report

record pull_report =
  lr_PolicyVersion :: string
  lr_FilesTotal :: int
  lr_FilesDelivered :: int
  lr_FilesWithheld :: int
  lr_UpstreamCommit :: string

record pull_result =
  pu_Patch :: "protocol_blob option"
  pu_NextSync :: string
  pu_Report :: pull_report

text \<open>The errors of other packages a handler passes on; their texts are a parameter.\<close>

datatype fault =
    StoreFault store_error
  | BlobFault blob_error
  | CompressFault compress_error
  | PatchFault patch_error
  | EnforceFault enforce_error

record ('b, 'g, 'r) wdeps =
  wd_blobs :: "'b blob_ops"
  wd_git :: "('g, 'r) git_ops"
  wd_remote :: "string \<Rightarrow> string \<Rightarrow> string option"
  wd_policies :: "tenant_id \<Rightarrow> policy option"
  wd_crypto :: crypto
  wd_json :: payload_json
  wd_signer :: signer
  wd_gd :: gitdiff
  wd_ds :: doublestar
  wd_dg :: "bytes \<Rightarrow> string"
  wd_zenc :: "bytes \<Rightarrow> bytes"
  wd_zdec :: "bytes \<Rightarrow> bytes \<times> bool"
  wd_push_spec :: "bytes \<Rightarrow> push_spec option"
  wd_pull_spec :: "bytes \<Rightarrow> pull_spec option"
  wd_push_result :: "push_result \<Rightarrow> bytes"
  wd_pull_result :: "pull_result \<Rightarrow> bytes"
  wd_detail :: "(string \<times> string) list \<Rightarrow> bytes"
  wd_text :: "fault \<Rightarrow> string"

record ('b, 'g) wstate =
  ws_store :: mem
  ws_blobs :: 'b
  ws_git :: 'g
  ws_pulls :: lru

definition plain :: "string \<Rightarrow> run_error" where
  "plain t = \<lparr>re_Canceled = False, re_Protocol = None, re_Text = t\<rparr>"

definition permanent :: "string \<Rightarrow> string \<Rightarrow> run_error" where
  "permanent code message =
     \<lparr>re_Canceled = False,
      re_Protocol = Some \<lparr>e_Code = code, e_Message = message, e_Denials = [], e_RetryAfter = 0\<rparr>,
      re_Text = code @ '': '' @ message\<rparr>"

definition fault :: "('b, 'g, 'r) wdeps \<Rightarrow> fault \<Rightarrow> run_error" where
  "fault d f = plain (wd_text d f)"

text \<open>A call into git, on the part of the state that is git's.\<close>

definition on_git :: "('a, 'g) work \<Rightarrow> ('a, ('b, 'g) wstate) work" where
  "on_git m st = (case m (ws_git st) of (r, g) \<Rightarrow> (r, st\<lparr>ws_git := g\<rparr>))"

definition on_git_error ::
  "(git_error \<Rightarrow> run_error) \<Rightarrow> ('g \<Rightarrow> git_error option \<times> 'g) \<Rightarrow> (unit, ('b, 'g) wstate) work" where
  "on_git_error h m st =
     (case m (ws_git st) of
        (None, g) \<Rightarrow> (Inr (), st\<lparr>ws_git := g\<rparr>)
      | (Some e, g) \<Rightarrow> (Inl (h e), st\<lparr>ws_git := g\<rparr>))"

definition checkout ::
  "('b, 'g, 'r) wdeps \<Rightarrow> string \<Rightarrow> string \<Rightarrow> string \<Rightarrow> ('r, ('b, 'g) wstate) work" where
  "checkout d identity remote branch =
     wrecode (\<lambda>_. plain (''checkout failed for branch '' @ branch))
       (on_git (gt_Open (wd_git d) identity remote (''refs/heads/'' @ branch)))"

definition authenticatedRemote :: "('b, 'g, 'r) wdeps \<Rightarrow> string \<Rightarrow> string \<Rightarrow> run_error + string" where
  "authenticatedRemote d forgeKind remote =
     (case wd_remote d forgeKind remote of
        None \<Rightarrow> Inl (plain ''resolving the remote failed'')
      | Some r \<Rightarrow> Inr r)"

definition loadSpec :: "(bytes \<Rightarrow> 'x option) \<Rightarrow> task \<Rightarrow> run_error + 'x" where
  "loadSpec dec t =
     (case dec (t_Payload t) of
        None \<Rightarrow> Inl (permanent ''malformed_task'' ''the task payload could not be decoded'')
      | Some spec \<Rightarrow> Inr spec)"

definition worker_policyFor :: "('b, 'g, 'r) wdeps \<Rightarrow> worker_config \<Rightarrow> tenant_id \<Rightarrow> run_error + policy" where
  "worker_policyFor d cfg tenant =
     (let tenant = (if tenant = [] then wc_Tenant cfg else tenant)
      in case wd_policies d tenant of
           None \<Rightarrow> Inl (permanent ''policy_unavailable'' (''no policy bundle for tenant '' @ tenant))
         | Some p \<Rightarrow> Inr p)"

definition short :: "string \<Rightarrow> string" where
  "short s = (if length s > 12 then take 12 s else s)"

definition Unix :: "instant \<Rightarrow> int" where "Unix t = t div Second"

definition syncPayload :: "id \<Rightarrow> id \<Rightarrow> string \<Rightarrow> string \<Rightarrow> string \<Rightarrow> int \<Rightarrow> payload" where
  "syncPayload ws repo branch commit pv issuedAt =
     \<lparr>pl_Workspace = ws, pl_Repository = repo, pl_Branch = branch, pl_UpstreamCommit = commit,
      pl_PolicyVersion = pv, pl_IssuedAt = issuedAt\<rparr>"

definition sign :: "('b, 'g, 'r) wdeps \<Rightarrow> instant \<Rightarrow> payload \<Rightarrow> string" where
  "sign d now p = Sign (wd_crypto d) (wd_json d) (Unix now) (wd_signer d) p"

subsection \<open>Pushing (\<open>push.go\<close>)\<close>

definition loadEnforcedPatch :: "('b, 'g, 'r) wdeps \<Rightarrow> worker_config \<Rightarrow> 'b \<Rightarrow> push_spec \<Rightarrow> run_error + bytes" where
  "loadEnforcedPatch d cfg blobs spec =
     (case b_Get (wd_blobs d) (tp_PatchDigest spec) blobs of
        Inl BlobErrNotFound \<Rightarrow> Inl (permanent ''missing_patch''
          (''the authorized patch '' @ short (tp_PatchDigest spec) @ '' is no longer in the blob store''))
      | Inl e \<Rightarrow> Inl (fault d (BlobFault e))
      | Inr content \<Rightarrow>
          (let raw = LimitReader content (wrap64 (wc_MaxPatchBytes cfg + 1))
           in if int (length raw) > wc_MaxPatchBytes cfg
              then Inl (permanent CodePatchTooLarge ''the stored patch exceeds the size limit'')
              else case Decompress (wd_zdec d) raw (tp_PatchEncoding spec) (wc_MaxPatchBytes cfg) of
                     Inl e \<Rightarrow> Inl (fault d (CompressFault e))
                   | Inr out \<Rightarrow> Inr out))"

definition push_sync_point :: "worker_config \<Rightarrow> instant \<Rightarrow> push_spec \<Rightarrow> id \<Rightarrow> string \<Rightarrow> sync_point" where
  "push_sync_point cfg now spec repo commit =
     \<lparr>syn_TenantID = wc_Tenant cfg, syn_WorkspaceID = tp_WorkspaceID spec, syn_RepositoryID = repo,
      syn_Branch = tp_Branch spec, syn_UpstreamCommit = commit, syn_PolicyVersion = tp_PolicyVersion spec,
      syn_CreatedAt = 0, syn_UpdatedAt = now\<rparr>"

definition advanceSyncPoint ::
  "('b, 'g, 'r) wdeps \<Rightarrow> worker_config \<Rightarrow> instant \<Rightarrow> push_spec \<Rightarrow> string \<Rightarrow> (string, ('b, 'g) wstate) work" where
  "advanceSyncPoint d cfg now spec commit st =
     (case Repo_ByPolicyID (ws_store st) (wc_Tenant cfg) (tp_Repository spec) of
        Inl e \<Rightarrow> (Inl (fault d (StoreFault e)), st)
      | Inr repo \<Rightarrow>
          (case CompareAndSet (ws_store st) (push_sync_point cfg now spec (sr_ID repo) commit) (tp_BaseCommit spec) of
             Inl e \<Rightarrow> if e = ErrConflict \<or> e = ErrNotFound then (Inr [], st) else (Inl (fault d (StoreFault e)), st)
           | Inr m \<Rightarrow>
               (Inr (sign d now (syncPayload (tp_WorkspaceID spec) (sr_ID repo) (tp_Branch spec) commit
                  (tp_PolicyVersion spec) (Unix now))),
                st\<lparr>ws_store := m\<rparr>)))"

definition push_audit :: "('b, 'g, 'r) wdeps \<Rightarrow> worker_config \<Rightarrow> instant \<Rightarrow> task \<Rightarrow> push_spec \<Rightarrow> string \<Rightarrow> audit_record" where
  "push_audit d cfg now t spec commit =
     \<lparr>ar_ID = 0, ar_TenantID = wc_Tenant cfg, ar_OccurredAt = now, ar_ActorUserID = tp_UserID spec,
      ar_ActorLabel = tp_PolicyUserID spec, ar_Action = ''push.applied'', ar_RepositoryID = t_RepositoryID t,
      ar_Branch = tp_Branch spec, ar_Path = [], ar_Effect = [], ar_Reason = ReasonNone, ar_RuleID = [],
      ar_Guard = [], ar_PolicyVersion = tp_PolicyVersion spec, ar_RequestID = tp_RequestID spec,
      ar_TaskID = t_ID t, ar_Detail = wd_detail d [(''upstream_commit'', commit), (''base'', tp_BaseCommit spec)]\<rparr>"

definition record_row :: "instant \<Rightarrow> audit_record \<Rightarrow> (unit, ('b, 'g) wstate) work" where
  "record_row now row = wupdate (\<lambda>st. st\<lparr>ws_store := Audit_Append now (ws_store st) [row]\<rparr>)"

text \<open>Committing the patch on the author's base; then replaying it if the branch has moved.\<close>

definition push_commit ::
  "('b, 'g, 'r) wdeps \<Rightarrow> instant \<Rightarrow> task \<Rightarrow> push_spec \<Rightarrow> bytes \<Rightarrow> 'r \<Rightarrow> (string, ('b, 'g) wstate) work" where
  "push_commit d now t spec patch r =
     wbind (wrecode (\<lambda>_. permanent CodeConflict (''the base commit '' @ short (tp_BaseCommit spec) @
              '' is no longer present upstream; pull and push again''))
            (on_git (gt_Checkout (wd_git d) r (tp_BaseCommit spec)))) (\<lambda>_.
     wbind (on_git_error (\<lambda>e. case e of
              GitConflict \<Rightarrow> permanent CodeConflict (''the patch no longer applies to '' @ tp_Branch spec @
                ''; pull, resolve, and push again'')
            | GitFailed e \<Rightarrow> e) (gt_Apply (wd_git d) r patch)) (\<lambda>_.
     on_git (gt_CommitAll (wd_git d) r (commitMessage spec (t_ID t))
       \<lparr>au_Name = tp_AuthorName spec, au_Email = tp_AuthorEmail spec, au_When = now\<rparr>)))"

definition push_rebase ::
  "('b, 'g, 'r) wdeps \<Rightarrow> push_spec \<Rightarrow> string \<Rightarrow> 'r \<Rightarrow> (string, ('b, 'g) wstate) work" where
  "push_rebase d spec tipBefore r =
     wbind (on_git_error (\<lambda>e. case e of
              GitConflict \<Rightarrow> permanent CodeConflict (tp_Branch spec @ '' moved while your push was queued and '' @
                ''your change no longer applies; pull, resolve, and push again'')
            | GitFailed e \<Rightarrow> e) (gt_Rebase (wd_git d) r tipBefore
                \<lparr>au_Name = tp_AuthorName spec, au_Email = tp_AuthorEmail spec, au_When = 0\<rparr>)) (\<lambda>_.
     on_git (gt_ResolveRef (wd_git d) r ''HEAD''))"

definition push_land ::
  "('b, 'g, 'r) wdeps \<Rightarrow> worker_config \<Rightarrow> instant \<Rightarrow> task \<Rightarrow> push_spec \<Rightarrow> bytes \<Rightarrow> string \<Rightarrow> 'r \<Rightarrow>
     (bytes, ('b, 'g) wstate) work" where
  "push_land d cfg now t spec patch remote r =
     wbind (on_git (gt_ResolveRef (wd_git d) r ''HEAD'')) (\<lambda>tipBefore.
     wbind (push_commit d now t spec patch r) (\<lambda>commit.
     wbind (if tipBefore \<noteq> tp_BaseCommit spec then push_rebase d spec tipBefore r else wret commit) (\<lambda>commit.
     wbind (wrecode (\<lambda>_. permanent CodeConflict (tp_Branch spec @
              '' moved on the forge while this push was running; pull and push again''))
            (on_git (gt_Push (wd_git d) r remote (tp_Branch spec) tipBefore))) (\<lambda>_.
     wbind (if tipBefore = tp_BaseCommit spec \<and> tp_DroppedFiles spec = 0
            then advanceSyncPoint d cfg now spec commit else wret []) (\<lambda>token.
     wbind (record_row now (push_audit d cfg now t spec commit)) (\<lambda>_.
     wret (wd_push_result d \<lparr>ur_UpstreamCommit = commit, ur_NextSync = token,
       ur_Report = no_report\<lparr>rp_PolicyVersion := tp_PolicyVersion spec\<rparr>\<rparr>)))))))"

definition worker_handlePush ::
  "('b, 'g, 'r) wdeps \<Rightarrow> worker_config \<Rightarrow> instant \<Rightarrow> task \<Rightarrow> (bytes, ('b, 'g) wstate) work" where
  "worker_handlePush d cfg now t =
     wbind (wlift (\<lambda>_. loadSpec (wd_push_spec d) t)) (\<lambda>spec.
     wbind (wlift (\<lambda>st. loadEnforcedPatch d cfg (ws_blobs st) spec)) (\<lambda>patch.
     wbind (wlift (\<lambda>_. authenticatedRemote d (tp_Forge spec) (tp_Remote spec))) (\<lambda>remote.
     wbind (checkout d (tp_Remote spec) remote (tp_Branch spec)) (\<lambda>r.
     wdefer (\<lambda>st. st\<lparr>ws_git := gt_Release (wd_git d) r (ws_git st)\<rparr>)
       (push_land d cfg now t spec patch remote r)))))"

subsection \<open>Pulling (\<open>pull.go\<close>)\<close>

record pull_counts =
  ct_total :: int
  ct_delivered :: int
  ct_withheld :: int

definition reader_options ::
  "('b, 'g, 'r) wdeps \<Rightarrow> worker_config \<Rightarrow> policy \<Rightarrow> repo_id \<Rightarrow> string \<Rightarrow> subject \<Rightarrow> options" where
  "reader_options d cfg current repo branch subject =
     \<lparr>o_Engine = Some (Evaluate (wd_ds d) current), o_Repo = repo, o_Ref = ''refs/heads/'' @ branch,
      o_Subject = subject, o_Guards = wc_Guards cfg\<rparr>"

definition gone :: "user_id \<Rightarrow> run_error" where
  "gone user = permanent ''user_not_in_policy'' (user @ '' is no longer in the policy bundle'')"

definition filterForReader ::
  "('b, 'g, 'r) wdeps \<Rightarrow> worker_config \<Rightarrow> bytes \<Rightarrow> policy \<Rightarrow> pull_spec \<Rightarrow> store_repository \<Rightarrow>
     run_error + bytes \<times> pull_counts" where
  "filterForReader d cfg raw current spec repo =
     (let none = ([], \<lparr>ct_total = 0, ct_delivered = 0, ct_withheld = 0\<rparr>)
      in if length (TrimSpace raw) = 0 then Inr none
      else case Parse (wd_gd d) raw of
             Inl ErrEmpty \<Rightarrow> Inr none
           | Inl e \<Rightarrow> Inl (fault d (PatchFault e))
           | Inr parsed \<Rightarrow>
               (case Policy_Subject current (tl_PolicyUserID spec) of
                  Inl _ \<Rightarrow> Inl (gone (tl_PolicyUserID spec))
                | Inr subject \<Rightarrow>
                    (case Pull parsed (reader_options d cfg current (sr_PolicyRepoID repo) (tl_Branch spec) subject) of
                       Inl e \<Rightarrow> Inl (fault d (EnforceFault e))
                     | Inr result \<Rightarrow>
                         Inr (case res_Patch result of None \<Rightarrow> [] | Some out \<Rightarrow> out,
                              \<lparr>ct_total = int (length (res_Verdicts result)),
                               ct_delivered = int (length (res_Kept result)),
                               ct_withheld = int (length (res_Dropped result))\<rparr>))))"

definition storePullPatch ::
  "('b, 'g, 'r) wdeps \<Rightarrow> worker_config \<Rightarrow> instant \<Rightarrow> bytes \<Rightarrow> (protocol_blob, ('b, 'g) wstate) work" where
  "storePullPatch d cfg now filtered st =
     (case Compress (wd_zenc d) filtered EncodingZstd of
        Inl e \<Rightarrow> (Inl (fault d (CompressFault e)), st)
      | Inr compressed \<Rightarrow>
          (case b_Put (wd_blobs d) compressed [] (wc_MaxPatchBytes cfg) (ws_blobs st) of
             Inl e \<Rightarrow> (Inl (fault d (BlobFault e)), st)
           | Inr (desc, blobs) \<Rightarrow>
               (let (m, _) = Artifact_Create (ws_store st)
                      \<lparr>a_ID = [], a_TenantID = wc_Tenant cfg, a_Digest = ds_Digest desc, a_Kind = ArtifactPullPatch,
                       a_Size = ds_Size desc, a_UncompressedSize = int (length filtered), a_Encoding = EncodingZstd,
                       a_Locator = ds_Digest desc, a_CreatedAt = now, a_ExpiresAt = Some (now + wc_PullArtifactTTL cfg)\<rparr>
                in (Inr \<lparr>pb_Digest = ds_Digest desc, pb_Size = ds_Size desc, pb_Encoding = EncodingZstd,
                         pb_UncompressedSize = int (length filtered)\<rparr>,
                    st\<lparr>ws_store := m, ws_blobs := blobs\<rparr>))))"

definition pull_sync_point :: "worker_config \<Rightarrow> instant \<Rightarrow> pull_spec \<Rightarrow> id \<Rightarrow> string \<Rightarrow> string \<Rightarrow> sync_point" where
  "pull_sync_point cfg now spec repoID commit pv =
     \<lparr>syn_TenantID = wc_Tenant cfg, syn_WorkspaceID = tl_WorkspaceID spec, syn_RepositoryID = repoID,
      syn_Branch = tl_Branch spec, syn_UpstreamCommit = commit, syn_PolicyVersion = pv, syn_CreatedAt = 0,
      syn_UpdatedAt = now\<rparr>"

definition recordPullSyncPoint ::
  "('b, 'g, 'r) wdeps \<Rightarrow> worker_config \<Rightarrow> instant \<Rightarrow> pull_spec \<Rightarrow> id \<Rightarrow> string \<Rightarrow> string \<Rightarrow>
     (string, ('b, 'g) wstate) work" where
  "recordPullSyncPoint d cfg now spec repoID commit pv =
     wbind (wupdate (\<lambda>st. st\<lparr>ws_store := Sync_Put (ws_store st) (pull_sync_point cfg now spec repoID commit pv)\<rparr>)) (\<lambda>_.
     wret (sign d now (syncPayload (tl_WorkspaceID spec) repoID (tl_Branch spec) commit pv (Unix now))))"

definition cache_lookup ::
  "('b, 'g, 'r) wdeps \<Rightarrow> instant \<Rightarrow> cache_key \<Rightarrow> (entry option, ('b, 'g) wstate) work" where
  "cache_lookup d now key st =
     (case Cache_Get (wd_dg d) (\<lambda>digest. \<not> isl (b_Stat (wd_blobs d) digest (ws_blobs st))) now key (ws_pulls st) of
        (e, c) \<Rightarrow> (Inr e, st\<lparr>ws_pulls := c\<rparr>))"

definition cache_store ::
  "('b, 'g, 'r) wdeps \<Rightarrow> instant \<Rightarrow> cache_key \<Rightarrow> entry \<Rightarrow> (unit, ('b, 'g) wstate) work" where
  "cache_store d now key e = wupdate (\<lambda>st. st\<lparr>ws_pulls := Cache_Put (wd_dg d) now key e (ws_pulls st)\<rparr>)"

text \<open>The diff, the filter and the stored patch, when the cache has no projection.\<close>

definition produce ::
  "('b, 'g, 'r) wdeps \<Rightarrow> worker_config \<Rightarrow> instant \<Rightarrow> policy \<Rightarrow> pull_spec \<Rightarrow> store_repository \<Rightarrow> string \<Rightarrow> string \<Rightarrow>
     'r \<Rightarrow> (entry, ('b, 'g) wstate) work" where
  "produce d cfg now current spec repo from tip r =
     wbind (on_git (gt_Diff (wd_git d) r from tip)) (\<lambda>raw.
     wbind (wlift (\<lambda>_. filterForReader d cfg raw current spec repo)) (\<lambda>(filtered, report).
     wbind (if length filtered > 0
            then wbind (storePullPatch d cfg now filtered) (\<lambda>pb. wret (Some pb)) else wret None) (\<lambda>patch.
     wret \<lparr>en_Patch = patch, en_FilesTotal = ct_total report, en_FilesDelivered = ct_delivered report,
           en_FilesWithheld = ct_withheld report\<rparr>)))"

definition project ::
  "('b, 'g, 'r) wdeps \<Rightarrow> worker_config \<Rightarrow> instant \<Rightarrow> policy \<Rightarrow> pull_spec \<Rightarrow> store_repository \<Rightarrow> string \<Rightarrow> string \<Rightarrow>
     'r \<Rightarrow> (entry \<times> bool, ('b, 'g) wstate) work" where
  "project d cfg now current spec repo from tip r =
     (case Policy_Subject current (tl_PolicyUserID spec) of
        Inl _ \<Rightarrow> wfail (gone (tl_PolicyUserID spec))
      | Inr subject \<Rightarrow>
          (let key = \<lparr>k_Repository = tl_Remote spec, k_From = from, k_To = tip,
                      k_Profile = Profile (wd_dg d) (wd_ds d) current (sr_PolicyRepoID repo)
                        (''refs/heads/'' @ tl_Branch spec) ActionRead subject\<rparr>
           in wbind (cache_lookup d now key) (\<lambda>hit.
              case hit of
                Some e \<Rightarrow> wret (e, True)
              | None \<Rightarrow>
                  wbind (produce d cfg now current spec repo from tip r) (\<lambda>e.
                  wbind (cache_store d now key e) (\<lambda>_. wret (e, False))))))"

definition pull_audit ::
  "('b, 'g, 'r) wdeps \<Rightarrow> worker_config \<Rightarrow> instant \<Rightarrow> task \<Rightarrow> pull_spec \<Rightarrow> id \<Rightarrow> string \<Rightarrow> string \<Rightarrow> bool \<Rightarrow> audit_record" where
  "pull_audit d cfg now t spec repoID tip pv reused =
     \<lparr>ar_ID = 0, ar_TenantID = wc_Tenant cfg, ar_OccurredAt = now, ar_ActorUserID = tl_UserID spec,
      ar_ActorLabel = tl_PolicyUserID spec, ar_Action = ''pull.delivered'', ar_RepositoryID = repoID,
      ar_Branch = tl_Branch spec, ar_Path = [], ar_Effect = [], ar_Reason = ReasonNone, ar_RuleID = [],
      ar_Guard = [], ar_PolicyVersion = pv, ar_RequestID = tl_RequestID spec, ar_TaskID = t_ID t,
      ar_Detail = wd_detail d [(''upstream_commit'', tip), (''from'', tl_FromCommit spec),
        (''reused_projection'', if reused then ''true'' else ''false'')]\<rparr>"

definition pull_deliver ::
  "('b, 'g, 'r) wdeps \<Rightarrow> worker_config \<Rightarrow> instant \<Rightarrow> task \<Rightarrow> pull_spec \<Rightarrow> 'r \<Rightarrow> (pull_result, ('b, 'g) wstate) work" where
  "pull_deliver d cfg now t spec r =
     wbind (on_git (gt_ResolveRef (wd_git d) r ''HEAD'')) (\<lambda>tip.
     wbind (wlift (\<lambda>_. worker_policyFor d cfg (t_TenantID t))) (\<lambda>current.
     wbind (wlift (\<lambda>st. case Repo_ByPolicyID (ws_store st) (wc_Tenant cfg) (tl_Repository spec) of
              Inl e \<Rightarrow> Inl (fault d (StoreFault e)) | Inr repo \<Rightarrow> Inr repo)) (\<lambda>repo.
     let report = \<lparr>lr_PolicyVersion = p_version current, lr_FilesTotal = 0, lr_FilesDelivered = 0,
                   lr_FilesWithheld = 0, lr_UpstreamCommit = tip\<rparr>
     in if tl_FromCommit spec = tip
        then wbind (recordPullSyncPoint d cfg now spec (sr_ID repo) tip (p_version current)) (\<lambda>token.
             wret \<lparr>pu_Patch = None, pu_NextSync = token, pu_Report = report\<rparr>)
        else
          wbind (if tl_FromCommit spec = [] then on_git (gt_EmptyTree (wd_git d) r) else wret (tl_FromCommit spec)) (\<lambda>from.
          wbind (project d cfg now current spec repo from tip r) (\<lambda>(e, reused).
          wbind (recordPullSyncPoint d cfg now spec (sr_ID repo) tip (p_version current)) (\<lambda>token.
          wbind (record_row now (pull_audit d cfg now t spec (sr_ID repo) tip (p_version current) reused)) (\<lambda>_.
          wret \<lparr>pu_Patch = en_Patch e, pu_NextSync = token,
                pu_Report = report\<lparr>lr_FilesTotal := en_FilesTotal e, lr_FilesDelivered := en_FilesDelivered e,
                                   lr_FilesWithheld := en_FilesWithheld e\<rparr>\<rparr>)))))))"

definition worker_handlePull ::
  "('b, 'g, 'r) wdeps \<Rightarrow> worker_config \<Rightarrow> instant \<Rightarrow> task \<Rightarrow> (bytes, ('b, 'g) wstate) work" where
  "worker_handlePull d cfg now t =
     wbind (wlift (\<lambda>_. loadSpec (wd_pull_spec d) t)) (\<lambda>spec.
     wbind (wlift (\<lambda>_. authenticatedRemote d (tl_Forge spec) (tl_Remote spec))) (\<lambda>remote.
     wbind (checkout d (tl_Remote spec) remote (tl_Branch spec)) (\<lambda>r.
     wdefer (\<lambda>st. st\<lparr>ws_git := gt_Release (wd_git d) r (ws_git st)\<rparr>)
       (wbind (pull_deliver d cfg now t spec r) (\<lambda>result. wret (wd_pull_result d result))))))"

definition worker_Handle ::
  "('b, 'g, 'r) wdeps \<Rightarrow> worker_config \<Rightarrow> instant \<Rightarrow> task \<Rightarrow> (bytes, ('b, 'g) wstate) work" where
  "worker_Handle d cfg now t =
     (case t_Kind t of
        TaskPush \<Rightarrow> worker_handlePush d cfg now t
      | TaskPull \<Rightarrow> worker_handlePull d cfg now t
      | OtherKind k \<Rightarrow> wfail (permanent CodeUnsupportedVersion (''unknown task kind '' @ k)))"

subsection \<open>Laws of computations\<close>

lemma wbind_cases:
  assumes "wbind m f s = (r, s')"
  obtains (failed) e where "m s = (Inl e, s')" "r = Inl e"
    | (went) x s1 where "m s = (Inr x, s1)" "f x s1 = (r, s')"
  using assms by (auto simp: wbind_def split: prod.splits sum.splits)

lemma wbind_InrE:
  assumes "wbind m f s = (Inr y, s')"
  obtains x s1 where "m s = (Inr x, s1)" "f x s1 = (Inr y, s')"
  using assms by (auto elim: wbind_cases)

lemmas work_defs = wret_def wfail_def wlift_def wupdate_def wrecode_def wdefer_def on_git_def on_git_error_def

subsection \<open>What a projection is\<close>

definition sections_of :: "gitdiff \<Rightarrow> bytes \<Rightarrow> change list option" where
  "sections_of gd raw =
     (if TrimSpace raw = [] then Some []
      else case Parse gd raw of Inl ErrEmpty \<Rightarrow> Some [] | Inl _ \<Rightarrow> None | Inr s \<Rightarrow> Some (ps_Changes s))"

definition readable :: "doublestar \<Rightarrow> policy \<Rightarrow> repo_id \<Rightarrow> string \<Rightarrow> subject \<Rightarrow> change \<Rightarrow> bool" where
  "readable ds p repo ref s c =
     list_all (\<lambda>path. d_Allowed (Evaluate ds p
       \<lparr>q_Repo = repo, q_Ref = ref, q_Subject = s, q_Path = path, q_Action = ActionRead\<rparr>)) (change_Paths c)"

text \<open>The patch bytes and the counts are those of the readable sections of the diff.\<close>

definition projects ::
  "gitdiff \<Rightarrow> bytes \<Rightarrow> (change \<Rightarrow> bool) \<Rightarrow> bytes \<Rightarrow> int \<Rightarrow> int \<Rightarrow> int \<Rightarrow> bool" where
  "projects gd raw R out n delivered withheld \<longleftrightarrow> (\<exists>cs. sections_of gd raw = Some cs
     \<and> n = int (length cs) \<and> delivered = int (length (filter R cs))
     \<and> withheld = int (length (filter (\<lambda>c. \<not> R c) cs))
     \<and> (if filter R cs = [] then out = []
        else out \<noteq> [] \<and> (\<exists>s'. Parse gd out = Inr s' \<and> map c_raw (ps_Changes s') = map c_raw (filter R cs))))"

lemma Parse_Nil: "Parse gd [] = Inl ErrEmpty"
  by (simp add: Parse_def splitSections_def split_loop.simps close_last_def)

lemma filter_projects:
  assumes "filterForReader d cfg raw p spec repo = Inr (out, n)"
    and "Policy_Subject p (tl_PolicyUserID spec) = Inr s"
  shows "projects (wd_gd d) raw (readable (wd_ds d) p (sr_PolicyRepoID repo) (''refs/heads/'' @ tl_Branch spec) s)
    out (ct_total n) (ct_delivered n) (ct_withheld n)"
proof (cases "sections_of (wd_gd d) raw = Some []")
  case True
  then have "out = []" "n = \<lparr>ct_total = 0, ct_delivered = 0, ct_withheld = 0\<rparr>"
    using assms(1) Parse_nonempty[of "wd_gd d" raw]
    by (auto simp: filterForReader_def sections_of_def Let_def split: if_splits sum.splits patch_error.splits)
  then show ?thesis using True by (simp add: projects_def)
next
  case False
  let ?o = "reader_options d cfg p (sr_PolicyRepoID repo) (tl_Branch spec) s"
  let ?R = "readable (wd_ds d) p (sr_PolicyRepoID repo) (''refs/heads/'' @ tl_Branch spec) s"
  obtain st r where st: "TrimSpace raw \<noteq> []" "Parse (wd_gd d) raw = Inr st" "Pull st ?o = Inr r"
      "out = (case res_Patch r of None \<Rightarrow> [] | Some out \<Rightarrow> out)"
      "n = \<lparr>ct_total = int (length (res_Verdicts r)), ct_delivered = int (length (res_Kept r)),
        ct_withheld = int (length (res_Dropped r))\<rparr>"
    using assms False
    by (auto simp: filterForReader_def sections_of_def Let_def split: if_splits sum.splits patch_error.splits)
  have e: "o_Engine ?o = Some (Evaluate (wd_ds d) p)" by (simp add: reader_options_def)
  have R: "permitted (Evaluate (wd_ds d) p) (options_request ?o) (pull_reqs c) = ?R c" for c
    by (simp add: permitted_pull readable_def list_all_iff options_request_def reader_options_def)
  note C = Pull_counts[OF st(2,3) e, unfolded R]
  have cs: "sections_of (wd_gd d) raw = Some (ps_Changes st)" using st(1,2) by (simp add: sections_of_def)
  have "out \<noteq> [] \<and> (\<exists>s'. Parse (wd_gd d) out = Inr s' \<and> map c_raw (ps_Changes s') = map c_raw (filter ?R (ps_Changes st)))"
    if ne: "filter ?R (ps_Changes st) \<noteq> []"
  proof -
    obtain q where q: "res_Patch r = Some q" "out = q" using ne C(2,4) st(4) by (cases "res_Patch r") auto
    then show ?thesis
      using Pull_delivers[OF st(2,3) q(1) e] Parse_Nil[of "wd_gd d"]
      unfolding permitted_pull[symmetric] R by auto
  qed
  moreover have "out = []" if "filter ?R (ps_Changes st) = []" using that C(2,4) st(4) by simp
  ultimately show ?thesis using cs C(1-3) st(5) by (auto simp: projects_def)
qed

text \<open>A subject with the same profile reads the same sections.\<close>

lemma readable_profile:
  assumes "profile_bytes ds p repo ref ActionRead s = profile_bytes ds p repo ref ActionRead t"
  shows "readable ds p repo ref s = readable ds p repo ref t"
  by (simp add: readable_def fun_eq_iff same_profile_same_decision[OF assms])

subsection \<open>The cache only holds projections\<close>

record 'r call =
  cl_policy :: policy
  cl_spec :: pull_spec
  cl_repo :: store_repository
  cl_from :: string
  cl_tip :: string
  cl_r :: 'r
  cl_now :: instant

definition call_ref :: "'r call \<Rightarrow> string" where "call_ref c = ''refs/heads/'' @ tl_Branch (cl_spec c)"

definition run_call ::
  "('b, 'g, 'r) wdeps \<Rightarrow> worker_config \<Rightarrow> 'r call \<Rightarrow> (entry \<times> bool, ('b, 'g) wstate) work" where
  "run_call d cfg c =
     project d cfg (cl_now c) (cl_policy c) (cl_spec c) (cl_repo c) (cl_from c) (cl_tip c) (cl_r c)"

definition call_profile :: "('b, 'g, 'r) wdeps \<Rightarrow> 'r call \<Rightarrow> subject \<Rightarrow> bytes" where
  "call_profile d c s = profile_bytes (wd_ds d) (cl_policy c) (sr_PolicyRepoID (cl_repo c)) (call_ref c) ActionRead s"

definition call_key :: "('b, 'g, 'r) wdeps \<Rightarrow> 'r call \<Rightarrow> subject \<Rightarrow> cache_key" where
  "call_key d c s =
     \<lparr>k_Repository = tl_Remote (cl_spec c), k_From = cl_from c, k_To = cl_tip c, k_Profile = wd_dg d (call_profile d c s)\<rparr>"

text \<open>
  What a sequence of calls stays within: the bundles in force (\<open>B\<close>), the encodings that are hashed (\<open>H\<close>)
  and the compressed patches (\<open>U\<close>), for the diffs \<open>diff\<close> of the repositories.
\<close>

definition call_ok ::
  "('b, 'g, 'r) wdeps \<Rightarrow> worker_config \<Rightarrow> ('r \<Rightarrow> string) \<Rightarrow> (string \<Rightarrow> string \<Rightarrow> string \<Rightarrow> bytes) \<Rightarrow>
     policy set \<Rightarrow> bytes set \<Rightarrow> bytes set \<Rightarrow> 'r call \<Rightarrow> bool" where
  "call_ok d cfg repo_of diff B H U c \<longleftrightarrow>
     repo_of (cl_r c) = tl_Remote (cl_spec c) \<and> cl_policy c \<in> B
   \<and> (\<forall>s. Policy_Subject (cl_policy c) (tl_PolicyUserID (cl_spec c)) = Inr s \<longrightarrow>
        call_profile d c s \<in> H \<and> key_bytes (call_key d c s) \<in> H)
   \<and> (\<forall>out n. filterForReader d cfg (diff (tl_Remote (cl_spec c)) (cl_from c) (cl_tip c)) (cl_policy c)
        (cl_spec c) (cl_repo c) = Inr (out, n) \<longrightarrow> wd_zenc d out \<in> U)"

definition entry_exact ::
  "('b, 'g, 'r) wdeps \<Rightarrow> (bytes \<Rightarrow> bytes) \<Rightarrow> bytes set \<Rightarrow> bytes \<Rightarrow> (change \<Rightarrow> bool) \<Rightarrow> entry \<Rightarrow> bool" where
  "entry_exact d sha U raw R e \<longleftrightarrow> (\<exists>out.
     projects (wd_gd d) raw R out (en_FilesTotal e) (en_FilesDelivered e) (en_FilesWithheld e)
   \<and> (case en_Patch e of
        None \<Rightarrow> out = []
      | Some pb \<Rightarrow> out \<noteq> [] \<and> pb_Digest pb = Digest sha (wd_zenc d out) \<and> wd_zenc d out \<in> U
          \<and> pb_Encoding pb = EncodingZstd))"

definition record_exact ::
  "('b, 'g, 'r) wdeps \<Rightarrow> (bytes \<Rightarrow> bytes) \<Rightarrow> (string \<Rightarrow> string \<Rightarrow> string \<Rightarrow> bytes) \<Rightarrow> policy set \<Rightarrow> bytes set \<Rightarrow>
     bytes set \<Rightarrow> cached \<Rightarrow> bool" where
  "record_exact d sha diff B H U rc \<longleftrightarrow> (\<exists>k p repo ref s.
     p \<in> B \<and> rc_key rc = Key_Hash (wd_dg d) k \<and> key_bytes k \<in> H
   \<and> profile_bytes (wd_ds d) p repo ref ActionRead s \<in> H
   \<and> k_Profile k = wd_dg d (profile_bytes (wd_ds d) p repo ref ActionRead s)
   \<and> entry_exact d sha U (diff (k_Repository k) (k_From k) (k_To k)) (readable (wd_ds d) p repo ref s) (rc_entry rc))"

definition stable_diffs :: "('g, 'r) git_ops \<Rightarrow> ('r \<Rightarrow> string) \<Rightarrow> (string \<Rightarrow> string \<Rightarrow> string \<Rightarrow> bytes) \<Rightarrow> bool" where
  "stable_diffs git repo_of diff \<longleftrightarrow>
     (\<forall>r a b g raw g'. gt_Diff git r a b g = (Inr raw, g') \<longrightarrow> raw = diff (repo_of r) a b)"

lemma Cache_Get_facts:
  assumes "cache_inv c" "Cache_Get dg stat now k c = (res, c')"
  shows "cache_inv c'" "set (abs_cache c') \<subseteq> set (abs_cache c)"
    and "res = Some e \<Longrightarrow> \<exists>rc \<in> set (abs_cache c). rc_key rc = Key_Hash dg k \<and> rc_entry rc = e"
    and "res = Some e \<Longrightarrow> en_Patch e = Some pb \<Longrightarrow> stat (pb_Digest pb)"
proof -
  let ?h = "Key_Hash dg k"
  have ok: "cache_ok c" "length (c_order c) \<le> c_max c" using assms(1) by (simp_all add: cache_inv_def)
  note L = Get_lookup_refines[OF ok(1), of now ?h]
  note D = Get_drop_refines[OF L(3), of ?h]
  have sub: "set (snd (spec_lookup now ?h xs)) \<subseteq> set xs" for xs
    by (auto simp: spec_lookup_def others_def dest: find_SomeD split: option.splits if_splits)
  consider "c' = c" "res = None" | "c' = snd (Get_lookup now ?h c)" "res = fst (Get_lookup now ?h c)"
      "\<forall>e pb. res = Some e \<longrightarrow> en_Patch e = Some pb \<longrightarrow> stat (pb_Digest pb)"
    | "c' = Get_drop ?h (snd (Get_lookup now ?h c))" "res = None"
    using assms(2) by (auto simp: Cache_Get_def split: if_splits prod.splits option.splits)
  then have "cache_inv c' \<and> set (abs_cache c') \<subseteq> set (abs_cache c)
      \<and> (\<forall>e. res = Some e \<longrightarrow> (\<exists>rc \<in> set (abs_cache c). rc_key rc = ?h \<and> rc_entry rc = e)
          \<and> (\<forall>pb. en_Patch e = Some pb \<longrightarrow> stat (pb_Digest pb)))"
  proof cases
    case 1
    then show ?thesis using assms(1) by simp
  next
    case 2
    have "\<exists>rc \<in> set (abs_cache c). rc_key rc = ?h \<and> rc_entry rc = e" if "res = Some e" for e
      using that 2(2) L(1) by (auto simp: spec_lookup_def dest: find_SomeD split: option.splits if_splits)
    then show ?thesis using 2 L(2-6) ok(2) sub[of "abs_cache c"] by (auto simp: cache_inv_def)
  next
    case 3
    have "set (abs_cache c') \<subseteq> set (abs_cache c)"
      unfolding 3(1) D(1) using L(2) sub[of "abs_cache c"] by (auto simp: others_def)
    then show ?thesis using 3 L(4,6) D(2-5) ok(2) by (auto simp: cache_inv_def)
  qed
  then show "cache_inv c'" "set (abs_cache c') \<subseteq> set (abs_cache c)"
    "res = Some e \<Longrightarrow> \<exists>rc \<in> set (abs_cache c). rc_key rc = ?h \<and> rc_entry rc = e"
    "res = Some e \<Longrightarrow> en_Patch e = Some pb \<Longrightarrow> stat (pb_Digest pb)" by blast+
qed

lemma Cache_Put_facts:
  assumes "cache_inv c"
  shows "cache_inv (Cache_Put dg now k e c)"
    and "rc \<in> set (abs_cache (Cache_Put dg now k e c)) \<Longrightarrow>
      rc \<in> set (abs_cache c) \<or> rc_key rc = Key_Hash dg k \<and> rc_entry rc = e"
proof -
  note P = Put_locked_refines[OF assms, of now "Key_Hash dg k" e]
  show "cache_inv (Cache_Put dg now k e c)" using P(1) assms by (simp add: Cache_Put_def)
  show "rc \<in> set (abs_cache (Cache_Put dg now k e c)) \<Longrightarrow>
      rc \<in> set (abs_cache c) \<or> rc_key rc = Key_Hash dg k \<and> rc_entry rc = e"
    using P(2) by (auto simp: Cache_Put_def spec_put_def others_def dest!: in_set_takeD split: if_splits)
qed

definition pulls_ok ::
  "('b, 'g, 'r) wdeps \<Rightarrow> (bytes \<Rightarrow> bytes) \<Rightarrow> (string \<Rightarrow> string \<Rightarrow> string \<Rightarrow> bytes) \<Rightarrow> policy set \<Rightarrow> bytes set \<Rightarrow>
     bytes set \<Rightarrow> ('b \<Rightarrow> bool) \<Rightarrow> ('b, 'g) wstate \<Rightarrow> bool" where
  "pulls_ok d sha diff B H U valid st \<longleftrightarrow>
     valid (ws_blobs st) \<and> cache_inv (ws_pulls st)
   \<and> (\<forall>rc \<in> set (abs_cache (ws_pulls st)). record_exact d sha diff B H U rc)"

text \<open>What the client can fetch: the patch decodes to the readable sections, the counts are theirs.\<close>

definition served ::
  "('b, 'g, 'r) wdeps \<Rightarrow> 'b \<Rightarrow> bytes \<Rightarrow> (change \<Rightarrow> bool) \<Rightarrow> entry \<Rightarrow> bool" where
  "served d blobs raw R e \<longleftrightarrow> (\<exists>out.
     projects (wd_gd d) raw R out (en_FilesTotal e) (en_FilesDelivered e) (en_FilesWithheld e)
   \<and> (case en_Patch e of
        None \<Rightarrow> out = []
      | Some pb \<Rightarrow> out \<noteq> [] \<and> pb_Encoding pb = EncodingZstd
          \<and> (\<exists>content. b_Get (wd_blobs d) (pb_Digest pb) blobs = Inr content \<and> wd_zdec d content = (out, True))))"

lemma Compress_zstd: "Compress zenc x EncodingZstd = Inr (zenc x)"
  by (simp add: Compress_def is_zstd_def)

definition call_readable :: "('b, 'g, 'r) wdeps \<Rightarrow> 'r call \<Rightarrow> subject \<Rightarrow> change \<Rightarrow> bool" where
  "call_readable d c s = readable (wd_ds d) (cl_policy c) (sr_PolicyRepoID (cl_repo c)) (call_ref c) s"

definition call_diff :: "(string \<Rightarrow> string \<Rightarrow> string \<Rightarrow> bytes) \<Rightarrow> 'r call \<Rightarrow> bytes" where
  "call_diff diff c = diff (tl_Remote (cl_spec c)) (cl_from c) (cl_tip c)"

lemma record_for_call:
  assumes "record_exact d sha diff B H U rc" "rc_key rc = Key_Hash (wd_dg d) (call_key d c s)"
    and "call_ok d cfg repo_of diff B H U c" "Policy_Subject (cl_policy c) (tl_PolicyUserID (cl_spec c)) = Inr s"
    and "inj_on (wd_dg d) H" "inj_on p_version B"
  shows "entry_exact d sha U (call_diff diff c) (call_readable d c s) (rc_entry rc)"
proof -
  obtain k p repo ref t where k: "p \<in> B" "Key_Hash (wd_dg d) (call_key d c s) = Key_Hash (wd_dg d) k" "key_bytes k \<in> H"
      "profile_bytes (wd_ds d) p repo ref ActionRead t \<in> H"
      "k_Profile k = wd_dg d (profile_bytes (wd_ds d) p repo ref ActionRead t)"
      "entry_exact d sha U (diff (k_Repository k) (k_From k) (k_To k)) (readable (wd_ds d) p repo ref t) (rc_entry rc)"
    using assms(1,2) by (auto simp: record_exact_def)
  have h: "key_bytes (call_key d c s) \<in> H" "call_profile d c s \<in> H" "cl_policy c \<in> B"
    using assms(3,4) by (auto simp: call_ok_def)
  have key: "call_key d c s = k"
    using inj_onD[OF assms(5) _ h(1) k(3)] k(2) key_bytes_inj by (simp add: Key_Hash_def)
  then have "wd_dg d (call_profile d c s) = wd_dg d (profile_bytes (wd_ds d) p repo ref ActionRead t)"
    using k(5) by (auto simp: call_key_def)
  from inj_onD[OF assms(5) this h(2) k(4)]
  have prof: "profile_bytes (wd_ds d) (cl_policy c) (sr_PolicyRepoID (cl_repo c)) (call_ref c) ActionRead s
      = profile_bytes (wd_ds d) p repo ref ActionRead t" by (simp add: call_profile_def)
  have same: "cl_policy c = p" "sr_PolicyRepoID (cl_repo c) = repo" "call_ref c = ref"
    using inj_onD[OF assms(6) _ h(3) k(1)] profile_bytes_eqD(1-3)[OF prof] by blast+
  have "call_readable d c s = readable (wd_ds d) p repo ref t"
    using readable_profile[OF prof[unfolded same]] by (simp add: call_readable_def same)
  then show ?thesis using k(6) key by (auto simp: call_diff_def call_key_def)
qed

context blob_store
begin

lemma entry_served:
  assumes "wd_blobs d = ops" "valid blobs" "\<forall>x. wd_zdec d (wd_zenc d x) = (x, True)"
    and "entry_exact d sha U raw R e"
    and "\<And>pb. en_Patch e = Some pb \<Longrightarrow> contents blobs (pb_Digest pb) \<noteq> None"
  shows "served d blobs raw R e"
proof -
  obtain out where out: "projects (wd_gd d) raw R out (en_FilesTotal e) (en_FilesDelivered e) (en_FilesWithheld e)"
      "case en_Patch e of None \<Rightarrow> out = []
      | Some pb \<Rightarrow> out \<noteq> [] \<and> pb_Digest pb = Digest sha (wd_zenc d out) \<and> wd_zenc d out \<in> U
          \<and> pb_Encoding pb = EncodingZstd"
    using assms(4) by (auto simp: entry_exact_def)
  have "b_Get ops (pb_Digest pb) blobs = Inr (wd_zenc d out)" if pb: "en_Patch e = Some pb" for pb
  proof -
    obtain c where c: "contents blobs (pb_Digest pb) = Some c" using assms(5)[OF pb] by blast
    have "c \<in> U" "pb_Digest pb = Digest sha c" "sha_ok sha U"
      using valid_addressed[OF assms(2)] c by (auto simp: addressed_def)
    then have "c = wd_zenc d out" using out(2) pb Digest_inj by auto
    then show ?thesis using get[OF assms(2)] c stored_valid_digest[OF assms(2) c] by simp
  qed
  then show ?thesis using out assms(1,3) by (auto simp: served_def intro!: exI[of _ out] split: option.splits)
qed

lemma store_patch:
  assumes "wd_blobs d = ops" "wc_MaxPatchBytes cfg < 2 ^ 63 - 1" "valid (ws_blobs st)" "wd_zenc d out \<in> U"
    and "storePullPatch d cfg now out st = (res, st')"
  shows "ws_pulls st' = ws_pulls st \<and> valid (ws_blobs st')
    \<and> (\<forall>pb. res = Inr pb \<longrightarrow> pb_Digest pb = Digest sha (wd_zenc d out) \<and> pb_Encoding pb = EncodingZstd
        \<and> contents (ws_blobs st') (pb_Digest pb) \<noteq> None)"
proof (cases "b_Put ops (wd_zenc d out) [] (wc_MaxPatchBytes cfg) (ws_blobs st)")
  case (Inl e)
  then show ?thesis using assms(1,3,5) by (auto simp: storePullPatch_def Compress_zstd)
next
  case (Inr x)
  obtain desc blobs where x: "x = (desc, blobs)" by (cases x)
  note P = put_then_get[OF assms(3,4,2) Inr[unfolded x]]
  obtain m a where "res = Inr \<lparr>pb_Digest = ds_Digest desc, pb_Size = ds_Size desc, pb_Encoding = EncodingZstd,
      pb_UncompressedSize = int (length out)\<rparr>" "st' = st\<lparr>ws_store := m, ws_blobs := blobs\<rparr>"
    using assms(1,5) Inr x by (auto simp: storePullPatch_def Compress_zstd Let_def split: prod.splits)
  then show ?thesis using P by simp
qed

lemma produce_exact:
  assumes "wd_blobs d = ops" "wc_MaxPatchBytes cfg < 2 ^ 63 - 1" "stable_diffs (wd_git d) repo_of diff"
    and "call_ok d cfg repo_of diff B H U c" "Policy_Subject (cl_policy c) (tl_PolicyUserID (cl_spec c)) = Inr s"
    and "valid (ws_blobs st)"
    and "produce d cfg (cl_now c) (cl_policy c) (cl_spec c) (cl_repo c) (cl_from c) (cl_tip c) (cl_r c) st = (res, st')"
  shows "ws_pulls st' = ws_pulls st \<and> valid (ws_blobs st')
    \<and> (\<forall>e. res = Inr e \<longrightarrow> entry_exact d sha U (call_diff diff c) (call_readable d c s) e
        \<and> (\<forall>pb. en_Patch e = Some pb \<longrightarrow> contents (ws_blobs st') (pb_Digest pb) \<noteq> None))"
  using assms(7) unfolding produce_def
proof (cases rule: wbind_cases)
  case (failed e)
  then show ?thesis using assms(6) by (auto simp: on_git_def split: prod.splits)
next
  case (went raw st1)
  obtain g where "gt_Diff (wd_git d) (cl_r c) (cl_from c) (cl_tip c) (ws_git st) = (Inr raw, g)"
    using went(1) by (auto simp: on_git_def split: prod.splits)
  then have "raw = diff (repo_of (cl_r c)) (cl_from c) (cl_tip c)" using assms(3) unfolding stable_diffs_def by blast
  then have raw: "raw = call_diff diff c" using assms(4) by (simp add: call_ok_def call_diff_def)
  have st1: "ws_pulls st1 = ws_pulls st" "valid (ws_blobs st1)"
    using went(1) assms(6) by (auto simp: on_git_def split: prod.splits)
  show ?thesis
  proof (cases "filterForReader d cfg raw (cl_policy c) (cl_spec c) (cl_repo c)")
    case (Inl e)
    then show ?thesis using went(2) st1 by (auto simp: wbind_def wlift_def)
  next
    case (Inr x)
    obtain out n where f: "filterForReader d cfg raw (cl_policy c) (cl_spec c) (cl_repo c) = Inr (out, n)"
      using Inr by (cases x) simp
    have U: "wd_zenc d out \<in> U" using assms(4) f unfolding raw call_ok_def call_diff_def by blast
    have proj: "projects (wd_gd d) (call_diff diff c) (call_readable d c s) out (ct_total n) (ct_delivered n) (ct_withheld n)"
      using filter_projects[OF f assms(5)] by (simp add: raw call_readable_def call_ref_def)
    show ?thesis
    proof (cases "out = []")
      case True
      then show ?thesis using went(2) f st1 proj
        by (auto simp: wbind_def wlift_def wret_def entry_exact_def intro!: exI[of _ "[]"])
    next
      case False
      obtain q st2 where q: "storePullPatch d cfg (cl_now c) out st1 = (q, st2)"
        by (cases "storePullPatch d cfg (cl_now c) out st1")
      have 2: "(res, st') = (case q of Inl e \<Rightarrow> (Inl e, st2) | Inr pb \<Rightarrow> (Inr \<lparr>en_Patch = Some pb,
          en_FilesTotal = ct_total n, en_FilesDelivered = ct_delivered n, en_FilesWithheld = ct_withheld n\<rparr>, st2))"
        using went(2) f False q by (auto simp: wbind_def wlift_def wret_def split: sum.splits)
      note S = store_patch[OF assms(1,2) st1(2) U q]
      show ?thesis
      proof (cases q)
        case (Inl e)
        then show ?thesis using 2 S st1 by simp
      next
        case (Inr pb)
        then have "entry_exact d sha U (call_diff diff c) (call_readable d c s) \<lparr>en_Patch = Some pb,
            en_FilesTotal = ct_total n, en_FilesDelivered = ct_delivered n, en_FilesWithheld = ct_withheld n\<rparr>"
          using proj S U False unfolding entry_exact_def by (intro exI[of _ out]) simp
        then show ?thesis using 2 S st1 Inr by auto
      qed
    qed
  qed
qed

lemma stat_stored:
  assumes "valid blobs" "\<not> isl (b_Stat ops x blobs)"
  shows "contents blobs x \<noteq> None"
  using assms(2) unfolding stat[OF assms(1)] by (cases "ValidateDigest x") (auto split: option.splits)

text \<open>One projection, from the cache or not: it is exact, and the cache stays exact.\<close>

lemma run_call_exact:
  assumes d: "wd_blobs d = ops" "wc_MaxPatchBytes cfg < 2 ^ 63 - 1" "stable_diffs (wd_git d) repo_of diff"
      "\<forall>x. wd_zdec d (wd_zenc d x) = (x, True)" "inj_on (wd_dg d) H" "inj_on p_version B"
    and ok: "call_ok d cfg repo_of diff B H U c" and st: "pulls_ok d sha diff B H U valid st"
    and run: "run_call d cfg c st = (res, st')"
  shows "pulls_ok d sha diff B H U valid st'
    \<and> (\<forall>e reused. res = Inr (e, reused) \<longrightarrow> (\<exists>s. Policy_Subject (cl_policy c) (tl_PolicyUserID (cl_spec c)) = Inr s
        \<and> served d (ws_blobs st') (call_diff diff c) (call_readable d c s) e))"
proof (cases "Policy_Subject (cl_policy c) (tl_PolicyUserID (cl_spec c))")
  case (Inl e)
  then show ?thesis using run st by (auto simp: run_call_def project_def wfail_def)
next
  case (Inr s)
  have I: "valid (ws_blobs st)" "cache_inv (ws_pulls st)"
      "\<forall>rc \<in> set (abs_cache (ws_pulls st)). record_exact d sha diff B H U rc"
    using st by (simp_all add: pulls_ok_def)
  let ?stat = "\<lambda>x. \<not> isl (b_Stat (wd_blobs d) x (ws_blobs st))"
  obtain hit c1 where g: "Cache_Get (wd_dg d) ?stat (cl_now c) (call_key d c s) (ws_pulls st) = (hit, c1)"
    by (cases "Cache_Get (wd_dg d) ?stat (cl_now c) (call_key d c s) (ws_pulls st)")
  note C = Cache_Get_facts[OF I(2) g]
  let ?st1 = "st\<lparr>ws_pulls := c1\<rparr>"
  have st1: "pulls_ok d sha diff B H U valid ?st1" using I C(1,2) by (auto simp: pulls_ok_def)
  have key: "\<lparr>k_Repository = tl_Remote (cl_spec c), k_From = cl_from c, k_To = cl_tip c,
      k_Profile = Profile (wd_dg d) (wd_ds d) (cl_policy c) (sr_PolicyRepoID (cl_repo c))
        (''refs/heads/'' @ tl_Branch (cl_spec c)) ActionRead s\<rparr> = call_key d c s"
    by (simp add: call_key_def call_profile_def call_ref_def Profile_def)
  have look: "cache_lookup d (cl_now c) (call_key d c s) st = (Inr hit, ?st1)" by (simp add: cache_lookup_def g)
  let ?produce = "produce d cfg (cl_now c) (cl_policy c) (cl_spec c) (cl_repo c) (cl_from c) (cl_tip c) (cl_r c)"
  have run': "(res, st') = (case hit of Some e \<Rightarrow> (Inr (e, True), ?st1)
      | None \<Rightarrow> wbind ?produce (\<lambda>e. wbind (cache_store d (cl_now c) (call_key d c s) e) (\<lambda>_. wret (e, False))) ?st1)"
    using run[unfolded run_call_def project_def Inr sum.case Let_def key]
    unfolding wbind_def[of "cache_lookup d (cl_now c) (call_key d c s)"] look
    by (simp add: wret_def split: option.splits)
  show ?thesis
  proof (cases hit)
    case (Some e)
    obtain rc where rc: "rc \<in> set (abs_cache (ws_pulls st))" "rc_key rc = Key_Hash (wd_dg d) (call_key d c s)" "rc_entry rc = e"
      using C(3) Some by blast
    have "entry_exact d sha U (call_diff diff c) (call_readable d c s) e"
      using record_for_call[OF _ rc(2) ok Inr d(5,6)] I(3) rc(1,3) by blast
    then have "served d (ws_blobs st) (call_diff diff c) (call_readable d c s) e"
      by (rule entry_served[OF d(1) I(1) d(4)]) (use C(4) Some stat_stored[OF I(1)] d(1) in blast)
    then show ?thesis using run' Some st1 Inr by simp
  next
    case None
    obtain q st2 where q: "?produce ?st1 = (q, st2)" by (cases "?produce ?st1")
    have "valid (ws_blobs ?st1)" using I(1) by simp
    note P = produce_exact[OF d(1-3) ok Inr this q]
    show ?thesis
    proof (cases q)
      case (Inl e)
      then show ?thesis using run' None q P st1 by (auto simp: wbind_def pulls_ok_def)
    next
      case (Inr e)
      let ?c2 = "Cache_Put (wd_dg d) (cl_now c) (call_key d c s) e c1"
      have fin: "res = Inr (e, False)" "st' = st2\<lparr>ws_pulls := ?c2\<rparr>"
        using run' None q Inr P by (auto simp: wbind_def cache_store_def wupdate_def wret_def)
      have "call_profile d c s \<in> H" "key_bytes (call_key d c s) \<in> H" "cl_policy c \<in> B"
        using ok \<open>Policy_Subject (cl_policy c) (tl_PolicyUserID (cl_spec c)) = Inr s\<close> by (auto simp: call_ok_def)
      then have new: "record_exact d sha diff B H U rc"
        if "rc_key rc = Key_Hash (wd_dg d) (call_key d c s)" "rc_entry rc = e" for rc
        using P Inr that unfolding record_exact_def
        by (intro exI[of _ "call_key d c s"] exI[of _ "cl_policy c"] exI[of _ "sr_PolicyRepoID (cl_repo c)"]
            exI[of _ "call_ref c"] exI[of _ s])
          (simp add: call_key_def call_profile_def call_diff_def call_readable_def)
      have "pulls_ok d sha diff B H U valid st'"
        using P Cache_Put_facts[OF C(1)] new C(2) I(3) unfolding pulls_ok_def fin by fastforce
      moreover have "served d (ws_blobs st2) (call_diff diff c) (call_readable d c s) e"
        by (rule entry_served[OF d(1) _ d(4)]) (use P Inr in auto)
      ultimately show ?thesis
        using fin \<open>Policy_Subject (cl_policy c) (tl_PolicyUserID (cl_spec c)) = Inr s\<close> by simp
    qed
  qed
qed

text \<open>Calls in any order, with blobs swept between them.\<close>

lemma sweep_ok:
  assumes "wd_blobs d = ops" "pulls_ok d sha diff B H U valid st"
  shows "pulls_ok d sha diff B H U valid
    (st\<lparr>ws_blobs := (case b_Delete (wd_blobs d) x (ws_blobs st) of Inl _ \<Rightarrow> ws_blobs st | Inr b \<Rightarrow> b)\<rparr>)"
  using assms delete[of "ws_blobs st" x] by (auto simp: pulls_ok_def split: sum.splits)

end

datatype 'r wevent = Project "'r call" | Sweep string

fun wevent_run :: "('b, 'g, 'r) wdeps \<Rightarrow> worker_config \<Rightarrow> 'r wevent list \<Rightarrow> ('b, 'g) wstate \<Rightarrow> ('b, 'g) wstate" where
  "wevent_run d cfg [] st = st"
| "wevent_run d cfg (Project c # es) st = wevent_run d cfg es (snd (run_call d cfg c st))"
| "wevent_run d cfg (Sweep x # es) st = wevent_run d cfg es
     (st\<lparr>ws_blobs := (case b_Delete (wd_blobs d) x (ws_blobs st) of Inl _ \<Rightarrow> ws_blobs st | Inr b \<Rightarrow> b)\<rparr>)"

context blob_store
begin

lemma wevent_run_ok:
  assumes "wd_blobs d = ops" "wc_MaxPatchBytes cfg < 2 ^ 63 - 1" "stable_diffs (wd_git d) repo_of diff"
      "\<forall>x. wd_zdec d (wd_zenc d x) = (x, True)" "inj_on (wd_dg d) H" "inj_on p_version B"
    and "\<forall>c. Project c \<in> set es \<longrightarrow> call_ok d cfg repo_of diff B H U c" "pulls_ok d sha diff B H U valid st"
  shows "pulls_ok d sha diff B H U valid (wevent_run d cfg es st)"
  using assms(7,8)
proof (induction es arbitrary: st)
  case (Cons e es)
  show ?case
  proof (cases e)
    case (Project c)
    obtain r st1 where "run_call d cfg c st = (r, st1)" by (cases "run_call d cfg c st")
    then show ?thesis
      using Cons Project run_call_exact[OF assms(1-6) _ Cons.prems(2), of c r st1] by simp
  next
    case (Sweep x)
    then show ?thesis using Cons sweep_ok[OF assms(1) Cons.prems(2)] by simp
  qed
qed simp

end

subsection \<open>What the handlers leave\<close>

text \<open>Steps that only touch git.\<close>

definition same_data :: "('b, 'g) wstate \<Rightarrow> ('b, 'g) wstate \<Rightarrow> bool" where
  "same_data st st' \<longleftrightarrow> ws_store st' = ws_store st \<and> ws_blobs st' = ws_blobs st \<and> ws_pulls st' = ws_pulls st"

definition git_only :: "('a, ('b, 'g) wstate) work \<Rightarrow> bool" where
  "git_only m \<longleftrightarrow> (\<forall>st. same_data st (snd (m st)))"

lemma git_onlyD:
  assumes "git_only m" "m st = (r, st')"
  shows "same_data st st'"
  using assms unfolding git_only_def by (metis snd_conv)

lemma git_only_wret [intro]: "git_only (wret x)" by (simp add: git_only_def same_data_def wret_def)
lemma git_only_wlift [intro]: "git_only (wlift f)" by (simp add: git_only_def same_data_def wlift_def)

lemma git_only_on_git [intro]: "git_only (on_git m)"
  by (simp add: git_only_def same_data_def on_git_def split: prod.split)

lemma git_only_on_git_error [intro]: "git_only (on_git_error h m)"
  by (simp add: git_only_def same_data_def on_git_error_def split: prod.split option.split)

lemma git_only_wrecode [intro]: "git_only m \<Longrightarrow> git_only (wrecode h m)"
  unfolding git_only_def wrecode_def
  by (metis (no_types, lifting) case_prod_beta old.sum.exhaust snd_conv sum.case prod.collapse)

lemma git_only_wbind [intro]:
  assumes "git_only m" "\<And>x. git_only (f x)"
  shows "git_only (wbind m f)"
  unfolding git_only_def
proof
  fix st
  obtain r st' where w: "wbind m f st = (r, st')" by (cases "wbind m f st")
  then have "same_data st st'"
    using git_onlyD[OF assms(1)] git_onlyD[OF assms(2)] by (cases rule: wbind_cases) (force simp: same_data_def)+
  then show "same_data st (snd (wbind m f st))" by (simp add: w)
qed

lemma push_git_only: "git_only (push_commit d now t spec patch r)" "git_only (push_rebase d spec tip r)"
  unfolding push_commit_def push_rebase_def
  by (intro git_only_wbind git_only_wrecode git_only_on_git git_only_on_git_error)+

lemma checkout_git_only: "git_only (checkout d i remote branch)"
  unfolding checkout_def by (intro git_only_wrecode git_only_on_git)

text \<open>
  The part of a push after the branch has been published: the sync point moves exactly when the tree
  of the author is what landed and nothing else moved it meanwhile.
\<close>

lemma advance_cases:
  assumes "advanceSyncPoint d cfg now spec commit st = (res, st')"
  obtains (lookup) e where "Repo_ByPolicyID (ws_store st) (wc_Tenant cfg) (tp_Repository spec) = Inl e"
      "res = Inl (fault d (StoreFault e))" "st' = st"
    | (behind) repo e where "Repo_ByPolicyID (ws_store st) (wc_Tenant cfg) (tp_Repository spec) = Inr repo"
      "CompareAndSet (ws_store st) (push_sync_point cfg now spec (sr_ID repo) commit) (tp_BaseCommit spec) = Inl e"
      "res = Inr []" "st' = st"
    | (moved) repo m where "Repo_ByPolicyID (ws_store st) (wc_Tenant cfg) (tp_Repository spec) = Inr repo"
      "CompareAndSet (ws_store st) (push_sync_point cfg now spec (sr_ID repo) commit) (tp_BaseCommit spec) = Inr m"
      "res = Inr (sign d now (syncPayload (tp_WorkspaceID spec) (sr_ID repo) (tp_Branch spec) commit
         (tp_PolicyVersion spec) (Unix now)))" "st' = st\<lparr>ws_store := m\<rparr>"
proof (cases "Repo_ByPolicyID (ws_store st) (wc_Tenant cfg) (tp_Repository spec)")
  case (Inl e)
  show thesis by (rule lookup[OF Inl]) (use assms Inl in \<open>simp_all add: advanceSyncPoint_def\<close>)
next
  case (Inr repo)
  note repo = this
  show thesis
  proof (cases "CompareAndSet (ws_store st) (push_sync_point cfg now spec (sr_ID repo) commit) (tp_BaseCommit spec)")
    case (Inl e)
    then have "e = ErrConflict \<or> e = ErrNotFound" by (auto simp: CompareAndSet_def Let_def split: if_splits option.splits)
    then have "advanceSyncPoint d cfg now spec commit st = (Inr [], st)"
      using repo Inl by (auto simp: advanceSyncPoint_def)
    then show thesis by (intro behind[OF repo Inl]) (use assms in simp_all)
  next
    case (Inr m)
    show thesis by (rule moved[OF repo Inr]) (use assms repo Inr in \<open>simp_all add: advanceSyncPoint_def\<close>)
  qed
qed

lemma git_then:
  assumes "wbind m f st = (res, st')" "git_only m"
  obtains (stop) e where "res = Inl e" "same_data st st'"
    | (go) x st1 where "m st = (Inr x, st1)" "same_data st st1" "f x st1 = (res, st')"
  using assms by (cases rule: wbind_cases) (auto dest: git_onlyD)

lemma same_data_trans: "same_data a b \<Longrightarrow> same_data b c \<Longrightarrow> same_data a c"
  by (simp add: same_data_def)

lemma sign_nonempty: "sign d now p \<noteq> []"
  by (simp add: sign_def Sign_def version_def Let_def)

text \<open>
  The git calls of a push that lands, in order: the tip of the branch, the author's base, the patch, the commit, its
  replay onto the tip if the branch has moved, and the push of the branch with that tip as lease.
\<close>

definition push_published ::
  "('b, 'g, 'r) wdeps \<Rightarrow> instant \<Rightarrow> task \<Rightarrow> push_spec \<Rightarrow> bytes \<Rightarrow> string \<Rightarrow> 'r \<Rightarrow> 'g \<Rightarrow> string \<Rightarrow> string \<Rightarrow> 'g \<Rightarrow> bool" where
  "push_published d now t spec patch remote r g tip commit g' \<longleftrightarrow> (\<exists>g1 g2 g3 g4 g5 committed.
     gt_ResolveRef (wd_git d) r ''HEAD'' g = (Inr tip, g1)
   \<and> gt_Checkout (wd_git d) r (tp_BaseCommit spec) g1 = (Inr (), g2)
   \<and> gt_Apply (wd_git d) r patch g2 = (None, g3)
   \<and> gt_CommitAll (wd_git d) r (commitMessage spec (t_ID t))
       \<lparr>au_Name = tp_AuthorName spec, au_Email = tp_AuthorEmail spec, au_When = now\<rparr> g3 = (Inr committed, g4)
   \<and> (if tip = tp_BaseCommit spec then commit = committed \<and> g5 = g4
      else \<exists>gr. gt_Rebase (wd_git d) r tip \<lparr>au_Name = tp_AuthorName spec, au_Email = tp_AuthorEmail spec, au_When = 0\<rparr> g4 = (None, gr)
             \<and> gt_ResolveRef (wd_git d) r ''HEAD'' gr = (Inr commit, g5))
   \<and> gt_Push (wd_git d) r remote (tp_Branch spec) tip g5 = (Inr (), g'))"

text \<open>What a push leaves in the store, given the tip it started from and the commit it published.\<close>

definition push_left ::
  "('b, 'g, 'r) wdeps \<Rightarrow> worker_config \<Rightarrow> instant \<Rightarrow> task \<Rightarrow> push_spec \<Rightarrow> string \<Rightarrow> string \<Rightarrow> mem \<Rightarrow> mem \<Rightarrow> bytes \<Rightarrow> bool" where
  "push_left d cfg now t spec tip commit m m' out \<longleftrightarrow> (\<exists>token row.
     out = wd_push_result d \<lparr>ur_UpstreamCommit = commit, ur_NextSync = token,
       ur_Report = no_report\<lparr>rp_PolicyVersion := tp_PolicyVersion spec\<rparr>\<rparr>
   \<and> m_audit m' = m_audit m @ [row] \<and> ar_Action row = ''push.applied'' \<and> ar_TaskID row = t_ID t
   \<and> ar_ActorUserID row = tp_UserID spec \<and> m_tasks m' = m_tasks m
   \<and> (if token = [] then m_syncPoints m' = m_syncPoints m
      else tp_DroppedFiles spec = 0 \<and> tip = tp_BaseCommit spec
       \<and> (\<exists>repo. Repo_ByPolicyID m (wc_Tenant cfg) (tp_Repository spec) = Inr repo
           \<and> (case map_of (m_syncPoints m) (tp_WorkspaceID spec, sr_ID repo, tp_Branch spec) of
                None \<Rightarrow> tp_BaseCommit spec = [] | Some sp \<Rightarrow> syn_UpstreamCommit sp = tp_BaseCommit spec)
           \<and> map_option syn_UpstreamCommit (map_of (m_syncPoints m') (tp_WorkspaceID spec, sr_ID repo, tp_Branch spec))
               = Some commit
           \<and> token = sign d now (syncPayload (tp_WorkspaceID spec) (sr_ID repo) (tp_Branch spec) commit
               (tp_PolicyVersion spec) (Unix now)))))"

lemma on_git_InrD: "on_git m st = (Inr x, st') \<Longrightarrow> m (ws_git st) = (Inr x, ws_git st')"
  by (auto simp: on_git_def split: prod.splits)

lemma wrecode_InrD: "wrecode h m st = (Inr x, st') \<Longrightarrow> m st = (Inr x, st')"
  by (auto simp: wrecode_def split: prod.splits sum.splits)

lemma on_git_error_InrD: "on_git_error h m st = (Inr x, st') \<Longrightarrow> m (ws_git st) = (None, ws_git st')"
  by (auto simp: on_git_error_def split: prod.splits option.splits)

lemma push_commit_calls:
  assumes "push_commit d now t spec patch r st = (Inr commit, st')"
  shows "\<exists>g2 g3. gt_Checkout (wd_git d) r (tp_BaseCommit spec) (ws_git st) = (Inr (), g2)
    \<and> gt_Apply (wd_git d) r patch g2 = (None, g3)
    \<and> gt_CommitAll (wd_git d) r (commitMessage spec (t_ID t))
       \<lparr>au_Name = tp_AuthorName spec, au_Email = tp_AuthorEmail spec, au_When = now\<rparr> g3 = (Inr commit, ws_git st')"
  using assms unfolding push_commit_def
  by (elim wbind_InrE) (auto dest!: on_git_InrD wrecode_InrD on_git_error_InrD)

lemma push_rebase_calls:
  assumes "push_rebase d spec tip r st = (Inr commit, st')"
  shows "\<exists>gr. gt_Rebase (wd_git d) r tip \<lparr>au_Name = tp_AuthorName spec, au_Email = tp_AuthorEmail spec, au_When = 0\<rparr> (ws_git st) = (None, gr)
    \<and> gt_ResolveRef (wd_git d) r ''HEAD'' gr = (Inr commit, ws_git st')"
  using assms unfolding push_rebase_def
  by (elim wbind_InrE) (auto dest!: on_git_InrD on_git_error_InrD)

lemma advance_git: "advanceSyncPoint d cfg now spec commit st = (res, st') \<Longrightarrow> ws_git st' = ws_git st"
  by (auto simp: advanceSyncPoint_def split: sum.splits if_splits)

lemma CompareAndSet_InrD:
  assumes "CompareAndSet m sp expected = Inr m'"
  shows "m_audit m' = m_audit m" "m_tasks m' = m_tasks m"
    "case map_of (m_syncPoints m) (key_of sp) of None \<Rightarrow> expected = [] | Some e \<Rightarrow> syn_UpstreamCommit e = expected"
    "map_option syn_UpstreamCommit (map_of (m_syncPoints m') (key_of sp)) = Some (syn_UpstreamCommit sp)"
  using assms by (auto simp: CompareAndSet_def Let_def split: if_splits option.splits)

lemma append_one_row:
  "m_audit (Audit_Append now m [row]) = m_audit m @ [row\<lparr>ar_ID := m_auditSeq m + 1,
     ar_OccurredAt := (if ar_OccurredAt row = 0 then now else ar_OccurredAt row)\<rparr>]"
  by (simp add: Audit_Append_def append_one_def Let_def)

lemma push_left_unmoved:
  "push_left d cfg now t spec tip commit m (Audit_Append now m [push_audit d cfg now t spec commit])
     (wd_push_result d \<lparr>ur_UpstreamCommit = commit, ur_NextSync = [],
        ur_Report = no_report\<lparr>rp_PolicyVersion := tp_PolicyVersion spec\<rparr>\<rparr>)"
  unfolding push_left_def
  by (rule exI[of _ "[]"]) (simp add: append_one_row push_audit_def Audit_Append_def append_one_def Let_def)

lemma push_land_left:
  assumes "push_land d cfg now t spec patch remote r st = (res, st')"
  shows "ws_blobs st' = ws_blobs st \<and> ws_pulls st' = ws_pulls st
    \<and> (case res of Inl e \<Rightarrow> ws_store st' = ws_store st
       | Inr out \<Rightarrow> \<exists>tip commit. push_published d now t spec patch remote r (ws_git st) tip commit (ws_git st')
           \<and> push_left d cfg now t spec tip commit (ws_store st) (ws_store st') out)"
  using assms[unfolded push_land_def] git_only_on_git
proof (cases rule: git_then)
  case (go tip st1)
  note 1 = this
  from 1(3) push_git_only(1) show ?thesis
  proof (cases rule: git_then)
    case (go commit0 st2)
    note 2 = this
    have "git_only (if tip \<noteq> tp_BaseCommit spec then push_rebase d spec tip r else wret commit0)"
      by (simp add: push_git_only(2) git_only_wret)
    from 2(3) this show ?thesis
    proof (cases rule: git_then)
      case (go commit st3)
      note 3 = this
      from 3(3) git_only_wrecode[OF git_only_on_git] show ?thesis
      proof (cases rule: git_then)
        case (go u st4)
        have same: "same_data st st4" using 1(2) 2(2) 3(2) go(2) by (blast intro: same_data_trans)
        have pub: "push_published d now t spec patch remote r (ws_git st) tip commit (ws_git st4)"
          using on_git_InrD[OF 1(1)] push_commit_calls[OF 2(1)] 3(1) push_rebase_calls on_git_InrD[OF wrecode_InrD[OF go(1)]]
          unfolding push_published_def by (cases "tip = tp_BaseCommit spec") (simp add: wret_def, blast, fastforce)
        let ?adv = "if tip = tp_BaseCommit spec \<and> tp_DroppedFiles spec = 0
          then advanceSyncPoint d cfg now spec commit else wret []"
        let ?row = "push_audit d cfg now t spec commit"
        obtain q st5 where q: "?adv st4 = (q, st5)" by (cases "?adv st4")
        have fin: "(res, st') = (case q of Inl e \<Rightarrow> (Inl e, st5)
            | Inr token \<Rightarrow> (Inr (wd_push_result d \<lparr>ur_UpstreamCommit = commit, ur_NextSync = token,
                ur_Report = no_report\<lparr>rp_PolicyVersion := tp_PolicyVersion spec\<rparr>\<rparr>),
              st5\<lparr>ws_store := Audit_Append now (ws_store st5) [?row]\<rparr>))"
          using go(3) q unfolding wbind_def[of ?adv]
          by (cases q) (auto simp: wbind_def record_row_def wupdate_def wret_def)
        have row: "ar_Action ?row = ''push.applied''" "ar_TaskID ?row = t_ID t" "ar_ActorUserID ?row = tp_UserID spec"
          by (simp_all add: push_audit_def)
        show ?thesis
        proof (cases "tip = tp_BaseCommit spec \<and> tp_DroppedFiles spec = 0")
          case False
          then have "q = Inr []" "st5 = st4" using q by (auto simp: wret_def)
          then show ?thesis using fin same pub push_left_unmoved[of d cfg now t spec tip commit "ws_store st"]
            by (auto simp: same_data_def)
        next
          case True
          then have "advanceSyncPoint d cfg now spec commit st4 = (q, st5)" using q by simp
          then show ?thesis
          proof (cases rule: advance_cases)
            case (lookup e)
            then show ?thesis using fin same by (simp add: same_data_def)
          next
            case (behind repo e)
            then show ?thesis using fin same pub push_left_unmoved[of d cfg now t spec tip commit "ws_store st"]
              by (auto simp: same_data_def)
          next
            case (moved repo m)
            have key: "key_of (push_sync_point cfg now spec (sr_ID repo) commit) = (tp_WorkspaceID spec, sr_ID repo, tp_Branch spec)"
              "syn_UpstreamCommit (push_sync_point cfg now spec (sr_ID repo) commit) = commit"
              by (simp_all add: key_of_def push_sync_point_def)
            have st: "ws_store st4 = ws_store st" using same by (simp add: same_data_def)
            note C = CompareAndSet_InrD[OF moved(2), unfolded key]
            have "push_left d cfg now t spec tip commit (ws_store st) (Audit_Append now m [?row])
                (wd_push_result d \<lparr>ur_UpstreamCommit = commit, ur_NextSync = sign d now (syncPayload (tp_WorkspaceID spec)
                   (sr_ID repo) (tp_Branch spec) commit (tp_PolicyVersion spec) (Unix now)),
                 ur_Report = no_report\<lparr>rp_PolicyVersion := tp_PolicyVersion spec\<rparr>\<rparr>)"
              unfolding push_left_def
              by (rule exI[of _ "sign d now (syncPayload (tp_WorkspaceID spec)
                     (sr_ID repo) (tp_Branch spec) commit (tp_PolicyVersion spec) (Unix now))"], rule exI[of _ "?row\<lparr>ar_ID :=
                     m_auditSeq m + 1, ar_OccurredAt := (if ar_OccurredAt ?row = 0 then now else ar_OccurredAt ?row)\<rparr>"])
                (use C True moved(1) row st in \<open>simp add: append_one_row sign_nonempty\<close>)
            then show ?thesis using fin moved(3,4) same pub by (auto simp: same_data_def)
          qed
        qed
      qed (use 1(2) 2(2) 3(2) in \<open>auto simp: same_data_def\<close>)
    qed (use 1(2) 2(2) in \<open>auto simp: same_data_def\<close>)
  qed (use 1(2) in \<open>auto simp: same_data_def\<close>)
qed (auto simp: same_data_def)

lemma worker_push_left:
  assumes "worker_handlePush d cfg now t st = (res, st')"
  shows "ws_blobs st' = ws_blobs st \<and> ws_pulls st' = ws_pulls st
    \<and> (case res of Inl e \<Rightarrow> ws_store st' = ws_store st
       | Inr out \<Rightarrow> (\<exists>spec patch remote r g tip commit g'. wd_push_spec d (t_Payload t) = Some spec
           \<and> loadEnforcedPatch d cfg (ws_blobs st) spec = Inr patch
           \<and> authenticatedRemote d (tp_Forge spec) (tp_Remote spec) = Inr remote
           \<and> gt_Open (wd_git d) (tp_Remote spec) remote (''refs/heads/'' @ tp_Branch spec) (ws_git st) = (Inr r, g)
           \<and> push_published d now t spec patch remote r g tip commit g' \<and> ws_git st' = gt_Release (wd_git d) r g'
           \<and> push_left d cfg now t spec tip commit (ws_store st) (ws_store st') out))"
  using assms[unfolded worker_handlePush_def] git_only_wlift
proof (cases rule: git_then)
  case (go spec st1)
  note 1 = this
  have spec: "wd_push_spec d (t_Payload t) = Some spec" "st1 = st"
    using 1(1) by (auto simp: wlift_def loadSpec_def split: option.splits)
  from 1(3) git_only_wlift show ?thesis
  proof (cases rule: git_then)
    case (go patch st2)
    note 2 = this
    have patch: "loadEnforcedPatch d cfg (ws_blobs st) spec = Inr patch" "st2 = st"
      using 2(1) spec(2) by (auto simp: wlift_def)
    from 2(3) git_only_wlift show ?thesis
    proof (cases rule: git_then)
      case (go remote st3)
      note 3 = this
      have remote: "authenticatedRemote d (tp_Forge spec) (tp_Remote spec) = Inr remote" "st3 = st"
        using 3(1) patch(2) by (auto simp: wlift_def)
      from 3(3) checkout_git_only show ?thesis
      proof (cases rule: git_then)
        case (go r st4)
        have same: "same_data st st4" using 1(2) 2(2) 3(2) go(2) by (blast intro: same_data_trans)
        obtain st5 where land: "push_land d cfg now t spec patch remote r st4 = (res, st5)"
            "st' = st5\<lparr>ws_git := gt_Release (wd_git d) r (ws_git st5)\<rparr>"
          using go(3) by (auto simp: wdefer_def split: prod.splits)
        have opened: "gt_Open (wd_git d) (tp_Remote spec) remote (''refs/heads/'' @ tp_Branch spec) (ws_git st) = (Inr r, ws_git st4)"
          using go(1) remote(2) unfolding checkout_def by (auto dest!: wrecode_InrD on_git_InrD)
        have data: "ws_store st4 = ws_store st" "ws_blobs st4 = ws_blobs st" "ws_pulls st4 = ws_pulls st"
          using same by (simp_all add: same_data_def)
        note left = push_land_left[OF land(1), unfolded data]
        show ?thesis
        proof (cases res)
          case (Inl e)
          then show ?thesis using left land(2) by simp
        next
          case (Inr out)
          then obtain tip commit where "push_published d now t spec patch remote r (ws_git st4) tip commit (ws_git st5)"
              "push_left d cfg now t spec tip commit (ws_store st) (ws_store st5) out" using left by auto
          moreover have "ws_git st' = gt_Release (wd_git d) r (ws_git st5)" "ws_store st' = ws_store st5" using land(2) by simp_all
          ultimately show ?thesis using Inr left land(2) spec(1) patch(1) remote(1) opened by auto
        qed
      qed (use 1(2) 2(2) 3(2) in \<open>auto simp: same_data_def\<close>)
    qed (use 1(2) 2(2) in \<open>auto simp: same_data_def\<close>)
  qed (use 1(2) in \<open>auto simp: same_data_def\<close>)
qed (auto simp: same_data_def)

text \<open>What a pull leaves behind: the sync point at the tip, and the token that names it.\<close>

definition pull_left ::
  "('b, 'g, 'r) wdeps \<Rightarrow> worker_config \<Rightarrow> instant \<Rightarrow> task \<Rightarrow> pull_spec \<Rightarrow> 'r \<Rightarrow> string \<Rightarrow> ('b, 'g) wstate \<Rightarrow> ('b, 'g) wstate \<Rightarrow>
     pull_result \<Rightarrow> bool" where
  "pull_left d cfg now t spec r tip st st' result \<longleftrightarrow> (\<exists>p repo. lr_UpstreamCommit (pu_Report result) = tip
   \<and> worker_policyFor d cfg (t_TenantID t) = Inr p \<and> lr_PolicyVersion (pu_Report result) = p_version p
   \<and> Repo_ByPolicyID (ws_store st) (wc_Tenant cfg) (tl_Repository spec) = Inr repo
   \<and> map_option syn_UpstreamCommit (map_of (m_syncPoints (ws_store st')) (tl_WorkspaceID spec, sr_ID repo, tl_Branch spec))
       = Some tip
   \<and> pu_NextSync result = sign d now (syncPayload (tl_WorkspaceID spec) (sr_ID repo) (tl_Branch spec) tip
       (p_version p) (Unix now))
   \<and> (if tl_FromCommit spec = tip then pu_Patch result = None \<and> ws_blobs st' = ws_blobs st
      else \<exists>c e reused st1 st2. run_call d cfg c st1 = (Inr (e, reused), st2) \<and> same_data st st1
        \<and> cl_policy c = p \<and> cl_spec c = spec \<and> cl_repo c = repo \<and> cl_tip c = tip \<and> cl_r c = r
        \<and> (if tl_FromCommit spec = [] then gt_EmptyTree (wd_git d) r (ws_git st) = (Inr (cl_from c), ws_git st1)
           else cl_from c = tl_FromCommit spec \<and> ws_git st1 = ws_git st)
        \<and> ws_blobs st' = ws_blobs st2 \<and> pu_Patch result = en_Patch e
        \<and> lr_FilesTotal (pu_Report result) = en_FilesTotal e \<and> lr_FilesDelivered (pu_Report result) = en_FilesDelivered e
        \<and> lr_FilesWithheld (pu_Report result) = en_FilesWithheld e))"

lemma pull_left_git: "pull_left d cfg now t spec r tip st (st'\<lparr>ws_git := g\<rparr>) result = pull_left d cfg now t spec r tip st st' result"
  by (simp add: pull_left_def)

lemma recorded_point:
  assumes "recordPullSyncPoint d cfg now spec repoID tip pv st = (res, st')"
  shows "res = Inr (sign d now (syncPayload (tl_WorkspaceID spec) repoID (tl_Branch spec) tip pv (Unix now)))"
    and "ws_blobs st' = ws_blobs st"
    and "map_option syn_UpstreamCommit (map_of (m_syncPoints (ws_store st')) (tl_WorkspaceID spec, repoID, tl_Branch spec)) = Some tip"
  using assms
  by (auto simp: recordPullSyncPoint_def wbind_def wupdate_def wret_def Sync_Put_def Let_def key_of_def
      pull_sync_point_def split: option.splits)

lemma pull_deliver_left:
  assumes "pull_deliver d cfg now t spec r st = (Inr result, st')"
  shows "\<exists>tip st0. gt_ResolveRef (wd_git d) r ''HEAD'' (ws_git st) = (Inr tip, ws_git st0) \<and> same_data st st0
    \<and> pull_left d cfg now t spec r tip st0 st' result"
proof -
  obtain tip st0 where 1: "on_git (gt_ResolveRef (wd_git d) r ''HEAD'') st = (Inr tip, st0)" and
    rest1: "wbind (wlift (\<lambda>_. worker_policyFor d cfg (t_TenantID t))) (\<lambda>current.
     wbind (wlift (\<lambda>st. case Repo_ByPolicyID (ws_store st) (wc_Tenant cfg) (tl_Repository spec) of
              Inl e \<Rightarrow> Inl (fault d (StoreFault e)) | Inr repo \<Rightarrow> Inr repo)) (\<lambda>repo.
     let report = \<lparr>lr_PolicyVersion = p_version current, lr_FilesTotal = 0, lr_FilesDelivered = 0,
                   lr_FilesWithheld = 0, lr_UpstreamCommit = tip\<rparr>
     in if tl_FromCommit spec = tip
        then wbind (recordPullSyncPoint d cfg now spec (sr_ID repo) tip (p_version current)) (\<lambda>token.
             wret \<lparr>pu_Patch = None, pu_NextSync = token, pu_Report = report\<rparr>)
        else
          wbind (if tl_FromCommit spec = [] then on_git (gt_EmptyTree (wd_git d) r) else wret (tl_FromCommit spec)) (\<lambda>from.
          wbind (project d cfg now current spec repo from tip r) (\<lambda>(e, reused).
          wbind (recordPullSyncPoint d cfg now spec (sr_ID repo) tip (p_version current)) (\<lambda>token.
          wbind (record_row now (pull_audit d cfg now t spec (sr_ID repo) tip (p_version current) reused)) (\<lambda>_.
          wret \<lparr>pu_Patch = en_Patch e, pu_NextSync = token,
                pu_Report = report\<lparr>lr_FilesTotal := en_FilesTotal e, lr_FilesDelivered := en_FilesDelivered e,
                                   lr_FilesWithheld := en_FilesWithheld e\<rparr>\<rparr>)))))) st0 = (Inr result, st')"
    using assms unfolding pull_deliver_def by (rule wbind_InrE)
  have s1: "same_data st st0" using git_onlyD[OF git_only_on_git 1] .
  obtain p repo where pr: "worker_policyFor d cfg (t_TenantID t) = Inr p"
      "Repo_ByPolicyID (ws_store st0) (wc_Tenant cfg) (tl_Repository spec) = Inr repo"
    using rest1 by (auto simp: wbind_def wlift_def split: sum.splits)
  let ?report = "\<lparr>lr_PolicyVersion = p_version p, lr_FilesTotal = 0, lr_FilesDelivered = 0,
                   lr_FilesWithheld = 0, lr_UpstreamCommit = tip\<rparr>"
  let ?keep = "recordPullSyncPoint d cfg now spec (sr_ID repo) tip (p_version p)"
  have "pull_left d cfg now t spec r tip st0 st' result"
  proof (cases "tl_FromCommit spec = tip")
    case True
    then have "wbind ?keep (\<lambda>token. wret \<lparr>pu_Patch = None, pu_NextSync = token, pu_Report = ?report\<rparr>) st0 = (Inr result, st')"
      using rest1 pr by (simp add: wbind_def[of "wlift _"] wlift_def Let_def)
    then obtain token st2 where 2: "?keep st0 = (Inr token, st2)"
        "result = \<lparr>pu_Patch = None, pu_NextSync = token, pu_Report = ?report\<rparr>" "st' = st2"
      by (auto simp: wret_def elim: wbind_InrE)
    show ?thesis
      using True pr s1 2 recorded_point[OF 2(1)] unfolding pull_left_def
      by (intro exI[of _ p] exI[of _ repo]) (simp add: same_data_def)
  next
    case False
    let ?from = "if tl_FromCommit spec = [] then on_git (gt_EmptyTree (wd_git d) r) else wret (tl_FromCommit spec)"
    have "wbind ?from (\<lambda>from. wbind (project d cfg now p spec repo from tip r) (\<lambda>(e, reused).
          wbind ?keep (\<lambda>token. wbind (record_row now (pull_audit d cfg now t spec (sr_ID repo) tip (p_version p) reused)) (\<lambda>_.
          wret \<lparr>pu_Patch = en_Patch e, pu_NextSync = token,
                pu_Report = ?report\<lparr>lr_FilesTotal := en_FilesTotal e, lr_FilesDelivered := en_FilesDelivered e,
                                   lr_FilesWithheld := en_FilesWithheld e\<rparr>\<rparr>)))) st0 = (Inr result, st')"
      using rest1 pr False by (simp add: wbind_def[of "wlift _"] wlift_def Let_def)
    then obtain frm st2 e reused st3 token st4 where 2: "?from st0 = (Inr frm, st2)"
        "project d cfg now p spec repo frm tip r st2 = (Inr (e, reused), st3)" "?keep st3 = (Inr token, st4)"
        "result = \<lparr>pu_Patch = en_Patch e, pu_NextSync = token,
                pu_Report = ?report\<lparr>lr_FilesTotal := en_FilesTotal e, lr_FilesDelivered := en_FilesDelivered e,
                                   lr_FilesWithheld := en_FilesWithheld e\<rparr>\<rparr>"
        "ws_blobs st' = ws_blobs st4" "m_syncPoints (ws_store st') = m_syncPoints (ws_store st4)"
      by (elim wbind_InrE) (auto simp: wret_def record_row_def wupdate_def elim!: wbind_InrE split: prod.splits)
    let ?c = "\<lparr>cl_policy = p, cl_spec = spec, cl_repo = repo, cl_from = frm, cl_tip = tip, cl_r = r, cl_now = now\<rparr>"
    have "git_only ?from" by (simp add: git_only_on_git git_only_wret)
    then have "same_data st0 st2" using 2(1) by (rule git_onlyD)
    moreover have "run_call d cfg ?c st2 = (Inr (e, reused), st3)" using 2(2) by (simp add: run_call_def)
    moreover have "if tl_FromCommit spec = [] then gt_EmptyTree (wd_git d) r (ws_git st0) = (Inr frm, ws_git st2)
        else frm = tl_FromCommit spec \<and> ws_git st2 = ws_git st0"
      using 2(1) by (auto simp: wret_def dest: on_git_InrD split: if_splits)
    ultimately have "\<exists>c e' reused st1 st2. run_call d cfg c st1 = (Inr (e', reused), st2) \<and> same_data st0 st1
        \<and> cl_policy c = p \<and> cl_spec c = spec \<and> cl_repo c = repo \<and> cl_tip c = tip \<and> cl_r c = r
        \<and> (if tl_FromCommit spec = [] then gt_EmptyTree (wd_git d) r (ws_git st0) = (Inr (cl_from c), ws_git st1)
           else cl_from c = tl_FromCommit spec \<and> ws_git st1 = ws_git st0)
        \<and> ws_blobs st' = ws_blobs st2 \<and> en_Patch e = en_Patch e'
        \<and> en_FilesTotal e = en_FilesTotal e' \<and> en_FilesDelivered e = en_FilesDelivered e'
        \<and> en_FilesWithheld e = en_FilesWithheld e'"
      using 2(5) recorded_point(2)[OF 2(3)]
      by (intro exI[of _ ?c] exI[of _ e] exI[of _ reused] exI[of _ st2] exI[of _ st3]) simp
    then show ?thesis
      using False pr s1 2(4,6) recorded_point(1,3)[OF 2(3)] unfolding pull_left_def
      by (intro exI[of _ p] exI[of _ repo]) (simp add: same_data_def)
  qed
  then show ?thesis using on_git_InrD[OF 1] s1 by blast
qed

subsection \<open>Properties\<close>

text \<open>
  Claim C4. Sharing a projection leaks nothing. After any sequence of pulls by other subjects, under any bundles,
  with blobs swept in between, the entry a pull answers with, computed or taken from the cache, names a
  patch that is in the blob store and decodes to exactly the sections of this repository's diff that
  this subject may read under this bundle, with the counts of that subject; and a subject that is no
  longer in the bundle gets nothing. (Bundles are told apart by their versions and the hashes do not
  collide on what the sequence hashes; a diff depends on the repository and the two revisions alone.)
\<close>

theorem shared_projection_exact:
  assumes "wd_blobs d = Filesystem sha" and "wc_MaxPatchBytes cfg < 2 ^ 63 - 1"
    and "stable_diffs (wd_git d) repo_of diff" and "\<forall>x. wd_zdec d (wd_zenc d x) = (x, True)"
    and "inj_on (wd_dg d) H" and "inj_on p_version B" and "fs_valid sha U blobs"
    and "\<forall>c. Project c \<in> set es \<longrightarrow> call_ok d cfg repo_of diff B H U c" and "call_ok d cfg repo_of diff B H U c"
    and "run_call d cfg c (wevent_run d cfg es \<lparr>ws_store = m, ws_blobs = blobs, ws_git = g, ws_pulls = New_cache ttl\<rparr>)
      = (Inr (e, reused), st')"
  shows "\<exists>s. Policy_Subject (cl_policy c) (tl_PolicyUserID (cl_spec c)) = Inr s
    \<and> served d (ws_blobs st') (call_diff diff c) (call_readable d c s) e"
proof -
  have "pulls_ok d sha diff B H U (fs_valid sha U) \<lparr>ws_store = m, ws_blobs = blobs, ws_git = g, ws_pulls = New_cache ttl\<rparr>"
    using assms(7) by (simp add: pulls_ok_def cache_inv_new) (simp add: abs_cache_def New_cache_def)
  note run = file_blobs.wevent_run_ok[OF assms(1-6,8) this]
  show ?thesis using file_blobs.run_call_exact[OF assms(1-6,9) run assms(10)] by blast
qed

text \<open>
  Claim C5. What executing a push does. A push that fails changes no table. One that succeeds read the patch its
  specification names, opened the branch at its remote, applied the patch to the author's base and committed it, replayed that
  commit if the branch had moved, and last pushed the branch to that remote with the tip it had found as lease, and that push
  was accepted; it appends one audit row for the task and touches no task; and it moves
  the sync point and hands out a token only when nothing had been dropped, the branch was still at the
  author's base, and the recorded point was that base: the token then names the commit that landed, as the
  recorded point does. In every other case the points are as they were and the client has to pull.
\<close>

theorem push_task_outcome:
  assumes "worker_handlePush d cfg now t st = (res, st')"
  shows "ws_blobs st' = ws_blobs st \<and> ws_pulls st' = ws_pulls st
    \<and> (case res of Inl e \<Rightarrow> ws_store st' = ws_store st
       | Inr out \<Rightarrow> (\<exists>spec patch remote r g tip commit g'. wd_push_spec d (t_Payload t) = Some spec
           \<and> loadEnforcedPatch d cfg (ws_blobs st) spec = Inr patch
           \<and> authenticatedRemote d (tp_Forge spec) (tp_Remote spec) = Inr remote
           \<and> gt_Open (wd_git d) (tp_Remote spec) remote (''refs/heads/'' @ tp_Branch spec) (ws_git st) = (Inr r, g)
           \<and> push_published d now t spec patch remote r g tip commit g' \<and> ws_git st' = gt_Release (wd_git d) r g'
           \<and> push_left d cfg now t spec tip commit (ws_store st) (ws_store st') out))"
  by (rule worker_push_left[OF assms])

text \<open>
  Claim C6. A pull that succeeds opened the branch at its remote and resolved its tip there; it records that tip as the
  workspace's sync point, hands out the token for that point, is decided by the bundle of the task's tenant, and
  delivers the projection between the commit the client holds (the empty tree of the clone, on a first pull) and
  the tip, or nothing when the client is there already.
\<close>

theorem pull_task_outcome:
  assumes "worker_handlePull d cfg now t st = (Inr out, st')"
  shows "\<exists>spec remote r g tip result st1. wd_pull_spec d (t_Payload t) = Some spec \<and> out = wd_pull_result d result
    \<and> authenticatedRemote d (tl_Forge spec) (tl_Remote spec) = Inr remote
    \<and> gt_Open (wd_git d) (tl_Remote spec) remote (''refs/heads/'' @ tl_Branch spec) (ws_git st) = (Inr r, g)
    \<and> gt_ResolveRef (wd_git d) r ''HEAD'' g = (Inr tip, ws_git st1)
    \<and> same_data st st1 \<and> pull_left d cfg now t spec r tip st1 st' result"
proof -
  obtain spec remote r st1 st2 result where 1: "wd_pull_spec d (t_Payload t) = Some spec"
      "authenticatedRemote d (tl_Forge spec) (tl_Remote spec) = Inr remote"
      "checkout d (tl_Remote spec) remote (tl_Branch spec) st = (Inr r, st1)"
      "pull_deliver d cfg now t spec r st1 = (Inr result, st2)" "out = wd_pull_result d result"
      "st' = st2\<lparr>ws_git := gt_Release (wd_git d) r (ws_git st2)\<rparr>"
    using assms unfolding worker_handlePull_def
    by (auto simp: wlift_def loadSpec_def wdefer_def wret_def elim!: wbind_InrE split: option.splits prod.splits)
  have s: "same_data st st1" using checkout_git_only 1(3) by (rule git_onlyD)
  have "gt_Open (wd_git d) (tl_Remote spec) remote (''refs/heads/'' @ tl_Branch spec) (ws_git st) = (Inr r, ws_git st1)"
    using 1(3) unfolding checkout_def by (auto dest!: wrecode_InrD on_git_InrD)
  moreover obtain tip st0 where "gt_ResolveRef (wd_git d) r ''HEAD'' (ws_git st1) = (Inr tip, ws_git st0)" "same_data st1 st0"
      "pull_left d cfg now t spec r tip st0 st' result"
    using pull_deliver_left[OF 1(4)] unfolding 1(6) by (auto simp only: pull_left_git)
  ultimately show ?thesis using 1(1,2,5) same_data_trans[OF s] by blast
qed

subsection \<open>Witnesses\<close>

record ex_forge =
  xf_tip :: string
  xf_tree :: bytes
  xf_pushed :: "bytes list"

definition ex_git :: "(ex_forge, string) git_ops" where
  "ex_git = \<lparr>gt_Open = (\<lambda>i _ _ g. (Inr i, g)), gt_Release = (\<lambda>_ g. g), gt_ResolveRef = (\<lambda>_ _ g. (Inr (xf_tip g), g)),
     gt_Checkout = (\<lambda>_ _ g. (Inr (), g)), gt_Diff = (\<lambda>_ _ _ g. (Inr ex_raw, g)),
     gt_EmptyTree = (\<lambda>_ g. (Inr ''4b82'', g)), gt_Apply = (\<lambda>_ p g. (None, g\<lparr>xf_tree := p\<rparr>)),
     gt_CommitAll = (\<lambda>_ _ _ g. (Inr ''c0ffee'', g)), gt_Rebase = (\<lambda>_ _ _ g. (None, g)),
     gt_Push = (\<lambda>_ _ _ expected g. if expected = xf_tip g
       then (Inr (), g\<lparr>xf_tip := ''c0ffee'', xf_pushed := xf_pushed g @ [xf_tree g]\<rparr>)
       else (Inl (plain ''stale info''), g))\<rparr>"

definition ex_push_spec :: push_spec where
  "ex_push_spec = \<lparr>tp_RequestID = ''req-1'', tp_Repository = ''api'', tp_Remote = ''git@forge:api'', tp_Forge = [],
     tp_Branch = ''main'', tp_BaseCommit = ''9f2c'', tp_PatchDigest = Digest ex_sha ex_out, tp_PatchEncoding = EncodingNone,
     tp_Message = ''m'', tp_DroppedFiles = 0, tp_AuthorName = ''amy'', tp_AuthorEmail = [], tp_UserID = ''user-1'',
     tp_WorkspaceID = ''ws-1'', tp_PolicyUserID = ''amy'', tp_PolicyVersion = ''v1''\<rparr>"

definition ex_pull_spec :: pull_spec where
  "ex_pull_spec = \<lparr>tl_RequestID = ''req-2'', tl_Repository = ''api'', tl_Remote = ''git@forge:api'', tl_Forge = [],
     tl_Branch = ''main'', tl_FromCommit = [], tl_UserID = ''user-1'', tl_WorkspaceID = ''ws-1'',
     tl_PolicyUserID = ''amy'', tl_PolicyVersion = ''v1''\<rparr>"

definition ex_wdeps :: "(fs_store, ex_forge, string) wdeps" where
  "ex_wdeps = \<lparr>wd_blobs = Filesystem ex_sha, wd_git = ex_git, wd_remote = (\<lambda>_ r. Some r),
     wd_policies = (\<lambda>_. Some ex_policy), wd_crypto = ex_crypto, wd_json = ex_json, wd_signer = ex_signer,
     wd_gd = ex_gd, wd_ds = ex_ds, wd_dg = (\<lambda>x. x), wd_zenc = (\<lambda>x. x), wd_zdec = (\<lambda>x. (x, True)),
     wd_push_spec = (\<lambda>_. Some ex_push_spec), wd_pull_spec = (\<lambda>_. Some ex_pull_spec),
     wd_push_result = ur_NextSync, wd_pull_result = pu_NextSync, wd_detail = (\<lambda>_. []), wd_text = (\<lambda>_. [])\<rparr>"

definition ex_config :: worker_config where
  "ex_config = \<lparr>wc_WorkDir = [], wc_MirrorBudgetBytes = 0, wc_Tenant = ''default'', wc_PullArtifactTTL = 100,
     wc_MaxPatchBytes = 100, wc_Guards = ex_guards\<rparr>"

definition ex_wstate :: "mem \<Rightarrow> (fs_store, ex_forge) wstate" where
  "ex_wstate m = \<lparr>ws_store = m, ws_blobs = (case FS_Put ex_sha ex_out [] 0 ex_root of Inr (_, s) \<Rightarrow> s | Inl _ \<Rightarrow> ex_root),
     ws_git = \<lparr>xf_tip = ''9f2c'', xf_tree = [], xf_pushed = []\<rparr>, ws_pulls = New_cache 25\<rparr>"

definition ex_row :: "tenant_id \<Rightarrow> store_repository" where
  "ex_row tenant = \<lparr>sr_ID = ''repo-1'', sr_TenantID = tenant, sr_PolicyRepoID = ''api'', sr_Remote = [], sr_Forge = [],
     sr_DefaultBranch = ''main'', sr_PolicyVersion = ''v1'', sr_CreatedAt = 1, sr_UpdatedAt = 1\<rparr>"

definition ex_tables :: "tenant_id \<Rightarrow> mem" where
  "ex_tables tenant = New_store\<lparr>m_repos := [(''repo-1'', ex_row tenant)],
     m_syncPoints := [((''ws-1'', ''repo-1'', ''main''), ex_sync ''9f2c'')]\<rparr>"

definition ex_job :: "task_kind \<Rightarrow> tenant_id \<Rightarrow> task" where
  "ex_job k tenant = (ex_task k [] [] 0)\<lparr>t_ID := ''task-1'', t_TenantID := tenant, t_Payload := ''x''\<rparr>"

text \<open>
  A push of a tenant that is not the worker's own can land and still be reported as failed. The repository
  is looked up under the worker's configured tenant after the branch was published; the lookup fails, the
  task ends in an error that is not permanent, with the change on the forge and no audit row for it, and
  the queue runs it again.
\<close>

theorem landed_push_reported_failed:
  "case worker_handlePush ex_wdeps ex_config 9 (ex_job TaskPush ''acme'') (ex_wstate (ex_tables ''acme'')) of
     (Inl e, st) \<Rightarrow> xf_pushed (ws_git st) = [ex_out] \<and> xf_tip (ws_git st) = ''c0ffee''
       \<and> m_audit (ws_store st) = [] \<and> \<not> isPermanent (e_Code (asProtocolError e))
   | (Inr _, _) \<Rightarrow> False"
  by code_simp

definition ex_call :: "string call" where
  "ex_call = \<lparr>cl_policy = ex_policy, cl_spec = ex_pull_spec, cl_repo = ex_row ''default'', cl_from = ''4b82'',
     cl_tip = ''9f2c'', cl_r = ''git@forge:api'', cl_now = 5\<rparr>"

lemma ex_call_ok:
  "call_ok ex_wdeps ex_config (\<lambda>r. r) (\<lambda>_ _ _. ex_raw) {ex_policy}
     {call_profile ex_wdeps ex_call ex_subject, key_bytes (call_key ex_wdeps ex_call ex_subject)} {ex_out} ex_call"
proof -
  have s: "Policy_Subject ex_policy ''amy'' = Inr ex_subject" by code_simp
  have "filterForReader ex_wdeps ex_config ex_raw ex_policy ex_pull_spec (ex_row ''default'')
      = Inr (ex_out, \<lparr>ct_total = 2, ct_delivered = 1, ct_withheld = 1\<rparr>)" by code_simp
  moreover have "wd_zenc ex_wdeps x = x" for x by (simp add: ex_wdeps_def)
  ultimately show ?thesis using s by (auto simp: call_ok_def) (simp_all add: ex_call_def ex_pull_spec_def)
qed

theorem shared_projection_exact_witness:
  "\<exists>e st'. run_call ex_wdeps ex_config ex_call (wevent_run ex_wdeps ex_config [Project ex_call]
      \<lparr>ws_store = New_store, ws_blobs = ex_root, ws_git = \<lparr>xf_tip = ''9f2c'', xf_tree = [], xf_pushed = []\<rparr>,
       ws_pulls = New_cache 25\<rparr>) = (Inr (e, True), st')
     \<and> served ex_wdeps (ws_blobs st') ex_raw (call_readable ex_wdeps ex_call ex_subject) e"
proof -
  let ?st = "wevent_run ex_wdeps ex_config [Project ex_call]
      \<lparr>ws_store = New_store, ws_blobs = ex_root, ws_git = \<lparr>xf_tip = ''9f2c'', xf_tree = [], xf_pushed = []\<rparr>,
       ws_pulls = New_cache 25\<rparr>"
  have "map_sum (\<lambda>_. ()) snd (fst (run_call ex_wdeps ex_config ex_call ?st)) = Inr True" by code_simp
  then obtain e st' where run: "run_call ex_wdeps ex_config ex_call ?st = (Inr (e, True), st')"
    by (cases "run_call ex_wdeps ex_config ex_call ?st"; cases "fst (run_call ex_wdeps ex_config ex_call ?st)") auto
  have d: "wd_blobs ex_wdeps = Filesystem ex_sha" "wc_MaxPatchBytes ex_config < 2 ^ 63 - 1"
      "stable_diffs (wd_git ex_wdeps) (\<lambda>r. r) (\<lambda>_ _ _. ex_raw)" "\<forall>x. wd_zdec ex_wdeps (wd_zenc ex_wdeps x) = (x, True)"
      "inj_on (wd_dg ex_wdeps) X" for X
    by (simp_all add: ex_wdeps_def ex_config_def ex_git_def stable_diffs_def)
  have "list_all (\<lambda>b. length (ex_sha b) = 32) [ex_out]" by code_simp
  then have v: "fs_valid ex_sha {ex_out} ex_root"
    by (simp add: fs_valid_def addressed_def fs_contents_def ex_root_def sha_ok_def)
  have calls: "\<forall>c. Project c \<in> set [Project ex_call] \<longrightarrow> call_ok ex_wdeps ex_config (\<lambda>r. r) (\<lambda>_ _ _. ex_raw) {ex_policy}
     {call_profile ex_wdeps ex_call ex_subject, key_bytes (call_key ex_wdeps ex_call ex_subject)} {ex_out} c"
    using ex_call_ok by simp
  have s: "Policy_Subject ex_policy ''amy'' = Inr ex_subject" by code_simp
  from shared_projection_exact[OF d(1-5) _ v calls ex_call_ok run]
  have "\<exists>s. Policy_Subject (cl_policy ex_call) (tl_PolicyUserID (cl_spec ex_call)) = Inr s
    \<and> served ex_wdeps (ws_blobs st') (call_diff (\<lambda>_ _ _. ex_raw) ex_call) (call_readable ex_wdeps ex_call s) e" by simp
  then show ?thesis
    using run s by (auto simp: call_diff_def) (simp add: ex_call_def ex_pull_spec_def)
qed

theorem push_task_outcome_witness:
  "\<exists>out st'. worker_handlePush ex_wdeps ex_config 9 (ex_job TaskPush ''default'') (ex_wstate (ex_tables ''default'')) = (Inr out, st')
     \<and> out \<noteq> [] \<and> (\<exists>spec patch tip commit. loadEnforcedPatch ex_wdeps ex_config (ws_blobs (ex_wstate (ex_tables ''default''))) spec = Inr patch
       \<and> push_left ex_wdeps ex_config 9 (ex_job TaskPush ''default'') spec tip commit (ex_tables ''default'') (ws_store st') out)"
proof -
  let ?r = "worker_handlePush ex_wdeps ex_config 9 (ex_job TaskPush ''default'') (ex_wstate (ex_tables ''default''))"
  have "map_sum (\<lambda>_. ()) (\<lambda>out. out \<noteq> []) (fst ?r) = Inr True" by code_simp
  then obtain out st' where r: "?r = (Inr out, st')" "out \<noteq> []" by (cases ?r; cases "fst ?r") auto
  then show ?thesis using push_task_outcome[OF r(1)] by (auto simp: ex_wstate_def)
qed

theorem pull_task_outcome_witness:
  "\<exists>out st'. worker_handlePull ex_wdeps ex_config 9 (ex_job TaskPull ''default'') (ex_wstate (ex_tables ''default'')) = (Inr out, st')
     \<and> (\<exists>result r tip st1. out = pu_NextSync result \<and> pull_left ex_wdeps ex_config 9 (ex_job TaskPull ''default'') ex_pull_spec r tip st1 st' result)"
proof -
  let ?r = "worker_handlePull ex_wdeps ex_config 9 (ex_job TaskPull ''default'') (ex_wstate (ex_tables ''default''))"
  have "map_sum (\<lambda>_. ()) (\<lambda>out. out \<noteq> []) (fst ?r) = Inr True" by code_simp
  then obtain out st' where r: "?r = (Inr out, st')" by (cases ?r; cases "fst ?r") auto
  have "wd_pull_result ex_wdeps = pu_NextSync" "wd_pull_spec ex_wdeps = (\<lambda>_. Some ex_pull_spec)" by (simp_all add: ex_wdeps_def)
  then show ?thesis using pull_task_outcome[OF r] r by auto
qed

end
