(* ===== verification/Nit_Api.thy ===== *)
theory Nit_Api
  imports Nit_Worker
begin

text \<open>
  The HTTP surface of the control plane: authentication of a request and the error bodies
  (\<open>internal/server/http.go\<close>), the metadata endpoints (\<open>meta.go\<close>), the caller's view of a task
  (\<open>tasks.go\<close>), the operations endpoints (\<open>admin.go\<close>), the origins a browser may call from (\<open>cors.go\<close>)
  and the table of routes (\<open>server.go\<close>, \<open>pkg/protocol/routes.go\<close>). A request is the route the
  multiplexer selected together with its header, query and body; \<open>serve\<close> answers it, with one equation
  for each route the server registers. A response body is a value of the datatype \<open>body\<close>; its JSON form is
  left out, except where the code stores one (the result of a task) or decodes one (the request), which are
  parameters gathered in \<open>api_deps\<close>. Between two waits a handler runs on one store. The one handler that
  waits is the long poll on a task: its request carries what it finds each time it wakes up, and
  \<open>Nit_Events\<close> has it as a machine among the goroutines, the hub and the clock. What stands around the
  handlers is apart from \<open>serve\<close>: the answer to a browser's preflight is \<open>cors\<close>, while the multiplexer's own
  404 and 405 and the 500 of a recovered panic are not modelled.
\<close>

subsection \<open>Responses (\<open>http.go\<close>, \<open>meta.go\<close>, \<open>admin.go\<close>, \<open>protocol/task.go\<close>)\<close>

record whoami =
  wa_User :: string
  wa_Email :: string
  wa_Groups :: "string list"
  wa_PolicyVersion :: string

record repository_view =
  rv_ID :: string
  rv_DefaultBranch :: string
  rv_Forge :: string

record workspace_view =
  wv_ID :: string
  wv_Label :: string

record health =
  he_Status :: string
  he_ProtocolVersion :: string
  he_PolicyVersion :: string

record protocol_task =
  pt_ID :: string
  pt_Kind :: task_kind
  pt_State :: task_state
  pt_Repository :: string
  pt_Branch :: string
  pt_QueuePosition :: nat
  pt_CreatedAt :: instant
  pt_StartedAt :: "instant option"
  pt_FinishedAt :: "instant option"
  pt_Error :: "protocol_error option"
  pt_PushResult :: "push_result option"
  pt_PullResult :: "pull_result option"

record poll_event =
  ev_TaskID :: string
  ev_State :: task_state
  ev_At :: instant
  ev_Task :: "protocol_task option"

record task_view =
  tv_ID :: string
  tv_Kind :: task_kind
  tv_State :: task_state
  tv_User :: string
  tv_Repository :: string
  tv_Branch :: string
  tv_Attempts :: int
  tv_QueuePosition :: nat
  tv_LeaseHolder :: string
  tv_CreatedAt :: instant
  tv_StartedAt :: "instant option"
  tv_FinishedAt :: "instant option"
  tv_DurationMs :: int
  tv_Error :: "protocol_error option"

record admin_task_detail = task_view +
  tv_Payload :: bytes
  tv_Result :: bytes

record audit_view =
  av_ID :: int
  av_OccurredAt :: instant
  av_Actor :: string
  av_Action :: string
  av_Repository :: string
  av_Branch :: string
  av_Path :: string
  av_Effect :: string
  av_Reason :: string
  av_RuleID :: string
  av_Guard :: string
  av_PolicyVersion :: string
  av_RequestID :: string
  av_TaskID :: string

record stats =
  st_PolicyVersion :: string
  st_Tasks :: "(string \<times> nat) list"
  st_QueueDepth :: nat
  st_BusyBranches :: nat
  st_Repositories :: nat
  st_Users :: nat
  st_Groups :: nat
  st_RecentDenials :: nat

record policy_group_view =
  gv_ID :: string
  gv_Description :: string
  gv_Members :: "string list"
  gv_Includes :: "string list"

record policy_rule_view =
  uv_ID :: string
  uv_Subject :: string
  uv_Except :: "string list"
  uv_Paths :: "string list"
  uv_Refs :: "string list"
  uv_Actions :: "string list"
  uv_Effect :: string
  uv_Description :: string

record policy_repo_view =
  ov_ID :: string
  ov_Remote :: string
  ov_Forge :: string
  ov_DefaultBranch :: string
  ov_Rules :: "policy_rule_view list"

record policy_view =
  pw_Version :: string
  pw_Groups :: "policy_group_view list"
  pw_Repositories :: "policy_repo_view list"

datatype body =
    ErrorBody protocol_error
  | HealthBody health
  | WhoAmIBody whoami
  | RepositoriesBody "repository_view list"
  | WorkspaceBody workspace_view
  | WorkspacesBody "workspace_view list"
  | PushBody push_response
  | PullBody string
  | BlobBody protocol_blob
  | TaskBody protocol_task
  | PatchBody bytes
  | AdminTasksBody "task_view list"
  | AdminTaskBody admin_task_detail
  | AuditBody "audit_view list"
  | StatsBody stats
  | PolicyBody policy_view
  | EventBody poll_event
  | NoBody

type_synonym response = "nat \<times> body"
type_synonym 'b handler = "principal \<Rightarrow> 'b srv \<Rightarrow> (srv_error + response) \<times> 'b srv"

text \<open>The decoders of stored and received JSON, and \<open>time.Parse\<close> of a timestamp.\<close>

record 'b api_deps =
  ad_deps :: "'b deps"
  ad_sha :: "bytes \<Rightarrow> bytes"
  ad_AdminGroups :: "group_id list"
  ad_push_request :: "bytes \<Rightarrow> push_request option"
  ad_pull_request :: "bytes \<Rightarrow> pull_request option"
  ad_workspace_request :: "bytes \<Rightarrow> string option"
  ad_push_result :: "bytes \<Rightarrow> push_result option"
  ad_pull_result :: "bytes \<Rightarrow> pull_result option"
  ad_timestamp :: "string \<Rightarrow> instant option"
  ad_EventMaxWait :: duration

subsection \<open>Authentication and errors (\<open>http.go\<close>)\<close>

definition maxRequestBody :: int where "maxRequestBody = 1048576"

definition unauthorized :: "auth_error \<Rightarrow> srv_error" where
  "unauthorized e =
     (case e of
        AuthErrNoCredentials \<Rightarrow> fail 401 ''no_credentials'' ''no credentials; run: nit login''
      | AuthErrMalformed \<Rightarrow> fail 401 ''malformed_credentials'' ''malformed credentials''
      | AuthErrExpired \<Rightarrow> fail 401 ''token_expired'' ''token expired; run: nit login''
      | AuthErrRevoked \<Rightarrow> fail 401 ''token_revoked'' ''token revoked; run: nit login''
      | AuthErrUserDisabled \<Rightarrow> fail 403 ''user_disabled'' ''account disabled; contact an administrator''
      | AuthErrUnknownSubject _ \<Rightarrow> fail 403 ''user_not_in_policy''
          ''your account is not in the policy bundle; contact an administrator''
      | AuthErrUnknownToken \<Rightarrow> fail 401 ''invalid_token'' ''invalid token; run: nit login''
      | AuthStoreError _ \<Rightarrow> fail 500 ''internal'' ''authentication failed'')"

definition internal_error :: protocol_error where
  "internal_error = \<lparr>e_Code = ''internal'', e_Message = ''internal error'', e_Denials = [], e_RetryAfter = 0\<rparr>"

definition writeError :: "srv_error \<Rightarrow> response" where
  "writeError e =
     (case e of
        Api a \<Rightarrow> (ae_status a, ErrorBody (ae_body a))
      | _ \<Rightarrow> (500, ErrorBody internal_error))"

definition answer :: "(srv_error + response) \<times> 'b srv \<Rightarrow> response \<times> 'b srv" where
  "answer r = (case r of (Inl e, st) \<Rightarrow> (writeError e, st) | (Inr resp, st) \<Rightarrow> (resp, st))"

definition authenticated ::
  "'b api_deps \<Rightarrow> instant \<Rightarrow> string \<Rightarrow> 'b handler \<Rightarrow> 'b srv \<Rightarrow> response \<times> 'b srv" where
  "authenticated a now header h st =
     (case BearerToken header of
        Inl e \<Rightarrow> (writeError (unauthorized e), st)
      | Inr token \<Rightarrow>
          (case Authenticate (ad_sha a) (sd_policies (ad_deps a)) now (sv_store st) token of
             (Inl e, m) \<Rightarrow> (writeError (unauthorized e), st\<lparr>sv_store := m\<rparr>)
           | (Inr pr, m) \<Rightarrow> answer (h pr (st\<lparr>sv_store := m\<rparr>))))"

definition decodeJSON :: "(bytes \<Rightarrow> 'a option) \<Rightarrow> bytes \<Rightarrow> srv_error + 'a" where
  "decodeJSON dec raw =
     (case dec (LimitReader raw maxRequestBody) of
        None \<Rightarrow> Inl (fail 400 ''bad_request'' ''malformed request body'')
      | Some x \<Rightarrow> Inr x)"

subsection \<open>The caller's endpoints (\<open>meta.go\<close>, \<open>tasks.go\<close>)\<close>

definition reading :: "(principal \<Rightarrow> 'b srv \<Rightarrow> srv_error + body) \<Rightarrow> 'b handler" where
  "reading f pr st = (map_sum (\<lambda>e. e) (\<lambda>b. (200, b)) (f pr st), st)"

definition handleWhoAmI :: "principal \<Rightarrow> whoami" where
  "handleWhoAmI pr =
     \<lparr>wa_User = su_PolicyUserID (pr_User pr), wa_Email = su_Email (pr_User pr),
      wa_Groups = s_Groups (pr_Subject pr), wa_PolicyVersion = pr_PolicyVersion pr\<rparr>"

definition readable_probe :: "doublestar \<Rightarrow> policy \<Rightarrow> subject \<Rightarrow> repo_id \<Rightarrow> pattern \<Rightarrow> bool" where
  "readable_probe ds p subject repo pat =
     d_Allowed (Evaluate ds p \<lparr>q_Repo = repo, q_Ref = [], q_Subject = subject, q_Path = pat_raw pat,
       q_Action = ActionRead\<rparr>)"

definition readableSomewhere :: "doublestar \<Rightarrow> policy \<Rightarrow> subject \<Rightarrow> repo_id \<Rightarrow> bool" where
  "readableSomewhere ds p subject repo =
     list_ex (\<lambda>r. if rule_Effect r \<noteq> EffectAllow \<or> \<not> HasAction r ActionRead then False
                 else if \<not> MatchesSubject r subject then False
                 else list_ex (readable_probe ds p subject repo) (rule_Paths r))
       (Policy_Rules p repo)"

definition repository_view_of :: "store_repository \<Rightarrow> repository_view" where
  "repository_view_of r =
     \<lparr>rv_ID = sr_PolicyRepoID r, rv_DefaultBranch = sr_DefaultBranch r, rv_Forge = sr_Forge r\<rparr>"

definition handleRepositories :: "'b api_deps \<Rightarrow> principal \<Rightarrow> 'b srv \<Rightarrow> srv_error + repository_view list" where
  "handleRepositories a pr st =
     rbind (policyFor (ad_deps a) (pr_Tenant pr)) (\<lambda>current.
       Inr (map repository_view_of
         (filter (\<lambda>r. readableSomewhere (sd_ds (ad_deps a)) current (pr_Subject pr) (sr_PolicyRepoID r))
           (Repo_List (sv_store st) (pr_Tenant pr)))))"

definition handleCreateWorkspace ::
  "'b api_deps \<Rightarrow> instant \<Rightarrow> bytes \<Rightarrow> 'b handler" where
  "handleCreateWorkspace a now raw pr st =
     (case decodeJSON (ad_workspace_request a) raw of
        Inl e \<Rightarrow> (Inl e, st)
      | Inr label \<Rightarrow>
          (let (m, w) = Workspace_Create (sv_store st)
                 \<lparr>w_ID = [], w_TenantID = pr_Tenant pr, w_UserID = su_ID (pr_User pr), w_Label = label,
                  w_CreatedAt = now, w_LastSeenAt = None\<rparr>
           in (Inr (201, WorkspaceBody \<lparr>wv_ID = w_ID w, wv_Label = w_Label w\<rparr>), st\<lparr>sv_store := m\<rparr>)))"

definition handleListWorkspaces :: "principal \<Rightarrow> 'b srv \<Rightarrow> workspace_view list" where
  "handleListWorkspaces pr st =
     map (\<lambda>w. \<lparr>wv_ID = w_ID w, wv_Label = w_Label w\<rparr>)
       (Workspace_ListByUser (sv_store st) (su_ID (pr_User pr)))"

definition handleHealthz :: "'b api_deps \<Rightarrow> health" where
  "handleHealthz a =
     \<lparr>he_Status = ''ok'', he_ProtocolVersion = protocol_Version,
      he_PolicyVersion = (case sd_policies (ad_deps a) DefaultTenant of None \<Rightarrow> [] | Some p \<Rightarrow> p_version p)\<rparr>"

definition taskView :: "'b api_deps \<Rightarrow> mem \<Rightarrow> task \<Rightarrow> srv_error + protocol_task" where
  "taskView a m t =
     (let repository = (case Repo_ByID m (t_RepositoryID t) of Inr r \<Rightarrow> sr_PolicyRepoID r | Inl _ \<Rightarrow> []);
          view = \<lparr>pt_ID = t_ID t, pt_Kind = t_Kind t, pt_State = t_State t, pt_Repository = repository,
            pt_Branch = t_Branch t, pt_QueuePosition = 0, pt_CreatedAt = t_CreatedAt t,
            pt_StartedAt = t_StartedAt t, pt_FinishedAt = t_FinishedAt t, pt_Error = t_Error t,
            pt_PushResult = None, pt_PullResult = None\<rparr>
      in rbind (if t_State t = TaskQueued
                then (case Position memory_tasks m (t_ID t) of
                        Inl e \<Rightarrow> Inl (StoreFailed e)
                      | Inr n \<Rightarrow> Inr (view\<lparr>pt_QueuePosition := n\<rparr>))
                else Inr view) (\<lambda>view.
         if t_State t = TaskSucceeded \<and> length (t_Result t) > 0
         then (case t_Kind t of
                 TaskPush \<Rightarrow> (case ad_push_result a (t_Result t) of
                               None \<Rightarrow> Inl JsonFailed | Some r \<Rightarrow> Inr (view\<lparr>pt_PushResult := Some r\<rparr>))
               | TaskPull \<Rightarrow> (case ad_pull_result a (t_Result t) of
                               None \<Rightarrow> Inl JsonFailed | Some r \<Rightarrow> Inr (view\<lparr>pt_PullResult := Some r\<rparr>))
               | OtherKind _ \<Rightarrow> Inr view)
         else Inr view))"

definition handleGetTask :: "'b api_deps \<Rightarrow> string \<Rightarrow> principal \<Rightarrow> 'b srv \<Rightarrow> srv_error + protocol_task" where
  "handleGetTask a i pr st =
     rbind (ownedTask pr (sv_store st) i) (\<lambda>t. taskView a (sv_store st) t)"

definition writeEvent :: "'b api_deps \<Rightarrow> mem \<Rightarrow> instant \<Rightarrow> task \<Rightarrow> srv_error + poll_event" where
  "writeEvent a m now t =
     rbind (taskView a m t) (\<lambda>view.
       Inr \<lparr>ev_TaskID = t_ID t, ev_State = t_State t, ev_At = now,
            ev_Task = (if Terminal (t_State t) then Some view else None)\<rparr>)"

text \<open>
  The loop of the long poll. Each wait but the last is ended by a signal or by the poll, and a wake-up is
  the store and the clock the handler then finds; in the last one the client hangs up, and the handler
  returns without having written anything.
\<close>

fun events_loop ::
  "'b api_deps \<Rightarrow> instant \<Rightarrow> task_state \<Rightarrow> task \<Rightarrow> mem \<Rightarrow> instant \<Rightarrow> (mem \<times> instant) list \<Rightarrow>
     srv_error + poll_event option" where
  "events_loop a deadline initial t m now wakes =
     (if t_State t \<noteq> initial \<or> Terminal (t_State t) \<or> now > deadline then map_sum id Some (writeEvent a m now t)
      else case wakes of
             [] \<Rightarrow> Inr None
           | (m', now') # rest \<Rightarrow>
               (case ByID m' (t_ID t) of
                  Inl e \<Rightarrow> Inl (StoreFailed e)
                | Inr t' \<Rightarrow> events_loop a deadline initial t' m' now' rest))"

declare events_loop.simps [simp del]

definition handleTaskEvents ::
  "'b api_deps \<Rightarrow> instant \<Rightarrow> (mem \<times> instant) list \<Rightarrow> string \<Rightarrow> principal \<Rightarrow> 'b srv \<Rightarrow> srv_error + poll_event option" where
  "handleTaskEvents a now wakes i pr st =
     rbind (ownedTask pr (sv_store st) i) (\<lambda>t.
       events_loop a (now + ad_EventMaxWait a) (t_State t) t (sv_store st) now wakes)"

definition event_body :: "poll_event option \<Rightarrow> body" where
  "event_body e = (case e of None \<Rightarrow> NoBody | Some ev \<Rightarrow> EventBody ev)"

definition pull_digest :: "'b api_deps \<Rightarrow> bytes \<Rightarrow> string option option" where
  "pull_digest a raw =
     (case ad_pull_result a raw of None \<Rightarrow> None | Some r \<Rightarrow> Some (map_option pb_Digest (pu_Patch r)))"

subsection \<open>The operations endpoints (\<open>admin.go\<close>)\<close>

definition isAdmin :: "'b api_deps \<Rightarrow> mem \<Rightarrow> principal \<Rightarrow> bool" where
  "isAdmin a m pr =
     (let scoped = AdminGroups m (pr_Tenant pr);
          groups = (if length scoped > 0 then scoped else ad_AdminGroups a)
      in list_ex (InGroup (pr_Subject pr)) groups)"

definition adminOnly :: "'b api_deps \<Rightarrow> 'b handler \<Rightarrow> 'b handler" where
  "adminOnly a h pr st =
     (if \<not> isAdmin a (sv_store st) pr then (Inl (fail 404 ''not_found'' ''not found''), st) else h pr st)"

text \<open>\<open>url.Values\<close>, and \<open>strconv.Atoi\<close> on a 64-bit machine.\<close>

type_synonym query = "(string \<times> string list) list"

definition query_all :: "query \<Rightarrow> string \<Rightarrow> string list" where
  "query_all q k = (case map_of q k of None \<Rightarrow> [] | Some vs \<Rightarrow> vs)"

definition query_get :: "query \<Rightarrow> string \<Rightarrow> string" where
  "query_get q k = (case query_all q k of [] \<Rightarrow> [] | v # _ \<Rightarrow> v)"

fun digits_value :: "int \<Rightarrow> string \<Rightarrow> int option" where
  "digits_value acc [] = Some acc"
| "digits_value acc (c # cs) =
     (if CHR ''0'' \<le> c \<and> c \<le> CHR ''9'' then digits_value (acc * 10 + (of_char c - 48)) cs else None)"

definition Atoi :: "string \<Rightarrow> int option" where
  "Atoi raw =
     (let sgn = (if prefix ''-'' raw then - 1 else 1);
          ds = (if prefix ''-'' raw \<or> prefix ''+'' raw then tl raw else raw)
      in if ds = [] then None
         else case digits_value 0 ds of
                None \<Rightarrow> None
              | Some n \<Rightarrow> if - (2 ^ 63) \<le> sgn * n \<and> sgn * n < 2 ^ 63 then Some (sgn * n) else None)"

definition intParam :: "string \<Rightarrow> int \<Rightarrow> int \<Rightarrow> int" where
  "intParam raw fallback mx =
     (if raw = [] then fallback
      else case Atoi raw of
             None \<Rightarrow> fallback
           | Some n \<Rightarrow> if n \<le> 0 then fallback else if n > mx then mx else n)"

definition state_of :: "string \<Rightarrow> task_state" where
  "state_of s =
     (if s = ''queued'' then TaskQueued else if s = ''running'' then TaskRunning
      else if s = ''succeeded'' then TaskSucceeded else if s = ''failed'' then TaskFailed
      else if s = ''cancelled'' then TaskCancelled else OtherState s)"

definition kind_of :: "string \<Rightarrow> task_kind" where
  "kind_of s = (if s = ''push'' then TaskPush else if s = ''pull'' then TaskPull else OtherKind s)"

text \<open>The names shown for one response are looked up once per identifier.\<close>

type_synonym name_cache = "(string \<times> string) list"

definition name_get :: "name_cache \<Rightarrow> string \<Rightarrow> (string \<Rightarrow> string) \<Rightarrow> string \<times> name_cache" where
  "name_get c i resolve =
     (if i = [] then ([], c)
      else case map_of c i of
             Some name \<Rightarrow> (name, c)
           | None \<Rightarrow> (resolve i, AList.update i (resolve i) c))"

definition userName :: "mem \<Rightarrow> id \<Rightarrow> string" where
  "userName m i = (case User_ByID m i of Inl _ \<Rightarrow> i | Inr u \<Rightarrow> su_PolicyUserID u)"

definition repositoryName :: "mem \<Rightarrow> id \<Rightarrow> string" where
  "repositoryName m i = (case Repo_ByID m i of Inl _ \<Rightarrow> i | Inr r \<Rightarrow> sr_PolicyRepoID r)"

definition Millisecond :: duration where "Millisecond = 1000000"

definition durationOf :: "task \<Rightarrow> instant \<Rightarrow> int" where
  "durationOf t now =
     (case t_StartedAt t of
        None \<Rightarrow> 0
      | Some s \<Rightarrow>
          (let d = (case t_FinishedAt t of None \<Rightarrow> now | Some e \<Rightarrow> e) - s
           in if d < 0 then - ((- d) div Millisecond) else d div Millisecond))"

definition view_of :: "task \<Rightarrow> instant \<Rightarrow> string \<Rightarrow> string \<Rightarrow> task_view" where
  "view_of t now user repository =
     \<lparr>tv_ID = t_ID t, tv_Kind = t_Kind t, tv_State = t_State t, tv_User = user, tv_Repository = repository,
      tv_Branch = t_Branch t, tv_Attempts = t_Attempts t, tv_QueuePosition = 0,
      tv_LeaseHolder = (case t_Lease t of None \<Rightarrow> [] | Some l \<Rightarrow> l_Holder l),
      tv_CreatedAt = t_CreatedAt t, tv_StartedAt = t_StartedAt t, tv_FinishedAt = t_FinishedAt t,
      tv_DurationMs = durationOf t now, tv_Error = t_Error t\<rparr>"

fun view_loop ::
  "mem \<Rightarrow> instant \<Rightarrow> name_cache \<Rightarrow> name_cache \<Rightarrow> task list \<Rightarrow> srv_error + task_view list" where
  "view_loop m now users repos [] = Inr []"
| "view_loop m now users repos (t # ts) =
     (let (user, users') = name_get users (t_UserID t) (userName m);
          (repo, repos') = name_get repos (t_RepositoryID t) (repositoryName m);
          view = view_of t now user repo
      in rbind (if t_State t = TaskQueued
                then (case Position memory_tasks m (t_ID t) of
                        Inl e \<Rightarrow> Inl (StoreFailed e)
                      | Inr n \<Rightarrow> Inr (view\<lparr>tv_QueuePosition := n\<rparr>))
                else Inr view) (\<lambda>view.
         rbind (view_loop m now users' repos' ts) (\<lambda>views. Inr (view # views))))"

definition named_repository :: "tenant_id \<Rightarrow> mem \<Rightarrow> query \<Rightarrow> srv_error + id" where
  "named_repository tenant m q =
     (if query_get q ''repository'' = [] then Inr []
      else rbind (resolveRepository tenant m (query_get q ''repository'')) (\<lambda>r. Inr (sr_ID r)))"

definition handleAdminTasks ::
  "instant \<Rightarrow> query \<Rightarrow> principal \<Rightarrow> 'b srv \<Rightarrow> srv_error + task_view list" where
  "handleAdminTasks now q pr st =
     rbind (named_repository (pr_Tenant pr) (sv_store st) q) (\<lambda>repo.
       view_loop (sv_store st) now [] []
         (List_tasks (sv_store st)
           \<lparr>f_Tenant = pr_Tenant pr, f_States = map state_of (query_all q ''state''),
            f_Kinds = map kind_of (query_all q ''kind''), f_UserID = [], f_RepositoryID = repo,
            f_Branch = query_get q ''branch'', f_Limit = intParam (query_get q ''limit'') 50 500\<rparr>))"

definition handleAdminTask :: "instant \<Rightarrow> string \<Rightarrow> 'b srv \<Rightarrow> srv_error + admin_task_detail" where
  "handleAdminTask now i st =
     (case ByID (sv_store st) i of
        Inl _ \<Rightarrow> Inl (fail 404 ''unknown_task'' ''unknown task'')
      | Inr t \<Rightarrow>
          Inr (task_view.extend
            (view_of t now (userName (sv_store st) (t_UserID t)) (repositoryName (sv_store st) (t_RepositoryID t)))
            (admin_task_detail.fields (t_Payload t) (t_Result t))))"

definition audit_view_of :: "audit_record \<Rightarrow> string \<Rightarrow> audit_view" where
  "audit_view_of r repository =
     \<lparr>av_ID = ar_ID r, av_OccurredAt = ar_OccurredAt r, av_Actor = ar_ActorLabel r, av_Action = ar_Action r,
      av_Repository = repository, av_Branch = ar_Branch r, av_Path = ar_Path r, av_Effect = ar_Effect r,
      av_Reason = reason_str (ar_Reason r), av_RuleID = ar_RuleID r, av_Guard = ar_Guard r,
      av_PolicyVersion = ar_PolicyVersion r, av_RequestID = ar_RequestID r, av_TaskID = ar_TaskID r\<rparr>"

fun audit_loop :: "mem \<Rightarrow> name_cache \<Rightarrow> audit_record list \<Rightarrow> audit_view list" where
  "audit_loop m repos [] = []"
| "audit_loop m repos (r # rs) =
     (let (repo, repos') = name_get repos (ar_RepositoryID r) (repositoryName m)
      in audit_view_of r repo # audit_loop m repos' rs)"

definition timestamp_param :: "'b api_deps \<Rightarrow> query \<Rightarrow> string \<Rightarrow> srv_error + instant" where
  "timestamp_param a q k =
     (if query_get q k = [] then Inr 0
      else case ad_timestamp a (query_get q k) of
             None \<Rightarrow> Inl (fail 400 ''bad_request'' (k @ '' must be an RFC3339 timestamp''))
           | Some t \<Rightarrow> Inr t)"

definition handleAdminAudit :: "'b api_deps \<Rightarrow> query \<Rightarrow> principal \<Rightarrow> 'b srv \<Rightarrow> srv_error + audit_view list" where
  "handleAdminAudit a q pr st =
     rbind (timestamp_param a q ''since'') (\<lambda>since.
     rbind (timestamp_param a q ''until'') (\<lambda>until.
     rbind (named_repository (pr_Tenant pr) (sv_store st) q) (\<lambda>repo.
     rbind (if query_get q ''user'' = [] then Inr []
            else case User_ByPolicyID (sv_store st) (pr_Tenant pr) (query_get q ''user'') of
                   Inl _ \<Rightarrow> Inl (fail 404 ''unknown_user'' (''unknown user '' @ query_get q ''user''))
                 | Inr u \<Rightarrow> Inr (su_ID u)) (\<lambda>actor.
       Inr (audit_loop (sv_store st) []
         (Audit_Query (sv_store st)
           \<lparr>aq_Tenant = pr_Tenant pr, aq_ActorUserID = actor, aq_RepositoryID = repo,
            aq_RequestID = query_get q ''request_id'', aq_Since = since, aq_Until = until, aq_AfterID = 0,
            aq_Oldest = False, aq_Limit = intParam (query_get q ''limit'') 100 1000\<rparr>))))))"

definition in_state :: "mem \<Rightarrow> tenant_id \<Rightarrow> task_state \<Rightarrow> task list" where
  "in_state m tenant s =
     List_tasks m \<lparr>f_Tenant = tenant, f_States = [s], f_Kinds = [], f_UserID = [], f_RepositoryID = [],
       f_Branch = [], f_Limit = 1000\<rparr>"

definition countPrincipals :: "policy \<Rightarrow> nat \<times> nat" where
  "countPrincipals p =
     (let subjects = map rule_Subject (concat (map (\<lambda>r. Policy_Rules p (r_ID r)) (Policy_Repositories p)))
      in (length (remdups (map rs_ID (filter (\<lambda>s. rs_Type s = SubjectTypeUser) subjects))),
          length (remdups (map rs_ID (filter (\<lambda>s. rs_Type s = SubjectTypeGroup) subjects)))))"

definition Day :: duration where "Day = 24 * 60 * Minute"

definition handleAdminStats :: "'b api_deps \<Rightarrow> instant \<Rightarrow> principal \<Rightarrow> 'b srv \<Rightarrow> srv_error + stats" where
  "handleAdminStats a now pr st =
     rbind (policyFor (ad_deps a) (pr_Tenant pr)) (\<lambda>current.
       let tasks = in_state (sv_store st) (pr_Tenant pr);
           denials = Audit_Query (sv_store st)
             \<lparr>aq_Tenant = pr_Tenant pr, aq_ActorUserID = [], aq_RepositoryID = [], aq_RequestID = [],
              aq_Since = now - Day, aq_Until = 0, aq_AfterID = 0, aq_Oldest = False, aq_Limit = 1000\<rparr>
       in Inr \<lparr>st_PolicyVersion = p_version current,
               st_Tasks = map (\<lambda>s. (state_str s, length (tasks s)))
                 [TaskQueued, TaskRunning, TaskSucceeded, TaskFailed, TaskCancelled],
               st_QueueDepth = length (tasks TaskQueued),
               st_BusyBranches = length (remdups (filter (\<lambda>k. k \<noteq> []) (map t_PartitionKey (tasks TaskRunning)))),
               st_Repositories = length (Policy_Repositories current),
               st_Users = fst (countPrincipals current), st_Groups = snd (countPrincipals current),
               st_RecentDenials = length (filter (\<lambda>r. ar_Effect r = EffectDeny) denials)\<rparr>)"

text \<open>The effective members of each group: a map filled while the users are visited in order.\<close>

definition add_member :: "policy \<Rightarrow> user \<Rightarrow> (group_id \<times> string list) list \<Rightarrow> (group_id \<times> string list) list" where
  "add_member p u members =
     (case Policy_Subject p (u_ID u) of
        Inl _ \<Rightarrow> members
      | Inr s \<Rightarrow> fold (\<lambda>g m. add_to g (u_ID u) m) (s_Groups s) members)"

definition groupViews :: "policy \<Rightarrow> policy_group_view list" where
  "groupViews p =
     (let members = fold (add_member p) (Policy_Users p) []
      in map (\<lambda>g. \<lparr>gv_ID = g_ID g, gv_Description = g_Description g, gv_Members = sort (list_at members (g_ID g)),
                   gv_Includes = g_Includes g\<rparr>) (Policy_Groups p))"

definition rule_view_of :: "rule \<Rightarrow> policy_rule_view" where
  "rule_view_of r =
     \<lparr>uv_ID = rule_ID r, uv_Subject = RuleSubject_String (rule_Subject r),
      uv_Except = map RuleSubject_String (rule_Except r), uv_Paths = map pat_raw (rule_Paths r),
      uv_Refs = map pat_raw (rule_Refs r), uv_Actions = rule_Actions r, uv_Effect = rule_Effect r,
      uv_Description = rule_Description r\<rparr>"

definition handleAdminPolicy :: "'b api_deps \<Rightarrow> principal \<Rightarrow> srv_error + policy_view" where
  "handleAdminPolicy a pr =
     rbind (policyFor (ad_deps a) (pr_Tenant pr)) (\<lambda>current.
       Inr \<lparr>pw_Version = p_version current, pw_Groups = groupViews current,
            pw_Repositories = map (\<lambda>r. \<lparr>ov_ID = r_ID r, ov_Remote = r_Remote r, ov_Forge = r_Forge r,
              ov_DefaultBranch = r_DefaultBranch r, ov_Rules = map rule_view_of (Policy_Rules current (r_ID r))\<rparr>)
              (Policy_Repositories current)\<rparr>)"

subsection \<open>Browser origins and request identifiers (\<open>cors.go\<close>, \<open>http.go\<close>)\<close>

definition trim_right_slash :: "string \<Rightarrow> string" where
  "trim_right_slash s = rev (dropWhile (\<lambda>c. c = CHR ''/'') (rev s))"

definition allowed_origins :: "string list \<Rightarrow> string list" where
  "allowed_origins configured = map (\<lambda>origin. trim_right_slash (TrimSpace origin)) configured"

definition cors_headers :: "string \<Rightarrow> (string \<times> string) list" where
  "cors_headers origin =
     [(''Access-Control-Allow-Origin'', origin), (''Access-Control-Allow-Methods'', ''GET, POST, OPTIONS''),
      (''Access-Control-Allow-Headers'', ''Authorization, Content-Type, X-Nit-Digest, X-Nit-Encoding, X-Request-Id''),
      (''Access-Control-Expose-Headers'', ''X-Nit-Digest, X-Request-Id''), (''Access-Control-Max-Age'', ''600''),
      (''Vary'', ''Origin'')]"

text \<open>The headers added, and the status of a preflight answered on the spot.\<close>

definition cors :: "string list \<Rightarrow> string \<Rightarrow> string \<Rightarrow> (string \<times> string) list \<times> nat option" where
  "cors configured method header =
     (if length configured = 0 then ([], None)
      else let origin = trim_right_slash header;
               added = (if origin \<in> set (allowed_origins configured) then cors_headers origin else [])
           in (added, if method = ''OPTIONS'' then Some 204 else None))"

definition requestID :: "string \<Rightarrow> bytes option \<Rightarrow> string" where
  "requestID header random =
     (if header = [] then (case random of Some buf \<Rightarrow> hex_encode buf | None \<Rightarrow> []) else header)"

subsection \<open>Routes (\<open>server.go\<close>, \<open>protocol/routes.go\<close>, \<open>protocol/task.go\<close>)\<close>

datatype access = Anyone | Caller | Operator

datatype endpoint =
    Healthz | WhoAmI | Repositories | CreateWorkspace | ListWorkspaces | SubmitPush | SubmitPull | UploadBlob
  | GetTask string | TaskEvents string | TaskPatch string
  | AdminTasks | AdminTask string | AdminAudit | AdminStats | AdminPolicy

definition RouteTasks :: string where "RouteTasks = ''/v1/tasks''"
definition RouteAdminTasks :: string where "RouteAdminTasks = ''/v1/admin/tasks''"

definition buildRoutes :: "(string \<times> access) list" where
  "buildRoutes =
     [(''GET '' @ ''/healthz'', Anyone),
      (''GET '' @ ''/v1/whoami'', Caller), (''GET '' @ ''/v1/repositories'', Caller),
      (''POST '' @ ''/v1/workspaces'', Caller), (''GET '' @ ''/v1/workspaces'', Caller),
      (''POST '' @ ''/v1/push'', Caller), (''POST '' @ ''/v1/pull'', Caller), (''POST '' @ ''/v1/blobs'', Caller),
      (''GET '' @ RouteTasks @ ''/{id}'', Caller), (''GET '' @ RouteTasks @ ''/{id}/events'', Caller),
      (''GET '' @ RouteTasks @ ''/{id}/patch'', Caller),
      (''GET '' @ RouteAdminTasks, Operator), (''GET '' @ RouteAdminTasks @ ''/{id}'', Operator),
      (''GET '' @ ''/v1/admin/audit'', Operator), (''GET '' @ ''/v1/admin/stats'', Operator),
      (''GET '' @ ''/v1/admin/policy'', Operator)]"

fun access_of :: "endpoint \<Rightarrow> access" where
  "access_of Healthz = Anyone"
| "access_of AdminTasks = Operator"
| "access_of (AdminTask _) = Operator"
| "access_of AdminAudit = Operator"
| "access_of AdminStats = Operator"
| "access_of AdminPolicy = Operator"
| "access_of _ = Caller"

fun pattern_of :: "endpoint \<Rightarrow> string" where
  "pattern_of Healthz = ''GET /healthz''"
| "pattern_of WhoAmI = ''GET /v1/whoami''"
| "pattern_of Repositories = ''GET /v1/repositories''"
| "pattern_of CreateWorkspace = ''POST /v1/workspaces''"
| "pattern_of ListWorkspaces = ''GET /v1/workspaces''"
| "pattern_of SubmitPush = ''POST /v1/push''"
| "pattern_of SubmitPull = ''POST /v1/pull''"
| "pattern_of UploadBlob = ''POST /v1/blobs''"
| "pattern_of (GetTask _) = ''GET /v1/tasks/{id}''"
| "pattern_of (TaskEvents _) = ''GET /v1/tasks/{id}/events''"
| "pattern_of (TaskPatch _) = ''GET /v1/tasks/{id}/patch''"
| "pattern_of AdminTasks = ''GET /v1/admin/tasks''"
| "pattern_of (AdminTask _) = ''GET /v1/admin/tasks/{id}''"
| "pattern_of AdminAudit = ''GET /v1/admin/audit''"
| "pattern_of AdminStats = ''GET /v1/admin/stats''"
| "pattern_of AdminPolicy = ''GET /v1/admin/policy''"

record http_request =
  hq_Authorization :: string
  hq_Digest :: string
  hq_Encoding :: encoding
  hq_Query :: query
  hq_Body :: bytes
  hq_Wakes :: "(mem \<times> instant) list"

definition submitting ::
  "(bytes \<Rightarrow> 'q option) \<Rightarrow> bytes \<Rightarrow> ('b srv \<Rightarrow> 'q \<Rightarrow> (srv_error + 'r) \<times> 'b srv) \<Rightarrow> ('r \<Rightarrow> response) \<Rightarrow> 'b srv \<Rightarrow>
     (srv_error + response) \<times> 'b srv" where
  "submitting dec raw h out st =
     (case decodeJSON dec raw of
        Inl e \<Rightarrow> (Inl e, st)
      | Inr req \<Rightarrow> (case h st req of (Inl e, st') \<Rightarrow> (Inl e, st') | (Inr r, st') \<Rightarrow> (Inr (out r), st')))"

fun handler_of :: "'b api_deps \<Rightarrow> instant \<Rightarrow> http_request \<Rightarrow> endpoint \<Rightarrow> 'b handler" where
  "handler_of a now rq Healthz pr st = (Inr (200, HealthBody (handleHealthz a)), st)"
| "handler_of a now rq WhoAmI pr st = reading (\<lambda>pr st. Inr (WhoAmIBody (handleWhoAmI pr))) pr st"
| "handler_of a now rq Repositories pr st =
     reading (\<lambda>pr st. map_sum id RepositoriesBody (handleRepositories a pr st)) pr st"
| "handler_of a now rq CreateWorkspace pr st = handleCreateWorkspace a now (hq_Body rq) pr st"
| "handler_of a now rq ListWorkspaces pr st = reading (\<lambda>pr st. Inr (WorkspacesBody (handleListWorkspaces pr st))) pr st"
| "handler_of a now rq SubmitPush pr st =
     submitting (ad_push_request a) (hq_Body rq) (handlePush (ad_deps a) (pr_Tenant pr) pr now)
       (\<lambda>r. (if pp_Accepted r then 202 else 200, PushBody r)) st"
| "handler_of a now rq SubmitPull pr st =
     submitting (ad_pull_request a) (hq_Body rq) (handlePull (ad_deps a) (pr_Tenant pr) pr now)
       (\<lambda>r. (202, PullBody r)) st"
| "handler_of a now rq UploadBlob pr st =
     (case handleUploadBlob (ad_deps a) st (hq_Digest rq) (hq_Encoding rq) (hq_Body rq) of
        (Inl e, st') \<Rightarrow> (Inl e, st') | (Inr b, st') \<Rightarrow> (Inr (201, BlobBody b), st'))"
| "handler_of a now rq (GetTask i) pr st = reading (\<lambda>pr st. map_sum id TaskBody (handleGetTask a i pr st)) pr st"
| "handler_of a now rq (TaskEvents i) pr st =
     reading (\<lambda>pr st. map_sum id event_body (handleTaskEvents a now (hq_Wakes rq) i pr st)) pr st"
| "handler_of a now rq (TaskPatch i) pr st =
     reading (\<lambda>pr st. map_sum id PatchBody (handleTaskPatch (ad_deps a) (pull_digest a) pr st i)) pr st"
| "handler_of a now rq AdminTasks pr st =
     adminOnly a (reading (\<lambda>pr st. map_sum id AdminTasksBody (handleAdminTasks now (hq_Query rq) pr st))) pr st"
| "handler_of a now rq (AdminTask i) pr st =
     adminOnly a (reading (\<lambda>pr st. map_sum id AdminTaskBody (handleAdminTask now i st))) pr st"
| "handler_of a now rq AdminAudit pr st =
     adminOnly a (reading (\<lambda>pr st. map_sum id AuditBody (handleAdminAudit a (hq_Query rq) pr st))) pr st"
| "handler_of a now rq AdminStats pr st =
     adminOnly a (reading (\<lambda>pr st. map_sum id StatsBody (handleAdminStats a now pr st))) pr st"
| "handler_of a now rq AdminPolicy pr st =
     adminOnly a (reading (\<lambda>pr st. map_sum id PolicyBody (handleAdminPolicy a pr))) pr st"

text \<open>One equation for each call of \<open>register\<close>; \<open>adminOnly\<close> is \<open>authenticated\<close> around a handler that checks.\<close>

fun serve ::
  "'b api_deps \<Rightarrow> instant \<Rightarrow> endpoint \<Rightarrow> http_request \<Rightarrow> 'b srv \<Rightarrow> response \<times> 'b srv" where
  "serve a now Healthz rq st = ((200, HealthBody (handleHealthz a)), st)"
| "serve a now WhoAmI rq st = authenticated a now (hq_Authorization rq) (handler_of a now rq WhoAmI) st"
| "serve a now Repositories rq st = authenticated a now (hq_Authorization rq) (handler_of a now rq Repositories) st"
| "serve a now CreateWorkspace rq st = authenticated a now (hq_Authorization rq) (handler_of a now rq CreateWorkspace) st"
| "serve a now ListWorkspaces rq st = authenticated a now (hq_Authorization rq) (handler_of a now rq ListWorkspaces) st"
| "serve a now SubmitPush rq st = authenticated a now (hq_Authorization rq) (handler_of a now rq SubmitPush) st"
| "serve a now SubmitPull rq st = authenticated a now (hq_Authorization rq) (handler_of a now rq SubmitPull) st"
| "serve a now UploadBlob rq st = authenticated a now (hq_Authorization rq) (handler_of a now rq UploadBlob) st"
| "serve a now (GetTask i) rq st = authenticated a now (hq_Authorization rq) (handler_of a now rq (GetTask i)) st"
| "serve a now (TaskEvents i) rq st = authenticated a now (hq_Authorization rq) (handler_of a now rq (TaskEvents i)) st"
| "serve a now (TaskPatch i) rq st = authenticated a now (hq_Authorization rq) (handler_of a now rq (TaskPatch i)) st"
| "serve a now AdminTasks rq st = authenticated a now (hq_Authorization rq) (handler_of a now rq AdminTasks) st"
| "serve a now (AdminTask i) rq st = authenticated a now (hq_Authorization rq) (handler_of a now rq (AdminTask i)) st"
| "serve a now AdminAudit rq st = authenticated a now (hq_Authorization rq) (handler_of a now rq AdminAudit) st"
| "serve a now AdminStats rq st = authenticated a now (hq_Authorization rq) (handler_of a now rq AdminStats) st"
| "serve a now AdminPolicy rq st = authenticated a now (hq_Authorization rq) (handler_of a now rq AdminPolicy) st"

declare serve.simps [simp del]

lemma serve_Healthz: "serve a now Healthz rq st = ((200, HealthBody (handleHealthz a)), st)"
  by (rule serve.simps)

lemma serve_authenticated:
  "ep \<noteq> Healthz \<Longrightarrow> serve a now ep rq st = authenticated a now (hq_Authorization rq) (handler_of a now rq ep) st"
  by (cases ep) (simp_all add: serve.simps)

subsection \<open>Every response is well formed\<close>

lemma routes_agree: "(pattern_of ep, access_of ep) \<in> set buildRoutes"
  by (cases ep) (simp_all add: buildRoutes_def RouteTasks_def RouteAdminTasks_def)

definition error_statuses :: "nat set" where
  "error_statuses = {400, 401, 403, 404, 409, 410, 413, 500, 503}"

definition good_error :: "srv_error \<Rightarrow> bool" where
  "good_error e \<longleftrightarrow> (case e of Api a \<Rightarrow> ae_status a \<in> error_statuses | _ \<Rightarrow> True)"

definition wf_response :: "response \<Rightarrow> bool" where
  "wf_response r \<longleftrightarrow> (case snd r of ErrorBody _ \<Rightarrow> fst r \<in> error_statuses | _ \<Rightarrow> fst r \<in> {200, 201, 202})"

definition good_result :: "(srv_error + response) \<Rightarrow> bool" where
  "good_result r \<longleftrightarrow> (case r of Inl e \<Rightarrow> good_error e | Inr resp \<Rightarrow> wf_response resp)"

lemma good_fail [simp]: "good_error (fail s c m) \<longleftrightarrow> s \<in> error_statuses"
  by (simp add: good_error_def fail_def)

lemma good_internal [simp]:
  "good_error (StoreFailed e)" "good_error (BlobFailed b)" "good_error (EnforceFailed f)" "good_error JsonFailed"
  by (simp_all add: good_error_def)

lemma statuses [simp]:
  "400 \<in> error_statuses" "401 \<in> error_statuses" "403 \<in> error_statuses" "404 \<in> error_statuses"
  "409 \<in> error_statuses" "410 \<in> error_statuses" "413 \<in> error_statuses" "500 \<in> error_statuses"
  "503 \<in> error_statuses"
  by (simp_all add: error_statuses_def)

lemma good_resolve:
  "resolveRepository tenant m name = Inl e \<Longrightarrow> good_error e"
  "resolveWorkspace pr m name = Inl e \<Longrightarrow> good_error e"
  "resolveBaseCommit d m tok w r b = Inl e \<Longrightarrow> good_error e"
  "resolvePullBase d tok w r b = Inl e \<Longrightarrow> good_error e"
  "policyFor d tenant = Inl e \<Longrightarrow> good_error e"
  "ownedTask pr m name = Inl e \<Longrightarrow> good_error e"
  "checkProtocolVersion v = Inl e \<Longrightarrow> good_error e"
  by (auto simp: resolveRepository_def resolveWorkspace_def resolveBaseCommit_def resolvePullBase_def
      policyFor_def ownedTask_def checkProtocolVersion_def
      split: if_splits sum.splits option.splits store_error.splits)

lemma good_push_steps:
  "push_validate req = Inl e \<Longrightarrow> good_error e"
  "loadPatch d b desc = Inl e \<Longrightarrow> good_error e"
  "respondExistingPush m t = Inl e \<Longrightarrow> good_error e"
  "pull_validate lreq = Inl e \<Longrightarrow> good_error e"
  by (auto simp: push_validate_def loadPatch_def respondExistingPush_def pull_validate_def rbind_Inl_iff Let_def
      dest: good_resolve split: if_splits sum.splits blob_error.splits compress_error.splits)

lemma map_sum_Inl_iff: "map_sum f g x = Inl y \<longleftrightarrow> (\<exists>z. x = Inl z \<and> y = f z)"
  by (cases x) auto

lemma rbind_InlE:
  assumes "rbind m f = Inl e"
  obtains (first) "m = Inl e" | (then_) x where "m = Inr x" "f x = Inl e"
  using assms by (auto simp: rbind_Inl_iff)

lemma good_push_decide: "push_decide d tenant pr st req = Inl e \<Longrightarrow> good_error e"
  unfolding push_decide_def
  by (elim rbind_InlE)
    (auto dest: good_resolve good_push_steps split: sum.splits patch_error.splits)

lemma storePatch_Inl: "storePatch d tenant now st raw kind ex = Inl e \<Longrightarrow> good_error e"
  by (auto simp: storePatch_def Let_def split: sum.splits prod.splits)

lemma good_push_enqueue: "push_enqueue d tenant pr now req pd out st = (Inl e, st') \<Longrightarrow> good_error e"
  by (auto simp: push_enqueue_def Let_def dest: storePatch_Inl split: sum.splits prod.splits option.splits)

lemma good_handlePush: "handlePush d tenant pr now st req = (Inl e, st') \<Longrightarrow> good_error e"
  by (auto simp: handlePush_def Let_def good_error_def[of "Api _"]
      dest: good_push_steps good_push_decide good_push_enqueue split: sum.splits if_splits option.splits)

lemma good_handlePull: "handlePull d tenant pr now st req = (Inl e, st') \<Longrightarrow> good_error e"
  by (auto simp: handlePull_def Let_def dest: good_push_steps good_resolve
      split: sum.splits if_splits option.splits prod.splits)

lemma good_upload: "handleUploadBlob d st dg enc raw = (Inl e, st') \<Longrightarrow> good_error e"
  by (auto simp: handleUploadBlob_def split: sum.splits blob_error.splits prod.splits)

lemma good_task_endpoints:
  "handleTaskPatch d dec pr st i = Inl e \<Longrightarrow> good_error e"
  "taskView a m t = Inl e \<Longrightarrow> good_error e"
  by (auto simp: handleTaskPatch_def taskView_def Let_def elim!: rbind_InlE dest: good_resolve
      split: if_splits option.splits sum.splits blob_error.splits task_kind.splits)

lemma good_events_loop: "events_loop a dl s t m now ws = Inl e \<Longrightarrow> good_error e"
proof (induction a dl s t m now ws rule: events_loop.induct)
  case (1 a dl s t m now ws)
  then show ?case
    by (subst (asm) (2) events_loop.simps)
      (auto simp: writeEvent_def map_sum_Inl_iff elim!: rbind_InlE dest: good_task_endpoints(2)
        split: if_splits list.splits sum.splits)
qed

lemma good_handleTaskEvents: "handleTaskEvents a now ws i pr st = Inl e \<Longrightarrow> good_error e"
  by (auto simp: handleTaskEvents_def elim!: rbind_InlE dest: good_resolve good_events_loop)

lemma good_view_loop: "view_loop m now us rs ts = Inl e \<Longrightarrow> good_error e"
  by (induction m now us rs ts rule: view_loop.induct)
    (auto simp: Let_def elim!: rbind_InlE split: prod.splits if_splits sum.splits)

lemma good_named_repository: "named_repository tenant m q = Inl e \<Longrightarrow> good_error e"
  by (auto simp: named_repository_def elim!: rbind_InlE dest: good_resolve split: if_splits)

lemma good_admin_endpoints:
  "handleAdminTasks now q pr st = Inl e \<Longrightarrow> good_error e"
  "handleAdminTask now i st = Inl e \<Longrightarrow> good_error e"
  "handleAdminAudit a q pr st = Inl e \<Longrightarrow> good_error e"
  "handleAdminStats a now pr st = Inl e \<Longrightarrow> good_error e"
  "handleAdminPolicy a pr = Inl e \<Longrightarrow> good_error e"
  by (auto simp: handleAdminTasks_def handleAdminTask_def handleAdminAudit_def handleAdminStats_def Let_def
      handleAdminPolicy_def timestamp_param_def elim!: rbind_InlE
      dest: good_resolve good_view_loop good_named_repository
      split: if_splits sum.splits option.splits)

lemmas good_endpoints = good_handlePush good_handlePull good_upload good_task_endpoints good_admin_endpoints

lemma good_reading:
  assumes "\<And>e. f pr st = Inl e \<Longrightarrow> good_error e" "\<And>x. wf_response (200, B x)"
  shows "good_result (fst (reading (\<lambda>pr st. map_sum id B (f pr st)) pr st))"
  using assms by (cases "f pr st") (auto simp: reading_def good_result_def)

lemma good_adminOnly: "good_result (fst (h pr st)) \<Longrightarrow> good_result (fst (adminOnly a h pr st))"
  by (simp add: adminOnly_def good_result_def)

lemma good_submitting:
  assumes "\<And>req e st'. h st req = (Inl e, st') \<Longrightarrow> good_error e" "\<And>r. wf_response (out r)"
  shows "good_result (fst (submitting dec raw h out st))"
proof (cases "dec (LimitReader raw maxRequestBody)")
  case (Some req)
  then show ?thesis
    using assms(1)[of req] assms(2) by (cases "h st req"; cases "fst (h st req)")
      (auto simp: submitting_def good_result_def decodeJSON_def)
qed (simp add: submitting_def good_result_def decodeJSON_def)

lemma good_handler: "good_result (fst (handler_of a now rq ep pr st))"
proof (cases ep)
  case SubmitPush
  then show ?thesis by (auto intro!: good_submitting dest: good_endpoints simp: wf_response_def)
next
  case SubmitPull
  then show ?thesis by (auto intro!: good_submitting dest: good_endpoints simp: wf_response_def)
next
  case CreateWorkspace
  then show ?thesis
    by (auto simp: handleCreateWorkspace_def decodeJSON_def good_result_def wf_response_def Let_def
        split: option.splits prod.splits)
next
  case UploadBlob
  then show ?thesis by (auto simp: good_result_def wf_response_def dest: good_endpoints split: prod.splits sum.splits)
next
  case Healthz
  then show ?thesis by (simp add: good_result_def wf_response_def)
next
  case WhoAmI
  then show ?thesis by (simp add: reading_def good_result_def wf_response_def)
next
  case ListWorkspaces
  then show ?thesis by (simp add: reading_def good_result_def wf_response_def)
next
  case (TaskEvents i)
  then show ?thesis
    by (auto intro!: good_reading simp: event_body_def wf_response_def dest: good_handleTaskEvents split: option.split)
qed (auto intro!: good_adminOnly good_reading simp: wf_response_def handleRepositories_def handleGetTask_def
    elim!: rbind_InlE dest!: good_endpoints good_resolve)

subsection \<open>Who a request acts as\<close>

definition caller :: "'b api_deps \<Rightarrow> instant \<Rightarrow> mem \<Rightarrow> string \<Rightarrow> auth_error + principal" where
  "caller a now m header =
     rbind (BearerToken header) (\<lambda>token. fst (Authenticate (ad_sha a) (sd_policies (ad_deps a)) now m token))"

text \<open>
  \<open>pr\<close> is an enabled account holding a session that is neither revoked nor expired, with the groups the
  bundle in force gives it.
\<close>

definition speaks_for :: "'b api_deps \<Rightarrow> instant \<Rightarrow> mem \<Rightarrow> principal \<Rightarrow> bool" where
  "speaks_for a now m pr \<longleftrightarrow>
     pr_Session pr \<in> snd ` set (m_sessions m) \<and> Active (pr_Session pr) now
   \<and> map_of (m_users m) (se_UserID (pr_Session pr)) = Some (pr_User pr) \<and> \<not> su_Disabled (pr_User pr)
   \<and> pr_Tenant pr = se_TenantID (pr_Session pr)
   \<and> (\<exists>p. sd_policies (ad_deps a) (pr_Tenant pr) = Some p
        \<and> Policy_Subject p (su_PolicyUserID (pr_User pr)) = Inr (pr_Subject pr) \<and> pr_PolicyVersion pr = p_version p)"

text \<open>The store after a request has been authenticated: at most one session's last use has changed.\<close>

definition touched :: "instant \<Rightarrow> mem \<Rightarrow> principal \<Rightarrow> mem" where
  "touched now m pr = (case Session_Touch m (se_ID (pr_Session pr)) now of Inl _ \<Rightarrow> m | Inr m' \<Rightarrow> m')"

lemma touched_sessions: "\<exists>ss. touched now m pr = m\<lparr>m_sessions := ss\<rparr>"
proof (cases "Session_Touch m (se_ID (pr_Session pr)) now")
  case (Inl e)
  then show ?thesis by (intro exI[of _ "m_sessions m"]) (simp add: touched_def)
qed (auto simp: touched_def Session_Touch_def rbind_Inr_iff)

lemma touched_frame [simp]:
  "m_tasks (touched now m pr) = m_tasks m" "m_audit (touched now m pr) = m_audit m"
  "m_users (touched now m pr) = m_users m" "m_repos (touched now m pr) = m_repos m"
  "m_workspaces (touched now m pr) = m_workspaces m" "m_adminGroups (touched now m pr) = m_adminGroups m"
  using touched_sessions[of now m pr] by auto

lemma Authenticate_Inl: "Authenticate sha ps now m token = (Inl e, m') \<Longrightarrow> m' = m"
  by (auto simp: Authenticate_def split: if_splits sum.splits store_error.splits option.splits)

lemma Authenticate_Inr:
  assumes "Authenticate (ad_sha a) (sd_policies (ad_deps a)) now m token = (Inr pr, m')"
  shows "speaks_for a now m pr" "m' = touched now m pr"
proof -
  have se: "ByTokenHash m (HashToken (ad_sha a) token) = Inr (pr_Session pr)"
    and rest: "se_RevokedAt (pr_Session pr) = None"
      "\<not> (case se_ExpiresAt (pr_Session pr) of None \<Rightarrow> False | Some e \<Rightarrow> \<not> now < e)"
      "User_ByID m (se_UserID (pr_Session pr)) = Inr (pr_User pr)" "\<not> su_Disabled (pr_User pr)"
      "pr_Tenant pr = se_TenantID (pr_Session pr)" "m' = touched now m pr"
      "\<exists>p. sd_policies (ad_deps a) (pr_Tenant pr) = Some p
        \<and> Policy_Subject p (su_PolicyUserID (pr_User pr)) = Inr (pr_Subject pr) \<and> pr_PolicyVersion pr = p_version p"
    using assms by (auto simp: Authenticate_def touched_def split: if_splits sum.splits store_error.splits option.splits)
  have "pr_Session pr \<in> snd ` set (m_sessions m)"
    using se by (force simp: ByTokenHash_def found_def dest: find_val_SomeD split: option.splits)
  then show "speaks_for a now m pr" "m' = touched now m pr"
    using rest by (auto simp: speaks_for_def Active_def User_ByID_def lookup_Inr_iff split: option.splits)
qed

lemma authenticated_refused:
  "caller a now (sv_store st) header = Inl e \<Longrightarrow> authenticated a now header h st = (writeError (unauthorized e), st)"
  by (auto simp: caller_def authenticated_def rbind_Inl_iff dest: Authenticate_Inl split: sum.splits prod.splits)

lemma authenticated_accepted:
  assumes "caller a now (sv_store st) header = Inr pr"
  shows "speaks_for a now (sv_store st) pr"
    "authenticated a now header h st = answer (h pr (st\<lparr>sv_store := touched now (sv_store st) pr\<rparr>))"
proof -
  obtain token m' where t: "BearerToken header = Inr token"
      "Authenticate (ad_sha a) (sd_policies (ad_deps a)) now (sv_store st) token = (Inr pr, m')"
    using assms by (auto simp: caller_def rbind_Inr_iff prod_eq_iff)
  show "speaks_for a now (sv_store st) pr" by (rule Authenticate_Inr(1)[OF t(2)])
  show "authenticated a now header h st = answer (h pr (st\<lparr>sv_store := touched now (sv_store st) pr\<rparr>))"
    using Authenticate_Inr(2)[OF t(2)] t by (simp add: authenticated_def)
qed

lemma unauthorized_status: "\<exists>s b. writeError (unauthorized e) = (s, ErrorBody b) \<and> s \<in> {401, 403, 500}"
  by (cases e) (simp_all add: unauthorized_def writeError_def fail_def)

lemma wf_answer: "good_result (fst r) \<Longrightarrow> wf_response (fst (answer r))"
  by (cases r; cases "fst r") (auto simp: answer_def good_result_def good_error_def writeError_def wf_response_def
      split: srv_error.splits)

subsection \<open>Views are exact\<close>

definition names_ok :: "(string \<Rightarrow> string) \<Rightarrow> name_cache \<Rightarrow> bool" where
  "names_ok resolve c \<longleftrightarrow> (\<forall>i name. map_of c i = Some name \<longrightarrow> name = resolve i)"

definition shown :: "(string \<Rightarrow> string) \<Rightarrow> string \<Rightarrow> string" where
  "shown resolve i = (if i = [] then [] else resolve i)"

lemma names_ok_Nil: "names_ok resolve []"
  by (simp add: names_ok_def)

lemma name_get_spec: "names_ok resolve c \<Longrightarrow> name_get c i resolve = (name, c') \<Longrightarrow> name = shown resolve i \<and> names_ok resolve c'"
  by (auto simp: name_get_def names_ok_def shown_def map_of_update split: if_splits option.splits)

definition exact_view :: "mem \<Rightarrow> instant \<Rightarrow> task \<Rightarrow> task_view" where
  "exact_view m now t =
     (view_of t now (shown (userName m) (t_UserID t)) (shown (repositoryName m) (t_RepositoryID t)))
       \<lparr>tv_QueuePosition := (if t_State t = TaskQueued then (case QueuePosition m (t_ID t) of Inr n \<Rightarrow> n | Inl _ \<Rightarrow> 0) else 0)\<rparr>"

lemma view_loop_exact:
  assumes "view_loop m now us rs ts = Inr views" "names_ok (userName m) us" "names_ok (repositoryName m) rs"
  shows "views = map (exact_view m now) ts"
  using assms
proof (induction m now us rs ts arbitrary: views rule: view_loop.induct)
  case (2 m now us rs t ts)
  obtain user us' where u: "name_get us (t_UserID t) (userName m) = (user, us')" by fastforce
  obtain repo rs' where r: "name_get rs (t_RepositoryID t) (repositoryName m) = (repo, rs')" by fastforce
  note nm = name_get_spec[OF 2(3) u] name_get_spec[OF 2(4) r]
  have one: "v = exact_view m now t" if "(if t_State t = TaskQueued
      then case Position memory_tasks m (t_ID t) of Inl e \<Rightarrow> Inl (StoreFailed e)
        | Inr n \<Rightarrow> Inr (view_of t now user repo\<lparr>tv_QueuePosition := n\<rparr>)
      else Inr (view_of t now user repo)) = Inr v" for v
    using that nm by (auto simp: exact_view_def Position_def memory_tasks_def view_of_def
        split: if_splits sum.splits)
  from 2(2) obtain v vs where "views = v # vs" "v = exact_view m now t" "view_loop m now us' rs' ts = Inr vs"
    by (auto simp: u r Let_def elim!: rbind_InrE dest: one)
  then show ?case using 2(1)[OF u[symmetric] _ r[symmetric] _ _ \<open>view_loop m now us' rs' ts = Inr vs\<close>] nm by auto
qed simp

lemma audit_loop_exact:
  "names_ok (repositoryName m) rs \<Longrightarrow>
   audit_loop m rs rows = map (\<lambda>r. audit_view_of r (shown (repositoryName m) (ar_RepositoryID r))) rows"
  by (induction m rs rows rule: audit_loop.induct) (auto dest: name_get_spec split: prod.splits)

lemma intParam_bounds: "1 \<le> fallback \<Longrightarrow> fallback \<le> mx \<Longrightarrow> 1 \<le> intParam raw fallback mx \<and> intParam raw fallback mx \<le> mx"
  by (auto simp: intParam_def split: option.splits)

lemma limited_length: "1 \<le> n \<Longrightarrow> n \<le> mx \<Longrightarrow> int (length (limited n xs)) \<le> mx"
  by (auto simp: limited_def)

lemma List_tasks_tenant:
  assumes "t \<in> set (List_tasks m f)" "f_Tenant f \<noteq> []"
  shows "t \<in> snd ` set (m_tasks m)" "t_TenantID t = f_Tenant f"
proof -
  have "t \<in> set (filter (listed f) (map snd (m_tasks m)))"
    using subsetD[OF set_limited assms(1)[unfolded List_tasks_def]] by simp
  then show "t \<in> snd ` set (m_tasks m)" "t_TenantID t = f_Tenant f"
    using assms(2) by (auto simp: listed_def split: if_splits)
qed

lemma Audit_Query_tenant:
  assumes "r \<in> set (Audit_Query m q)" "aq_Tenant q \<noteq> []"
  shows "r \<in> set (m_audit m)" "ar_TenantID r = aq_Tenant q"
proof -
  have "r \<in> set (filter (audit_match q) (m_audit m))"
    using subsetD[OF set_limited assms(1)[unfolded Audit_Query_def]] by (simp split: if_splits)
  then show "r \<in> set (m_audit m)" "ar_TenantID r = aq_Tenant q"
    using assms(2) by (auto simp: audit_match_def split: if_splits)
qed

text \<open>The members collected for a group, user by user.\<close>

lemma list_at_fold_distinct:
  "distinct gs \<Longrightarrow> list_at (fold (\<lambda>g m. add_to g x m) gs m) j = list_at m j @ (if j \<in> set gs then [x] else [])"
  by (induction gs arbitrary: m) (auto simp: list_at_add_to)

lemma list_at_add_member:
  assumes "wf_policy p" "map_of (p_users p) (u_ID u) \<noteq> None"
  shows "list_at (add_member p u m) g = list_at m g @ (if g \<in> member_of p (u_ID u) then [u_ID u] else [])"
proof -
  have "set (list_at (p_memberships p) (u_ID u)) = member_of p (u_ID u)" "distinct (list_at (p_memberships p) (u_ID u))"
    using assms by (auto simp: wf_policy_def wf_memberships_def)
  then show ?thesis using assms(2) by (auto simp: add_member_def Policy_Subject_def list_at_fold_distinct)
qed

lemma list_at_members:
  assumes "wf_policy p" "\<forall>u \<in> set us. map_of (p_users p) (u_ID u) \<noteq> None"
  shows "list_at (fold (add_member p) us m) g = list_at m g @ map u_ID (filter (\<lambda>u. g \<in> member_of p (u_ID u)) us)"
  using assms(2) by (induction us arbitrary: m) (auto simp: list_at_add_member[OF assms(1)])

lemma user_ids:
  assumes "keyed_by u_ID (p_users p)"
  shows "distinct (map u_ID (Policy_Users p))" "set (map u_ID (Policy_Users p)) = dom (map_of (p_users p))"
proof -
  have ids: "map u_ID (map snd (p_users p)) = map fst (p_users p)" and dist: "distinct (map fst (p_users p))"
    using assms by (auto simp: keyed_by_def)
  have m: "mset (map u_ID (Policy_Users p)) = mset (map fst (p_users p))"
    unfolding ids[symmetric] by (simp add: Policy_Users_def multiset.map_comp)
  show "distinct (map u_ID (Policy_Users p))" using dist mset_eq_imp_distinct_iff[OF m] by simp
  show "set (map u_ID (Policy_Users p)) = dom (map_of (p_users p))"
    using mset_eq_setD[OF m] by (simp add: dom_map_of_conv_image_fst)
qed

lemma group_members:
  assumes "wf_policy p"
  shows "sort (list_at (fold (add_member p) (Policy_Users p) []) g)
       = sorted_list_of_set {u \<in> dom (map_of (p_users p)). g \<in> member_of p u}"
proof -
  note ids = user_ids[OF assms[unfolded wf_policy_def, THEN conjunct1]]
  let ?us = "filter (\<lambda>u. g \<in> member_of p (u_ID u)) (Policy_Users p)"
  have eq: "map u_ID ?us = filter (\<lambda>i. g \<in> member_of p i) (map u_ID (Policy_Users p))"
    by (simp add: filter_map comp_def)
  have "u_ID u \<in> dom (map_of (p_users p))" if "u \<in> set (Policy_Users p)" for u
    using that ids(2) by auto
  then have known: "\<forall>u \<in> set (Policy_Users p). map_of (p_users p) (u_ID u) \<noteq> None" by blast
  have "sort (map u_ID ?us) = sorted_list_of_set (set (map u_ID ?us))"
    using ids(1) by (simp only: sorted_list_of_set_sort_remdups eq distinct_remdups_id distinct_filter)
  also have "set (map u_ID ?us) = {u \<in> dom (map_of (p_users p)). g \<in> member_of p u}"
    unfolding eq set_filter ids(2) by (rule refl)
  finally show ?thesis unfolding list_at_members[OF assms known] by (simp add: list_at_def[of "[]"])
qed

text \<open>An operations endpoint leaves what it was given, refuses who is not an operator, and lists one tenant's rows.\<close>

lemma map_sum_Inr_iff: "map_sum f g x = Inr y \<longleftrightarrow> (\<exists>z. x = Inr z \<and> y = g z)"
  by (cases x) auto

lemma operator_endpoint:
  assumes "access_of ep = Operator"
  shows "snd (handler_of a now rq ep pr st) = st"
    "\<not> isAdmin a (sv_store st) pr \<Longrightarrow> fst (handler_of a now rq ep pr st) = Inl (fail 404 ''not_found'' ''not found'')"
  using assms by (cases ep; simp add: adminOnly_def reading_def)+

lemma tasks_listed:
  assumes "handler_of a now rq ep pr st = (Inr (s, AdminTasksBody views), st')" "pr_Tenant pr \<noteq> []"
  shows "int (length views) \<le> 500"
    "v \<in> set views \<Longrightarrow> \<exists>t \<in> snd ` set (m_tasks (sv_store st)). t_TenantID t = pr_Tenant pr \<and> v = exact_view (sv_store st) now t"
proof -
  have "ep = AdminTasks"
    using assms(1) by (cases ep) (auto simp: reading_def adminOnly_def submitting_def handleCreateWorkspace_def
        Let_def map_sum_Inr_iff event_body_def split: option.splits sum.splits prod.splits if_splits)
  then obtain f where f: "view_loop (sv_store st) now [] [] (List_tasks (sv_store st) f) = Inr views"
      "f_Tenant f = pr_Tenant pr" "f_Limit f = intParam (query_get (hq_Query rq) ''limit'') 50 500"
    using assms(1) by (auto simp: reading_def adminOnly_def handleAdminTasks_def map_sum_Inr_iff
        elim!: rbind_InrE split: sum.splits if_splits)
  have v: "views = map (exact_view (sv_store st) now) (List_tasks (sv_store st) f)"
    by (rule view_loop_exact[OF f(1) names_ok_Nil names_ok_Nil])
  show "int (length views) \<le> 500"
    using intParam_bounds[of 50 500] limited_length[of "f_Limit f" 500] by (simp add: v f(3) List_tasks_def)
  show "\<exists>t \<in> snd ` set (m_tasks (sv_store st)). t_TenantID t = pr_Tenant pr \<and> v = exact_view (sv_store st) now t"
    if "v \<in> set views"
    using that List_tasks_tenant[of _ "sv_store st" f] assms(2) f(2) by (auto simp: v)
qed

lemma rows_listed:
  assumes "handler_of a now rq ep pr st = (Inr (s, AuditBody views), st')" "pr_Tenant pr \<noteq> []"
  shows "int (length views) \<le> 1000"
    "v \<in> set views \<Longrightarrow> \<exists>r \<in> set (m_audit (sv_store st)). ar_TenantID r = pr_Tenant pr
       \<and> v = audit_view_of r (shown (repositoryName (sv_store st)) (ar_RepositoryID r))"
proof -
  have "ep = AdminAudit"
    using assms(1) by (cases ep) (auto simp: reading_def adminOnly_def submitting_def handleCreateWorkspace_def
        Let_def map_sum_Inr_iff event_body_def split: option.splits sum.splits prod.splits if_splits)
  then obtain q where q: "views = audit_loop (sv_store st) [] (Audit_Query (sv_store st) q)"
      "aq_Tenant q = pr_Tenant pr" "aq_Limit q = intParam (query_get (hq_Query rq) ''limit'') 100 1000"
    using assms(1) by (auto simp: reading_def adminOnly_def handleAdminAudit_def map_sum_Inr_iff
        elim!: rbind_InrE split: sum.splits if_splits)
  note v = q(1)[unfolded audit_loop_exact[OF names_ok_Nil]]
  show "int (length views) \<le> 1000"
    using intParam_bounds[of 100 1000] limited_length[of "aq_Limit q" 1000 "_ :: audit_record list"] by (simp add: v q(3) Audit_Query_def)
  show "\<exists>r \<in> set (m_audit (sv_store st)). ar_TenantID r = pr_Tenant pr
       \<and> v = audit_view_of r (shown (repositoryName (sv_store st)) (ar_RepositoryID r))" if "v \<in> set views"
    using that Audit_Query_tenant[of _ "sv_store st" q] assms(2) q(2) by (auto simp: v)
qed

subsection \<open>The properties\<close>

text \<open>
  Claim C36. Every answer of the registered handlers, authentication included, is well formed: an error body comes
  with one of nine error statuses, and any other body with 200, 201 or 202. The preflight, the
  multiplexer's own answers and the recovered panic are outside.
\<close>

theorem responses_well_formed:
  "case fst (serve a now ep rq st) of
     (status, ErrorBody _) \<Rightarrow> status \<in> {400, 401, 403, 404, 409, 410, 413, 500, 503}
   | (status, _) \<Rightarrow> status \<in> {200, 201, 202}"
proof -
  have "wf_response (fst (serve a now ep rq st))"
  proof (cases "ep = Healthz")
    case False
    show ?thesis
    proof (cases "caller a now (sv_store st) (hq_Authorization rq)")
      case (Inl e)
      then show ?thesis
        using False unauthorized_status[of e] by (auto simp: serve_authenticated authenticated_refused wf_response_def)
    next
      case (Inr pr)
      then show ?thesis using False by (simp add: serve_authenticated authenticated_accepted(2) wf_answer good_handler)
    qed
  qed (simp add: serve_Healthz wf_response_def)
  then show ?thesis
    by (cases "fst (serve a now ep rq st)"; cases "snd (fst (serve a now ep rq st))")
      (simp_all add: wf_response_def error_statuses_def)
qed

text \<open>
  Claim C11. Every endpoint but the health check acts for an authenticated account or not at all. Either the
  credentials are refused, with a status that says so and nothing changed; or they are a session that is
  neither revoked nor expired of an account that is not disabled, the subject is the one the bundle in
  force for the session's tenant gives that account, and the handler runs on the store with nothing but
  the session's last use written.
\<close>

theorem requests_are_authenticated:
  assumes "ep \<noteq> Healthz"
  shows "(case caller a now (sv_store st) (hq_Authorization rq) of
      Inl e \<Rightarrow> serve a now ep rq st = (writeError (unauthorized e), st) \<and> fst (writeError (unauthorized e)) \<in> {401, 403, 500}
    | Inr pr \<Rightarrow> speaks_for a now (sv_store st) pr \<and> (\<exists>ss. touched now (sv_store st) pr = (sv_store st)\<lparr>m_sessions := ss\<rparr>)
        \<and> serve a now ep rq st = answer (handler_of a now rq ep pr (st\<lparr>sv_store := touched now (sv_store st) pr\<rparr>)))"
proof (cases "caller a now (sv_store st) (hq_Authorization rq)")
  case (Inl e)
  then show ?thesis using assms unauthorized_status[of e] by (auto simp: serve_authenticated authenticated_refused)
next
  case (Inr pr)
  then show ?thesis
    using assms authenticated_accepted(1)[OF Inr] authenticated_accepted(2)[OF Inr, of "handler_of a now rq ep"]
      touched_sessions[of now "sv_store st" pr] by (simp add: serve_authenticated)
qed

text \<open>
  Claim C12. The operations endpoints only read. A caller in none of the operator groups (those of the tenant, or
  the configured ones where the tenant has none) gets the same 404 from each of them; a listing of tasks or
  of audit rows is bounded, and shows rows of the caller's own tenant only, exactly as they are stored.
\<close>

theorem operations_are_scoped:
  assumes "access_of ep = Operator" "caller a now (sv_store st) (hq_Authorization rq) = Inr pr" "pr_Tenant pr \<noteq> []"
    and "serve a now ep rq st = ((status, b), st')"
  shows "st' = st\<lparr>sv_store := touched now (sv_store st) pr\<rparr>
    \<and> (isAdmin a (sv_store st) pr \<or> (status, b) = writeError (fail 404 ''not_found'' ''not found''))
    \<and> (\<forall>views. b = AdminTasksBody views \<longrightarrow> int (length views) \<le> 500 \<and> (\<forall>v \<in> set views.
         \<exists>t \<in> snd ` set (m_tasks (sv_store st)). t_TenantID t = pr_Tenant pr \<and> v = exact_view (sv_store st') now t))
    \<and> (\<forall>views. b = AuditBody views \<longrightarrow> int (length views) \<le> 1000 \<and> (\<forall>v \<in> set views.
         \<exists>r \<in> set (m_audit (sv_store st)). ar_TenantID r = pr_Tenant pr
           \<and> v = audit_view_of r (shown (repositoryName (sv_store st')) (ar_RepositoryID r))))"
proof -
  let ?st = "st\<lparr>sv_store := touched now (sv_store st) pr\<rparr>"
  obtain r where h: "handler_of a now rq ep pr ?st = (r, ?st)"
    using operator_endpoint(1)[OF assms(1), of a now rq pr ?st] by (cases "handler_of a now rq ep pr ?st") auto
  have "ep \<noteq> Healthz" using assms(1) by auto
  then have s: "((status, b), st') = answer (r, ?st)"
    using assms(4) authenticated_accepted(2)[OF assms(2), of "handler_of a now rq ep"] by (simp add: serve_authenticated h)
  then have st': "st' = ?st" by (auto simp: answer_def split: sum.splits)
  have admin: "isAdmin a (sv_store ?st) pr = isAdmin a (sv_store st) pr" by (simp add: isAdmin_def AdminGroups_def)
  have refused: "(status, b) = writeError (fail 404 ''not_found'' ''not found'')" if "\<not> isAdmin a (sv_store st) pr"
    using operator_endpoint(2)[OF assms(1), of a ?st pr now rq] that s admin by (simp add: h answer_def)
  have ok: "r = Inr (status, b)" if "\<forall>x. b \<noteq> ErrorBody x"
    using s that by (auto simp: answer_def writeError_def split: sum.splits srv_error.splits)
  show ?thesis
    using refused tasks_listed[of a now rq ep pr ?st status _ ?st] rows_listed[of a now rq ep pr ?st status _ ?st]
      assms(3) ok h by (auto simp: st')
qed

definition ex_session :: session where
  "ex_session = \<lparr>se_ID = ''sess-1'', se_TenantID = ''acme'', se_UserID = ''user-1'', se_TokenHash = ''nit_t'', se_Label = [],
     se_CreatedAt = 1, se_ExpiresAt = None, se_LastUsedAt = None, se_RevokedAt = None\<rparr>"

definition ex_foreign :: task where
  "ex_foreign = \<lparr>t_ID = ''task-9'', t_TenantID = ''globex'', t_RequestID = ''r9'', t_Kind = TaskPush, t_State = TaskQueued,
     t_UserID = ''user-9'', t_WorkspaceID = ''ws-9'', t_RepositoryID = ''repo-9'', t_Branch = ''main'',
     t_PartitionKey = ''secret:main'', t_Payload = ''globex payload'', t_Result = [], t_Error = None, t_Attempts = 0,
     t_Lease = None, t_CreatedAt = 2, t_UpdatedAt = 2, t_StartedAt = None, t_FinishedAt = None\<rparr>"

definition ex_api :: "fs_store api_deps" where
  "ex_api = \<lparr>ad_deps = ex_deps, ad_sha = (\<lambda>x. x), ad_AdminGroups = [''core''], ad_push_request = (\<lambda>_. None),
     ad_pull_request = (\<lambda>_. None), ad_workspace_request = Some, ad_push_result = (\<lambda>_. None),
     ad_pull_result = (\<lambda>_. None), ad_timestamp = (\<lambda>_. None), ad_EventMaxWait = 30\<rparr>"

definition ex_site :: "fs_store srv" where
  "ex_site = \<lparr>sv_store = New_store\<lparr>m_users := [(''user-1'', ex_member)], m_sessions := [(''sess-1'', ex_session)],
     m_tasks := [(''task-1'', ex_foreign\<lparr>t_ID := ''task-1'', t_TenantID := ''acme'', t_PartitionKey := ''api:main''\<rparr>),
       (''task-9'', ex_foreign)]\<rparr>, sv_blobs = ex_root\<rparr>"

definition ex_call_of :: "string \<Rightarrow> http_request" where
  "ex_call_of header = \<lparr>hq_Authorization = header, hq_Digest = [], hq_Encoding = EncodingNone, hq_Query = [], hq_Body = [], hq_Wakes = []\<rparr>"

text \<open>
  Claim C37. The tenant of a task is not asked for. To an operator of any tenant, the detail endpoint answers 200 for
  every identifier the store has, with the payload and the result of that task as they are stored, whichever
  tenant the task belongs to.
\<close>

theorem operator_reads_foreign_task:
  assumes "caller a now (sv_store st) (hq_Authorization rq) = Inr pr" "isAdmin a (sv_store st) pr"
    and "map_of (m_tasks (sv_store st)) i = Some t"
  shows "\<exists>d. fst (serve a now (AdminTask i) rq st) = (200, AdminTaskBody d)
    \<and> tv_ID d = t_ID t \<and> tv_Payload d = t_Payload t \<and> tv_Result d = t_Result t"
proof -
  let ?st = "st\<lparr>sv_store := touched now (sv_store st) pr\<rparr>"
  have "isAdmin a (sv_store ?st) pr" using assms(2) by (simp add: isAdmin_def AdminGroups_def)
  moreover have "ByID (sv_store ?st) i = Inr t" using assms(3) by (simp add: ByID_def lookup_def)
  ultimately show ?thesis
    by (simp add: serve_authenticated authenticated_accepted(2)[OF assms(1)] adminOnly_def reading_def answer_def
        handleAdminTask_def view_of_def task_view.defs admin_task_detail.defs)
qed

text \<open>
  The list of repositories discloses only what the caller may see: each entry is a repository of the
  caller's tenant, shown as stored, in which the bundle in force allows the caller to read some path.
\<close>

lemma readableSomewhereD:
  "readableSomewhere ds p s repo \<Longrightarrow>
   \<exists>path. d_Allowed (Evaluate ds p \<lparr>q_Repo = repo, q_Ref = [], q_Subject = s, q_Path = path, q_Action = ActionRead\<rparr>)"
  by (auto simp: readableSomewhere_def readable_probe_def list_ex_iff split: if_splits)

lemma repositories_listed:
  assumes "handleRepositories a pr st = Inr vs" "v \<in> set vs"
  obtains p r path where "sd_policies (ad_deps a) (pr_Tenant pr) = Some p" "r \<in> snd ` set (m_repos (sv_store st))"
    "sr_TenantID r = pr_Tenant pr" "v = repository_view_of r"
    "d_Allowed (Evaluate (sd_ds (ad_deps a)) p \<lparr>q_Repo = sr_PolicyRepoID r, q_Ref = [], q_Subject = pr_Subject pr,
       q_Path = path, q_Action = ActionRead\<rparr>)"
  using assms by (fastforce simp: handleRepositories_def policyFor_def Repo_List_def rbind_Inr_iff
      dest!: readableSomewhereD split: option.splits)

theorem repositories_disclose_readable:
  assumes "caller a now (sv_store st) (hq_Authorization rq) = Inr pr"
    and "serve a now Repositories rq st = ((status, RepositoriesBody vs), st')" "v \<in> set vs"
  shows "\<exists>p r path. sd_policies (ad_deps a) (pr_Tenant pr) = Some p \<and> r \<in> snd ` set (m_repos (sv_store st))
    \<and> sr_TenantID r = pr_Tenant pr \<and> v = repository_view_of r
    \<and> d_Allowed (Evaluate (sd_ds (ad_deps a)) p \<lparr>q_Repo = sr_PolicyRepoID r, q_Ref = [], q_Subject = pr_Subject pr,
        q_Path = path, q_Action = ActionRead\<rparr>)"
proof -
  let ?st = "st\<lparr>sv_store := touched now (sv_store st) pr\<rparr>"
  have "handleRepositories a pr ?st = Inr vs"
    using assms(2) authenticated_accepted(2)[OF assms(1), of "handler_of a now rq Repositories"]
    by (cases "handleRepositories a pr ?st")
      (auto simp: serve_authenticated reading_def answer_def writeError_def split: srv_error.splits)
  from repositories_listed[OF this assms(3)] show ?thesis by (metis srv.select_convs(1) srv.surjective srv.update_convs(1) touched_frame(4))
qed

text \<open>
  The operations view of a bundle shows, for each group, exactly the accounts of the bundle that the group
  reaches, directly or through the groups it includes, sorted and without repetition.
\<close>

theorem group_views_effective:
  assumes "Compile sp = Inr p"
  shows "groupViews p = map (\<lambda>g. \<lparr>gv_ID = g_ID g, gv_Description = g_Description g,
      gv_Members = sorted_list_of_set {u \<in> dom (map_of (p_users p)). g_ID g \<in> member_of p u},
      gv_Includes = g_Includes g\<rparr>) (Policy_Groups p)"
  unfolding groupViews_def Let_def group_members[OF conjunct1[OF Compile_wf[OF assms]]] by (rule refl)

definition ex_branch_policy :: policy where
  "ex_branch_policy = (case Compile (ex_spec\<lparr>sp_Rules := [(''api'', [(ex_rule [] EffectAllow [ActionRead] MatchAll)
     \<lparr>rule_Refs := [\<lparr>pat_raw = ''refs/heads/main'', pat_glob = ''refs/heads/main'', pat_dir = []\<rparr>]\<rparr>])]\<rparr>) of Inr p \<Rightarrow> p)"

definition ex_branch_api :: "fs_store api_deps" where
  "ex_branch_api = ex_api\<lparr>ad_deps := ex_deps\<lparr>sd_policies := (\<lambda>_. Some ex_branch_policy)\<rparr>\<rparr>"

definition ex_branch_site :: "fs_store srv" where
  "ex_branch_site = ex_site\<lparr>sv_store := (sv_store ex_site)\<lparr>m_repos := [(''repo-1'', \<lparr>sr_ID = ''repo-1'', sr_TenantID = ''acme'',
     sr_PolicyRepoID = ''api'', sr_Remote = [], sr_Forge = [], sr_DefaultBranch = ''main'', sr_PolicyVersion = ''v1'',
     sr_CreatedAt = 1, sr_UpdatedAt = 1\<rparr>)]\<rparr>\<rparr>"

text \<open>
  A repository whose only grant is limited to a branch is missing from the list of its readers, although
  they may read it there: the list asks about no branch at all, and such a rule then never applies.
\<close>

theorem branch_grant_hides_repository:
  "d_Allowed (Evaluate ex_ds ex_branch_policy (ex_request ActionRead ''README''))
   \<and> map_sum id pr_Subject (caller ex_branch_api 5 (sv_store ex_branch_site) ''Bearer nit_t'') = Inr ex_subject
   \<and> fst (serve ex_branch_api 5 Repositories (ex_call_of ''Bearer nit_t'') ex_branch_site) = (200, RepositoriesBody [])"
  by code_simp

subsection \<open>Witnesses\<close>

lemma ex_caller:
  obtains pr where "caller ex_api 5 (sv_store ex_site) (hq_Authorization (ex_call_of ''Bearer nit_t'')) = Inr pr"
    "pr_Tenant pr = ''acme''"
proof -
  have "map_sum id pr_Tenant (caller ex_api 5 (sv_store ex_site) (hq_Authorization (ex_call_of ''Bearer nit_t''))) = Inr ''acme''"
    by code_simp
  then show ?thesis using that by (auto simp: map_sum_Inr_iff)
qed

theorem requests_are_authenticated_witness:
  "serve ex_api 5 WhoAmI (ex_call_of ''Bearer nit_x'') ex_site
   = ((401, ErrorBody \<lparr>e_Code = ''invalid_token'', e_Message = ''invalid token; run: nit login'', e_Denials = [], e_RetryAfter = 0\<rparr>), ex_site)"
proof -
  have "caller ex_api 5 (sv_store ex_site) (hq_Authorization (ex_call_of ''Bearer nit_x'')) = Inl AuthErrUnknownToken"
    by code_simp
  then show ?thesis
    using requests_are_authenticated[of WhoAmI ex_api 5 "ex_call_of ''Bearer nit_x''" ex_site]
    by (simp add: unauthorized_def writeError_def fail_def)
qed

theorem operator_reads_foreign_task_witness:
  "\<exists>pr d. caller ex_api 5 (sv_store ex_site) ''Bearer nit_t'' = Inr pr \<and> pr_Tenant pr \<noteq> t_TenantID ex_foreign
     \<and> fst (serve ex_api 5 (AdminTask ''task-9'') (ex_call_of ''Bearer nit_t'') ex_site) = (200, AdminTaskBody d)
     \<and> tv_Payload d = t_Payload ex_foreign"
proof -
  obtain pr where pr: "caller ex_api 5 (sv_store ex_site) (hq_Authorization (ex_call_of ''Bearer nit_t'')) = Inr pr"
    "pr_Tenant pr = ''acme''" by (rule ex_caller)
  have "map_sum id (isAdmin ex_api (sv_store ex_site)) (caller ex_api 5 (sv_store ex_site) (hq_Authorization (ex_call_of ''Bearer nit_t''))) = Inr True"
    "map_of (m_tasks (sv_store ex_site)) ''task-9'' = Some ex_foreign" by code_simp+
  then have "isAdmin ex_api (sv_store ex_site) pr" "map_of (m_tasks (sv_store ex_site)) ''task-9'' = Some ex_foreign"
    by (simp_all add: pr)
  from operator_reads_foreign_task[OF pr(1) this] pr show ?thesis
    by (auto simp: ex_call_of_def ex_foreign_def)
qed

theorem operations_are_scoped_witness:
  "\<exists>pr. caller ex_api 5 (sv_store ex_site) ''Bearer nit_t'' = Inr pr \<and>
     (case serve ex_api 5 AdminTasks (ex_call_of ''Bearer nit_t'') ex_site of
        ((s, AdminTasksBody vs), st') \<Rightarrow> map tv_ID vs = [''task-1'']
          \<and> (\<forall>v \<in> set vs. \<exists>t \<in> snd ` set (m_tasks (sv_store ex_site)). t_TenantID t = ''acme'' \<and> v = exact_view (sv_store st') 5 t)
      | _ \<Rightarrow> False)"
proof -
  obtain pr where pr: "caller ex_api 5 (sv_store ex_site) (hq_Authorization (ex_call_of ''Bearer nit_t'')) = Inr pr"
    "pr_Tenant pr = ''acme''" by (rule ex_caller)
  let ?r = "serve ex_api 5 AdminTasks (ex_call_of ''Bearer nit_t'') ex_site"
  have "(case fst ?r of (s, AdminTasksBody vs) \<Rightarrow> map tv_ID vs = [''task-1''] | _ \<Rightarrow> False)" by code_simp
  then obtain s vs st' where r: "?r = ((s, AdminTasksBody vs), st')" "map tv_ID vs = [''task-1'']"
    by (cases ?r; cases "fst ?r"; cases "snd (fst ?r)") auto
  have "hq_Authorization (ex_call_of ''Bearer nit_t'') = ''Bearer nit_t''" by (simp add: ex_call_of_def)
  then show ?thesis
    using operations_are_scoped[OF _ pr(1) _ r(1)] pr r(2) by (intro exI[of _ pr]) (auto simp: r(1))
qed

theorem repositories_disclose_readable_witness:
  "\<exists>vs st'. serve ex_api 5 Repositories (ex_call_of ''Bearer nit_t'') ex_branch_site = ((200, RepositoriesBody vs), st')
     \<and> map rv_ID vs = [''api''] \<and> (\<exists>path. d_Allowed (Evaluate ex_ds ex_policy
        \<lparr>q_Repo = ''api'', q_Ref = [], q_Subject = ex_subject, q_Path = path, q_Action = ActionRead\<rparr>))"
proof -
  let ?rq = "ex_call_of ''Bearer nit_t''"
  let ?r = "serve ex_api 5 Repositories ?rq ex_branch_site"
  have c: "map_sum id (\<lambda>pr. (pr_Tenant pr, pr_Subject pr)) (caller ex_api 5 (sv_store ex_branch_site) (hq_Authorization ?rq))
      = Inr (''acme'', ex_subject)"
    "(case fst ?r of (s, RepositoriesBody vs) \<Rightarrow> s = 200 \<and> map rv_ID vs = [''api''] | _ \<Rightarrow> False)"
    by code_simp+
  obtain pr where pr: "caller ex_api 5 (sv_store ex_branch_site) (hq_Authorization ?rq) = Inr pr" "pr_Subject pr = ex_subject"
    using c(1) by (auto simp: map_sum_Inr_iff)
  obtain vs st' where r: "?r = ((200, RepositoriesBody vs), st')" "map rv_ID vs = [''api'']"
    using c(2) by (cases ?r; cases "fst ?r"; cases "snd (fst ?r)") auto
  then obtain v where v: "v \<in> set vs" "rv_ID v = ''api''" by (cases vs) auto
  show ?thesis
    using repositories_disclose_readable[OF pr(1) r(1) v(1)] r v(2) pr(2)
    by (auto simp: repository_view_of_def ex_api_def ex_deps_def)
qed

theorem group_views_effective_witness:
  "map (\<lambda>v. (gv_ID v, gv_Members v)) (groupViews ex_policy) = [(''core'', [''amy'']), (''dev'', [''amy''])]
   \<and> sorted_list_of_set {u \<in> dom (map_of (p_users ex_policy)). ''dev'' \<in> member_of ex_policy u} = [''amy'']"
proof -
  have g: "map (\<lambda>v. (gv_ID v, gv_Members v)) (groupViews ex_policy) = [(''core'', [''amy'']), (''dev'', [''amy''])]"
    "map g_ID (Policy_Groups ex_policy) = [''core'', ''dev'']" by code_simp+
  then show ?thesis unfolding group_views_effective[OF ex_compiles] by (auto simp: comp_def)
qed

end
