(* ===== verification/Nit_Events.thy ===== *)
theory Nit_Events
  imports Nit_Api
begin

text \<open>
  Waiting for a task: the hub of \<open>internal/taskevents/hub.go\<close> and the long poll of
  \<open>internal/server/tasks.go\<close> (\<open>handleTaskEvents\<close>, \<open>writeEvent\<close>, \<open>waitForChange\<close>). A Go channel of capacity one
  is its identity and the fact that a signal is in it. The long poll is a machine whose events are the
  steps of the handler, of the goroutines it starts to watch its ticker, of the ticker and the clock, of
  the hub's goroutine and of everybody else who uses the store and the hub; a list of events is one
  interleaving. A backend that notifies (\<open>store.TaskNotifier\<close>) reports the tasks whose state has changed, and may
  lose a report or repeat one. The contract of the hub is the locale \<open>wake_hub\<close>. The answer of the endpoint
  in \<open>Nit_Api\<close> is what the machine answers on the schedules it stands for (\<open>long_poll_answers\<close>).
\<close>

subsection \<open>The hub (\<open>hub.go\<close>)\<close>

type_synonym chan = nat

record hub =
  hb_waiters :: "(id \<times> chan list) list"
  hb_signals :: "chan list"
  hb_fresh :: chan

record subscription =
  sb_id :: id
  sb_ch :: chan

definition New_hub :: hub where
  "New_hub = \<lparr>hb_waiters = [], hb_signals = [], hb_fresh = 0\<rparr>"

definition Subscribe :: "id \<Rightarrow> hub \<Rightarrow> subscription \<times> hub" where
  "Subscribe i h =
     (let ch = hb_fresh h
      in (\<lparr>sb_id = i, sb_ch = ch\<rparr>,
          h\<lparr>hb_waiters := AList.update i (list_at (hb_waiters h) i @ [ch]) (hb_waiters h), hb_fresh := ch + 1\<rparr>))"

definition unsubscribe :: "id \<Rightarrow> chan \<Rightarrow> hub \<Rightarrow> hub" where
  "unsubscribe i ch h =
     (case map_of (hb_waiters h) i of
        None \<Rightarrow> h
      | Some chs \<Rightarrow>
          (let chs' = filter (\<lambda>c. c \<noteq> ch) chs
           in if length chs' = 0 then h\<lparr>hb_waiters := AList.delete i (hb_waiters h)\<rparr>
              else h\<lparr>hb_waiters := AList.update i chs' (hb_waiters h)\<rparr>))"

definition Close_subscription :: "subscription \<Rightarrow> hub \<Rightarrow> hub" where
  "Close_subscription s h = unsubscribe (sb_id s) (sb_ch s) h"

definition send_signal :: "chan \<Rightarrow> hub \<Rightarrow> hub" where
  "send_signal ch h = (if ch \<in> set (hb_signals h) then h else h\<lparr>hb_signals := ch # hb_signals h\<rparr>)"

definition notify :: "id \<Rightarrow> hub \<Rightarrow> hub" where
  "notify i h = fold send_signal (list_at (hb_waiters h) i) h"

definition take_signal :: "chan \<Rightarrow> hub \<Rightarrow> hub" where
  "take_signal ch h = h\<lparr>hb_signals := filter (\<lambda>c. c \<noteq> ch) (hb_signals h)\<rparr>"

definition Waiting_count :: "hub \<Rightarrow> nat" where
  "Waiting_count h = sum_list (map (\<lambda>(i, chs). length chs) (hb_waiters h))"

subsection \<open>The long poll (\<open>tasks.go\<close>)\<close>

text \<open>
  Where the handler is: at its entry; holding the task \<open>ownedTask\<close> returned, not yet subscribed; at the head
  of its loop; in \<open>Wait\<close>, with the goroutine that watches the ticker for this wait; about to read the task
  again; at its end.
\<close>

datatype poll_at =
    Entry
  | Loaded
  | Looping
  | Blocked nat
  | Reading
  | Answered "srv_error + poll_event"
  | HungUp

record poll =
  po_at :: poll_at
  po_task :: task
  po_initial :: task_state
  po_deadline :: instant
  po_sub :: "subscription option"
  po_hub :: hub
  po_store :: mem
  po_now :: instant
  po_ticked :: bool
  po_watchers :: "nat list"
  po_polls :: "nat list"
  po_started :: nat
  po_gone :: bool
  po_reports :: "id list"

text \<open>What a wait can be ended by: the context, the subscription's channel, the channel of its own watcher.\<close>

datatype cause = ByContext | BySignal | ByPoll

definition ready :: "cause \<Rightarrow> nat \<Rightarrow> poll \<Rightarrow> bool" where
  "ready c n s =
     (case c of
        ByContext \<Rightarrow> po_gone s
      | BySignal \<Rightarrow> (case po_sub s of None \<Rightarrow> False | Some sub \<Rightarrow> sb_ch sub \<in> set (hb_signals (po_hub s)))
      | ByPoll \<Rightarrow> n \<in> set (po_polls s))"

definition received :: "cause \<Rightarrow> nat \<Rightarrow> poll \<Rightarrow> poll" where
  "received c n s =
     (case c of
        ByContext \<Rightarrow> s
      | BySignal \<Rightarrow> (case po_sub s of None \<Rightarrow> s | Some sub \<Rightarrow> s\<lparr>po_hub := take_signal (sb_ch sub) (po_hub s)\<rparr>)
      | ByPoll \<Rightarrow> s\<lparr>po_polls := filter (\<lambda>k. k \<noteq> n) (po_polls s)\<rparr>)"

definition finished :: "poll_at \<Rightarrow> poll \<Rightarrow> poll" where
  "finished l s =
     s\<lparr>po_at := l,
       po_hub := (case po_sub s of None \<Rightarrow> po_hub s | Some sub \<Rightarrow> Close_subscription sub (po_hub s))\<rparr>"

definition handler_step ::
  "'b api_deps \<Rightarrow> duration \<Rightarrow> principal \<Rightarrow> string \<Rightarrow> cause \<Rightarrow> poll \<Rightarrow> poll" where
  "handler_step a maxWait pr i c s =
     (case po_at s of
        Entry \<Rightarrow>
          (case ownedTask pr (po_store s) i of
             Inl e \<Rightarrow> s\<lparr>po_at := Answered (Inl e)\<rparr>
           | Inr t \<Rightarrow> s\<lparr>po_at := Loaded, po_task := t, po_initial := t_State t, po_deadline := po_now s + maxWait\<rparr>)
      | Loaded \<Rightarrow>
          (case Subscribe (t_ID (po_task s)) (po_hub s) of
             (sub, h) \<Rightarrow> s\<lparr>po_at := Looping, po_sub := Some sub, po_hub := h\<rparr>)
      | Looping \<Rightarrow>
          if t_State (po_task s) \<noteq> po_initial s \<or> Terminal (t_State (po_task s)) \<or> po_now s > po_deadline s
          then finished (Answered (writeEvent a (po_store s) (po_now s) (po_task s))) s
          else s\<lparr>po_at := Blocked (po_started s), po_watchers := po_watchers s @ [po_started s],
                 po_started := po_started s + 1\<rparr>
      | Blocked n \<Rightarrow>
          if \<not> ready c n s then s
          else if po_gone s then finished HungUp (received c n s)
          else (received c n s)\<lparr>po_at := Reading\<rparr>
      | Reading \<Rightarrow>
          (case ByID (po_store s) (t_ID (po_task s)) of
             Inl e \<Rightarrow> finished (Answered (Inl (StoreFailed e))) s
           | Inr t \<Rightarrow> s\<lparr>po_at := Looping, po_task := t\<rparr>)
      | _ \<Rightarrow> s)"

text \<open>The tasks whose state differs between two stores: what a notifier reports.\<close>

definition changed_tasks :: "mem \<Rightarrow> mem \<Rightarrow> id list" where
  "changed_tasks m m' =
     filter (\<lambda>i. map_option t_State (map_of (m_tasks m) i) \<noteq> map_option t_State (map_of (m_tasks m') i))
       (remdups (map fst (m_tasks m) @ map fst (m_tasks m')))"

datatype event =
    Handler cause
  | Watcher nat
  | Tick
  | Clock instant
  | Hangup
  | Change mem
  | Report
  | Lost
  | Repeat id
  | OtherSubscribe id
  | OtherClose subscription

definition environment_step :: "event \<Rightarrow> poll \<Rightarrow> poll" where
  "environment_step e s =
     (case e of
        Handler _ \<Rightarrow> s
      | Watcher n \<Rightarrow>
          if n \<in> set (po_watchers s) \<and> po_ticked s
          then s\<lparr>po_ticked := False, po_watchers := filter (\<lambda>k. k \<noteq> n) (po_watchers s), po_polls := n # po_polls s\<rparr>
          else s
      | Tick \<Rightarrow> s\<lparr>po_ticked := True\<rparr>
      | Clock t \<Rightarrow> if t < po_now s then s else s\<lparr>po_now := t\<rparr>
      | Hangup \<Rightarrow> s\<lparr>po_gone := True\<rparr>
      | Change m \<Rightarrow> s\<lparr>po_store := m, po_reports := po_reports s @ changed_tasks (po_store s) m\<rparr>
      | Report \<Rightarrow>
          (case po_reports s of [] \<Rightarrow> s | i # is \<Rightarrow> s\<lparr>po_reports := is, po_hub := notify i (po_hub s)\<rparr>)
      | Lost \<Rightarrow> (case po_reports s of [] \<Rightarrow> s | i # is \<Rightarrow> s\<lparr>po_reports := is\<rparr>)
      | Repeat i \<Rightarrow> s\<lparr>po_hub := notify i (po_hub s)\<rparr>
      | OtherSubscribe i \<Rightarrow> s\<lparr>po_hub := snd (Subscribe i (po_hub s))\<rparr>
      | OtherClose sub \<Rightarrow>
          if Some sub = po_sub s then s else s\<lparr>po_hub := Close_subscription sub (po_hub s)\<rparr>)"

definition poll_step :: "'b api_deps \<Rightarrow> duration \<Rightarrow> principal \<Rightarrow> string \<Rightarrow> event \<Rightarrow> poll \<Rightarrow> poll" where
  "poll_step a maxWait pr i e s =
     (case e of Handler c \<Rightarrow> handler_step a maxWait pr i c s | _ \<Rightarrow> environment_step e s)"

definition poll_run :: "'b api_deps \<Rightarrow> duration \<Rightarrow> principal \<Rightarrow> string \<Rightarrow> event list \<Rightarrow> poll \<Rightarrow> poll" where
  "poll_run a maxWait pr i es s = fold (poll_step a maxWait pr i) es s"

definition poll_start :: "mem \<Rightarrow> hub \<Rightarrow> instant \<Rightarrow> task \<Rightarrow> poll" where
  "poll_start m h now t0 =
     \<lparr>po_at = Entry, po_task = t0, po_initial = t_State t0, po_deadline = now, po_sub = None,
      po_hub = h, po_store = m, po_now = now, po_ticked = False, po_watchers = [], po_polls = [], po_started = 0,
      po_gone = False, po_reports = []\<rparr>"

subsection \<open>What the hub promises\<close>

definition registered :: "hub \<Rightarrow> id \<Rightarrow> chan \<Rightarrow> bool" where
  "registered h i c \<longleftrightarrow> c \<in> set (list_at (hb_waiters h) i)"

definition signalled :: "hub \<Rightarrow> chan \<Rightarrow> bool" where
  "signalled h c \<longleftrightarrow> c \<in> set (hb_signals h)"

text \<open>
  The contract: a subscriber stays registered until its own subscription is closed, a notification
  signals every registered subscriber, and a signal stays until its own channel is read.
\<close>

locale wake_hub =
  fixes is_registered :: "'h \<Rightarrow> id \<Rightarrow> chan \<Rightarrow> bool"
    and is_signalled :: "'h \<Rightarrow> chan \<Rightarrow> bool"
    and subscribe :: "id \<Rightarrow> 'h \<Rightarrow> subscription \<times> 'h"
    and notify_all :: "id \<Rightarrow> 'h \<Rightarrow> 'h"
    and close :: "subscription \<Rightarrow> 'h \<Rightarrow> 'h"
    and receive :: "chan \<Rightarrow> 'h \<Rightarrow> 'h"
  assumes registers: "subscribe i h = (s, h') \<Longrightarrow> sb_id s = i \<and> is_registered h' i (sb_ch s)"
    and subscribe_keeps: "is_registered h i c \<Longrightarrow> is_registered (snd (subscribe j h)) i c"
      "is_signalled (snd (subscribe j h)) c = is_signalled h c"
    and notify_keeps: "is_registered (notify_all j h) i c = is_registered h i c"
      "is_signalled h c \<Longrightarrow> is_signalled (notify_all j h) c"
    and notify_signals: "is_registered h i c \<Longrightarrow> is_signalled (notify_all i h) c"
    and close_keeps: "s \<noteq> \<lparr>sb_id = i, sb_ch = c\<rparr> \<Longrightarrow> is_registered h i c \<Longrightarrow> is_registered (close s h) i c"
      "is_signalled (close s h) c = is_signalled h c"
    and receive_keeps: "is_registered (receive c' h) i c = is_registered h i c"
      "c' \<noteq> c \<Longrightarrow> is_signalled (receive c' h) c = is_signalled h c"
begin

text \<open>What others may do while a subscriber on task \<open>i\<close> with channel \<open>c\<close> is not reading it.\<close>

definition by_others :: "id \<Rightarrow> chan \<Rightarrow> ('h \<Rightarrow> 'h) \<Rightarrow> bool" where
  "by_others i c f \<longleftrightarrow>
     (\<exists>j. f = (\<lambda>h. snd (subscribe j h))) \<or> (\<exists>j. f = notify_all j)
   \<or> (\<exists>s. s \<noteq> \<lparr>sb_id = i, sb_ch = c\<rparr> \<and> f = close s) \<or> (\<exists>c'. c' \<noteq> c \<and> f = receive c')"

lemma others_keep:
  assumes "by_others i c f"
  shows "is_registered h i c \<Longrightarrow> is_registered (f h) i c" "is_signalled h c \<Longrightarrow> is_signalled (f h) c"
  using assms subscribe_keeps notify_keeps close_keeps receive_keeps by (auto simp: by_others_def)

lemma wakes:
  assumes "is_registered h i c" "\<forall>f \<in> set fs. by_others i c f" "is_signalled h c \<or> notify_all i \<in> set fs"
  shows "is_signalled (fold (\<lambda>f. f) fs h) c"
  using assms
proof (induction fs arbitrary: h)
  case (Cons f fs)
  have f: "by_others i c f" using Cons.prems(2) by simp
  have "is_signalled (f h) c \<or> notify_all i \<in> set fs"
    using Cons.prems(1,3) others_keep(2)[OF f] notify_signals by auto
  then show ?case using Cons.IH[of "f h"] others_keep(1)[OF f Cons.prems(1)] Cons.prems(2) by simp
qed simp

end

lemma send_signal_simps [simp]:
  "hb_waiters (send_signal c h) = hb_waiters h" "hb_fresh (send_signal c h) = hb_fresh h"
  "set (hb_signals (send_signal c h)) = insert c (set (hb_signals h))"
  by (auto simp: send_signal_def)

lemma notify_simps [simp]:
  "hb_waiters (notify i h) = hb_waiters h" "hb_fresh (notify i h) = hb_fresh h"
  "set (hb_signals (notify i h)) = set (list_at (hb_waiters h) i) \<union> set (hb_signals h)"
proof -
  have "hb_waiters (fold send_signal cs h) = hb_waiters h \<and> hb_fresh (fold send_signal cs h) = hb_fresh h
    \<and> set (hb_signals (fold send_signal cs h)) = set cs \<union> set (hb_signals h)" for cs
    by (induction cs arbitrary: h) auto
  then show "hb_waiters (notify i h) = hb_waiters h" "hb_fresh (notify i h) = hb_fresh h"
    "set (hb_signals (notify i h)) = set (list_at (hb_waiters h) i) \<union> set (hb_signals h)"
    by (simp_all add: notify_def)
qed

lemma list_at_update: "list_at (AList.update k v m) j = (if j = k then v else list_at m j)"
  by (simp add: list_at_def map_of_update)

lemma list_at_delete: "list_at (AList.delete k m) j = (if j = k then [] else list_at m j)"
  by (simp add: list_at_def AList.delete_conv')

lemma list_at_unsubscribe:
  "list_at (hb_waiters (unsubscribe i c h)) j = (if j = i then filter (\<lambda>x. x \<noteq> c) (list_at (hb_waiters h) i) else list_at (hb_waiters h) j)"
proof (cases "map_of (hb_waiters h) i")
  case None
  then show ?thesis by (simp add: unsubscribe_def list_at_def[of _ i])
next
  case (Some chs)
  then have "list_at (hb_waiters h) i = chs" by (simp add: list_at_def)
  then show ?thesis using Some by (simp add: unsubscribe_def Let_def list_at_update list_at_delete)
qed

lemma unsubscribe_simps [simp]:
  "hb_signals (unsubscribe i c h) = hb_signals h" "hb_fresh (unsubscribe i c h) = hb_fresh h"
  by (simp_all add: unsubscribe_def Let_def split: option.split)

interpretation task_hub: wake_hub registered signalled Subscribe notify Close_subscription take_signal
  by unfold_locales
    (auto simp: registered_def signalled_def Subscribe_def Let_def list_at_update Close_subscription_def
      list_at_unsubscribe take_signal_def)

subsection \<open>Nothing leaks\<close>

datatype hub_op = HSubscribe id | HNotify id | HClose subscription | HReceive chan

text \<open>The subscriptions handed out and not closed, kept beside the hub.\<close>

fun hub_step :: "hub_op \<Rightarrow> hub \<times> subscription list \<Rightarrow> hub \<times> subscription list" where
  "hub_step (HSubscribe i) (h, subs) = (case Subscribe i h of (s, h') \<Rightarrow> (h', subs @ [s]))"
| "hub_step (HNotify i) (h, subs) = (notify i h, subs)"
| "hub_step (HClose s) (h, subs) = (Close_subscription s h, filter (\<lambda>x. x \<noteq> s) subs)"
| "hub_step (HReceive c) (h, subs) = (take_signal c h, subs)"

definition hub_inv :: "hub \<times> subscription list \<Rightarrow> bool" where
  "hub_inv hs \<longleftrightarrow> (case hs of (h, subs) \<Rightarrow>
     distinct (map fst (hb_waiters h)) \<and> (\<forall>(i, chs) \<in> set (hb_waiters h). chs \<noteq> []) \<and> distinct subs
   \<and> (\<forall>i. list_at (hb_waiters h) i = map sb_ch (filter (\<lambda>s. sb_id s = i) subs))
   \<and> (\<forall>s \<in> set subs. sb_ch s < hb_fresh h))"

lemma hub_inv_new: "hub_inv (New_hub, [])"
  by (simp add: hub_inv_def New_hub_def list_at_def)

lemma unsubscribe_entries:
  assumes "distinct (map fst (hb_waiters h))" "\<forall>(i, chs) \<in> set (hb_waiters h). chs \<noteq> []"
  shows "distinct (map fst (hb_waiters (unsubscribe i c h)))" "\<forall>(j, chs) \<in> set (hb_waiters (unsubscribe i c h)). chs \<noteq> []"
proof -
  show "distinct (map fst (hb_waiters (unsubscribe i c h)))"
    using assms(1) by (auto simp: unsubscribe_def Let_def distinct_update AList.distinct_delete split: option.split)
  show "\<forall>(j, chs) \<in> set (hb_waiters (unsubscribe i c h)). chs \<noteq> []"
    using assms by (auto simp: unsubscribe_def Let_def AList.delete_eq in_set_update split: option.splits if_splits)
qed

lemma filter_two: "filter P (filter Q xs) = filter (\<lambda>x. P x \<and> Q x) xs"
  by (simp add: conj_commute)

lemma hub_step_inv: "hub_inv hs \<Longrightarrow> hub_inv (hub_step x hs)"
proof -
  assume inv: "hub_inv hs"
  obtain h subs where hs: "hs = (h, subs)" by fastforce
  note I = inv[unfolded hs hub_inv_def prod.case]
  show ?thesis
  proof (cases x)
    case (HSubscribe i)
    have "\<lparr>sb_id = i, sb_ch = hb_fresh h\<rparr> \<notin> set subs" using I by auto
    then show ?thesis
      using I by (auto simp: hs HSubscribe hub_inv_def Subscribe_def Let_def list_at_update distinct_update
          in_set_update less_Suc_eq split: if_splits)
  next
    case (HNotify i)
    then show ?thesis using I by (simp add: hs hub_inv_def)
  next
    case (HClose s)
    have "list_at (hb_waiters (Close_subscription s h)) i
        = map sb_ch (filter (\<lambda>x. sb_id x = i) (filter (\<lambda>x. x \<noteq> s) subs))" for i
    proof -
      have "filter (\<lambda>c. c \<noteq> sb_ch s) (map sb_ch (filter (\<lambda>x. sb_id x = sb_id s) subs))
          = map sb_ch (filter (\<lambda>x. sb_id x = sb_id s) (filter (\<lambda>x. x \<noteq> s) subs))"
        by (induction subs) (auto simp: subscription.equality)
      moreover have "filter (\<lambda>x. sb_id x = i) (filter (\<lambda>x. x \<noteq> s) subs) = filter (\<lambda>x. sb_id x = i) subs"
        if "i \<noteq> sb_id s" using that by (induction subs) auto
      ultimately show ?thesis using I by (simp add: Close_subscription_def list_at_unsubscribe)
    qed
    then show ?thesis
      using I unsubscribe_entries[of h "sb_id s" "sb_ch s"]
      by (simp add: hs HClose hub_inv_def Close_subscription_def)
  next
    case (HReceive c)
    then show ?thesis using I by (simp add: hs hub_inv_def take_signal_def)
  qed
qed

lemma hub_run_inv: "hub_inv hs \<Longrightarrow> hub_inv (fold hub_step xs hs)"
  by (induction xs arbitrary: hs) (simp_all add: hub_step_inv)

lemma waiting_count:
  assumes "distinct (map fst ws)" "\<forall>i. length (list_at ws i) = length (filter (\<lambda>s. sb_id s = i) subs)"
  shows "sum_list (map (\<lambda>(i, chs). length chs) ws) = length subs"
  using assms
proof (induction ws arbitrary: subs)
  case Nil
  have "filter (\<lambda>s. sb_id s = j) subs = []" for j using Nil(2) by (simp add: list_at_def)
  then have "subs = []" by (metis (mono_tags) filter_empty_conv list.set_intros(1) neq_Nil_conv)
  then show ?case by simp
next
  case (Cons w ws)
  obtain i chs where w: "w = (i, chs)" by fastforce
  let ?rest = "filter (\<lambda>s. sb_id s \<noteq> i) subs"
  have l: "list_at (w # ws) j = (if j = i then chs else list_at ws j)" for j by (simp add: w list_at_def)
  have none: "list_at ws i = []" using Cons.prems(1) by (auto simp: w list_at_def map_of_eq_None_iff split: option.split)
       (metis fst_conv image_eqI map_of_SomeD)
  have "length (list_at ws j) = length (filter (\<lambda>s. sb_id s = j) ?rest)" for j
  proof (cases "j = i")
    case False
    then have "filter (\<lambda>s. sb_id s = j) ?rest = filter (\<lambda>s. sb_id s = j) subs" by (induction subs) auto
    then show ?thesis using Cons.prems(2)[rule_format, of j] False by (simp add: l)
  qed (simp add: none filter_empty_conv)
  then have "sum_list (map (\<lambda>(i, chs). length chs) ws) = length ?rest"
    using Cons.IH[of ?rest] Cons.prems(1) by simp
  moreover have "length chs = length (filter (\<lambda>s. sb_id s = i) subs)" using Cons.prems(2)[rule_format, of i] by (simp add: l)
  moreover have "length (filter (\<lambda>s. sb_id s = i) subs) + length ?rest = length subs" by (rule sum_length_filter_compl)
  ultimately show ?case by (simp add: w)
qed

subsection \<open>Attention\<close>

definition over :: "poll \<Rightarrow> bool" where
  "over s \<longleftrightarrow> (case po_at s of Answered _ \<Rightarrow> True | HungUp \<Rightarrow> True | _ \<Rightarrow> False)"

definition ids_ok :: "mem \<Rightarrow> bool" where
  "ids_ok m \<longleftrightarrow> (\<forall>(i, t) \<in> set (m_tasks m). t_ID t = i)"

lemma ids_okD: "ids_ok m \<Longrightarrow> map_of (m_tasks m) i = Some t \<Longrightarrow> t_ID t = i"
  by (auto simp: ids_ok_def dest: map_of_SomeD)

definition stored_state :: "mem \<Rightarrow> id \<Rightarrow> task_state option" where
  "stored_state m i = map_option t_State (map_of (m_tasks m) i)"

text \<open>
  Once subscribed, a handler that is not about to read has seen the stored state, or there is something
  on its way to wake it.
\<close>

definition attentive :: "id \<Rightarrow> poll \<Rightarrow> bool" where
  "attentive i s \<longleftrightarrow>
     ids_ok (po_store s)
   \<and> (po_at s \<in> {Looping, Reading} \<union> range Blocked \<longrightarrow>
       t_ID (po_task s) = i
     \<and> (\<exists>c. po_sub s = Some \<lparr>sb_id = i, sb_ch = c\<rparr> \<and> registered (po_hub s) i c
         \<and> (po_at s = Reading \<or> stored_state (po_store s) i = Some (t_State (po_task s))
            \<or> i \<in> set (po_reports s) \<or> signalled (po_hub s) c)))
   \<and> po_at s \<notin> {Entry, Loaded}"

lemma changed_tasks_iff: "i \<in> set (changed_tasks m m') \<longleftrightarrow> stored_state m i \<noteq> stored_state m' i"
proof -
  have "i \<in> fst ` set (m_tasks m) \<or> i \<in> fst ` set (m_tasks m')" if "stored_state m i \<noteq> stored_state m' i"
    using that by (metis map_of_eq_None_iff option.simps(8) stored_state_def)
  then show ?thesis by (auto simp: changed_tasks_def stored_state_def)
qed

lemma environment_attentive:
  assumes "attentive i s" "e \<noteq> Lost" "\<And>m. e = Change m \<Longrightarrow> ids_ok m"
  shows "attentive i (environment_step e s)"
proof (cases e)
  case (Change m)
  then show ?thesis
    using assms by (auto simp: environment_step_def attentive_def changed_tasks_iff)
next
  case Report
  then show ?thesis
    using assms(1) task_hub.notify_signals task_hub.notify_keeps
    by (auto simp: environment_step_def attentive_def split: list.split)
next
  case (Repeat j)
  then show ?thesis
    using assms(1) task_hub.notify_keeps by (auto simp: environment_step_def attentive_def)
next
  case (OtherSubscribe j)
  then show ?thesis
    using assms(1) task_hub.subscribe_keeps by (auto simp: environment_step_def attentive_def)
next
  case (OtherClose sub)
  then show ?thesis
    using assms(1) task_hub.close_keeps by (auto simp: environment_step_def attentive_def)
qed (use assms in \<open>auto simp: environment_step_def attentive_def\<close>)

lemma received_simps [simp]:
  "po_at (received c n s) = po_at s" "po_task (received c n s) = po_task s" "po_sub (received c n s) = po_sub s"
  "po_store (received c n s) = po_store s" "po_reports (received c n s) = po_reports s"
  "po_now (received c n s) = po_now s" "po_deadline (received c n s) = po_deadline s"
  "po_watchers (received c n s) = po_watchers s" "po_gone (received c n s) = po_gone s"
  by (simp_all add: received_def split: cause.split option.split)

lemma received_registered: "registered (po_hub (received c n s)) i k = registered (po_hub s) i k"
  by (simp add: received_def task_hub.receive_keeps split: cause.split option.split)

lemma ByID_row: "ByID m i = Inr t \<Longrightarrow> map_of (m_tasks m) i = Some t"
  by (auto simp: ByID_def lookup_def split: option.splits)

lemma handler_attentive:
  assumes "attentive i s"
  shows "attentive i (handler_step a w pr j c s)"
proof (cases "po_at s")
  case (Blocked n)
  then show ?thesis using assms by (auto simp: handler_step_def attentive_def finished_def received_registered)
next
  case Reading
  then show ?thesis
    using assms by (auto simp: handler_step_def attentive_def finished_def stored_state_def
        dest: ByID_row ids_okD split: sum.split)
qed (use assms in \<open>auto simp: handler_step_def attentive_def finished_def\<close>)

lemma run_attentive:
  assumes "attentive i s" "\<forall>m. Change m \<in> set es \<longrightarrow> ids_ok m" "Lost \<notin> set es"
  shows "attentive i (poll_run a w pr j es s)"
  using assms
proof (induction es arbitrary: s)
  case (Cons e es)
  have "attentive i (poll_step a w pr j e s)"
    using Cons.prems handler_attentive environment_attentive[of i s e] by (auto simp: poll_step_def split: event.split)
  then show ?case using Cons.IH[of "poll_step a w pr j e s"] Cons.prems by (simp add: poll_run_def)
qed (simp add: poll_run_def)

text \<open>A handler that subscribes while the stored state is the one it has read is attentive from then on.\<close>

lemma subscribed_attentive:
  assumes "po_at s = Loaded" "ids_ok (po_store s)" "t_ID (po_task s) = i"
    and "stored_state (po_store s) i = Some (t_State (po_task s))"
  shows "attentive i (handler_step a w pr j c s)"
proof -
  obtain sub h' where s: "Subscribe i (po_hub s) = (sub, h')" by fastforce
  then have "sub = \<lparr>sb_id = i, sb_ch = sb_ch sub\<rparr>" "registered h' i (sb_ch sub)"
    using task_hub.registers[OF s] by (simp_all add: subscription.equality)
  then show ?thesis using assms s by (auto simp: handler_step_def attentive_def)
qed

lemma entry_read:
  assumes "po_at s = Entry" "ids_ok (po_store s)" "\<not> over (handler_step a w pr i c s)"
  shows "po_at (handler_step a w pr i c s) = Loaded" "t_ID (po_task (handler_step a w pr i c s)) = i"
    "stored_state (po_store s) i = Some (t_State (po_task (handler_step a w pr i c s)))"
    "po_store (handler_step a w pr i c s) = po_store s"
proof -
  obtain t where t: "ownedTask pr (po_store s) i = Inr t"
    using assms(1,3) by (cases "ownedTask pr (po_store s) i") (auto simp: handler_step_def over_def)
  then have "ByID (po_store s) i = Inr t" by (auto simp: ownedTask_def split: if_splits sum.splits store_error.splits)
  then have "map_of (m_tasks (po_store s)) i = Some t" "t_ID t = i" using ids_okD[OF assms(2)] by (auto dest: ByID_row)
  then show "po_at (handler_step a w pr i c s) = Loaded" "t_ID (po_task (handler_step a w pr i c s)) = i"
    "stored_state (po_store s) i = Some (t_State (po_task (handler_step a w pr i c s)))"
    "po_store (handler_step a w pr i c s) = po_store s"
    using assms(1) t by (simp_all add: handler_step_def stored_state_def)
qed

subsection \<open>Every wait can be ended\<close>

definition watched :: "poll \<Rightarrow> bool" where
  "watched s \<longleftrightarrow> (\<forall>n. po_at s = Blocked n \<longrightarrow> n \<in> set (po_watchers s) \<or> n \<in> set (po_polls s))"

lemma poll_step_watched: "watched s \<Longrightarrow> watched (poll_step a w pr i e s)"
  by (cases e; cases "po_at s")
    (auto simp: poll_step_def handler_step_def environment_step_def watched_def finished_def Subscribe_def Let_def
      split: sum.splits list.splits if_splits)

lemma poll_run_watched: "watched s \<Longrightarrow> watched (poll_run a w pr i es s)"
  unfolding poll_run_def by (induction es arbitrary: s) (simp_all add: poll_step_watched)

definition of_environment :: "event list \<Rightarrow> bool" where
  "of_environment es \<longleftrightarrow> list_all (\<lambda>e. case e of Handler _ \<Rightarrow> False | _ \<Rightarrow> True) es"

lemma environment_frame:
  assumes "of_environment es"
  shows "po_at (poll_run a w pr i es s) = po_at s" "po_task (poll_run a w pr i es s) = po_task s"
    "po_deadline (poll_run a w pr i es s) = po_deadline s" "po_now s \<le> po_now (poll_run a w pr i es s)"
proof -
  have "po_at (poll_run a w pr i es s) = po_at s \<and> po_task (poll_run a w pr i es s) = po_task s
    \<and> po_deadline (poll_run a w pr i es s) = po_deadline s \<and> po_now s \<le> po_now (poll_run a w pr i es s)"
    using assms
  proof (induction es arbitrary: s)
    case (Cons e es)
    have "po_at (poll_step a w pr i e s) = po_at s" "po_task (poll_step a w pr i e s) = po_task s"
      "po_deadline (poll_step a w pr i e s) = po_deadline s" "po_now s \<le> po_now (poll_step a w pr i e s)"
      using Cons.prems by (cases e; simp add: of_environment_def poll_step_def environment_step_def split: list.split)+
    then show ?case using Cons.IH[of "poll_step a w pr i e s"] Cons.prems
      by (auto simp: poll_run_def of_environment_def)
  qed (simp add: poll_run_def)
  then show "po_at (poll_run a w pr i es s) = po_at s" "po_task (poll_run a w pr i es s) = po_task s"
    "po_deadline (poll_run a w pr i es s) = po_deadline s" "po_now s \<le> po_now (poll_run a w pr i es s)" by auto
qed

lemma poll_run_append: "poll_run a w pr i (es @ fs) s = poll_run a w pr i fs (poll_run a w pr i es s)"
  by (simp add: poll_run_def)

lemma over_step: "over s \<Longrightarrow> over (handler_step a w pr i c s)"
  by (auto simp: over_def handler_step_def split: poll_at.splits)

lemma late_looping: "po_at s = Looping \<Longrightarrow> po_deadline s < po_now s \<Longrightarrow> over (handler_step a w pr i c s)"
  by (simp add: handler_step_def finished_def over_def)

lemma late_reading:
  assumes "po_at s = Reading" "po_deadline s < po_now s"
  shows "over (handler_step a w pr i c s)
    \<or> po_at (handler_step a w pr i c s) = Looping \<and> po_deadline (handler_step a w pr i c s) < po_now (handler_step a w pr i c s)"
  using assms by (auto simp: handler_step_def finished_def over_def split: sum.split)

lemma late_blocked:
  assumes "po_at s = Blocked n" "ready c n s" "po_deadline s < po_now s"
  shows "over (handler_step a w pr i c s)
    \<or> po_at (handler_step a w pr i c s) = Reading \<and> po_deadline (handler_step a w pr i c s) < po_now (handler_step a w pr i c s)"
  using assms by (auto simp: handler_step_def finished_def over_def)

lemma run_handler: "poll_run a w pr i [Handler c] s = handler_step a w pr i c s"
  by (simp add: poll_run_def poll_step_def)

lemma over_poll_step: "over s \<Longrightarrow> over (poll_step a w pr i e s)"
  by (cases e) (simp_all add: poll_step_def over_step environment_step_def, simp_all add: over_def split: list.split)

lemma over_run: "over s \<Longrightarrow> over (poll_run a w pr i es s)"
  unfolding poll_run_def by (induction es arbitrary: s) (simp_all add: over_poll_step)

lemma poll_step_ids_ok: "ids_ok (po_store s) \<Longrightarrow> (\<And>m. e = Change m \<Longrightarrow> ids_ok m) \<Longrightarrow> ids_ok (po_store (poll_step a w pr i e s))"
  by (cases e; cases "po_at s") (auto simp: poll_step_def handler_step_def environment_step_def finished_def Subscribe_def
      Let_def split: sum.split list.split)

lemma run_ids_ok:
  "ids_ok (po_store s) \<Longrightarrow> (\<And>m. Change m \<in> set es \<Longrightarrow> ids_ok m) \<Longrightarrow> ids_ok (po_store (poll_run a w pr i es s))"
  unfolding poll_run_def by (induction es arbitrary: s) (simp_all add: poll_step_ids_ok)

lemma over_environment: "of_environment es \<Longrightarrow> over (poll_run a w pr i es s) = over s"
  by (simp add: over_def environment_frame(1))

lemma late_end:
  assumes "po_at s = Blocked n" "ready c n s" "po_deadline s < po_now s" "of_environment es" "of_environment fs"
  shows "over (poll_run a w pr i ([Handler c] @ es @ [Handler c1] @ fs @ [Handler c2]) s)"
proof -
  let ?s1 = "handler_step a w pr i c s"
  let ?s2 = "poll_run a w pr i es ?s1"
  let ?s3 = "handler_step a w pr i c1 ?s2"
  let ?s4 = "poll_run a w pr i fs ?s3"
  have 2: "over ?s2 \<or> po_at ?s2 = Reading \<and> po_deadline ?s2 < po_now ?s2"
    using late_blocked[OF assms(1-3), of a w pr i] environment_frame[OF assms(4), where a = a and w = w and pr = pr and i = i and s = ?s1]
      over_environment[OF assms(4), where a = a and w = w and pr = pr and i = i and s = ?s1] by auto
  then have 3: "over ?s3 \<or> po_at ?s3 = Looping \<and> po_deadline ?s3 < po_now ?s3"
    using over_step late_reading by blast
  then have "over ?s4 \<or> po_at ?s4 = Looping \<and> po_deadline ?s4 < po_now ?s4"
    using environment_frame[OF assms(5), where a = a and w = w and pr = pr and i = i and s = ?s3] over_environment[OF assms(5), where a = a and w = w and pr = pr and i = i and s = ?s3] by auto
  then have "over (handler_step a w pr i c2 ?s4)" using over_step late_looping by blast
  then show ?thesis unfolding poll_run_append run_handler .
qed

subsection \<open>The answer of the long poll\<close>

text \<open>
  \<open>handleTaskEvents\<close> is the machine on one kind of schedule: the handler is only ever found waiting, each
  wait but the last is ended by its own poll, and in the last the client hangs up.
\<close>

fun wake_schedule :: "nat \<Rightarrow> (mem \<times> instant) list \<Rightarrow> event list" where
  "wake_schedule n [] = [Hangup, Handler ByContext]"
| "wake_schedule n ((m, now) # wakes) =
     [Change m, Clock now, Tick, Watcher n, Handler ByPoll, Handler ByContext] @ [Handler ByContext] @ wake_schedule (n + 1) wakes"

definition poll_outcome :: "srv_error + poll_event option \<Rightarrow> poll_at" where
  "poll_outcome r = (case r of Inl e \<Rightarrow> Answered (Inl e) | Inr None \<Rightarrow> HungUp | Inr (Some ev) \<Rightarrow> Answered (Inr ev))"

lemma answered_stays:
  "over s \<Longrightarrow> po_at (poll_run a w pr i es s) = po_at s"
proof (induction es arbitrary: s)
  case (Cons e es)
  have "po_at (poll_step a w pr i e s) = po_at s"
    using Cons.prems by (cases e) (auto simp: poll_step_def handler_step_def environment_step_def over_def
        split: poll_at.splits list.splits)
  then show ?case
    using Cons.IH[OF over_poll_step[OF Cons.prems, where a = a and w = w and pr = pr and i = i and e = e]]
    by (simp add: poll_run_def)
qed (simp add: poll_run_def)

lemma woken:
  assumes "po_at s = Blocked n" "n \<in> set (po_watchers s)" "\<not> po_gone s" "po_now s \<le> now"
    and "s' = poll_run a w pr i [Change m, Clock now, Tick, Watcher n, Handler ByPoll, Handler ByContext] s"
  shows "(case ByID m (t_ID (po_task s)) of
      Inl e \<Rightarrow> po_at s' = Answered (Inl (StoreFailed e))
    | Inr t \<Rightarrow> po_at s' = Looping \<and> po_task s' = t \<and> po_store s' = m \<and> po_now s' = now \<and> po_initial s' = po_initial s
        \<and> po_deadline s' = po_deadline s \<and> \<not> po_gone s' \<and> po_started s' = po_started s)"
  using assms(1-4) unfolding assms(5)
  by (auto simp: poll_run_def poll_step_def environment_step_def handler_step_def ready_def received_def finished_def
      split: sum.split)

lemma loop_outcome:
  assumes "po_at s = Looping" "\<not> po_gone s" "po_started s = n" "sorted (po_now s # map snd wakes)"
  shows "po_at (poll_run a w pr i ([Handler ByContext] @ wake_schedule n wakes) s)
    = poll_outcome (events_loop a (po_deadline s) (po_initial s) (po_task s) (po_store s) (po_now s) wakes)"
  using assms
proof (induction wakes arbitrary: s n)
  case (Cons wake wakes)
  obtain m now where wake: "wake = (m, now)" by fastforce
  let ?s = "handler_step a w pr i ByContext s"
  show ?case
  proof (cases "t_State (po_task s) \<noteq> po_initial s \<or> Terminal (t_State (po_task s)) \<or> po_now s > po_deadline s")
    case True
    then have "po_at ?s = Answered (writeEvent a (po_store s) (po_now s) (po_task s))"
      using Cons.prems(1) by (auto simp: handler_step_def finished_def)
    moreover from this have "over ?s" by (simp add: over_def)
    ultimately show ?thesis
      unfolding poll_run_append run_handler answered_stays[OF \<open>over ?s\<close>]
      using True by (cases "writeEvent a (po_store s) (po_now s) (po_task s)") (auto simp: events_loop.simps poll_outcome_def)
  next
    case False
    have b: "po_at ?s = Blocked n" "n \<in> set (po_watchers ?s)" "\<not> po_gone ?s" "po_now ?s \<le> now" "po_started ?s = n + 1"
        "po_task ?s = po_task s" "po_initial ?s = po_initial s" "po_deadline ?s = po_deadline s"
      using Cons.prems False by (auto simp: handler_step_def wake)
    define s' where "s' = poll_run a w pr i [Change m, Clock now, Tick, Watcher n, Handler ByPoll, Handler ByContext] ?s"
    note W = woken[OF b(1-4) s'_def]
    have run: "poll_run a w pr i ([Handler ByContext] @ wake_schedule n (wake # wakes)) s
        = poll_run a w pr i ([Handler ByContext] @ wake_schedule (n + 1) wakes) s'"
      by (simp add: wake s'_def poll_run_def poll_step_def)
    show ?thesis
    proof (cases "ByID m (t_ID (po_task s))")
      case (Inl e)
      then have "po_at s' = Answered (Inl (StoreFailed e))" "over s'" using W b by (simp_all add: over_def)
      then show ?thesis
        unfolding run answered_stays[OF \<open>over s'\<close>] using False Inl by (auto simp: wake events_loop.simps poll_outcome_def)
    next
      case (Inr t)
      then have s': "po_at s' = Looping" "po_task s' = t" "po_store s' = m" "po_now s' = now" "po_initial s' = po_initial s"
          "po_deadline s' = po_deadline s" "\<not> po_gone s'" "po_started s' = n + 1" using W b by simp_all
      have "sorted (po_now s' # map snd wakes)" using Cons.prems(4) s'(4) by (simp add: wake)
      from Cons.IH[OF s'(1,7,8) this] show ?thesis
        unfolding run s'(2-6) using False Inr by (simp add: wake events_loop.simps[where wakes = "(m, now) # wakes"])
    qed
  qed
next
  case Nil
  then show ?case
    by (cases "writeEvent a (po_store s) (po_now s) (po_task s)")
      (auto simp: poll_run_def poll_step_def handler_step_def environment_step_def finished_def ready_def received_def
        events_loop.simps poll_outcome_def)
qed

lemma long_poll_answers:
  assumes "sorted (now # map snd wakes)" "w = ad_EventMaxWait a"
  shows "po_at (poll_run a w pr i ([Handler ByContext, Handler ByContext] @ [Handler ByContext] @ wake_schedule 0 wakes)
      (poll_start (sv_store st) h now t0)) = poll_outcome (handleTaskEvents a now wakes i pr st)"
proof (cases "ownedTask pr (sv_store st) i")
  case (Inl e)
  let ?s = "poll_run a w pr i [Handler ByContext, Handler ByContext] (poll_start (sv_store st) h now t0)"
  have "po_at ?s = Answered (Inl e)" using Inl by (simp add: poll_run_def poll_step_def handler_step_def poll_start_def)
  moreover from this have "over ?s" by (simp add: over_def)
  ultimately show ?thesis
    unfolding poll_run_append[of _ _ _ _ "[Handler ByContext, Handler ByContext]"] answered_stays[OF \<open>over ?s\<close>]
    using Inl by (simp add: handleTaskEvents_def poll_outcome_def)
next
  case (Inr t)
  let ?s = "poll_run a w pr i [Handler ByContext, Handler ByContext] (poll_start (sv_store st) h now t0)"
  have s: "po_at ?s = Looping" "\<not> po_gone ?s" "po_started ?s = 0" "po_now ?s = now" "po_task ?s = t" "po_store ?s = sv_store st"
      "po_initial ?s = t_State t" "po_deadline ?s = now + w"
    using Inr by (simp_all add: poll_run_def poll_step_def handler_step_def poll_start_def Subscribe_def Let_def)
  show ?thesis
    unfolding poll_run_append[of _ _ _ _ "[Handler ByContext, Handler ByContext]"]
    using loop_outcome[OF s(1-3), of wakes a w pr i] assms s(4-8) Inr by (simp add: handleTaskEvents_def)
qed

subsection \<open>The properties\<close>

text \<open>
  The hub keeps exactly the open subscriptions, over any sequence of subscriptions, notifications,
  receptions and closings: a waiter is registered under a task if and only if its subscription is open, the
  count of waiters is the number of open subscriptions, and no task without waiters keeps an entry.
\<close>

theorem hub_keeps_open_subscriptions:
  "case fold hub_step ops (New_hub, []) of (h, open_subs) \<Rightarrow>
     (registered h i c \<longleftrightarrow> \<lparr>sb_id = i, sb_ch = c\<rparr> \<in> set open_subs)
   \<and> Waiting_count h = length open_subs \<and> (open_subs = [] \<longleftrightarrow> hb_waiters h = [])"
proof -
  obtain h subs where r: "fold hub_step ops (New_hub, []) = (h, subs)" by fastforce
  have I: "distinct (map fst (hb_waiters h))" "\<forall>(i, chs) \<in> set (hb_waiters h). chs \<noteq> []"
      "\<And>j. list_at (hb_waiters h) j = map sb_ch (filter (\<lambda>s. sb_id s = j) subs)"
    using hub_run_inv[OF hub_inv_new, of ops] by (auto simp: r hub_inv_def)
  have reg: "registered h i c \<longleftrightarrow> \<lparr>sb_id = i, sb_ch = c\<rparr> \<in> set subs"
  proof
    assume "registered h i c"
    then obtain s where "s \<in> set subs" "sb_id s = i" "sb_ch s = c" by (auto simp: registered_def I(3))
    moreover have "s = \<lparr>sb_id = sb_id s, sb_ch = sb_ch s\<rparr>" by simp
    ultimately show "\<lparr>sb_id = i, sb_ch = c\<rparr> \<in> set subs" by metis
  qed (force simp: registered_def I(3))
  have count: "Waiting_count h = length subs"
    unfolding Waiting_count_def by (rule waiting_count[OF I(1)]) (simp add: I(3))
  have "hb_waiters h = []" if "subs = []"
  proof (cases "hb_waiters h")
    case (Cons x ws)
    then show ?thesis using I(2) I(3)[of "fst x"] that by (cases x) (auto simp: list_at_def)
  qed
  then show ?thesis using reg count by (auto simp: r Waiting_count_def)
qed

text \<open>
  Claim C32. A poll is never left asleep over a change, if none slips in before it subscribes. Others act in
  any way before the handler's first read (\<open>es\<close>), between that read and its subscription (\<open>fs\<close>) and, mixed
  with the handler's own steps, afterwards (\<open>gs\<close>); if the stored state of the task at the subscription is
  the one at the first read and no report is lost after the subscription, then whenever the handler is
  blocked and the stored state is not the one it has seen, a report of this task is on its way to the hub,
  or the handler's channel holds a signal.
\<close>

theorem blocked_poll_is_woken:
  assumes "ids_ok m" "\<forall>m'. Change m' \<in> set (es @ fs @ gs) \<longrightarrow> ids_ok m'" "of_environment es" "of_environment fs" "Lost \<notin> set gs"
    and "s1 = poll_run a w pr i es (poll_start m h now t0)" "s2 = poll_run a w pr i ([Handler c] @ fs) s1"
    and "stored_state (po_store s2) i = stored_state (po_store s1) i"
    and "s = poll_run a w pr i ([Handler c'] @ gs) s2" "po_at s = Blocked n"
    and "stored_state (po_store s) i \<noteq> Some (t_State (po_task s))"
  shows "i \<in> set (po_reports s) \<or> ready BySignal n s"
proof -
  let ?r = "handler_step a w pr i c s1"
  have s2: "s2 = poll_run a w pr i fs ?r" using assms(7) by (simp add: poll_run_append run_handler del: append_Cons)
  have s: "s = poll_run a w pr i gs (handler_step a w pr i c' s2)"
    using assms(9) by (simp add: poll_run_append run_handler del: append_Cons)
  have 1: "po_at s1 = Entry" by (simp add: assms(6) environment_frame(1)[OF assms(3)] poll_start_def)
  have 2: "ids_ok (po_store s1)"
    unfolding assms(6) using assms(1,2) by (intro run_ids_ok) (auto simp: poll_start_def)
  have "\<not> over ?r"
  proof
    assume "over ?r"
    then have "over s" unfolding s s2 by (rule over_run[OF over_step[OF over_run]])
    then show False using assms(10) by (simp add: over_def)
  qed
  note r = entry_read[OF 1 2 this]
  have "attentive i (handler_step a w pr i c' s2)"
  proof (rule subscribed_attentive)
    show "ids_ok (po_store s2)" unfolding s2 using 2 r(4) assms(2) by (intro run_ids_ok) auto
    show "po_at s2 = Loaded" "t_ID (po_task s2) = i" using r(1,2) by (simp_all add: s2 environment_frame[OF assms(4)])
    show "stored_state (po_store s2) i = Some (t_State (po_task s2))"
      using r(3) assms(8) by (simp add: s2 environment_frame[OF assms(4)])
  qed
  then have "attentive i s" unfolding s using assms(2,5) by (intro run_attentive) auto
  then show ?thesis using assms(10,11) by (auto simp: attentive_def ready_def signalled_def)
qed

text \<open>
  The poll is the guarantee. Whatever has happened since the request came in, a handler that is blocked
  past its deadline ends once its own watcher receives a tick: it takes three more steps of its own, with
  any steps of others in between, and answers or finds the client gone.
\<close>

theorem long_poll_ends:
  assumes "s = poll_run a w pr i es (poll_start m h now t0)" "po_at s = Blocked n" "po_deadline s < po_now s"
    and "of_environment fs" "of_environment gs"
  shows "over (poll_run a w pr i ([Tick, Watcher n] @ [Handler ByPoll] @ fs @ [Handler c] @ gs @ [Handler c']) s)"
proof -
  let ?s = "poll_run a w pr i [Tick, Watcher n] s"
  have "watched s" unfolding assms(1) by (rule poll_run_watched) (simp add: watched_def poll_start_def)
  then have "n \<in> set (po_watchers s) \<or> n \<in> set (po_polls s)" using assms(2) by (simp add: watched_def)
  then have r: "ready ByPoll n ?s"
    by (auto simp: ready_def poll_run_def poll_step_def environment_step_def)
  have "of_environment [Tick, Watcher n]" by (simp add: of_environment_def)
  note f = environment_frame[OF this, where a = a and w = w and pr = pr and i = i and s = s]
  have "po_at ?s = Blocked n" "po_deadline ?s < po_now ?s" using f assms(2,3) by simp_all
  from late_end[OF this(1) r this(2) assms(4,5), of a w pr i c c'] show ?thesis
    unfolding poll_run_append by simp
qed

definition ex_running :: task where
  "ex_running = ex_foreign\<lparr>t_ID := ''task-1'', t_UserID := ''user-1'', t_State := TaskRunning\<rparr>"

definition ex_before :: mem where
  "ex_before = New_store\<lparr>m_tasks := [(''task-1'', ex_running)]\<rparr>"

definition ex_after :: mem where
  "ex_after = New_store\<lparr>m_tasks := [(''task-1'', ex_running\<lparr>t_State := TaskSucceeded\<rparr>)]\<rparr>"

definition ex_poll :: "event list \<Rightarrow> poll" where
  "ex_poll es = poll_run ex_api 30 ex_principal ''task-1'' es (poll_start ex_before New_hub 100 ex_running)"

text \<open>
  The handler reads the task before it subscribes. A task that finishes in between is reported to nobody:
  the handler blocks with the old state, no report under way and nothing to wake it but its own poll.
\<close>

theorem change_before_subscription_missed:
  "let s = ex_poll [Handler ByContext, Change ex_after, Report, Handler ByContext, Handler ByContext]
   in po_at s = Blocked 0 \<and> t_State (po_task s) = TaskRunning \<and> stored_state (po_store s) ''task-1'' = Some TaskSucceeded
      \<and> po_reports s = [] \<and> \<not> ready ByContext 0 s \<and> \<not> ready BySignal 0 s \<and> \<not> ready ByPoll 0 s"
  by code_simp

text \<open>
  A tick can be lost to a wait that is over. Each wait starts a watcher on the shared ticker, and one that
  was ended by a notification leaves its watcher behind: the next tick goes to that one, and the handler stays
  blocked past its deadline, with the ticker empty, until another interval has passed.
\<close>

theorem abandoned_watcher_takes_tick:
  "let s = ex_poll [Handler ByContext, Handler ByContext, Handler ByContext, Repeat ''task-1'', Handler BySignal,
      Handler ByContext, Handler ByContext, Clock 200, Tick, Watcher 0]
   in po_at s = Blocked 1 \<and> po_deadline s < po_now s \<and> \<not> po_ticked s
      \<and> \<not> ready ByContext 1 s \<and> \<not> ready BySignal 1 s \<and> \<not> ready ByPoll 1 s"
  by code_simp

subsection \<open>Witnesses\<close>

theorem blocked_poll_is_woken_witness:
  "let s = ex_poll [Clock 101, Handler ByContext, Report, Handler ByContext, Handler ByContext, Change ex_after, Report]
   in po_at s = Blocked 0 \<and> stored_state (po_store s) ''task-1'' \<noteq> Some (t_State (po_task s)) \<and> ready BySignal 0 s"
proof -
  let ?s1 = "poll_run ex_api 30 ex_principal ''task-1'' [Clock 101] (poll_start ex_before New_hub 100 ex_running)"
  let ?s2 = "poll_run ex_api 30 ex_principal ''task-1'' ([Handler ByContext] @ [Report]) ?s1"
  let ?gs = "[Handler ByContext, Change ex_after, Report]"
  let ?s = "poll_run ex_api 30 ex_principal ''task-1'' ([Handler ByContext] @ ?gs) ?s2"
  have s: "ex_poll [Clock 101, Handler ByContext, Report, Handler ByContext, Handler ByContext, Change ex_after, Report] = ?s"
    by (simp add: ex_poll_def poll_run_def)
  have e: "stored_state (po_store ?s2) ''task-1'' = stored_state (po_store ?s1) ''task-1''"
    "po_at ?s = Blocked 0" "stored_state (po_store ?s) ''task-1'' \<noteq> Some (t_State (po_task ?s))" "po_reports ?s = []"
    by code_simp+
  have ok: "ids_ok ex_before" "\<forall>m'. Change m' \<in> set ([Clock 101] @ [Report] @ ?gs) \<longrightarrow> ids_ok m'"
      "of_environment [Clock 101]" "of_environment [Report]" "Lost \<notin> set ?gs"
    by (auto simp: ids_ok_def ex_before_def ex_after_def ex_running_def of_environment_def)
  have "''task-1'' \<in> set (po_reports ?s) \<or> ready BySignal 0 ?s"
    by (rule blocked_poll_is_woken[OF ok refl refl e(1) refl e(2,3)])
  then show ?thesis using e unfolding Let_def s by simp
qed

theorem long_poll_ends_witness:
  "over (ex_poll ([Handler ByContext, Handler ByContext, Handler ByContext, Clock 200]
     @ [Tick, Watcher 0] @ [Handler ByPoll] @ [Hangup] @ [Handler ByPoll] @ [] @ [Handler ByPoll]))"
proof -
  let ?es = "[Handler ByContext, Handler ByContext, Handler ByContext, Clock 200]"
  have e: "po_at (ex_poll ?es) = Blocked 0" "po_deadline (ex_poll ?es) < po_now (ex_poll ?es)" by code_simp+
  have o: "of_environment [Hangup]" "of_environment []" by (simp_all add: of_environment_def)
  from long_poll_ends[OF ex_poll_def[of ?es] e o, of ByPoll ByPoll] show ?thesis
    unfolding ex_poll_def poll_run_append .
qed

end
