(* ===== verification/Nit_Bundle.thy ===== *)
theory Nit_Bundle
  imports Nit_Profile Nit_Blob Nit_Diff
begin

text \<open>
  Where a policy comes from: reading a bundle (\<open>pkg/policy/config/load.go\<close>, \<open>types.go\<close>), the loader that keeps the
  last good one (\<open>internal/policyloader/loader.go\<close>), the registry of one loader per tenant (\<open>registry.go\<close>), the
  sources of \<open>pkg/policy/source.go\<close>, and the place of an expectations file (\<open>pkg/policy/config/expect.go\<close>). A directory
  is the list of its files, by slash-separated name; the YAML decoder is a parameter, one function per kind of
  document, and so is SHA-256. Loading reads the directory twice, once to compute the version and once to
  decode: the two readings are two arguments, equal when nobody writes in between. Errors of the file system
  other than a missing file, a missing directory or an invalid name are not modelled.
\<close>

subsection \<open>Paths (the parts of \<open>path\<close> and \<open>path/filepath\<close> the code calls)\<close>

definition clean_step :: "bool \<Rightarrow> string \<Rightarrow> string list \<Rightarrow> string list" where
  "clean_step rooted seg st =
     (if seg = [] \<or> seg = ''.'' then st
      else if seg = ''..'' then
        (case st of
           [] \<Rightarrow> if rooted then [] else [''..'']
         | upper # rest \<Rightarrow> if upper = ''..'' then ''..'' # st else rest)
      else seg # st)"

definition clean_segments :: "string \<Rightarrow> string list" where
  "clean_segments p = rev (fold (clean_step (prefix ''/'' p)) (split_on (CHR ''/'') p) [])"

definition path_Clean :: "string \<Rightarrow> string" where
  "path_Clean p =
     (let body = join_with ''/'' (clean_segments p)
      in if prefix ''/'' p then ''/'' @ body else if body = [] then ''.'' else body)"

definition path_Join :: "string list \<Rightarrow> string" where
  "path_Join elems =
     (let parts = filter (\<lambda>e. e \<noteq> []) elems
      in if parts = [] then [] else path_Clean (join_with ''/'' parts))"

definition lower :: "char \<Rightarrow> char" where
  "lower c = (if c \<ge> CHR ''A'' \<and> c \<le> CHR ''Z'' then char_of (of_char c + 32 :: nat) else c)"

text \<open>\<open>filepath.Ext\<close>: from the last dot of the last element.\<close>

definition file_ext :: "string \<Rightarrow> string" where
  "file_ext name =
     (let base = rev (takeWhile (\<lambda>c. c \<noteq> CHR ''/'') (rev name));
          tail = rev (takeWhile (\<lambda>c. c \<noteq> CHR ''.'') (rev base))
      in if CHR ''.'' \<in> set base then CHR ''.'' # tail else [])"

definition is_yaml :: "string \<Rightarrow> bool" where
  "is_yaml name = (map lower (file_ext name) \<in> {''.yaml'', ''.yml''})"

subsection \<open>The documents (\<open>types.go\<close>)\<close>

record user_file =
  uf_ID :: string
  uf_Email :: string
  uf_Aliases :: "string list"
  uf_ForgeLogins :: "(string \<times> string) list"
  uf_Disabled :: bool

record group_file =
  gf_ID :: string
  gf_Description :: string
  gf_Members :: "string list"
  gf_Includes :: "string list"

record repository_file =
  rf_ID :: string
  rf_Remote :: string
  rf_Forge :: string
  rf_DefaultBranch :: string

record subject_file =
  sf_Type :: string
  sf_ID :: string

record rule_file =
  lf_ID :: string
  lf_Subject :: subject_file
  lf_Except :: "subject_file list"
  lf_Paths :: "string list"
  lf_Refs :: "string list"
  lf_Actions :: "string list"
  lf_Effect :: string
  lf_Description :: string

datatype 'a decoded = Decoded 'a | EndOfFile | Malformed

record yaml =
  y_users :: "bytes \<Rightarrow> user_file list decoded"
  y_groups :: "bytes \<Rightarrow> group_file list decoded"
  y_repos :: "bytes \<Rightarrow> repository_file list decoded"
  y_rules :: "bytes \<Rightarrow> rule_file list decoded"

type_synonym files = "(string \<times> bytes) list"

datatype load_error =
    NoDirectory
  | OpenFailed string
  | ParseFailed string
  | ReservedGroupPrefix string
  | PathPattern string string pattern_error
  | RefPattern string string pattern_error
  | CompileFailed policy_error

subsection \<open>Reading a bundle (\<open>load.go\<close>)\<close>

definition usersFile :: string where "usersFile = ''users.yaml''"
definition groupsFile :: string where "groupsFile = ''groups.yaml''"
definition repositoriesFile :: string where "repositoriesFile = ''repositories.yaml''"
definition repositoriesDir :: string where "repositoriesDir = ''repositories''"
definition rulesFile :: string where "rulesFile = ''rules.yaml''"

text \<open>\<open>fs.ValidPath\<close> on a cleaned name: only an escape upwards is left to refuse.\<close>

definition valid_name :: "string \<Rightarrow> bool" where
  "valid_name name = (\<not> prefix ''/'' name \<and> name \<noteq> ''..'' \<and> \<not> prefix ''../'' name)"

definition decodeFile :: "(bytes \<Rightarrow> 'a list decoded) \<Rightarrow> files \<Rightarrow> string \<Rightarrow> load_error + 'a list" where
  "decodeFile dec fsys name =
     (if \<not> valid_name name then Inl (OpenFailed name)
      else case map_of fsys name of
             None \<Rightarrow> Inr []
           | Some content \<Rightarrow>
               (case dec content of
                  Decoded out \<Rightarrow> Inr out
                | EndOfFile \<Rightarrow> Inr []
                | Malformed \<Rightarrow> Inl (ParseFailed name)))"

definition hash_entry :: "string \<times> bytes \<Rightarrow> bytes" where
  "hash_entry e = fst e @ [CHR 0x00] @ itoa (length (snd e)) @ [CHR 0x00] @ snd e"

definition yaml_names :: "files \<Rightarrow> string list" where
  "yaml_names fsys = sort (filter is_yaml (map fst fsys))"

definition hash_input :: "files \<Rightarrow> bytes" where
  "hash_input fsys =
     concat (map (\<lambda>n. hash_entry (n, case map_of fsys n of None \<Rightarrow> [] | Some c \<Rightarrow> c)) (yaml_names fsys))"

definition hashBundle :: "(bytes \<Rightarrow> bytes) \<Rightarrow> files \<Rightarrow> string" where
  "hashBundle sha fsys = ''sha256:'' @ take 16 (hex_encode (sha (hash_input fsys)))"

definition user_of :: "user_file \<Rightarrow> user" where
  "user_of u = \<lparr>u_ID = uf_ID u, u_Email = uf_Email u, u_Aliases = uf_Aliases u, u_ForgeLogins = uf_ForgeLogins u,
     u_Disabled = uf_Disabled u\<rparr>"

definition group_of :: "group_file \<Rightarrow> group" where
  "group_of g = \<lparr>g_ID = gf_ID g, g_Description = gf_Description g, g_Members = gf_Members g, g_Includes = gf_Includes g\<rparr>"

definition repository_of :: "repository_file \<Rightarrow> repository" where
  "repository_of r = \<lparr>r_ID = rf_ID r, r_Remote = rf_Remote r, r_Forge = rf_Forge r, r_DefaultBranch = rf_DefaultBranch r\<rparr>"

definition subject_of :: "subject_file \<Rightarrow> rule_subject" where
  "subject_of s = \<lparr>rs_Type = sf_Type s, rs_ID = sf_ID s\<rparr>"

fun parse_patterns ::
  "doublestar \<Rightarrow> (pattern_error \<Rightarrow> load_error) \<Rightarrow> string list \<Rightarrow> load_error + pattern list" where
  "parse_patterns ds wrap [] = Inr []"
| "parse_patterns ds wrap (p # ps) =
     (case ParsePattern ds p of
        Inl e \<Rightarrow> Inl (wrap e)
      | Inr pat \<Rightarrow> rbind (parse_patterns ds wrap ps) (\<lambda>pats. Inr (pat # pats)))"

definition rule_of :: "doublestar \<Rightarrow> string \<Rightarrow> string \<Rightarrow> nat \<Rightarrow> rule_file \<Rightarrow> load_error + rule" where
  "rule_of ds name repoID i rf =
     (let rid = (if lf_ID rf = [] then repoID @ ''#'' @ itoa i else lf_ID rf)
      in rbind (parse_patterns ds (PathPattern name rid) (lf_Paths rf)) (\<lambda>paths.
         rbind (parse_patterns ds (RefPattern name rid) (lf_Refs rf)) (\<lambda>refs.
           Inr \<lparr>rule_ID = rid, rule_Subject = subject_of (lf_Subject rf), rule_Except = map subject_of (lf_Except rf),
                rule_Paths = paths, rule_Refs = refs, rule_Actions = lf_Actions rf, rule_Effect = lf_Effect rf,
                rule_Description = lf_Description rf\<rparr>)))"

fun rules_of :: "doublestar \<Rightarrow> string \<Rightarrow> string \<Rightarrow> nat \<Rightarrow> rule_file list \<Rightarrow> load_error + rule list" where
  "rules_of ds name repoID i [] = Inr []"
| "rules_of ds name repoID i (rf # rfs) =
     rbind (rule_of ds name repoID i rf) (\<lambda>r.
     rbind (rules_of ds name repoID (i + 1) rfs) (\<lambda>rs. Inr (r # rs)))"

definition loadRules :: "doublestar \<Rightarrow> yaml \<Rightarrow> files \<Rightarrow> string \<Rightarrow> load_error + rule list" where
  "loadRules ds y fsys repoID =
     (let name = path_Join [repositoriesDir, repoID, rulesFile]
      in rbind (decodeFile (y_rules y) fsys name) (\<lambda>rfs. rules_of ds name repoID 0 rfs))"

definition add_rules ::
  "doublestar \<Rightarrow> yaml \<Rightarrow> files \<Rightarrow> repository_file \<Rightarrow> (repo_id \<times> rule list) list \<Rightarrow>
     load_error + (repo_id \<times> rule list) list" where
  "add_rules ds y fsys r acc =
     rbind (loadRules ds y fsys (rf_ID r)) (\<lambda>rules.
       Inr (if length rules > 0 then AList.update (rf_ID r) rules acc else acc))"

definition group_step :: "group_file \<Rightarrow> group list \<Rightarrow> load_error + group list" where
  "group_step g acc =
     (if prefix DirectoryPrefix (gf_ID g) then Inl (ReservedGroupPrefix (gf_ID g)) else Inr (acc @ [group_of g]))"

text \<open>\<open>walked\<close> is what the directory held when it was hashed, \<open>fsys\<close> when it was decoded.\<close>

definition LoadSpecFS ::
  "doublestar \<Rightarrow> yaml \<Rightarrow> (bytes \<Rightarrow> bytes) \<Rightarrow> files \<Rightarrow> files \<Rightarrow> load_error + spec" where
  "LoadSpecFS ds y sha walked fsys =
     (let version = hashBundle sha walked
      in rbind (decodeFile (y_users y) fsys usersFile) (\<lambda>users.
         rbind (decodeFile (y_groups y) fsys groupsFile) (\<lambda>groups.
         rbind (for_each group_step groups []) (\<lambda>gs.
         rbind (decodeFile (y_repos y) fsys repositoriesFile) (\<lambda>repos.
         rbind (for_each (add_rules ds y fsys) repos []) (\<lambda>rules.
           Inr \<lparr>sp_Tenant = DefaultTenant, sp_Version = version, sp_Users = map user_of users, sp_Groups = gs,
                sp_Repositories = map repository_of repos, sp_Rules = rules\<rparr>))))))"

definition LoadFS ::
  "doublestar \<Rightarrow> yaml \<Rightarrow> (bytes \<Rightarrow> bytes) \<Rightarrow> files \<Rightarrow> files \<Rightarrow> load_error + policy" where
  "LoadFS ds y sha walked fsys =
     rbind (LoadSpecFS ds y sha walked fsys) (\<lambda>spec.
       case Compile spec of Inl e \<Rightarrow> Inl (CompileFailed e) | Inr p \<Rightarrow> Inr p)"

text \<open>A disk maps directories to their files; \<open>Load\<close> of a directory that is not there fails in the walk.\<close>

type_synonym disk = "string \<Rightarrow> files option"

definition Load ::
  "doublestar \<Rightarrow> yaml \<Rightarrow> (bytes \<Rightarrow> bytes) \<Rightarrow> disk \<Rightarrow> disk \<Rightarrow> string \<Rightarrow> load_error + policy" where
  "Load ds y sha walked disk dir =
     (case walked dir of
        None \<Rightarrow> Inl NoDirectory
      | Some w \<Rightarrow> LoadFS ds y sha w (case disk dir of None \<Rightarrow> [] | Some f \<Rightarrow> f))"

subsection \<open>The place of an expectations file (\<open>expect.go\<close>)\<close>

text \<open>\<open>filepath.Rel\<close> between two absolute paths.\<close>

fun drop_common :: "string list \<Rightarrow> string list \<Rightarrow> string list \<times> string list" where
  "drop_common (a # as) (b # bs) = (if a = b then drop_common as bs else (a # as, b # bs))"
| "drop_common as bs = (as, bs)"

definition path_Rel :: "string \<Rightarrow> string \<Rightarrow> string" where
  "path_Rel base targ =
     (let (up, down) = drop_common (clean_segments base) (clean_segments targ);
          segs = map (\<lambda>_. ''..'') up @ down
      in if segs = [] then ''.'' else join_with ''/'' segs)"

definition path_Abs :: "string \<Rightarrow> string \<Rightarrow> string" where
  "path_Abs cwd p = (if prefix ''/'' p then path_Clean p else path_Join [cwd, p])"

definition within :: "string \<Rightarrow> string \<Rightarrow> string \<Rightarrow> bool" where
  "within cwd bundle path =
     (let rel = path_Rel (path_Abs cwd bundle) (path_Abs cwd path) in rel \<noteq> ''..'' \<and> \<not> prefix ''../'' rel)"

datatype expectations_error = TestsInsideBundle | OpenExpectations | ReadExpectations | NoExpectations

text \<open>\<open>content\<close>: what opening the file gives, if it can be opened. An empty document is an error here.\<close>

definition LoadExpectations ::
  "(bytes \<Rightarrow> expectation list decoded) \<Rightarrow> string \<Rightarrow> string \<Rightarrow> string \<Rightarrow> bytes option \<Rightarrow>
     expectations_error + expectation list" where
  "LoadExpectations dec cwd bundle path content =
     (if within cwd bundle path then Inl TestsInsideBundle
      else case content of
             None \<Rightarrow> Inl OpenExpectations
           | Some c \<Rightarrow>
               (case dec c of
                  Decoded out \<Rightarrow> if length out = 0 then Inl NoExpectations else Inr out
                | _ \<Rightarrow> Inl ReadExpectations))"

subsection \<open>The loader (\<open>loader.go\<close>)\<close>

record loader =
  ld_dir :: string
  ld_current :: policy

definition New_loader ::
  "doublestar \<Rightarrow> yaml \<Rightarrow> (bytes \<Rightarrow> bytes) \<Rightarrow> disk \<Rightarrow> disk \<Rightarrow> string \<Rightarrow> load_error + loader" where
  "New_loader ds y sha walked disk dir =
     rbind (Load ds y sha walked disk dir) (\<lambda>p. Inr \<lparr>ld_dir = dir, ld_current = p\<rparr>)"

text \<open>Whether the version changed, and the loader left; a changed bundle is also handed to \<open>OnReload\<close>.\<close>

definition Reload ::
  "doublestar \<Rightarrow> yaml \<Rightarrow> (bytes \<Rightarrow> bytes) \<Rightarrow> disk \<Rightarrow> disk \<Rightarrow> loader \<Rightarrow> (load_error + bool) \<times> loader" where
  "Reload ds y sha walked disk l =
     (if ld_dir l = [] then (Inr False, l)
      else case Load ds y sha walked disk (ld_dir l) of
             Inl e \<Rightarrow> (Inl e, l)
           | Inr p \<Rightarrow>
               if p_version (ld_current l) = p_version p then (Inr False, l)
               else (Inr True, l\<lparr>ld_current := p\<rparr>))"

text \<open>\<open>Watch\<close>: one reload per tick, errors reported and ignored.\<close>

definition Watch ::
  "doublestar \<Rightarrow> yaml \<Rightarrow> (bytes \<Rightarrow> bytes) \<Rightarrow> (disk \<times> disk) list \<Rightarrow> loader \<Rightarrow> loader" where
  "Watch ds y sha disks l = fold (\<lambda>(walked, disk) l. snd (Reload ds y sha walked disk l)) disks l"

subsection \<open>The registry (\<open>registry.go\<close>, \<open>source.go\<close>)\<close>

text \<open>\<open>rg_cancels\<close>: the tenants whose loader has a watcher running.\<close>

record registry =
  rg_root :: string
  rg_reload :: int
  rg_loaders :: "(tenant_id \<times> loader) list"
  rg_cancels :: "tenant_id list"

definition NewRegistry :: "string \<Rightarrow> int \<Rightarrow> registry" where
  "NewRegistry root reload = \<lparr>rg_root = root, rg_reload = reload, rg_loaders = [], rg_cancels = []\<rparr>"

datatype registry_error = NoTenant | NoBundle tenant_id string | TenantLoad tenant_id load_error

definition dirFor :: "disk \<Rightarrow> registry \<Rightarrow> tenant_id \<Rightarrow> registry_error + string" where
  "dirFor disk r tenant =
     (let scoped = path_Join [rg_root r, tenant]
      in if disk scoped \<noteq> None then Inr scoped
         else if tenant = DefaultTenant \<and> disk (rg_root r) \<noteq> None then Inr (rg_root r)
         else Inl (NoBundle tenant scoped))"

text \<open>
  A call finds a resident loader under the lock, or loads one without it and then registers it under the lock,
  unless another call has done so meanwhile.
\<close>

definition For_lookup :: "registry \<Rightarrow> tenant_id \<Rightarrow> registry_error + loader option" where
  "For_lookup r tenant = (if tenant = [] then Inl NoTenant else Inr (map_of (rg_loaders r) tenant))"

definition For_load ::
  "doublestar \<Rightarrow> yaml \<Rightarrow> (bytes \<Rightarrow> bytes) \<Rightarrow> disk \<Rightarrow> disk \<Rightarrow> registry \<Rightarrow> tenant_id \<Rightarrow> registry_error + loader" where
  "For_load ds y sha walked disk r tenant =
     rbind (dirFor walked r tenant) (\<lambda>dir.
       case New_loader ds y sha walked disk dir of
         Inl e \<Rightarrow> Inl (TenantLoad tenant e)
       | Inr l \<Rightarrow> Inr l)"

definition For_register :: "registry \<Rightarrow> tenant_id \<Rightarrow> loader \<Rightarrow> loader \<times> registry" where
  "For_register r tenant l =
     (case map_of (rg_loaders r) tenant of
        Some existing \<Rightarrow> (existing, r)
      | None \<Rightarrow>
          (l, r\<lparr>rg_loaders := AList.update tenant l (rg_loaders r),
                rg_cancels := (if rg_reload r > 0 then List.insert tenant (rg_cancels r) else rg_cancels r)\<rparr>))"

definition Close_registry :: "registry \<Rightarrow> registry" where
  "Close_registry r = r\<lparr>rg_cancels := []\<rparr>"

definition Tenants :: "registry \<Rightarrow> tenant_id list" where
  "Tenants r = map fst (rg_loaders r)"

text \<open>A tick of a watcher: the loader of a tenant whose watcher runs is reloaded.\<close>

definition watch_tick ::
  "doublestar \<Rightarrow> yaml \<Rightarrow> (bytes \<Rightarrow> bytes) \<Rightarrow> disk \<Rightarrow> disk \<Rightarrow> tenant_id \<Rightarrow> registry \<Rightarrow> registry" where
  "watch_tick ds y sha walked disk tenant r =
     (case map_of (rg_loaders r) tenant of
        Some l \<Rightarrow>
          if tenant \<in> set (rg_cancels r)
          then r\<lparr>rg_loaders := AList.update tenant (snd (Reload ds y sha walked disk l)) (rg_loaders r)\<rparr>
          else r
      | None \<Rightarrow> r)"

datatype source_error = NoSource

definition Static_Current :: "policy \<Rightarrow> policy" where
  "Static_Current p = p"

definition OneSource_For :: "'s option \<Rightarrow> tenant_id \<Rightarrow> source_error + 's" where
  "OneSource_For source tenant = (case source of None \<Rightarrow> Inl NoSource | Some s \<Rightarrow> Inr s)"

subsection \<open>The version covers what is read\<close>

lemma join_with_snoc: "join_with sep (xs @ [x]) = (if xs = [] then x else join_with sep xs @ sep @ x)"
  by (induction sep xs rule: join_with.induct) auto

definition plain_segment :: "string \<Rightarrow> bool" where
  "plain_segment t \<longleftrightarrow> t \<noteq> [] \<and> CHR ''/'' \<notin> set t \<and> t \<noteq> ''.'' \<and> t \<noteq> ''..''"

lemma clean_segments_snoc:
  assumes "plain_segment t" "p \<noteq> []"
  shows "clean_segments (p @ ''/'' @ t) = clean_segments p @ [t]"
proof -
  have "split_on (CHR ''/'') (p @ ''/'' @ t) = split_on (CHR ''/'') p @ [t]"
    using assms(1) by (simp add: split_on_append_sep plain_segment_def)
  moreover have "prefix ''/'' (p @ ''/'' @ t) = prefix ''/'' p" using assms(2) by (cases p) auto
  ultimately show ?thesis using assms(1) by (simp add: clean_segments_def clean_step_def plain_segment_def)
qed

lemma path_Clean_snoc:
  assumes "plain_segment t" "p \<noteq> []"
  shows "path_Clean (p @ ''/'' @ t) = (if prefix ''/'' p then ''/'' else [])
    @ (if clean_segments p = [] then t else join_with ''/'' (clean_segments p) @ ''/'' @ t)"
proof -
  have "prefix ''/'' (p @ ''/'' @ t) = prefix ''/'' p" using assms(2) by (cases p) auto
  then show ?thesis
    using assms(1) unfolding path_Clean_def clean_segments_snoc[OF assms] join_with_snoc
    by (auto simp: plain_segment_def Let_def)
qed

lemma file_ext_segment:
  assumes "CHR ''/'' \<notin> set t"
  shows "file_ext (p @ ''/'' @ t) = file_ext t"
proof -
  have "takeWhile (\<lambda>c. c \<noteq> x) (xs @ x # ys) = xs" "takeWhile (\<lambda>c. c \<noteq> x) xs = xs" if "x \<notin> set xs" for x :: char and xs ys
    using that by (induction xs) auto
  note tw = this[of "CHR ''/''" "rev t"]
  have "CHR ''/'' \<notin> set (rev t)" using assms by simp
  from tw[OF this] show ?thesis by (simp add: file_ext_def del: takeWhile_eq_all_conv)
qed

lemma is_yaml_known: "is_yaml usersFile" "is_yaml groupsFile" "is_yaml repositoriesFile" "is_yaml rulesFile"
  by code_simp+

lemma rulesFile_plain: "plain_segment rulesFile"
  by (simp add: plain_segment_def rulesFile_def)

lemma is_yaml_rules: "is_yaml (path_Join [repositoriesDir, repoID, rulesFile])"
proof -
  obtain p where p: "p \<noteq> []" "path_Join [repositoriesDir, repoID, rulesFile] = path_Clean (p @ ''/'' @ rulesFile)"
    by (cases "repoID = []") (auto simp: path_Join_def repositoriesDir_def rulesFile_def intro: that[of "''repositories''"]
        that[of "''repositories/'' @ repoID"])
  have s: "CHR ''/'' \<notin> set rulesFile" using rulesFile_plain by (simp add: plain_segment_def)
  have "file_ext (''/'' @ rulesFile) = file_ext rulesFile" using file_ext_segment[OF s, of "[]"] by simp
  then have "file_ext (path_Clean (p @ ''/'' @ rulesFile)) = file_ext rulesFile"
    unfolding path_Clean_snoc[OF rulesFile_plain p(1)]
    using file_ext_segment[OF s, of "(if prefix ''/'' p then ''/'' else []) @ join_with ''/'' (clean_segments p)"] by simp
  then show ?thesis using is_yaml_known(4) by (simp add: p(2) is_yaml_def)
qed

definition named_files :: "files \<Rightarrow> bool" where
  "named_files f \<longleftrightarrow> distinct (map fst f) \<and> (\<forall>n \<in> fst ` set f. CHR 0x00 \<notin> set n)"

lemma itoa_no_nul: "CHR 0x00 \<notin> set (itoa n)"
proof (induction n rule: itoa.induct)
  case (1 n)
  have "digit d \<noteq> CHR 0x00" if "d < 10" for d
    using that by (auto simp: digit_def dest!: arg_cong[where f = "of_char :: char \<Rightarrow> nat"])
  from this[of n] this[of "n mod 10"] show ?case using 1 by (subst itoa.simps) auto
qed

lemma hash_entry_split:
  assumes "hash_entry e @ us = hash_entry e' @ vs" "CHR 0x00 \<notin> set (fst e)" "CHR 0x00 \<notin> set (fst e')"
  shows "e = e' \<and> us = vs"
proof -
  have 1: "fst e = fst e' \<and> itoa (length (snd e)) @ CHR 0x00 # snd e @ us = itoa (length (snd e')) @ CHR 0x00 # snd e' @ vs"
    using assms by (intro split_at_sep[where c = "CHR 0x00"]) (auto simp: hash_entry_def)
  then have 2: "itoa (length (snd e)) = itoa (length (snd e')) \<and> snd e @ us = snd e' @ vs"
    by (intro split_at_sep[where c = "CHR 0x00"]) (auto simp: itoa_no_nul)
  then show ?thesis using 1 itoa_inj[of "length (snd e)" "length (snd e')"] by (auto simp: prod_eq_iff)
qed

lemma hash_entry_nonempty [simp]: "hash_entry e \<noteq> []"
  by (simp add: hash_entry_def)

lemma hash_entries_inj:
  assumes "concat (map hash_entry es) = concat (map hash_entry fs)"
    "\<forall>e \<in> set es. CHR 0x00 \<notin> set (fst e)" "\<forall>e \<in> set fs. CHR 0x00 \<notin> set (fst e)"
  shows "es = fs"
  using assms
proof (induction es arbitrary: fs)
  case Nil
  then show ?case by (cases fs) auto
next
  case (Cons e es)
  obtain f fs' where f: "fs = f # fs'" using Cons.prems(1) by (cases fs) auto
  have "e = f \<and> concat (map hash_entry es) = concat (map hash_entry fs')"
    using Cons.prems by (intro hash_entry_split) (auto simp: f)
  then show ?case using Cons.IH[of fs'] Cons.prems(2,3) by (simp add: f)
qed

definition same_yaml :: "files \<Rightarrow> files \<Rightarrow> bool" where
  "same_yaml f g \<longleftrightarrow> (\<forall>n. is_yaml n \<longrightarrow> map_of f n = map_of g n)"

lemma hash_input_same:
  assumes "named_files f" "named_files g" "hash_input f = hash_input g"
  shows "same_yaml f g"
proof -
  let ?es = "\<lambda>f :: files. map (\<lambda>n. (n, case map_of f n of None \<Rightarrow> [] | Some c \<Rightarrow> c)) (yaml_names f)"
  have h: "hash_input f = concat (map hash_entry (?es f))" for f by (simp add: hash_input_def comp_def)
  have nul: "\<forall>e \<in> set (?es f). CHR 0x00 \<notin> set (fst e)" if "named_files f" for f
    using that by (auto simp: named_files_def yaml_names_def)
  have es: "?es f = ?es g"
    using assms(3) unfolding h by (rule hash_entries_inj) (use nul assms(1,2) in blast)+
  then have names: "yaml_names f = yaml_names g"
    by (metis (no_types, lifting) fst_conv list.map_comp comp_def map_idI)
  have dom: "map_of f n \<noteq> None \<longleftrightarrow> n \<in> set (yaml_names f)" if "is_yaml n" for f :: files and n
    using that by (auto simp: yaml_names_def map_of_eq_None_iff)
  show ?thesis unfolding same_yaml_def
  proof (intro allI impI)
    fix n assume n: "is_yaml n"
    show "map_of f n = map_of g n"
    proof (cases "n \<in> set (yaml_names f)")
      case True
      then have "(case map_of f n of None \<Rightarrow> [] | Some c \<Rightarrow> c) = (case map_of g n of None \<Rightarrow> [] | Some c \<Rightarrow> c)"
        using es unfolding names map_eq_conv by simp
      moreover have "map_of f n \<noteq> None" "map_of g n \<noteq> None" using dom[OF n] True names by auto
      ultimately show ?thesis by auto
    next
      case False
      then have "map_of f n = None" "map_of g n = None" using dom[OF n, of f] dom[OF n, of g] names by auto
      then show ?thesis by simp
    qed
  qed
qed

lemma decodeFile_same: "same_yaml f g \<Longrightarrow> is_yaml n \<Longrightarrow> decodeFile dec f n = decodeFile dec g n"
  by (simp add: decodeFile_def same_yaml_def)

lemma loadRules_same: "same_yaml f g \<Longrightarrow> loadRules ds y f r = loadRules ds y g r"
  unfolding loadRules_def Let_def decodeFile_same[OF _ is_yaml_rules] ..

lemma LoadSpecFS_same:
  assumes "same_yaml f g" "hashBundle sha v = hashBundle sha w"
  shows "LoadSpecFS ds y sha v f = LoadSpecFS ds y sha w g"
proof -
  have "add_rules ds y f = add_rules ds y g"
    by (simp add: fun_eq_iff add_rules_def loadRules_same[OF assms(1)])
  then show ?thesis
    unfolding LoadSpecFS_def Let_def assms(2) decodeFile_same[OF assms(1) is_yaml_known(1)]
      decodeFile_same[OF assms(1) is_yaml_known(2)] decodeFile_same[OF assms(1) is_yaml_known(3)] by simp
qed

lemma LoadFS_version: "LoadFS ds y sha w f = Inr p \<Longrightarrow> p_version p = hashBundle sha w"
  by (auto simp: LoadFS_def LoadSpecFS_def Let_def elim!: rbind_InrE dest!: Compile_wf split: sum.splits)

lemma LoadFS_wf: "LoadFS ds y sha w f = Inr p \<Longrightarrow> wf_policy p"
  by (auto simp: LoadFS_def elim!: rbind_InrE dest!: Compile_wf split: sum.splits)

subsection \<open>The loader keeps the last good bundle\<close>

definition load_disk :: "doublestar \<Rightarrow> yaml \<Rightarrow> (bytes \<Rightarrow> bytes) \<Rightarrow> string \<Rightarrow> disk \<Rightarrow> load_error + policy" where
  "load_disk ds y sha dir d = Load ds y sha d d dir"

text \<open>The reference: at every tick the bundle is replaced by what the directory holds, if that loads.\<close>

definition last_good ::
  "doublestar \<Rightarrow> yaml \<Rightarrow> (bytes \<Rightarrow> bytes) \<Rightarrow> string \<Rightarrow> disk list \<Rightarrow> policy \<Rightarrow> policy" where
  "last_good ds y sha dir disks p =
     fold (\<lambda>d p. case load_disk ds y sha dir d of Inl _ \<Rightarrow> p | Inr q \<Rightarrow> q) disks p"

definition quiet :: "disk list \<Rightarrow> (disk \<times> disk) list" where
  "quiet disks = map (\<lambda>d. (d, d)) disks"

text \<open>File names are file names, and no two of the bundles in play share a version by a collision.\<close>

definition seen_ok :: "(bytes \<Rightarrow> bytes) \<Rightarrow> string \<Rightarrow> disk set \<Rightarrow> bool" where
  "seen_ok sha dir D \<longleftrightarrow> (\<forall>d \<in> D. \<forall>f. d dir = Some f \<longrightarrow> named_files f
     \<and> (\<forall>d' \<in> D. \<forall>f'. d' dir = Some f' \<longrightarrow> hashBundle sha f = hashBundle sha f' \<longrightarrow> hash_input f = hash_input f'))"

lemma load_diskD:
  assumes "load_disk ds y sha dir d = Inr p"
  obtains f where "d dir = Some f" "LoadFS ds y sha f f = Inr p" "p_version p = hashBundle sha f"
  using assms LoadFS_version by (auto simp: load_disk_def Load_def split: option.splits)

lemma same_version_same_policy:
  assumes "seen_ok sha dir D" "d \<in> D" "d' \<in> D" "load_disk ds y sha dir d = Inr p" "load_disk ds y sha dir d' = Inr q"
    and "p_version p = p_version q"
  shows "p = q"
proof -
  obtain f where f: "d dir = Some f" "LoadFS ds y sha f f = Inr p" "p_version p = hashBundle sha f"
    by (rule load_diskD[OF assms(4)])
  obtain g where g: "d' dir = Some g" "LoadFS ds y sha g g = Inr q" "p_version q = hashBundle sha g"
    by (rule load_diskD[OF assms(5)])
  have v: "hashBundle sha f = hashBundle sha g" using assms(6) f(3) g(3) by simp
  then have "hash_input f = hash_input g" "named_files f" "named_files g"
    using assms(1-3) f(1) g(1) unfolding seen_ok_def by blast+
  then have "same_yaml f g" by (intro hash_input_same)
  then have "LoadFS ds y sha f f = LoadFS ds y sha g g" by (simp add: LoadFS_def LoadSpecFS_same[OF _ v])
  then show ?thesis using f(2) g(2) by simp
qed

lemma Reload_good:
  assumes "seen_ok sha dir D" "d \<in> D" "d0 \<in> D" "ld_dir l = dir" "dir \<noteq> []" "load_disk ds y sha dir d0 = Inr (ld_current l)"
  shows "ld_current (snd (Reload ds y sha d d l)) = (case load_disk ds y sha dir d of Inl _ \<Rightarrow> ld_current l | Inr q \<Rightarrow> q)"
  using assms(4,5) same_version_same_policy[OF assms(1,3,2,6)]
  by (auto simp: Reload_def load_disk_def split: sum.split)

lemma Reload_dir: "ld_dir (snd (Reload ds y sha w d l)) = ld_dir l"
  by (simp add: Reload_def split: sum.split)

lemma Watch_last_good:
  assumes "seen_ok sha dir D" "set disks \<subseteq> D" "d0 \<in> D" "ld_dir l = dir" "dir \<noteq> []"
    and "load_disk ds y sha dir d0 = Inr (ld_current l)"
  shows "ld_current (Watch ds y sha (quiet disks) l) = last_good ds y sha dir disks (ld_current l)"
  using assms(2-4,6)
proof (induction disks arbitrary: l d0)
  case (Cons d disks)
  let ?l = "snd (Reload ds y sha d d l)"
  have d: "d \<in> D" using Cons.prems(1) by simp
  note r = Reload_good[OF assms(1) d Cons.prems(2,3) assms(5) Cons.prems(4)]
  obtain d1 where "d1 \<in> D" "load_disk ds y sha dir d1 = Inr (ld_current ?l)"
    using r d Cons.prems(2,4) by (cases "load_disk ds y sha dir d") auto
  then have "ld_current (Watch ds y sha (quiet disks) ?l) = last_good ds y sha dir disks (ld_current ?l)"
    using Cons.IH[of d1 ?l] Cons.prems(1,3) by (simp add: Reload_dir)
  then show ?case by (simp add: Watch_def quiet_def last_good_def r)
qed (simp add: Watch_def quiet_def last_good_def)

lemma load_disk_wf: "load_disk ds y sha dir d = Inr p \<Longrightarrow> wf_policy p"
  by (erule load_diskD) (rule LoadFS_wf)

lemma last_good_wf: "wf_policy p \<Longrightarrow> wf_policy (last_good ds y sha dir disks p)"
proof (induction disks arbitrary: p)
  case (Cons d disks)
  have "wf_policy (case load_disk ds y sha dir d of Inl _ \<Rightarrow> p | Inr q \<Rightarrow> q)"
    using Cons.prems load_disk_wf[of ds y sha dir d] by (cases "load_disk ds y sha dir d") simp_all
  then show ?case using Cons.IH by (simp add: last_good_def)
qed (simp add: last_good_def)

text \<open>
  Claim C34. When no file changes during a load, the bundle in force is the last good one. A loader started on a
  directory and ticking any number of times, each load reading one state of the directory, serves exactly
  what the directory held at the last tick at which it loaded: a bundle that fails to load changes nothing, and
  comparing versions before swapping does not keep an older bundle, for a version covers every document
  that is read. (File names contain no NUL byte, and the versions of the bundles in play do not collide.) What a
  file written in the middle of a load does is shown below.
\<close>

theorem served_bundle_is_last_good:
  assumes "New_loader ds y sha d0 d0 dir = Inr l" "dir \<noteq> []" "seen_ok sha dir (insert d0 (set disks))"
  shows "ld_current (Watch ds y sha (quiet disks) l) = last_good ds y sha dir disks (ld_current l)
    \<and> wf_policy (ld_current (Watch ds y sha (quiet disks) l))"
proof -
  have l: "ld_dir l = dir" "load_disk ds y sha dir d0 = Inr (ld_current l)"
    using assms(1) by (auto simp: New_loader_def load_disk_def elim!: rbind_InrE)
  have eq: "ld_current (Watch ds y sha (quiet disks) l) = last_good ds y sha dir disks (ld_current l)"
    using l by (intro Watch_last_good[OF assms(3) _ _ _ assms(2)]) auto
  then show ?thesis using load_disk_wf[OF l(2)] last_good_wf by simp
qed

text \<open>
  A bundle written while it is being loaded. The version is computed in one pass over the files and the rules
  are decoded in another. When the directory changes in between, the loader serves the new rules under the
  version of the old files; if the old files come back, every later reload finds the version it already has and
  keeps rules the directory no longer holds.
\<close>

theorem torn_load_keeps_rules:
  assumes "New_loader ds y sha before after dir = Inr l" "load_disk ds y sha dir before = Inr p"
  shows "p_version (ld_current l) = p_version p \<and> Watch ds y sha (quiet (replicate n before)) l = l"
proof -
  obtain f where f: "before dir = Some f" "p_version p = hashBundle sha f" by (rule load_diskD[OF assms(2)])
  have l: "ld_dir l = dir" "Load ds y sha before after dir = Inr (ld_current l)"
    using assms(1) by (auto simp: New_loader_def elim!: rbind_InrE)
  then have v: "p_version (ld_current l) = p_version p" using f LoadFS_version by (auto simp: Load_def)
  then have "snd (Reload ds y sha before before l) = l"
    using assms(2) l(1) by (auto simp: Reload_def load_disk_def)
  then have "Watch ds y sha (quiet (replicate n before)) l = l" by (induction n) (simp_all add: Watch_def quiet_def)
  then show ?thesis using v by simp
qed

subsection \<open>One directory per tenant\<close>

text \<open>
  The states a registry goes through: a call of \<open>For\<close> reads (\<open>r0\<close>, the registry as it was then) and registers in
  two critical sections, with any steps of other calls in between.
\<close>

inductive resident ::
  "doublestar \<Rightarrow> yaml \<Rightarrow> (bytes \<Rightarrow> bytes) \<Rightarrow> string \<Rightarrow> registry \<Rightarrow> bool" for ds y sha root where
  start: "resident ds y sha root (NewRegistry root reload)"
| registered: "resident ds y sha root r \<Longrightarrow> rg_root r0 = root \<Longrightarrow> For_load ds y sha w d r0 t = Inr l \<Longrightarrow>
    resident ds y sha root (snd (For_register r t l))"
| ticked: "resident ds y sha root r \<Longrightarrow> resident ds y sha root (watch_tick ds y sha w d t r)"
| closed: "resident ds y sha root r \<Longrightarrow> resident ds y sha root (Close_registry r)"

definition own_directory :: "string \<Rightarrow> tenant_id \<Rightarrow> string \<Rightarrow> bool" where
  "own_directory root t dir \<longleftrightarrow> dir = path_Join [root, t] \<or> t = DefaultTenant \<and> dir = root"

lemma dirFor_own: "dirFor d r t = Inr dir \<Longrightarrow> own_directory (rg_root r) t dir"
  by (auto simp: dirFor_def own_directory_def Let_def split: if_splits)

definition loaded_from :: "doublestar \<Rightarrow> yaml \<Rightarrow> (bytes \<Rightarrow> bytes) \<Rightarrow> loader \<Rightarrow> bool" where
  "loaded_from ds y sha l \<longleftrightarrow> (\<exists>w d. Load ds y sha w d (ld_dir l) = Inr (ld_current l))"

lemma Reload_loaded:
  assumes "loaded_from ds y sha l"
  shows "loaded_from ds y sha (snd (Reload ds y sha w d l))"
proof (cases "ld_dir l = [] \<or> ld_current (snd (Reload ds y sha w d l)) = ld_current l")
  case True
  then have "ld_current (snd (Reload ds y sha w d l)) = ld_current l" by (auto simp: Reload_def)
  then show ?thesis using assms unfolding loaded_from_def Reload_dir by simp
next
  case False
  then have "Load ds y sha w d (ld_dir l) = Inr (ld_current (snd (Reload ds y sha w d l)))"
    by (auto simp: Reload_def split: sum.splits if_splits)
  then show ?thesis unfolding loaded_from_def Reload_dir by blast
qed

lemma For_loadD:
  assumes "For_load ds y sha w d r t = Inr l"
  shows "own_directory (rg_root r) t (ld_dir l)" "loaded_from ds y sha l"
proof -
  obtain dir where dir: "dirFor w r t = Inr dir" and n: "New_loader ds y sha w d dir = Inr l"
    using assms by (auto simp: For_load_def elim!: rbind_InrE split: sum.splits)
  have l: "ld_dir l = dir" "Load ds y sha w d dir = Inr (ld_current l)"
    using n by (auto simp: New_loader_def elim!: rbind_InrE)
  show "own_directory (rg_root r) t (ld_dir l)" using dirFor_own[OF dir] l by simp
  show "loaded_from ds y sha l" using l unfolding loaded_from_def by blast
qed

lemma watch_tick_lookup:
  assumes "map_of (rg_loaders (watch_tick ds y sha w d t' r)) t = Some l"
  obtains l0 where "map_of (rg_loaders r) t = Some l0" "l = l0 \<or> l = snd (Reload ds y sha w d l0)"
  using assms by (auto simp: watch_tick_def map_of_update split: option.splits if_splits)

lemma resident_own:
  "resident ds y sha root r \<Longrightarrow> map_of (rg_loaders r) t = Some l \<Longrightarrow>
   own_directory root t (ld_dir l) \<and> loaded_from ds y sha l"
proof (induction arbitrary: t l rule: resident.induct)
  case (registered r r0 w d t' l')
  then show ?case using For_loadD[OF registered(3)]
    by (auto simp: For_register_def map_of_update split: option.splits if_splits)
next
  case (ticked r w d t')
  obtain l0 where "map_of (rg_loaders r) t = Some l0" "l = l0 \<or> l = snd (Reload ds y sha w d l0)"
    by (rule watch_tick_lookup[OF ticked.prems])
  then show ?case using ticked.IH[of t l0] Reload_loaded[of ds y sha l0] by (auto simp: Reload_dir)
qed (simp_all add: NewRegistry_def Close_registry_def)

lemma path_Join_inj:
  assumes "plain_segment t" "plain_segment t'" "root \<noteq> []" "path_Join [root, t] = path_Join [root, t']"
  shows "t = t'"
proof -
  have "path_Join [root, x] = path_Clean (root @ ''/'' @ x)" if "plain_segment x" for x
    using that assms(3) by (auto simp: path_Join_def plain_segment_def)
  then show ?thesis using assms path_Clean_snoc[OF assms(1,3)] path_Clean_snoc[OF assms(2,3)] by (simp split: if_splits)
qed

text \<open>
  No tenant is served another tenant's rules. In every state of the registry, whatever loads and reloads went
  before, the bundle resident for a tenant was loaded from the directory named after that tenant below the
  root, and two tenants have different directories; only the default tenant may be served from the root
  itself. (The identifiers are plain path segments.)
\<close>

theorem registry_serves_own_bundle:
  assumes "resident ds y sha root r" "map_of (rg_loaders r) t = Some l" "map_of (rg_loaders r) t' = Some l'" "t \<noteq> t'"
    and "root \<noteq> []" "plain_segment t" "plain_segment t'" "t \<noteq> DefaultTenant" "t' \<noteq> DefaultTenant"
  shows "ld_dir l = path_Join [root, t] \<and> ld_dir l' = path_Join [root, t'] \<and> ld_dir l \<noteq> ld_dir l'
    \<and> (\<exists>w d. Load ds y sha w d (path_Join [root, t]) = Inr (ld_current l))"
proof -
  have o: "ld_dir l = path_Join [root, t]" "ld_dir l' = path_Join [root, t']" "loaded_from ds y sha l"
    using resident_own[OF assms(1,2)] resident_own[OF assms(1,3)] assms(8,9) by (auto simp: own_directory_def)
  then show ?thesis using path_Join_inj[OF assms(6,7,5)] assms(4) by (auto simp: loaded_from_def)
qed

subsection \<open>Expectations stay outside the bundle\<close>

lemma clean_step_rooted: "''..'' \<notin> set st \<Longrightarrow> ''..'' \<notin> set (clean_step True seg st)"
  by (auto simp: clean_step_def split: list.splits)

lemma clean_fold_rooted: "''..'' \<notin> set st \<Longrightarrow> ''..'' \<notin> set (fold (clean_step True) segs st)"
  by (induction segs arbitrary: st) (simp_all add: clean_step_rooted)

lemma clean_segments_rooted: "prefix ''/'' p \<Longrightarrow> ''..'' \<notin> set (clean_segments p)"
  using clean_fold_rooted[of "[]"] by (simp add: clean_segments_def)

lemma clean_step_slashless:
  "CHR ''/'' \<notin> set seg \<Longrightarrow> \<forall>x \<in> set st. CHR ''/'' \<notin> set x \<Longrightarrow> \<forall>x \<in> set (clean_step rooted seg st). CHR ''/'' \<notin> set x"
  by (auto simp: clean_step_def split: list.splits)

lemma drop_common_prefix: "drop_common xs ys = ([], zs) \<longleftrightarrow> ys = xs @ zs"
  by (induction xs ys rule: drop_common.induct) auto

lemma drop_common_suffix: "drop_common xs ys = (us, zs) \<Longrightarrow> set zs \<subseteq> set ys"
  by (induction xs ys rule: drop_common.induct) (auto split: if_splits)

lemma join_with_first:
  assumes "xs \<noteq> []" "\<forall>x \<in> set xs. CHR ''/'' \<notin> set x"
  shows "join_with ''/'' xs = ''..'' \<or> prefix ''../'' (join_with ''/'' xs) \<longleftrightarrow> hd xs = ''..''"
proof (cases xs)
  case (Cons x rest)
  have x: "CHR ''/'' \<notin> set x" using assms(2) Cons by simp
  show ?thesis
  proof (cases rest)
    case Nil
    have "\<not> prefix ''../'' x" using x set_mono_prefix[of "''../''" x] by auto
    then show ?thesis using Cons Nil by simp
  next
    case (Cons y ys)
    have "prefix ''../'' (x @ ''/'' @ z) \<longleftrightarrow> x = ''..''" for z
    proof
      assume "prefix ''../'' (x @ ''/'' @ z)"
      then obtain w where w: "x @ CHR ''/'' # z = ''..'' @ CHR ''/'' # w" by (auto simp: prefix_def)
      have "x = ''..'' \<and> z = w" by (rule split_at_sep[OF x _ w]) simp
      then show "x = ''..''" ..
    qed simp
    moreover have "x @ ''/'' @ z \<noteq> ''..''" for z by (auto dest!: arg_cong[where f = set])
    ultimately show ?thesis using \<open>xs = x # rest\<close> Cons by simp
  qed
qed (use assms in simp)

lemma clean_fold_slashless:
  "\<forall>x \<in> set segs. CHR ''/'' \<notin> set x \<Longrightarrow> \<forall>x \<in> set st. CHR ''/'' \<notin> set x \<Longrightarrow>
   \<forall>x \<in> set (fold (clean_step rooted) segs st). CHR ''/'' \<notin> set x"
proof (induction segs arbitrary: st)
  case (Cons seg segs)
  have "\<forall>x \<in> set (clean_step rooted seg st). CHR ''/'' \<notin> set x"
    by (rule clean_step_slashless) (use Cons.prems in simp_all)
  then show ?case using Cons.IH Cons.prems(1) by simp
qed simp

lemma clean_segments_slashless: "\<forall>x \<in> set (clean_segments p). CHR ''/'' \<notin> set x"
  unfolding clean_segments_def set_rev by (rule clean_fold_slashless) (auto dest: split_on_no_sep)

lemma path_Abs_rooted: "prefix ''/'' cwd \<Longrightarrow> prefix ''/'' (path_Abs cwd p)"
  by (cases cwd) (auto simp: path_Abs_def path_Join_def path_Clean_def Let_def)

text \<open>The textual test on the relative path is the question whether the file is below the bundle.\<close>

lemma within_iff:
  assumes "prefix ''/'' cwd"
  shows "within cwd bundle path
    \<longleftrightarrow> prefix (clean_segments (path_Abs cwd bundle)) (clean_segments (path_Abs cwd path))"
proof -
  let ?b = "clean_segments (path_Abs cwd bundle)" and ?p = "clean_segments (path_Abs cwd path)"
  obtain up down where d: "drop_common ?b ?p = (up, down)" by fastforce
  let ?segs = "map (\<lambda>_. ''..'') up @ down"
  have pre: "prefix ?b ?p \<longleftrightarrow> up = []"
    using d drop_common_prefix[of ?b ?p down] drop_common_prefix[of ?b ?p] by (auto simp: prefix_def)
  have down: "''..'' \<notin> set down" "\<forall>x \<in> set down. CHR ''/'' \<notin> set x"
    using drop_common_suffix[OF d] clean_segments_rooted[OF path_Abs_rooted[OF assms]] clean_segments_slashless by blast+
  have hd: "hd ?segs = ''..'' \<longleftrightarrow> up \<noteq> []" if "?segs \<noteq> []"
    using that down(1) by (cases up) (auto dest: hd_in_set)
  have rel: "path_Rel (path_Abs cwd bundle) (path_Abs cwd path) = (if ?segs = [] then ''.'' else join_with ''/'' ?segs)"
    by (simp add: path_Rel_def d)
  show ?thesis
  proof (cases "?segs = []")
    case True
    then show ?thesis using pre by (simp add: within_def rel)
  next
    case False
    have "\<forall>x \<in> set ?segs. CHR ''/'' \<notin> set x" using down(2) by auto
    from join_with_first[OF False this] hd[OF False]
    have "join_with ''/'' ?segs = ''..'' \<or> prefix ''../'' (join_with ''/'' ?segs) \<longleftrightarrow> up \<noteq> []" by simp
    then have "within cwd bundle path \<longleftrightarrow> up = []" using False unfolding within_def rel Let_def by simp blast
    then show ?thesis using pre by simp
  qed
qed

lemma expectations_outside:
  assumes "prefix ''/'' cwd" "LoadExpectations dec cwd bundle path content = Inr out"
  shows "out \<noteq> [] \<and> \<not> prefix (clean_segments (path_Abs cwd bundle)) (clean_segments (path_Abs cwd path))"
  using assms(2) by (auto simp: LoadExpectations_def within_iff[OF assms(1)] split: if_splits option.splits decoded.splits)

subsection \<open>Witnesses\<close>

text \<open>A decoder that reads one repository name, and refuses a question mark; the reversal for SHA-256.\<close>

definition ex_yaml :: yaml where
  "ex_yaml = \<lparr>y_users = (\<lambda>_. EndOfFile), y_groups = (\<lambda>_. EndOfFile),
     y_repos = (\<lambda>c. if c = ''?'' then Malformed
       else Decoded [\<lparr>rf_ID = c, rf_Remote = [], rf_Forge = [], rf_DefaultBranch = []\<rparr>]),
     y_rules = (\<lambda>_. EndOfFile)\<rparr>"

definition ex_disk :: "string \<Rightarrow> string \<Rightarrow> disk" where
  "ex_disk dir c = (\<lambda>d. if d = dir then Some [(repositoriesFile, c)] else None)"

definition ex_loaded :: "string \<Rightarrow> string \<Rightarrow> loader" where
  "ex_loaded dir c = (case New_loader ex_ds ex_yaml rev (ex_disk dir c) (ex_disk dir c) dir of Inr l \<Rightarrow> l)"

lemma ex_hash: "hashBundle rev [(repositoriesFile, ''a'')] \<noteq> hashBundle rev [(repositoriesFile, ''b'')]"
  "hashBundle rev [(repositoriesFile, ''a'')] \<noteq> hashBundle rev [(repositoriesFile, ''?'')]"
  "hashBundle rev [(repositoriesFile, ''b'')] \<noteq> hashBundle rev [(repositoriesFile, ''?'')]"
  by code_simp+

lemma ex_seen: "seen_ok rev ''p'' {ex_disk ''p'' ''a'', ex_disk ''p'' ''b'', ex_disk ''p'' ''?''}"
  using ex_hash by (auto simp: seen_ok_def ex_disk_def named_files_def repositoriesFile_def)

theorem served_bundle_is_last_good_witness:
  "ld_current (Watch ex_ds ex_yaml rev (quiet [ex_disk ''p'' ''b'', ex_disk ''p'' ''?'']) (ex_loaded ''p'' ''a''))
   = ld_current (ex_loaded ''p'' ''b'')"
proof -
  have "New_loader ex_ds ex_yaml rev (ex_disk ''p'' ''a'') (ex_disk ''p'' ''a'') ''p'' = Inr (ex_loaded ''p'' ''a'')"
    by code_simp
  moreover have "last_good ex_ds ex_yaml rev ''p'' [ex_disk ''p'' ''b'', ex_disk ''p'' ''?''] (ld_current (ex_loaded ''p'' ''a''))
    = ld_current (ex_loaded ''p'' ''b'')"
    by code_simp
  ultimately show ?thesis
    using served_bundle_is_last_good[where ds = ex_ds and y = ex_yaml and sha = rev and dir = "''p''"
        and ?d0.0 = "ex_disk ''p'' ''a''" and disks = "[ex_disk ''p'' ''b'', ex_disk ''p'' ''?'']"] ex_seen
    by simp
qed

definition ex_torn :: loader where
  "ex_torn = (case New_loader ex_ds ex_yaml rev (ex_disk ''p'' ''a'') (ex_disk ''p'' ''b'') ''p'' of Inr l \<Rightarrow> l)"

theorem torn_load_keeps_rules_witness:
  "Watch ex_ds ex_yaml rev (quiet (replicate 9 (ex_disk ''p'' ''a''))) ex_torn = ex_torn
   \<and> map fst (p_repos (ld_current ex_torn)) = [''b'']"
proof -
  have "New_loader ex_ds ex_yaml rev (ex_disk ''p'' ''a'') (ex_disk ''p'' ''b'') ''p'' = Inr ex_torn"
    and "load_disk ex_ds ex_yaml rev ''p'' (ex_disk ''p'' ''a'') = Inr (ld_current (ex_loaded ''p'' ''a''))"
    and repos: "map fst (p_repos (ld_current ex_torn)) = [''b'']"
    by code_simp+
  from torn_load_keeps_rules[OF this(1,2), of 9] repos show ?thesis by simp
qed

definition ex_shared :: disk where
  "ex_shared = (\<lambda>d. if d = ''p/x'' then Some [(repositoriesFile, ''a'')]
     else if d = ''p/y'' then Some [(repositoriesFile, ''b'')] else None)"

definition ex_registry :: registry where
  "ex_registry =
     snd (For_register (snd (For_register (NewRegistry ''p'' 30) ''x'' (ex_loaded ''p/x'' ''a''))) ''y'' (ex_loaded ''p/y'' ''b''))"

lemma ex_resident: "resident ex_ds ex_yaml rev ''p'' ex_registry"
proof -
  have "For_load ex_ds ex_yaml rev ex_shared ex_shared (NewRegistry ''p'' 30) ''x'' = Inr (ex_loaded ''p/x'' ''a'')"
    and "For_load ex_ds ex_yaml rev ex_shared ex_shared (NewRegistry ''p'' 30) ''y'' = Inr (ex_loaded ''p/y'' ''b'')"
    by code_simp+
  note load = this
  have root: "rg_root (NewRegistry ''p'' 30) = ''p''" by (simp add: NewRegistry_def)
  show ?thesis unfolding ex_registry_def by (intro registered[OF _ root load(2)] registered[OF _ root load(1)] start)
qed

theorem registry_serves_own_bundle_witness:
  "ld_dir (ex_loaded ''p/x'' ''a'') = path_Join [''p'', ''x''] \<and> ld_dir (ex_loaded ''p/y'' ''b'') = path_Join [''p'', ''y'']"
proof -
  have "map_of (rg_loaders ex_registry) ''x'' = Some (ex_loaded ''p/x'' ''a'')"
    and "map_of (rg_loaders ex_registry) ''y'' = Some (ex_loaded ''p/y'' ''b'')"
    by (simp_all add: ex_registry_def For_register_def NewRegistry_def map_of_update)
  note found = this
  have side: "''x'' \<noteq> ''y''" "''p'' \<noteq> []" "plain_segment ''x''" "plain_segment ''y''" "''x'' \<noteq> DefaultTenant" "''y'' \<noteq> DefaultTenant"
    by (simp_all add: plain_segment_def DefaultTenant_def)
  show ?thesis using registry_serves_own_bundle[OF ex_resident found side] by blast
qed

end
