(* ===== verification/Nit_Gitcache.thy ===== *)
theory Nit_Gitcache
  imports Nit_Blob Nit_Bundle
begin

text \<open>
  The mirrors a worker keeps (\<open>internal/gitcache/cache.go\<close>): one bare mirror per repository under \<open>mirrors/\<close>, one
  worktree per task under \<open>tasks/\<close>, a lock and a use count per mirror, and the sweep that removes the least
  recently used mirrors once they exceed the disk budget. Git itself (\<open>gitx.Git\<close>, \<open>gitx.Mirror\<close>) is a parameter: its
  operations are functions on the part of the disk the cache reads. A goroutine is a program counter between two
  accesses to shared state. Times are seconds; sizes are unbounded integers. Logging is left out.
\<close>

subsection \<open>The disk\<close>

text \<open>
  A mirror as the cache sees it: the sizes of its files (\<open>None\<close> where \<open>Info\<close> fails), whether the walk over it
  succeeds, the time of the marker file, and the contents of \<open>worktrees/*/gitdir\<close> (\<open>None\<close> where unreadable).
\<close>

record mirror_dir =
  md_files :: "int option list"
  md_walkable :: bool
  md_marker :: "int option"
  md_gitdirs :: "string option list"

text \<open>\<open>None\<close> for a plain file below \<open>mirrors/\<close>; \<open>dk_paths\<close> are the other paths that exist.\<close>

record disk_state =
  dk_mirrors :: "(string \<times> mirror_dir option) list"
  dk_paths :: "string list"

datatype mirror_git_error = GitFailed string | RemoveFailed string | RebuildFailed string | TempFailed | MkdirFailed string

record mirror_git =
  go_Mirror :: "string \<Rightarrow> disk_state \<Rightarrow> (mirror_git_error + unit) \<times> disk_state"
  go_Fetch :: "string \<Rightarrow> string \<Rightarrow> disk_state \<Rightarrow> (mirror_git_error + unit) \<times> disk_state"
  go_AddWorktree :: "string \<Rightarrow> string \<Rightarrow> string \<Rightarrow> disk_state \<Rightarrow> (mirror_git_error + unit) \<times> disk_state"
  go_RemoveWorktree :: "string \<Rightarrow> string \<Rightarrow> disk_state \<Rightarrow> (mirror_git_error + unit) \<times> disk_state"

text \<open>\<open>os.RemoveAll\<close> of a mirror and of a task directory.\<close>

definition remove_mirror :: "string \<Rightarrow> disk_state \<Rightarrow> disk_state" where
  "remove_mirror name d = d\<lparr>dk_mirrors := filter (\<lambda>e. fst e \<noteq> name) (dk_mirrors d)\<rparr>"

definition remove_tree :: "string \<Rightarrow> disk_state \<Rightarrow> disk_state" where
  "remove_tree dir d = d\<lparr>dk_paths := filter (\<lambda>p. p \<noteq> dir \<and> \<not> prefix (dir @ ''/'') p) (dk_paths d)\<rparr>"

subsection \<open>The cache\<close>

record gitcache =
  gc_budget :: int
  gc_lastSweep :: "int option"
  gc_locks :: "(string \<times> nat) list"
  gc_inUse :: "(string \<times> int) list"
  gc_disk :: disk_state

text \<open>\<open>gc_lastSweep = None\<close> is the zero time.\<close>

definition New_gitcache :: "int \<Rightarrow> disk_state \<Rightarrow> gitcache" where
  "New_gitcache budget d = \<lparr>gc_budget = budget, gc_lastSweep = None, gc_locks = [], gc_inUse = [], gc_disk = d\<rparr>"

text \<open>\<open>MkdirAll\<close> of the two directories, where \<open>can\<close> says which can be made; the first failure ends it.\<close>

definition make_dir :: "(string \<Rightarrow> bool) \<Rightarrow> string \<Rightarrow> disk_state \<Rightarrow> (mirror_git_error + unit) \<times> disk_state" where
  "make_dir can dir d =
     (if \<not> can dir then (Inl (MkdirFailed dir), d)
      else (Inr (), if dir \<in> set (dk_paths d) then d else d\<lparr>dk_paths := dk_paths d @ [dir]\<rparr>))"

definition Prepare :: "(string \<Rightarrow> bool) \<Rightarrow> string \<Rightarrow> gitcache \<Rightarrow> (mirror_git_error + unit) \<times> gitcache" where
  "Prepare can workDir c =
     (case make_dir can (path_Join [workDir, ''mirrors'']) (gc_disk c) of
        (Inl e, d) \<Rightarrow> (Inl e, c\<lparr>gc_disk := d\<rparr>)
      | (Inr _, d) \<Rightarrow> (case make_dir can (path_Join [workDir, ''tasks'']) d of (r, d') \<Rightarrow> (r, c\<lparr>gc_disk := d'\<rparr>)))"

lemma Prepare_makes:
  assumes "Prepare can workDir c = (Inr (), c')"
  shows "set (dk_paths (gc_disk c')) = set (dk_paths (gc_disk c)) \<union> {path_Join [workDir, ''mirrors''], path_Join [workDir, ''tasks'']}
    \<and> dk_mirrors (gc_disk c') = dk_mirrors (gc_disk c)"
  using assms by (auto simp: Prepare_def make_dir_def split: if_splits prod.splits)

definition mirrorKey :: "(bytes \<Rightarrow> bytes) \<Rightarrow> string \<Rightarrow> string" where
  "mirrorKey sha identity = hex_encode (take 8 (sha identity))"

definition mirror_name :: "string \<Rightarrow> string" where
  "mirror_name key = key @ ''.git''"

definition key_of_name :: "string \<Rightarrow> string" where
  "key_of_name name = (if suffix ''.git'' name then take (length name - 4) name else name)"

definition in_use :: "gitcache \<Rightarrow> string \<Rightarrow> int" where
  "in_use c key = (case map_of (gc_inUse c) key of None \<Rightarrow> 0 | Some n \<Rightarrow> n)"

definition hold :: "string \<Rightarrow> int \<Rightarrow> gitcache \<Rightarrow> gitcache" where
  "hold key delta c =
     (let n = in_use c key + delta
      in c\<lparr>gc_inUse := (if n \<le> 0 then AList.delete key (gc_inUse c) else AList.update key n (gc_inUse c))\<rparr>)"

definition held :: "gitcache \<Rightarrow> string \<Rightarrow> bool" where
  "held c key = (in_use c key > 0)"

definition touch :: "string \<Rightarrow> int \<Rightarrow> gitcache \<Rightarrow> gitcache" where
  "touch name now c = c\<lparr>gc_disk := (gc_disk c)\<lparr>dk_mirrors :=
     map (\<lambda>(n, m). (n, if n = name then map_option (\<lambda>md. md\<lparr>md_marker := Some now\<rparr>) m else m)) (dk_mirrors (gc_disk c))\<rparr>\<rparr>"

definition hasLiveWorktree :: "disk_state \<Rightarrow> mirror_dir \<Rightarrow> bool" where
  "hasLiveWorktree d md = list_ex (\<lambda>g. case g of None \<Rightarrow> False | Some p \<Rightarrow> TrimSpace p \<in> set (dk_paths d)) (md_gitdirs md)"

text \<open>The zero time of a mirror without a marker is older than every time.\<close>

definition lastUsed :: "mirror_dir \<Rightarrow> int option" where
  "lastUsed md = md_marker md"

definition used_before :: "int option \<Rightarrow> int option \<Rightarrow> bool" where
  "used_before a b = (case (a, b) of (None, None) \<Rightarrow> False | (None, Some _) \<Rightarrow> True | (Some _, None) \<Rightarrow> False | (Some s, Some t) \<Rightarrow> s < t)"

definition dirSize :: "mirror_dir \<Rightarrow> int option" where
  "dirSize md = (if md_walkable md then Some (sum_list (map (\<lambda>s. case s of None \<Rightarrow> 0 | Some n \<Rightarrow> n) (md_files md))) else None)"

subsection \<open>The sweep\<close>

record swept =
  sw_key :: string
  sw_name :: string
  sw_size :: int
  sw_used :: "int option"

definition measure_one :: "string \<times> mirror_dir option \<Rightarrow> swept option" where
  "measure_one e =
     (case snd e of
        None \<Rightarrow> None
      | Some md \<Rightarrow>
          (case dirSize md of
             None \<Rightarrow> None
           | Some bytes \<Rightarrow>
               Some \<lparr>sw_key = key_of_name (fst e), sw_name = fst e, sw_size = bytes, sw_used = lastUsed md\<rparr>))"

fun measure_mirrors :: "(string \<times> mirror_dir option) list \<Rightarrow> swept list" where
  "measure_mirrors [] = []"
| "measure_mirrors (e # es) =
     (case measure_one e of None \<Rightarrow> measure_mirrors es | Some m \<Rightarrow> m # measure_mirrors es)"

definition total_size :: "swept list \<Rightarrow> int" where
  "total_size ms = sum_list (map sw_size ms)"

text \<open>
  A mirror the sweep may remove: not counted in this process, and without a worktree on disk. A mirror that is
  gone has no worktrees.
\<close>

definition pinned :: "gitcache \<Rightarrow> swept \<Rightarrow> bool" where
  "pinned c m = (held c (sw_key m) \<or>
     (case map_of (dk_mirrors (gc_disk c)) (sw_name m) of
        Some (Some md) \<Rightarrow> hasLiveWorktree (gc_disk c) md
      | _ \<Rightarrow> False))"

definition evict_mirror :: "swept \<Rightarrow> gitcache \<Rightarrow> gitcache" where
  "evict_mirror m c = c\<lparr>gc_disk := remove_mirror (sw_name m) (gc_disk c)\<rparr>"

text \<open>\<open>rm\<close> says whether removing a directory succeeds.\<close>

fun sweep_loop :: "(string \<Rightarrow> bool) \<Rightarrow> gitcache \<Rightarrow> swept list \<Rightarrow> int \<Rightarrow> gitcache" where
  "sweep_loop rm c [] used = c"
| "sweep_loop rm c (m # ms) used =
     (if used \<le> gc_budget c then c
      else if pinned c m then sweep_loop rm c ms used
      else if \<not> rm (sw_name m) then sweep_loop rm c ms used
      else sweep_loop rm (evict_mirror m c) ms (used - sw_size m))"

text \<open>
  \<open>order\<close> is \<open>sort.Slice\<close>, which leaves the order of equal elements open. Here the sweep runs as one step; in the
  code, and in the machine below, the checks of a mirror come before its lock is taken and are not repeated
  under it, and others may move in between. \<open>lone_sweep\<close> relates the two.
\<close>

definition Sweep :: "(swept list \<Rightarrow> swept list) \<Rightarrow> (string \<Rightarrow> bool) \<Rightarrow> gitcache \<Rightarrow> gitcache" where
  "Sweep order rm c =
     (if gc_budget c \<le> 0 then c
      else let ms = measure_mirrors (dk_mirrors (gc_disk c)); used = total_size ms
           in if used \<le> gc_budget c then c else sweep_loop rm c (order ms) used)"

definition sweepEvery :: int where "sweepEvery = 60"

definition sweep_due :: "int \<Rightarrow> gitcache \<Rightarrow> bool \<times> gitcache" where
  "sweep_due now c =
     (if (case gc_lastSweep c of None \<Rightarrow> True | Some before \<Rightarrow> now - before \<ge> sweepEvery)
      then (True, c\<lparr>gc_lastSweep := Some now\<rparr>) else (False, c))"

definition maybeSweep :: "(swept list \<Rightarrow> swept list) \<Rightarrow> (string \<Rightarrow> bool) \<Rightarrow> int \<Rightarrow> gitcache \<Rightarrow> gitcache" where
  "maybeSweep order rm now c =
     (if gc_budget c \<le> 0 then c
      else let (due, c') = sweep_due now c in if due then Sweep order rm c' else c')"

subsection \<open>A usable mirror\<close>

definition rebuild :: "mirror_git \<Rightarrow> (string \<Rightarrow> bool) \<Rightarrow> string \<Rightarrow> string \<Rightarrow> disk_state \<Rightarrow> (mirror_git_error + unit) \<times> disk_state" where
  "rebuild git rm name remote d =
     (if \<not> rm name then (Inl (RemoveFailed name), d)
      else case go_Mirror git name (remove_mirror name d) of
             (Inl _, d1) \<Rightarrow> (Inl (RebuildFailed name), d1)
           | (Inr _, d1) \<Rightarrow>
               (case go_Fetch git name remote d1 of
                  (Inl _, d2) \<Rightarrow> (Inl (RebuildFailed name), d2)
                | (Inr _, d2) \<Rightarrow> (Inr (), d2)))"

definition usableMirror ::
  "mirror_git \<Rightarrow> (string \<Rightarrow> bool) \<Rightarrow> string \<Rightarrow> string \<Rightarrow> disk_state \<Rightarrow> (mirror_git_error + unit) \<times> disk_state" where
  "usableMirror git rm name remote d =
     (case go_Mirror git name d of
        (Inl _, d1) \<Rightarrow> rebuild git rm name remote d1
      | (Inr _, d1) \<Rightarrow>
          (case go_Fetch git name remote d1 of
             (Inl _, d2) \<Rightarrow> rebuild git rm name remote d2
           | (Inr _, d2) \<Rightarrow> (Inr (), d2)))"

subsection \<open>Goroutines\<close>

text \<open>
  Where a goroutine stands. \<open>Calling\<close>: in \<open>Checkout\<close>, before the lock. \<open>Entered\<close>, \<open>Fetched\<close>, \<open>Added\<close>, \<open>Counted\<close>: inside the
  lock, before \<open>usableMirror\<close>, before the worktree, before \<open>hold\<close>, before the marker. \<open>Working\<close>: the task runs.
  \<open>Releasing\<close>, \<open>Removing\<close>, \<open>Removed\<close>: in \<open>release\<close>, before, inside and at the end of its critical section;
  \<open>Uncounting\<close>: before \<open>hold(-1)\<close>. \<open>Due\<close>: before \<open>maybeSweep\<close>. \<open>Sweeping\<close>: at the head of the sweep loop;
  \<open>Evicting\<close>: past the checks, before the lock; \<open>Evicted\<close>: inside it. \<open>Returned\<close>: done.
\<close>

datatype cache_pc =
    Calling string string string
  | Entered string string string
  | Fetched string string
  | Added string string
  | Counted string string
  | Working string string
  | Releasing string string
  | Removing string string
  | Removed string
  | Uncounting string
  | Due
  | Sweeping "swept list" int
  | Evicting swept "swept list" int
  | Evicted swept "swept list" int
  | Returned

record pool =
  pl_cache :: gitcache
  pl_pcs :: "cache_pc list"

definition lock_free :: "gitcache \<Rightarrow> string \<Rightarrow> bool" where
  "lock_free c key = (map_of (gc_locks c) key = None)"

definition take_lock :: "string \<Rightarrow> nat \<Rightarrow> gitcache \<Rightarrow> gitcache" where
  "take_lock key t c = c\<lparr>gc_locks := AList.update key t (gc_locks c)\<rparr>"

definition unlock :: "string \<Rightarrow> gitcache \<Rightarrow> gitcache" where
  "unlock key c = c\<lparr>gc_locks := AList.delete key (gc_locks c)\<rparr>"

text \<open>\<open>target\<close>: the worktree of a task directory.\<close>

definition target :: "string \<Rightarrow> string" where
  "target dir = dir @ ''/repo''"

text \<open>
  One step of goroutine \<open>t\<close>. The arguments hold what the step does not determine: git, whether removals
  succeed, the name of a temporary directory (if one can be created), the clock. A goroutine that waits for a
  lock another one holds has no step.
\<close>

record cache_world =
  wo_git :: mirror_git
  wo_rm :: "string \<Rightarrow> bool"
  wo_order :: "swept list \<Rightarrow> swept list"

definition goroutine :: "cache_world \<Rightarrow> string option \<Rightarrow> int \<Rightarrow> nat \<Rightarrow> gitcache \<Rightarrow> cache_pc \<Rightarrow> (gitcache \<times> cache_pc) option" where
  "goroutine w temp now t c cache_pc =
     (case cache_pc of
        Calling key remote commitish \<Rightarrow>
          if lock_free c key then Some (take_lock key t c, Entered key remote commitish) else None
      | Entered key remote commitish \<Rightarrow>
          (case usableMirror (wo_git w) (wo_rm w) (mirror_name key) remote (gc_disk c) of
             (Inl _, d) \<Rightarrow> Some (unlock key (c\<lparr>gc_disk := d\<rparr>), Returned)
           | (Inr _, d) \<Rightarrow> Some (c\<lparr>gc_disk := d\<rparr>, Fetched key commitish))
      | Fetched key commitish \<Rightarrow>
          (case temp of
             None \<Rightarrow> Some (unlock key c, Returned)
           | Some dir \<Rightarrow>
               (case go_AddWorktree (wo_git w) (mirror_name key) (target dir) commitish
                       ((gc_disk c)\<lparr>dk_paths := dir # dk_paths (gc_disk c)\<rparr>) of
                  (Inl _, d) \<Rightarrow> Some (unlock key (c\<lparr>gc_disk := remove_tree dir d\<rparr>), Returned)
                | (Inr _, d) \<Rightarrow> Some (c\<lparr>gc_disk := d\<rparr>, Added key dir)))
      | Added key dir \<Rightarrow> Some (hold key 1 c, Counted key dir)
      | Counted key dir \<Rightarrow> Some (unlock key (touch (mirror_name key) now c), Working key dir)
      | Working key dir \<Rightarrow> Some (c, Releasing key dir)
      | Releasing key dir \<Rightarrow> if lock_free c key then Some (take_lock key t c, Removing key dir) else None
      | Removing key dir \<Rightarrow>
          (let d = snd (go_RemoveWorktree (wo_git w) (mirror_name key) (target dir) (gc_disk c))
           in Some (c\<lparr>gc_disk := (if wo_rm w dir then remove_tree dir d else d)\<rparr>, Removed key))
      | Removed key \<Rightarrow> Some (unlock key c, Uncounting key)
      | Uncounting key \<Rightarrow> Some (hold key (-1) c, Due)
      | Due \<Rightarrow>
          (if gc_budget c \<le> 0 then Some (c, Returned)
           else let (due, c') = sweep_due now c;
                    ms = measure_mirrors (dk_mirrors (gc_disk c))
                in if \<not> due \<or> total_size ms \<le> gc_budget c then Some (c', Returned)
                   else Some (c', Sweeping (wo_order w ms) (total_size ms)))
      | Sweeping ms used \<Rightarrow>
          (case ms of
             [] \<Rightarrow> Some (c, Returned)
           | m # rest \<Rightarrow>
               if used \<le> gc_budget c then Some (c, Returned)
               else if pinned c m then Some (c, Sweeping rest used)
               else Some (c, Evicting m rest used))
      | Evicting m rest used \<Rightarrow>
          if lock_free c (sw_key m) then Some (take_lock (sw_key m) t c, Evicted m rest used) else None
      | Evicted m rest used \<Rightarrow>
          if wo_rm w (sw_name m)
          then Some (unlock (sw_key m) (evict_mirror m c), Sweeping rest (used - sw_size m))
          else Some (unlock (sw_key m) c, Sweeping rest used)
      | Returned \<Rightarrow> None)"

inductive pool_step :: "cache_world \<Rightarrow> pool \<Rightarrow> pool \<Rightarrow> bool" for w where
  run: "t < length (pl_pcs p) \<Longrightarrow> goroutine w temp now t (pl_cache p) (pl_pcs p ! t) = Some (c, cache_pc) \<Longrightarrow>
    pool_step w p \<lparr>pl_cache = c, pl_pcs = (pl_pcs p)[t := cache_pc]\<rparr>"
| spawn: "pool_step w p (p\<lparr>pl_pcs := pl_pcs p @ [Calling key remote commitish]\<rparr>)"

definition pool_reachable :: "cache_world \<Rightarrow> int \<Rightarrow> disk_state \<Rightarrow> pool \<Rightarrow> bool" where
  "pool_reachable w budget d p \<longleftrightarrow> (pool_step w)\<^sup>*\<^sup>* \<lparr>pl_cache = New_gitcache budget d, pl_pcs = []\<rparr> p"

text \<open>A schedule: which goroutine moves, the temporary directory it would get, and the time.\<close>

fun execute :: "cache_world \<Rightarrow> (nat \<times> string option \<times> int) list \<Rightarrow> pool \<Rightarrow> pool option" where
  "execute w [] p = Some p"
| "execute w ((t, temp, now) # s) p =
     (if t < length (pl_pcs p)
      then case goroutine w temp now t (pl_cache p) (pl_pcs p ! t) of
             None \<Rightarrow> None
           | Some (c, cache_pc) \<Rightarrow> execute w s \<lparr>pl_cache = c, pl_pcs = (pl_pcs p)[t := cache_pc]\<rparr>
      else None)"

lemma execute_reaches: "execute w s p = Some q \<Longrightarrow> (pool_step w)\<^sup>*\<^sup>* p q"
proof (induction s arbitrary: p)
  case (Cons e s)
  obtain t temp now where e: "e = (t, temp, now)" by (cases e)
  obtain c cache_pc where "t < length (pl_pcs p)" "goroutine w temp now t (pl_cache p) (pl_pcs p ! t) = Some (c, cache_pc)"
    and rest: "execute w s \<lparr>pl_cache = c, pl_pcs = (pl_pcs p)[t := cache_pc]\<rparr> = Some q"
    using Cons.prems by (auto simp: e split: if_splits option.splits)
  then show ?case using Cons.IH[OF rest] by (meson converse_rtranclp_into_rtranclp run)
qed simp

lemma execute_append:
  "execute w (s @ s') p = (case execute w s p of None \<Rightarrow> None | Some q \<Rightarrow> execute w s' q)"
  by (induction w s p rule: execute.induct) (auto split: option.split)

subsection \<open>What a sweep removes\<close>

text \<open>The mirrors to remove, decided from the sizes alone.\<close>

fun victims :: "int \<Rightarrow> (swept \<Rightarrow> bool) \<Rightarrow> swept list \<Rightarrow> int \<Rightarrow> swept list" where
  "victims budget keep [] used = []"
| "victims budget keep (m # ms) used =
     (if used \<le> budget then []
      else if keep m then victims budget keep ms used
      else m # victims budget keep ms (used - sw_size m))"

lemma victims_subset: "m \<in> set (victims budget keep ms used) \<Longrightarrow> m \<in> set ms \<and> \<not> keep m"
  by (induction budget keep ms used rule: victims.induct) (auto split: if_splits)

lemma victims_budget:
  "used - total_size (victims budget keep ms used) \<le> budget \<or> (\<forall>m \<in> set ms. keep m \<or> m \<in> set (victims budget keep ms used))"
  by (induction budget keep ms used rule: victims.induct) (auto simp: total_size_def algebra_simps)

lemma victims_first:
  "sorted_wrt R ms \<Longrightarrow> m \<in> set (victims budget keep ms used) \<Longrightarrow> n \<in> set ms \<Longrightarrow> \<not> keep n
   \<Longrightarrow> n \<notin> set (victims budget keep ms used) \<Longrightarrow> R m n"
  by (induction budget keep ms used rule: victims.induct) (auto dest: victims_subset split: if_splits)

lemma victims_distinct: "distinct (map sw_name ms) \<Longrightarrow> distinct (map sw_name (victims budget keep ms used))"
  by (induction budget keep ms used rule: victims.induct) (auto dest: victims_subset)

lemma evict_mirror_simps [simp]:
  "gc_budget (evict_mirror m c) = gc_budget c" "gc_inUse (evict_mirror m c) = gc_inUse c"
  "dk_paths (gc_disk (evict_mirror m c)) = dk_paths (gc_disk c)"
  "dk_mirrors (gc_disk (evict_mirror m c)) = filter (\<lambda>e. fst e \<noteq> sw_name m) (dk_mirrors (gc_disk c))"
  by (simp_all add: evict_mirror_def remove_mirror_def)

lemma map_of_filter_fst: "map_of (filter (\<lambda>e. P (fst e)) xs) k = (if P k then map_of xs k else None)"
  by (induction xs) auto

lemma pinned_evict:
  assumes "sw_name n \<noteq> sw_name m"
  shows "pinned (evict_mirror m c) n = pinned c n"
proof -
  have "map_of (dk_mirrors (gc_disk (evict_mirror m c))) (sw_name n) = map_of (dk_mirrors (gc_disk c)) (sw_name n)"
    using assms map_of_filter_fst[of "\<lambda>k. k \<noteq> sw_name m" "dk_mirrors (gc_disk c)" "sw_name n"] by simp
  moreover have "hasLiveWorktree (gc_disk (evict_mirror m c)) = hasLiveWorktree (gc_disk c)"
    unfolding fun_eq_iff hasLiveWorktree_def evict_mirror_simps by simp
  ultimately show ?thesis by (simp add: pinned_def held_def in_use_def split: option.split)
qed

lemma victims_cong: "(\<And>m. m \<in> set ms \<Longrightarrow> keep m = keep' m) \<Longrightarrow> victims budget keep ms used = victims budget keep' ms used"
  by (induction budget keep ms used rule: victims.induct) auto

lemma sweep_loop_victims:
  "distinct (map sw_name ms) \<Longrightarrow>
   sweep_loop rm c ms used = fold evict_mirror (victims (gc_budget c) (\<lambda>m. pinned c m \<or> \<not> rm (sw_name m)) ms used) c"
proof (induction rm c ms used rule: sweep_loop.induct)
  case (2 rm c m ms used)
  have "victims (gc_budget c) (\<lambda>n. pinned (evict_mirror m c) n \<or> \<not> rm (sw_name n)) ms t
      = victims (gc_budget c) (\<lambda>n. pinned c n \<or> \<not> rm (sw_name n)) ms t" for t
    using 2(4) by (intro victims_cong) (metis distinct.simps(2) image_eqI list.simps(9) list.set_map pinned_evict)
  then show ?case using 2 by auto
qed simp

lemma fold_evict_mirrors:
  "dk_mirrors (gc_disk (fold evict_mirror vs c)) = filter (\<lambda>e. fst e \<notin> sw_name ` set vs) (dk_mirrors (gc_disk c))"
  by (induction vs arbitrary: c) (auto simp: intro!: filter_cong)

lemma measure_one_name: "measure_one e = Some m \<Longrightarrow> sw_name m = fst e"
  by (auto simp: measure_one_def split: option.splits)

lemma measure_filter:
  "measure_mirrors (filter (\<lambda>e. P (fst e)) es) = filter (\<lambda>m. P (sw_name m)) (measure_mirrors es)"
  by (induction es) (auto split: option.split dest: measure_one_name)

lemma measure_names: "sw_name ` set (measure_mirrors es) \<subseteq> fst ` set es"
  by (induction es) (auto split: option.splits dest: measure_one_name)

lemma measure_distinct: "distinct (map fst es) \<Longrightarrow> distinct (map sw_name (measure_mirrors es))"
proof (induction es)
  case (Cons e es)
  have "sw_name m \<notin> sw_name ` set (measure_mirrors es)" if "measure_one e = Some m" for m
    using Cons.prems measure_names[of es] measure_one_name[OF that] by auto
  then show ?case using Cons by (auto split: option.split)
qed simp

lemma total_size_split:
  "distinct (map sw_name ms) \<Longrightarrow> set vs \<subseteq> set ms \<Longrightarrow> distinct (map sw_name vs) \<Longrightarrow>
   total_size (filter (\<lambda>m. sw_name m \<notin> sw_name ` set vs) ms) = total_size ms - total_size vs"
proof -
  assume d: "distinct (map sw_name ms)" and sub: "set vs \<subseteq> set ms" and dv: "distinct (map sw_name vs)"
  have inj: "inj_on sw_name (set ms)" using d by (simp add: distinct_map)
  have eq: "set (filter (\<lambda>m. sw_name m \<in> sw_name ` set vs) ms) = set vs" using inj sub by (auto simp: inj_on_def)
  have dist: "distinct ms" "distinct vs" using d dv by (auto simp: distinct_map)
  have t: "total_size xs = (\<Sum>m \<in> set xs. sw_size m)" if "distinct xs" for xs
    using that by (simp add: total_size_def sum_list_distinct_conv_sum_set)
  have "total_size (filter (\<lambda>m. sw_name m \<in> sw_name ` set vs) ms) = total_size vs"
    using dist by (simp only: t distinct_filter eq)
  moreover have "total_size xs = total_size (filter P xs) + total_size (filter (\<lambda>m. \<not> P m) xs)" for P xs
    by (induction xs) (auto simp: total_size_def)
  from this[of ms "\<lambda>m. sw_name m \<in> sw_name ` set vs"] calculation show ?thesis by simp
qed

definition arranges :: "(swept list \<Rightarrow> swept list) \<Rightarrow> bool" where
  "arranges order \<longleftrightarrow> (\<forall>ms. mset (order ms) = mset ms
     \<and> sorted_wrt (\<lambda>a b. \<not> used_before (sw_used b) (sw_used a)) (order ms))"

abbreviation mirrors_of :: "gitcache \<Rightarrow> swept list" where
  "mirrors_of c \<equiv> measure_mirrors (dk_mirrors (gc_disk c))"

lemma Sweep_evicts:
  assumes "arranges order" "distinct (map fst (dk_mirrors (gc_disk c)))" "gc_budget c > 0"
  shows "(\<forall>m \<in> set (mirrors_of c). pinned c m \<longrightarrow> m \<in> set (mirrors_of (Sweep order rm c)))
    \<and> (total_size (mirrors_of (Sweep order rm c)) \<le> gc_budget c
        \<or> (\<forall>m \<in> set (mirrors_of (Sweep order rm c)). pinned c m \<or> \<not> rm (sw_name m)))
    \<and> (\<forall>m \<in> set (mirrors_of c). m \<notin> set (mirrors_of (Sweep order rm c)) \<longrightarrow>
        (\<forall>n \<in> set (mirrors_of (Sweep order rm c)). \<not> pinned c n \<and> rm (sw_name n) \<longrightarrow> \<not> used_before (sw_used n) (sw_used m)))"
proof (cases "total_size (mirrors_of c) \<le> gc_budget c")
  case True
  then show ?thesis using assms(3) by (simp add: Sweep_def Let_def)
next
  case False
  let ?ms = "mirrors_of c" and ?keep = "\<lambda>m. pinned c m \<or> \<not> rm (sw_name m)"
  define vs where "vs = victims (gc_budget c) ?keep (order ?ms) (total_size ?ms)"
  have o: "set (order ?ms) = set ?ms" "sorted_wrt (\<lambda>a b. \<not> used_before (sw_used b) (sw_used a)) (order ?ms)"
    using assms(1) unfolding arranges_def by (metis set_mset_mset)+
  have dist: "distinct (map sw_name ?ms)" by (rule measure_distinct[OF assms(2)])
  then have "distinct (map sw_name (order ?ms))"
    using assms(1) unfolding arranges_def by (metis mset_map mset_eq_imp_distinct_iff)
  then have d: "distinct (map sw_name (order ?ms))" "distinct (map sw_name vs)"
    by (simp_all add: vs_def victims_distinct)
  have sub: "m \<in> set ?ms \<and> \<not> ?keep m" if "m \<in> set vs" for m
    using victims_subset that o(1) unfolding vs_def by blast
  have "Sweep order rm c = fold evict_mirror vs c"
    using False assms(3) by (simp add: Sweep_def Let_def vs_def sweep_loop_victims[OF d(1)])
  then have left: "mirrors_of (Sweep order rm c) = filter (\<lambda>m. sw_name m \<notin> sw_name ` set vs) ?ms"
    using measure_filter[of "\<lambda>n. n \<notin> sw_name ` set vs"] by (simp add: fold_evict_mirrors)
  have inj: "inj_on sw_name (set ?ms)" using dist by (simp add: distinct_map)
  have gone: "m \<in> set vs \<longleftrightarrow> sw_name m \<in> sw_name ` set vs" if "m \<in> set ?ms" for m
    using that sub inj by (auto dest: inj_onD)
  have "total_size (mirrors_of (Sweep order rm c)) = total_size ?ms - total_size vs"
    unfolding left by (rule total_size_split[OF dist _ d(2)]) (use sub in blast)
  then have "total_size (mirrors_of (Sweep order rm c)) \<le> gc_budget c \<or> (\<forall>m \<in> set ?ms. ?keep m \<or> m \<in> set vs)"
    using victims_budget[of "total_size ?ms" "gc_budget c" ?keep "order ?ms"] by (simp add: vs_def o(1))
  moreover have "\<not> used_before (sw_used n) (sw_used m)" if "m \<in> set vs" "n \<in> set ?ms" "\<not> ?keep n" "n \<notin> set vs" for m n
    using victims_first[OF o(2)] that unfolding vs_def o(1) by blast
  ultimately show ?thesis unfolding left using sub gone by auto
qed

text \<open>A goroutine that sweeps while no other one moves does what \<open>Sweep\<close> does.\<close>

lemma unlock_take: "lock_free c k \<Longrightarrow> unlock k (take_lock k t c) = c"
proof -
  assume "lock_free c k"
  then have k: "k \<notin> fst ` set (gc_locks c)" by (simp add: lock_free_def map_of_eq_None_iff)
  have "AList.delete k (AList.update k t ls) = ls" if "k \<notin> fst ` set ls" for ls
    using that by (induction ls) (auto simp: AList.delete_eq filter_id_conv split: if_splits)
  then show ?thesis using k by (simp add: unlock_def take_lock_def)
qed

lemma unlock_take_evict: "lock_free c k \<Longrightarrow> unlock k (evict_mirror m (take_lock k t c)) = evict_mirror m c"
proof -
  have "unlock k (evict_mirror m c) = evict_mirror m (unlock k c)" for c by (simp add: unlock_def evict_mirror_def)
  then show "lock_free c k \<Longrightarrow> ?thesis" by (simp add: unlock_take)
qed

lemma lone_step:
  "t < length pcs \<Longrightarrow> goroutine w temp now t c x = Some (c', y) \<Longrightarrow>
   execute w (replicate (Suc n) (t, temp, now)) \<lparr>pl_cache = c, pl_pcs = pcs[t := x]\<rparr>
   = execute w (replicate n (t, temp, now)) \<lparr>pl_cache = c', pl_pcs = pcs[t := y]\<rparr>"
  by simp

lemma lone_sweep_loop:
  assumes "t < length pcs" "\<forall>m \<in> set ms. lock_free c (sw_key m)"
  shows "\<exists>n. execute w (replicate n (t, temp, now)) \<lparr>pl_cache = c, pl_pcs = pcs[t := Sweeping ms used]\<rparr>
    = Some \<lparr>pl_cache = sweep_loop (wo_rm w) c ms used, pl_pcs = pcs[t := Returned]\<rparr>"
  using assms(2)
proof (induction ms arbitrary: c used)
  case Nil
  show ?case using assms(1) by (intro exI[of _ 1]) (simp add: goroutine_def)
next
  case (Cons m ms)
  let ?run = "\<lambda>n c x. execute w (replicate n (t, temp, now)) \<lparr>pl_cache = c, pl_pcs = pcs[t := x]\<rparr>"
  have free: "lock_free c (sw_key m)" "\<forall>m \<in> set ms. lock_free c (sw_key m)" using Cons.prems by simp_all
  consider "used \<le> gc_budget c" | "\<not> used \<le> gc_budget c" "pinned c m" | "\<not> used \<le> gc_budget c" "\<not> pinned c m" by blast
  then show ?case
  proof cases
    case 1
    then show ?thesis using assms(1) by (intro exI[of _ 1]) (simp add: goroutine_def)
  next
    case 2
    obtain n where n: "?run n c (Sweeping ms used) = Some \<lparr>pl_cache = sweep_loop (wo_rm w) c ms used, pl_pcs = pcs[t := Returned]\<rparr>"
      using Cons.IH[OF free(2)] by blast
    have "goroutine w temp now t c (Sweeping (m # ms) used) = Some (c, Sweeping ms used)" using 2 by (simp add: goroutine_def)
    from lone_step[OF assms(1) this, of n] show ?thesis using n 2 by (intro exI[of _ "Suc n"]) simp
  next
    case 3
    let ?c = "if wo_rm w (sw_name m) then evict_mirror m c else c"
    let ?used = "if wo_rm w (sw_name m) then used - sw_size m else used"
    have "\<forall>m \<in> set ms. lock_free ?c (sw_key m)" using free(2) by (simp add: lock_free_def evict_mirror_def)
    then obtain n where n: "?run n ?c (Sweeping ms ?used) = Some \<lparr>pl_cache = sweep_loop (wo_rm w) ?c ms ?used, pl_pcs = pcs[t := Returned]\<rparr>"
      using Cons.IH by blast
    have g: "goroutine w temp now t c (Sweeping (m # ms) used) = Some (c, Evicting m ms used)"
      "goroutine w temp now t c (Evicting m ms used) = Some (take_lock (sw_key m) t c, Evicted m ms used)"
      "goroutine w temp now t (take_lock (sw_key m) t c) (Evicted m ms used) = Some (?c, Sweeping ms ?used)"
      using 3 free(1) by (simp_all add: goroutine_def unlock_take unlock_take_evict)
    have "?run (Suc (Suc (Suc n))) c (Sweeping (m # ms) used) = ?run n ?c (Sweeping ms ?used)"
      unfolding lone_step[OF assms(1) g(1)] lone_step[OF assms(1) g(2)] lone_step[OF assms(1) g(3)] by (rule refl)
    then show ?thesis using n 3 by (intro exI[of _ "Suc (Suc (Suc n))"]) simp
  qed
qed

lemma lone_sweep:
  assumes "t < length pcs" "arranges (wo_order w)" "\<forall>m \<in> set (mirrors_of c). lock_free c (sw_key m)" "fst (sweep_due now c)"
  shows "\<exists>n. execute w (replicate n (t, temp, now)) \<lparr>pl_cache = c, pl_pcs = pcs[t := Due]\<rparr>
    = Some \<lparr>pl_cache = maybeSweep (wo_order w) (wo_rm w) now c, pl_pcs = pcs[t := Returned]\<rparr>"
proof (cases "gc_budget c \<le> 0 \<or> total_size (mirrors_of c) \<le> gc_budget c")
  case True
  then show ?thesis using assms(1,4)
    by (intro exI[of _ 1]) (auto simp: goroutine_def maybeSweep_def Sweep_def sweep_due_def Let_def split: if_splits)
next
  case False
  let ?c = "snd (sweep_due now c)" and ?ms = "wo_order w (mirrors_of c)" and ?used = "total_size (mirrors_of c)"
  have same: "gc_disk ?c = gc_disk c" "gc_budget ?c = gc_budget c" "lock_free ?c k = lock_free c k" for k
    by (simp_all add: sweep_due_def lock_free_def)
  have "set ?ms = set (mirrors_of c)" using assms(2) unfolding arranges_def by (metis set_mset_mset)
  then have "\<forall>m \<in> set ?ms. lock_free ?c (sw_key m)" using assms(3) by (simp add: same)
  then obtain n where n: "execute w (replicate n (t, temp, now)) \<lparr>pl_cache = ?c, pl_pcs = pcs[t := Sweeping ?ms ?used]\<rparr>
    = Some \<lparr>pl_cache = sweep_loop (wo_rm w) ?c ?ms ?used, pl_pcs = pcs[t := Returned]\<rparr>"
    using lone_sweep_loop[OF assms(1)] by blast
  have g: "goroutine w temp now t c Due = Some (?c, Sweeping ?ms ?used)"
    using False assms(4) by (simp add: goroutine_def Let_def case_prod_beta)
  have "maybeSweep (wo_order w) (wo_rm w) now c = sweep_loop (wo_rm w) ?c ?ms ?used"
    using False assms(4) by (simp add: maybeSweep_def Sweep_def Let_def case_prod_beta same)
  then show ?thesis using n lone_step[OF assms(1) g, of n] by (intro exI[of _ "Suc n"]) simp
qed

text \<open>
  Claim C28. A sweep that is not overlapped keeps what is in use and fits the budget when it can. A goroutine that reaches
  \<open>maybeSweep\<close> when a sweep is due, and runs while no other goroutine moves or holds the lock of a mirror, comes to
  its end; then nothing that was counted or had a worktree on disk is removed, the mirrors fit the budget or every
  mirror left is in use or could not be removed, and a mirror is removed only if every removable mirror that stays
  was used at least as recently.
\<close>

theorem sweep_evicts_least_recent:
  assumes "arranges (wo_order w)" "distinct (map fst (dk_mirrors (gc_disk c)))" "gc_budget c > 0" "fst (sweep_due now c)"
    and "t < length pcs" "pcs ! t = Due" "\<forall>m \<in> set (mirrors_of c). lock_free c (sw_key m)"
  shows "\<exists>n c'. execute w (replicate n (t, temp, now)) \<lparr>pl_cache = c, pl_pcs = pcs\<rparr> = Some \<lparr>pl_cache = c', pl_pcs = pcs[t := Returned]\<rparr>
    \<and> (\<forall>m \<in> set (mirrors_of c). pinned c m \<longrightarrow> m \<in> set (mirrors_of c'))
    \<and> (total_size (mirrors_of c') \<le> gc_budget c \<or> (\<forall>m \<in> set (mirrors_of c'). pinned c m \<or> \<not> wo_rm w (sw_name m)))
    \<and> (\<forall>m \<in> set (mirrors_of c). m \<notin> set (mirrors_of c') \<longrightarrow>
        (\<forall>n \<in> set (mirrors_of c'). \<not> pinned c n \<and> wo_rm w (sw_name n) \<longrightarrow> \<not> used_before (sw_used n) (sw_used m)))"
proof -
  let ?c = "snd (sweep_due now c)" and ?c' = "maybeSweep (wo_order w) (wo_rm w) now c"
  have pcs: "pcs[t := Due] = pcs" using assms(6) by (metis list_update_id)
  obtain n where n: "execute w (replicate n (t, temp, now)) \<lparr>pl_cache = c, pl_pcs = pcs\<rparr> = Some \<lparr>pl_cache = ?c', pl_pcs = pcs[t := Returned]\<rparr>"
    using lone_sweep[OF assms(5,1,7,4), of temp] unfolding pcs by blast
  have c': "?c' = Sweep (wo_order w) (wo_rm w) ?c" using assms(3,4) by (simp add: maybeSweep_def case_prod_beta)
  have c: "gc_disk ?c = gc_disk c" "gc_budget ?c = gc_budget c" "gc_inUse ?c = gc_inUse c" by (simp_all add: sweep_due_def)
  have "pinned ?c m = pinned c m" for m unfolding pinned_def held_def in_use_def c by (rule refl)
  then have same: "gc_disk ?c = gc_disk c" "gc_budget ?c = gc_budget c" "pinned ?c = pinned c" using c by auto
  show ?thesis
    using n Sweep_evicts[of "wo_order w" ?c "wo_rm w"] assms(1-3) unfolding c' same
    by (intro exI[of _ n] exI[of _ "Sweep (wo_order w) (wo_rm w) ?c"]) blast
qed

subsection \<open>Counts and locks under every interleaving\<close>

fun counted :: "string \<Rightarrow> cache_pc \<Rightarrow> bool" where
  "counted k (Counted key _) = (key = k)"
| "counted k (Working key _) = (key = k)"
| "counted k (Releasing key _) = (key = k)"
| "counted k (Removing key _) = (key = k)"
| "counted k (Removed key) = (key = k)"
| "counted k (Uncounting key) = (key = k)"
| "counted k _ = False"

fun inside :: "string \<Rightarrow> cache_pc \<Rightarrow> bool" where
  "inside k (Entered key _ _) = (key = k)"
| "inside k (Fetched key _) = (key = k)"
| "inside k (Added key _) = (key = k)"
| "inside k (Counted key _) = (key = k)"
| "inside k (Removing key _) = (key = k)"
| "inside k (Removed key) = (key = k)"
| "inside k (Evicted m _ _) = (sw_key m = k)"
| "inside k _ = False"

definition counts_exact :: "pool \<Rightarrow> bool" where
  "counts_exact p \<longleftrightarrow> (\<forall>k. in_use (pl_cache p) k = int (length (filter (counted k) (pl_pcs p))))"

definition locks_exact :: "pool \<Rightarrow> bool" where
  "locks_exact p \<longleftrightarrow> (\<forall>t < length (pl_pcs p). \<forall>k. inside k (pl_pcs p ! t) \<longrightarrow> map_of (gc_locks (pl_cache p)) k = Some t)"

lemma length_filter_update:
  assumes "t < length xs"
  shows "length (filter P (xs[t := x])) + (if P (xs ! t) then 1 else 0) = length (filter P xs) + (if P x then 1 else 0)"
proof -
  have "length (filter P xs) = length (filter P (take t xs @ xs ! t # drop (Suc t) xs))"
    using id_take_nth_drop[OF assms] by (rule arg_cong)
  then have "length (filter P xs) = length (filter P (take t xs)) + length (filter P (drop (Suc t) xs)) + (if P (xs ! t) then 1 else 0)"
    by simp
  moreover have "length (filter P (xs[t := x])) = length (filter P (take t xs)) + length (filter P (drop (Suc t) xs)) + (if P x then 1 else 0)"
    using assms by (simp add: upd_conv_take_nth_drop)
  ultimately show ?thesis by simp
qed

lemma in_use_hold:
  "0 \<le> in_use c k \<Longrightarrow> in_use (hold key delta c) k = (if k = key then max 0 (in_use c k + delta) else in_use c k)"
  by (auto simp: in_use_def hold_def Let_def map_of_update delete_conv' restrict_map_def split: option.splits)

lemma in_use_frame [simp]:
  "in_use (take_lock key t c) = in_use c" "in_use (unlock key c) = in_use c" "in_use (touch n now c) = in_use c"
  "in_use (evict_mirror m c) = in_use c" "in_use (c\<lparr>gc_disk := d\<rparr>) = in_use c" "in_use (c\<lparr>gc_lastSweep := s\<rparr>) = in_use c"
  by (simp_all add: fun_eq_iff in_use_def take_lock_def unlock_def touch_def evict_mirror_def)

text \<open>What one step does to the counts.\<close>

lemma goroutine_counts:
  assumes "goroutine w temp now t c cache_pc = Some (c', pc')" "\<forall>k. 0 \<le> in_use c k" "\<forall>k. counted k cache_pc \<longrightarrow> 0 < in_use c k"
  shows "in_use c' k + (if counted k cache_pc then 1 else 0) = in_use c k + (if counted k pc' then 1 else 0)"
  using assms
  by (cases cache_pc) (auto simp: goroutine_def Let_def in_use_hold sweep_due_def split: if_splits option.splits sum.splits prod.splits list.splits)

text \<open>What one step does to the locks: a goroutine only takes free locks and only frees its own.\<close>

lemma goroutine_locks:
  assumes "goroutine w temp now t c cache_pc = Some (c', pc')" "\<forall>k. inside k cache_pc \<longrightarrow> map_of (gc_locks c) k = Some t"
  shows "(\<forall>k. inside k pc' \<longrightarrow> map_of (gc_locks c') k = Some t)
    \<and> (\<forall>k u. u \<noteq> t \<longrightarrow> map_of (gc_locks c) k = Some u \<longrightarrow> map_of (gc_locks c') k = Some u)"
  using assms
  by (cases cache_pc) (auto simp: goroutine_def Let_def take_lock_def unlock_def touch_def evict_mirror_def hold_def lock_free_def sweep_due_def
      map_of_update delete_conv' restrict_map_def split: if_splits option.splits sum.splits prod.splits list.splits)

lemma counts_exact_step:
  assumes "pool_step w p q" "counts_exact p"
  shows "counts_exact q"
  using assms(1)
proof cases
  case (run t temp now c cache_pc)
  let ?xs = "pl_pcs p"
  have n: "in_use (pl_cache p) k = int (length (filter (counted k) ?xs))" for k
    using assms(2) by (simp add: counts_exact_def)
  have pos: "0 < in_use (pl_cache p) k" if "counted k (?xs ! t)" for k
    using that run(2) by (auto simp: n filter_empty_conv intro!: bexI[of _ "?xs ! t"])
  have "in_use c k = int (length (filter (counted k) (?xs[t := cache_pc])))" for k
    using goroutine_counts[OF run(3), of k] pos length_filter_update[OF run(2), of "counted k" cache_pc]
    by (simp add: n split: if_splits)
  then show ?thesis by (simp add: run(1) counts_exact_def)
next
  case (spawn key remote commitish)
  then show ?thesis using assms(2) by (simp add: counts_exact_def)
qed

lemma locks_exact_step:
  assumes "pool_step w p q" "locks_exact p"
  shows "locks_exact q"
  using assms(1)
proof cases
  case (run t temp now c cache_pc)
  have mine: "\<forall>k. inside k (pl_pcs p ! t) \<longrightarrow> map_of (gc_locks (pl_cache p)) k = Some t"
    using assms(2) run(2) by (simp add: locks_exact_def)
  note g = goroutine_locks[OF run(3) mine]
  have "map_of (gc_locks c) k = Some u" if "u < length (pl_pcs p)" "inside k ((pl_pcs p)[t := cache_pc] ! u)" for u k
    using g that assms(2) by (cases "u = t") (auto simp: locks_exact_def)
  then show ?thesis by (simp add: locks_exact_def run(1))
next
  case (spawn key remote commitish)
  then show ?thesis using assms(2) by (auto simp: locks_exact_def nth_append less_Suc_eq)
qed

lemma pool_invariant:
  assumes "pool_reachable w budget d p"
  shows "counts_exact p \<and> locks_exact p"
  using assms unfolding pool_reachable_def
  by (induction rule: rtranclp_induct)
    (auto simp: counts_exact_step locks_exact_step, auto simp: counts_exact_def locks_exact_def in_use_def New_gitcache_def)

text \<open>
  Claim C15. Use counts and locks are exact. In every interleaving of checkouts, releases and sweeps the use count of a
  mirror is the number of goroutines between \<open>hold(+1)\<close> and \<open>hold(-1)\<close> on it, so that a mirror is held exactly while
  one is, and no two goroutines are inside the critical sections of one mirror.
\<close>

theorem use_counts_exact:
  assumes "pool_reachable w budget d p"
  shows "in_use (pl_cache p) k = int (length (filter (counted k) (pl_pcs p)))
    \<and> (held (pl_cache p) k \<longleftrightarrow> (\<exists>cache_pc \<in> set (pl_pcs p). counted k cache_pc))
    \<and> (\<forall>t u. t < length (pl_pcs p) \<and> u < length (pl_pcs p) \<and> inside k (pl_pcs p ! t) \<and> inside k (pl_pcs p ! u) \<longrightarrow> t = u)"
proof -
  have n: "in_use (pl_cache p) k = int (length (filter (counted k) (pl_pcs p)))"
    using pool_invariant[OF assms] by (simp add: counts_exact_def)
  have "t = u" if "t < length (pl_pcs p)" "u < length (pl_pcs p)" "inside k (pl_pcs p ! t)" "inside k (pl_pcs p ! u)" for t u
    using pool_invariant[OF assms] that unfolding locks_exact_def by (metis option.inject)
  then show ?thesis using n by (auto simp: held_def filter_empty_conv)
qed

subsection \<open>A sweep can take a mirror from under a task\<close>

text \<open>A git that creates a mirror of ten bytes when there is none and registers worktrees.\<close>

definition toy_git :: mirror_git where
  "toy_git = \<lparr>
     go_Mirror = (\<lambda>name d. (Inr (), if map_of (dk_mirrors d) name \<noteq> None then d else
       d\<lparr>dk_mirrors := (name, Some \<lparr>md_files = [Some 10], md_walkable = True, md_marker = None, md_gitdirs = []\<rparr>) # dk_mirrors d\<rparr>)),
     go_Fetch = (\<lambda>name remote d. (Inr (), d)),
     go_AddWorktree = (\<lambda>name path commitish d. (Inr (), d\<lparr>dk_paths := path # dk_paths d,
       dk_mirrors := map (\<lambda>(n, m). (n, if n = name then map_option (\<lambda>md. md\<lparr>md_gitdirs := Some path # md_gitdirs md\<rparr>) m else m)) (dk_mirrors d)\<rparr>)),
     go_RemoveWorktree = (\<lambda>name path d. (Inr (), d\<lparr>dk_paths := filter (\<lambda>p. p \<noteq> path) (dk_paths d)\<rparr>))\<rparr>"

definition cache_start :: cache_world where
  "cache_start = \<lparr>wo_git = toy_git, wo_rm = (\<lambda>_. True), wo_order = id\<rparr>"

definition empty_disk :: disk_state where
  "empty_disk = \<lparr>dk_mirrors = [], dk_paths = []\<rparr>"

definition two_tasks :: pool where
  "two_tasks = \<lparr>pl_cache = New_gitcache 5 empty_disk,
     pl_pcs = [Calling ''a'' ''r'' ''c1'', Calling ''a'' ''r'' ''c2'']\<rparr>"

lemma two_tasks_reachable: "pool_reachable w 5 empty_disk two_tasks"
proof -
  let ?p = "\<lparr>pl_cache = New_gitcache 5 empty_disk, pl_pcs = []\<rparr> :: pool"
  have "pool_step w ?p (?p\<lparr>pl_pcs := pl_pcs ?p @ [Calling ''a'' ''r'' ''c1'']\<rparr>)" by (rule spawn)
  moreover have "pool_step w \<lparr>pl_cache = New_gitcache 5 empty_disk, pl_pcs = [Calling ''a'' ''r'' ''c1'']\<rparr> two_tasks"
    using spawn[of w "\<lparr>pl_cache = New_gitcache 5 empty_disk, pl_pcs = [Calling ''a'' ''r'' ''c1'']\<rparr>" "''a''" "''r''" "''c2''"]
    by (simp add: two_tasks_def)
  ultimately show ?thesis unfolding pool_reachable_def by simp
qed

text \<open>The first task runs to its end and passes the checks of its sweep; then the second is set up.\<close>

definition first_task :: "(nat \<times> string option \<times> int) list" where
  "first_task = map (\<lambda>i. (0, Some ''t1'', 100)) [0..<12]"

definition second_task :: "(nat \<times> string option \<times> int) list" where
  "second_task = map (\<lambda>i. (1, Some ''t2'', 100)) [0..<5]"

definition about_to_race :: pool where
  "about_to_race = (case execute cache_start (first_task @ second_task) two_tasks of Some p \<Rightarrow> p)"

lemma about_to_race_reachable: "pool_reachable cache_start 5 empty_disk about_to_race"
proof -
  have "execute cache_start (first_task @ second_task) two_tasks = Some about_to_race" by code_simp
  then have "(pool_step cache_start)\<^sup>*\<^sup>* two_tasks about_to_race" by (rule execute_reaches)
  then show ?thesis
    using two_tasks_reachable[of cache_start] unfolding pool_reachable_def by (rule rtranclp_trans[rotated])
qed

text \<open>
  Claim C38. The sweep checks that a mirror is unused before it takes the lock of the mirror, and not again after. In every
  state the goroutines can reach in which one has passed the checks of its sweep for a mirror, and another has been
  counted on that mirror since and the lock is free, the next two steps of the first remove the mirror, while it is
  held and the other goroutine stands where it stood.
\<close>

theorem sweep_takes_mirror:
  assumes "pool_reachable w budget d p" "t < length (pl_pcs p)" "pl_pcs p ! t = Evicting m rest used"
    and "u < length (pl_pcs p)" "counted (sw_key m) (pl_pcs p ! u)" "lock_free (pl_cache p) (sw_key m)" "wo_rm w (sw_name m)"
  shows "\<exists>q. execute w [(t, temp, now), (t, temp, now)] p = Some q \<and> pl_pcs q ! u = pl_pcs p ! u
    \<and> held (pl_cache q) (sw_key m) \<and> map_of (dk_mirrors (gc_disk (pl_cache q))) (sw_name m) = None"
proof -
  let ?c = "pl_cache p"
  let ?q = "\<lparr>pl_cache = unlock (sw_key m) (evict_mirror m (take_lock (sw_key m) t ?c)),
    pl_pcs = (pl_pcs p)[t := Sweeping rest (used - sw_size m)]\<rparr>"
  have run: "execute w [(t, temp, now), (t, temp, now)] p = Some ?q"
    using assms(2,3,6,7) by (simp add: goroutine_def)
  have tu: "u \<noteq> t" using assms(3,5) by auto
  have "counts_exact p" using pool_invariant[OF assms(1)] by simp
  moreover have "filter (counted (sw_key m)) (pl_pcs p) \<noteq> []" using assms(4,5) by (auto simp: filter_empty_conv)
  ultimately have "held ?c (sw_key m)" by (simp add: counts_exact_def held_def)
  then have "held (pl_cache ?q) (sw_key m)" by (simp add: held_def)
  moreover have "map_of (dk_mirrors (gc_disk (pl_cache ?q))) (sw_name m) = None"
    by (simp add: unlock_def evict_mirror_def remove_mirror_def map_of_filter_fst[of "\<lambda>n. n \<noteq> sw_name m"])
  ultimately show ?thesis using run tu by (intro exI[of _ ?q]) simp
qed

subsection \<open>Witnesses\<close>

theorem use_counts_exact_witness: "in_use (pl_cache about_to_race) ''a'' = 1 \<and> held (pl_cache about_to_race) ''a''"
proof -
  have "length (filter (counted ''a'') (pl_pcs about_to_race)) = 1" by code_simp
  then have "in_use (pl_cache about_to_race) ''a'' = 1" using use_counts_exact[OF about_to_race_reachable, of "''a''"] by simp
  then show ?thesis by (simp add: held_def)
qed

theorem sweep_takes_mirror_witness:
  "\<exists>q. execute cache_start [(0, None, 100), (0, None, 100)] about_to_race = Some q \<and> pl_pcs q ! 1 = Working ''a'' ''t2''
     \<and> held (pl_cache q) ''a'' \<and> map_of (dk_mirrors (gc_disk (pl_cache q))) ''a.git'' = None"
proof -
  let ?m = "\<lparr>sw_key = ''a'', sw_name = ''a.git'', sw_size = 10, sw_used = Some 100\<rparr>"
  have e: "0 < length (pl_pcs about_to_race)" "pl_pcs about_to_race ! 0 = Evicting ?m [] 10" "1 < length (pl_pcs about_to_race)"
    "pl_pcs about_to_race ! 1 = Working ''a'' ''t2''" "lock_free (pl_cache about_to_race) (sw_key ?m)" "wo_rm cache_start (sw_name ?m)"
    by code_simp+
  have "counted (sw_key ?m) (pl_pcs about_to_race ! 1)" unfolding e(4) by simp
  from sweep_takes_mirror[OF about_to_race_reachable e(1-3) this e(5,6), of None 100] show ?thesis
    unfolding e(4) by simp
qed

definition by_age :: "swept list \<Rightarrow> swept list" where
  "by_age = sort_key (\<lambda>m. case sw_used m of None \<Rightarrow> (False, 0) | Some t \<Rightarrow> (True, t))"

lemma by_age_arranges: "arranges by_age"
proof -
  let ?k = "\<lambda>m. case sw_used m of None \<Rightarrow> (False, 0 :: int) | Some t \<Rightarrow> (True, t)"
  have "sorted_wrt (\<lambda>a b. ?k a \<le> ?k b) (sort_key ?k ms)" for ms
    using sorted_sort_key[of ?k ms] by (simp add: sorted_wrt_map)
  then have "sorted_wrt (\<lambda>a b. \<not> used_before (sw_used b) (sw_used a)) (sort_key ?k ms)" for ms
    by (rule sorted_wrt_mono_rel[rotated]) (auto simp: used_before_def split: option.splits)
  then show ?thesis unfolding arranges_def by_age_def mset_sort by blast
qed

definition crowded :: gitcache where
  "crowded = New_gitcache 25 \<lparr>dk_mirrors = map (\<lambda>(n, used, g). (n, Some \<lparr>md_files = [Some 10, None], md_walkable = True, md_marker = used, md_gitdirs = g\<rparr>))
     [(''a.git'', Some 3, []), (''b.git'', Some 1, [Some ''t/repo'']), (''c.git'', Some 2, [])], dk_paths = [''t/repo'']\<rparr>"

theorem sweep_evicts_least_recent_witness:
  "\<exists>n c'. execute (cache_start\<lparr>wo_order := by_age\<rparr>) (replicate n (0, None, 100)) \<lparr>pl_cache = crowded, pl_pcs = [Due]\<rparr>
      = Some \<lparr>pl_cache = c', pl_pcs = [Returned]\<rparr> \<and> (\<exists>m \<in> set (mirrors_of c'). sw_name m = ''b.git'')
    \<and> (total_size (mirrors_of c') \<le> 25 \<or> (\<forall>m \<in> set (mirrors_of c'). pinned crowded m))"
proof -
  let ?w = "cache_start\<lparr>wo_order := by_age\<rparr>"
  have a: "arranges (wo_order ?w)" by (simp add: by_age_arranges)
  have d: "distinct (map fst (dk_mirrors (gc_disk crowded)))" "gc_budget crowded > 0" "fst (sweep_due 100 crowded)"
    "gc_budget crowded = 25" "list_all (\<lambda>m. lock_free crowded (sw_key m)) (mirrors_of crowded)"
    "list_ex (\<lambda>m. pinned crowded m \<and> sw_name m = ''b.git'') (mirrors_of crowded)"
    by code_simp+
  have f: "\<forall>m \<in> set (mirrors_of crowded). lock_free crowded (sw_key m)" using d(5) by (simp add: list_all_iff)
  have "0 < length [Due]" "[Due] ! 0 = Due" by simp_all
  from sweep_evicts_least_recent[OF a d(1-3) this f, of None] d(4,6) show ?thesis
    by (auto simp: list_ex_iff cache_start_def)
qed

end
