(* ===== verification/Nit_Config.thy ===== *)
theory Nit_Config
  imports Nit_Api Nit_Bundle
begin

text \<open>
  The configuration of a process: finding and reading the file (\<open>internal/bootstrap/file.go\<close>), the three layers and their
  validation, and what \<open>nitctl config show\<close> prints (\<open>internal/bootstrap/config.go\<close>). The environment is a function that
  is empty where a variable is unset; a file is its content and its permission bits. The YAML decoder, the
  standard base64 decoder and the two directions of \<open>time.Duration\<close> are parameters. Durations are nanoseconds.
  Every step returns the configuration it leaves, also when it fails, as the code does.
\<close>

subsection \<open>The file\<close>

record config_file =
  fs_Addr :: string
  fs_AdminGroups :: "string list"
  fs_CORSOrigins :: "string list"
  fs_EventMaxWait :: string
  fd_URL :: string
  fd_URLFile :: string
  fp_Dir :: string
  fp_Reload :: string
  fo_BlobDir :: string
  fo_WorkDir :: string
  fo_MaxPatchBytes :: int
  fo_MirrorBudgetBytes :: "int option"
  fo_PullTTL :: string
  fq_LeaseDuration :: string
  fq_MaxAttempts :: int
  fq_Poll :: string
  fq_ReapEvery :: string
  fk_SyncKey :: string
  fk_SyncKeyFile :: string
  ff_Token :: string
  ff_TokenFile :: string
  fg_SSHCommand :: string
  fl_Level :: string

definition empty_file :: config_file where
  "empty_file = \<lparr>fs_Addr = [], fs_AdminGroups = [], fs_CORSOrigins = [], fs_EventMaxWait = [], fd_URL = [], fd_URLFile = [],
     fp_Dir = [], fp_Reload = [], fo_BlobDir = [], fo_WorkDir = [], fo_MaxPatchBytes = 0, fo_MirrorBudgetBytes = None,
     fo_PullTTL = [], fq_LeaseDuration = [], fq_MaxAttempts = 0, fq_Poll = [], fq_ReapEvery = [], fk_SyncKey = [],
     fk_SyncKeyFile = [], ff_Token = [], ff_TokenFile = [], fg_SSHCommand = [], fl_Level = []\<rparr>"

record config_lib =
  cl_yaml :: "bytes \<Rightarrow> config_file decoded"
  cl_base64 :: "string \<Rightarrow> bytes option"
  cl_duration :: "string \<Rightarrow> int option"
  cl_duration_str :: "int \<Rightarrow> string"

record host =
  ho_env :: "string \<Rightarrow> string"
  ho_read :: "string \<Rightarrow> bytes option"
  ho_perm :: "string \<Rightarrow> nat"
  ho_stat :: "string \<Rightarrow> bool"
  ho_isdir :: "string \<Rightarrow> bool"
  ho_windows :: bool

datatype config_error =
    NoConfigFile string
  | UnreadableConfig string
  | MalformedConfig string
  | ReadableSecrets string nat
  | SecretTwice string
  | SecretUnreadable string
  | BadLevel string
  | BadDuration string
  | NonPositiveDuration string
  | BadNumber string
  | ShortSyncKey
  | NoSyncKey

definition EnvConfigFile :: string where "EnvConfigFile = ''NIT_CONFIG''"

definition searchPath :: "string list" where
  "searchPath = [''./nit.yaml'', ''./nit.yml'', ''$XDG_CONFIG_HOME/nit/nit.yaml'', ''$HOME/.config/nit/nit.yaml'',
     ''/etc/nit/nit.yaml'', ''/etc/nit/nit.yml'']"

text \<open>\<open>os.ExpandEnv\<close> on a string whose variables are written without braces.\<close>

definition name_char :: "char \<Rightarrow> bool" where
  "name_char c = (c = CHR ''_'' \<or> (CHR ''A'' \<le> c \<and> c \<le> CHR ''Z'') \<or> (CHR ''a'' \<le> c \<and> c \<le> CHR ''z'') \<or> (CHR ''0'' \<le> c \<and> c \<le> CHR ''9''))"

function ExpandEnv :: "(string \<Rightarrow> string) \<Rightarrow> string \<Rightarrow> string" where
  "ExpandEnv env [] = []"
| "ExpandEnv env (c # cs) =
     (if c = CHR ''$'' then env (takeWhile name_char cs) @ ExpandEnv env (dropWhile name_char cs)
      else c # ExpandEnv env cs)"
  by pat_completeness auto
termination by (relation "measure (\<lambda>(env, s). length s)") (auto simp: length_dropWhile_le le_imp_less_Suc)

definition candidate_variable :: "string \<Rightarrow> string" where
  "candidate_variable s = takeWhile (\<lambda>c. c \<noteq> CHR ''/'') (tl (dropWhile (\<lambda>c. c \<noteq> CHR ''$'') s))"

definition SearchPaths :: "host \<Rightarrow> string list" where
  "SearchPaths h =
     filter (\<lambda>p. p \<noteq> []) (map (ExpandEnv (ho_env h))
       (filter (\<lambda>s. \<not> (CHR ''$'' \<in> set s \<and> ho_env h (candidate_variable s) = [])) searchPath))"

definition FindConfigFile :: "host \<Rightarrow> string \<Rightarrow> config_error + string" where
  "FindConfigFile h explicit =
     (let named = (if explicit = [] then ho_env h EnvConfigFile else explicit)
      in if named \<noteq> [] then (if ho_stat h named then Inr named else Inl (NoConfigFile named))
         else case filter (\<lambda>p. ho_stat h p \<and> \<not> ho_isdir h p) (SearchPaths h) of
                [] \<Rightarrow> Inr []
              | p # _ \<Rightarrow> Inr p)"

text \<open>\<open>strings.Index\<close>, \<open>strings.LastIndex\<close> of a character, \<open>strings.Contains\<close>.\<close>

fun index_of :: "string \<Rightarrow> string \<Rightarrow> nat option" where
  "index_of pat [] = (if pat = [] then Some 0 else None)"
| "index_of pat (c # cs) = (if prefix pat (c # cs) then Some 0 else map_option Suc (index_of pat cs))"

definition last_index :: "char \<Rightarrow> string \<Rightarrow> nat option" where
  "last_index c s = (if c \<in> set s then Some (length s - 1 - length (takeWhile (\<lambda>x. x \<noteq> c) (rev s))) else None)"

definition Contains :: "string \<Rightarrow> string \<Rightarrow> bool" where
  "Contains s pat = (index_of pat s \<noteq> None)"

definition hasPassword :: "string \<Rightarrow> bool" where
  "hasPassword raw =
     (case (index_of ''://'' raw, last_index (CHR ''@'') raw) of
        (Some scheme, Some at) \<Rightarrow>
          if at < scheme then Contains raw ''password='' else Contains (drop (scheme + 3) (take at raw)) '':''
      | _ \<Rightarrow> Contains raw ''password='')"

definition hasInlineSecret :: "config_file \<Rightarrow> bool" where
  "hasInlineSecret f = (fk_SyncKey f \<noteq> [] \<or> ff_Token f \<noteq> [] \<or> hasPassword (fd_URL f))"

text \<open>\<open>mode & 0o077\<close> is the mode modulo 64.\<close>

definition checkPermissions :: "host \<Rightarrow> config_file \<Rightarrow> string \<Rightarrow> config_error + unit" where
  "checkPermissions h f path =
     (if \<not> hasInlineSecret f then Inr ()
      else if ho_windows h then Inr ()
      else if \<not> ho_stat h path then Inl (UnreadableConfig path)
      else if ho_perm h path mod 64 \<noteq> 0 then Inl (ReadableSecrets path (ho_perm h path))
      else Inr ())"

definition LoadFile :: "config_lib \<Rightarrow> host \<Rightarrow> string \<Rightarrow> config_error + config_file" where
  "LoadFile lib h path =
     (case ho_read h path of
        None \<Rightarrow> Inl (UnreadableConfig path)
      | Some content \<Rightarrow>
          (case cl_yaml lib content of
             Malformed \<Rightarrow> Inl (MalformedConfig path)
           | EndOfFile \<Rightarrow> rbind (checkPermissions h empty_file path) (\<lambda>_. Inr empty_file)
           | Decoded f \<Rightarrow> rbind (checkPermissions h f path) (\<lambda>_. Inr f)))"

definition readSecret :: "host \<Rightarrow> string \<Rightarrow> string \<Rightarrow> string \<Rightarrow> config_error + string" where
  "readSecret h inline path field =
     (if inline \<noteq> [] \<and> path \<noteq> [] then Inl (SecretTwice field)
      else if inline \<noteq> [] then Inr inline
      else if path = [] then Inr []
      else case ho_read h path of None \<Rightarrow> Inl (SecretUnreadable field) | Some content \<Rightarrow> Inr (TrimSpace content))"

subsection \<open>The configuration\<close>

definition EnvAddr :: string where "EnvAddr = ''NIT_ADDR''"
definition EnvDatabaseURL :: string where "EnvDatabaseURL = ''NIT_DATABASE_URL''"
definition EnvPolicyDir :: string where "EnvPolicyDir = ''NIT_POLICY_DIR''"
definition EnvBlobDir :: string where "EnvBlobDir = ''NIT_BLOB_DIR''"
definition EnvSyncKey :: string where "EnvSyncKey = ''NIT_SYNC_KEY''"
definition EnvWorkDir :: string where "EnvWorkDir = ''NIT_WORK_DIR''"
definition EnvMaxPatch :: string where "EnvMaxPatch = ''NIT_MAX_PATCH_BYTES''"
definition EnvMirrorBudget :: string where "EnvMirrorBudget = ''NIT_MIRROR_BUDGET_BYTES''"
definition EnvLogLevel :: string where "EnvLogLevel = ''NIT_LOG_LEVEL''"
definition EnvAdminGroups :: string where "EnvAdminGroups = ''NIT_ADMIN_GROUPS''"
definition EnvCORSOrigins :: string where "EnvCORSOrigins = ''NIT_CORS_ORIGINS''"
definition EnvForgeToken :: string where "EnvForgeToken = ''NIT_FORGE_TOKEN''"
definition EnvGitSSHCmd :: string where "EnvGitSSHCmd = ''NIT_GIT_SSH_COMMAND''"
definition EnvDatabaseURLFile :: string where "EnvDatabaseURLFile = ''NIT_DATABASE_URL_FILE''"
definition EnvSyncKeyFile :: string where "EnvSyncKeyFile = ''NIT_SYNC_KEY_FILE''"
definition EnvForgeTokenFile :: string where "EnvForgeTokenFile = ''NIT_FORGE_TOKEN_FILE''"
definition EnvLeaseDuration :: string where "EnvLeaseDuration = ''NIT_LEASE_DURATION''"
definition EnvMaxAttempts :: string where "EnvMaxAttempts = ''NIT_MAX_ATTEMPTS''"
definition EnvQueuePoll :: string where "EnvQueuePoll = ''NIT_QUEUE_POLL''"
definition EnvReapEvery :: string where "EnvReapEvery = ''NIT_REAP_EVERY''"
definition EnvPullTTL :: string where "EnvPullTTL = ''NIT_PULL_TTL''"
definition EnvEventMaxWait :: string where "EnvEventMaxWait = ''NIT_EVENT_MAX_WAIT''"
definition EnvPolicyReload :: string where "EnvPolicyReload = ''NIT_POLICY_RELOAD''"

datatype config_origin = OriginDefault | OriginFile | OriginEnv

datatype level = LevelDebug | LevelInfo | LevelWarn | LevelError

record config =
  cf_Addr :: string
  cf_DatabaseURL :: string
  cf_PolicyDir :: string
  cf_BlobDir :: string
  cf_WorkDir :: string
  cf_SyncKey :: bytes
  cf_ForgeToken :: string
  cf_GitSSHCommand :: string
  cf_MaxPatchBytes :: int
  cf_MirrorBudgetBytes :: int
  cf_LogLevel :: level
  cf_AdminGroups :: "group_id list"
  cf_CORSOrigins :: "string list"
  cf_LeaseDuration :: int
  cf_MaxAttempts :: int
  cf_QueuePoll :: int
  cf_ReapEvery :: int
  cf_PullTTL :: int
  cf_EventMaxWait :: int
  cf_PolicyReload :: int
  cf_ConfigFile :: string
  cf_Origins :: "string \<Rightarrow> config_origin option"

definition second :: int where "second = 1000000000"

definition defaults :: config where
  "defaults = \<lparr>cf_Addr = '':8080'', cf_DatabaseURL = [], cf_PolicyDir = ''./configs/policy/example'', cf_BlobDir = ''./var/blobs'',
     cf_WorkDir = ''./var/work'', cf_SyncKey = [], cf_ForgeToken = [], cf_GitSSHCommand = [],
     cf_MaxPatchBytes = 100 * 2 ^ 20, cf_MirrorBudgetBytes = 20 * 2 ^ 30, cf_LogLevel = LevelInfo, cf_AdminGroups = [],
     cf_CORSOrigins = [], cf_LeaseDuration = 60 * second, cf_MaxAttempts = 3, cf_QueuePoll = second, cf_ReapEvery = 30 * second,
     cf_PullTTL = 24 * 3600 * second, cf_EventMaxWait = 30 * second, cf_PolicyReload = 30 * second, cf_ConfigFile = [],
     cf_Origins = Map.empty\<rparr>"

definition mark :: "string \<Rightarrow> config_origin \<Rightarrow> config \<Rightarrow> config" where
  "mark name og c = c\<lparr>cf_Origins := (cf_Origins c)(name \<mapsto> og)\<rparr>"

definition config_Origin :: "config \<Rightarrow> string \<Rightarrow> config_origin" where
  "config_Origin c name = (case cf_Origins c name of None \<Rightarrow> OriginDefault | Some og \<Rightarrow> og)"

definition parseDuration :: "config_lib \<Rightarrow> string \<Rightarrow> string \<Rightarrow> config_error + int" where
  "parseDuration lib name raw =
     (case cl_duration lib raw of
        None \<Rightarrow> Inl (BadDuration name)
      | Some d \<Rightarrow> if d \<le> 0 then Inl (NonPositiveDuration name) else Inr d)"

definition parseLevel :: "string \<Rightarrow> config_error + level" where
  "parseLevel raw =
     (let s = map lower (TrimSpace raw)
      in if s = ''debug'' then Inr LevelDebug
         else if s = ''info'' \<or> s = [] then Inr LevelInfo
         else if s = ''warn'' \<or> s = ''warning'' then Inr LevelWarn
         else if s = ''error'' then Inr LevelError
         else Inl (BadLevel raw))"

definition toGroups :: "string list \<Rightarrow> group_id list" where
  "toGroups names = filter (\<lambda>s. s \<noteq> []) (map TrimSpace names)"

definition splitList :: "string \<Rightarrow> string list" where
  "splitList raw = filter (\<lambda>s. s \<noteq> []) (map TrimSpace (split_on (CHR '','') raw))"

definition decodeSyncKey :: "config_lib \<Rightarrow> string \<Rightarrow> config_error + bytes" where
  "decodeSyncKey lib raw =
     (case cl_base64 lib raw of
        Some decoded \<Rightarrow>
          if length decoded \<ge> MinKeyBytes then Inr decoded
          else if length raw < MinKeyBytes then Inl ShortSyncKey else Inr raw
      | None \<Rightarrow> if length raw < MinKeyBytes then Inl ShortSyncKey else Inr raw)"

subsection \<open>The layers\<close>

text \<open>A step sets one setting, or fails; a list of steps stops at the first failure.\<close>

type_synonym step = "config \<Rightarrow> config_error option \<times> config"

fun run_steps :: "step list \<Rightarrow> step" where
  "run_steps [] c = (None, c)"
| "run_steps (s # ss) c = (case s c of (None, c') \<Rightarrow> run_steps ss c' | (Some e, c') \<Rightarrow> (Some e, c'))"

definition set_when :: "config_origin \<Rightarrow> string \<Rightarrow> bool \<Rightarrow> (config \<Rightarrow> config) \<Rightarrow> step" where
  "set_when og name given put c = (None, if given then mark name og (put c) else c)"

definition set_parsed :: "config_origin \<Rightarrow> string \<Rightarrow> bool \<Rightarrow> config_error + 'a \<Rightarrow> ('a \<Rightarrow> config \<Rightarrow> config) \<Rightarrow> step" where
  "set_parsed og name given parsed put c =
     (if \<not> given then (None, c)
      else case parsed of Inl e \<Rightarrow> (Some e, c) | Inr x \<Rightarrow> (None, mark name og (put x c)))"

text \<open>A secret: its value may fail to be read, and is then decoded if it is not empty.\<close>

definition set_secret :: "config_origin \<Rightarrow> string \<Rightarrow> config_error + string \<Rightarrow> (string \<Rightarrow> config_error + 'a) \<Rightarrow> ('a \<Rightarrow> config \<Rightarrow> config) \<Rightarrow> step" where
  "set_secret og name value decode put c =
     (case value of
        Inl e \<Rightarrow> (Some e, c)
      | Inr v \<Rightarrow> if v = [] then (None, c) else set_parsed og name True (decode v) put c)"

abbreviation file_text :: "string \<Rightarrow> string \<Rightarrow> (string \<Rightarrow> config \<Rightarrow> config) \<Rightarrow> step" where
  "file_text name value put \<equiv> set_when OriginFile name (value \<noteq> []) (put value)"

abbreviation file_duration :: "config_lib \<Rightarrow> string \<Rightarrow> string \<Rightarrow> (int \<Rightarrow> config \<Rightarrow> config) \<Rightarrow> step" where
  "file_duration lib name raw put \<equiv> set_parsed OriginFile name (raw \<noteq> []) (parseDuration lib name raw) put"

abbreviation put_Addr where "put_Addr v c \<equiv> c\<lparr>cf_Addr := v\<rparr>"
abbreviation put_PolicyDir where "put_PolicyDir v c \<equiv> c\<lparr>cf_PolicyDir := v\<rparr>"
abbreviation put_BlobDir where "put_BlobDir v c \<equiv> c\<lparr>cf_BlobDir := v\<rparr>"
abbreviation put_WorkDir where "put_WorkDir v c \<equiv> c\<lparr>cf_WorkDir := v\<rparr>"
abbreviation put_GitSSHCommand where "put_GitSSHCommand v c \<equiv> c\<lparr>cf_GitSSHCommand := v\<rparr>"
abbreviation put_AdminGroups where "put_AdminGroups v c \<equiv> c\<lparr>cf_AdminGroups := v\<rparr>"
abbreviation put_CORSOrigins where "put_CORSOrigins v c \<equiv> c\<lparr>cf_CORSOrigins := v\<rparr>"
abbreviation put_MaxPatchBytes where "put_MaxPatchBytes v c \<equiv> c\<lparr>cf_MaxPatchBytes := v\<rparr>"
abbreviation put_MirrorBudgetBytes where "put_MirrorBudgetBytes v c \<equiv> c\<lparr>cf_MirrorBudgetBytes := v\<rparr>"
abbreviation put_MaxAttempts where "put_MaxAttempts v c \<equiv> c\<lparr>cf_MaxAttempts := v\<rparr>"
abbreviation put_LogLevel where "put_LogLevel v c \<equiv> c\<lparr>cf_LogLevel := v\<rparr>"
abbreviation put_LeaseDuration where "put_LeaseDuration v c \<equiv> c\<lparr>cf_LeaseDuration := v\<rparr>"
abbreviation put_QueuePoll where "put_QueuePoll v c \<equiv> c\<lparr>cf_QueuePoll := v\<rparr>"
abbreviation put_ReapEvery where "put_ReapEvery v c \<equiv> c\<lparr>cf_ReapEvery := v\<rparr>"
abbreviation put_PullTTL where "put_PullTTL v c \<equiv> c\<lparr>cf_PullTTL := v\<rparr>"
abbreviation put_EventMaxWait where "put_EventMaxWait v c \<equiv> c\<lparr>cf_EventMaxWait := v\<rparr>"
abbreviation put_PolicyReload where "put_PolicyReload v c \<equiv> c\<lparr>cf_PolicyReload := v\<rparr>"
abbreviation put_DatabaseURL where "put_DatabaseURL v c \<equiv> c\<lparr>cf_DatabaseURL := v\<rparr>"
abbreviation put_SyncKey where "put_SyncKey v c \<equiv> c\<lparr>cf_SyncKey := v\<rparr>"
abbreviation put_ForgeToken where "put_ForgeToken v c \<equiv> c\<lparr>cf_ForgeToken := v\<rparr>"

definition applyFile :: "config_lib \<Rightarrow> host \<Rightarrow> config_file \<Rightarrow> step" where
  "applyFile lib h f = run_steps
    [file_text ''addr'' (fs_Addr f) put_Addr,
     file_text ''policy.dir'' (fp_Dir f) put_PolicyDir,
     file_text ''storage.blob_dir'' (fo_BlobDir f) put_BlobDir,
     file_text ''storage.work_dir'' (fo_WorkDir f) put_WorkDir,
     set_when OriginFile ''server.admin_groups'' (length (fs_AdminGroups f) > 0) (put_AdminGroups (toGroups (fs_AdminGroups f))),
     set_when OriginFile ''server.cors_origins'' (length (fs_CORSOrigins f) > 0) (put_CORSOrigins (fs_CORSOrigins f)),
     set_when OriginFile ''storage.max_patch_bytes'' (fo_MaxPatchBytes f > 0) (put_MaxPatchBytes (fo_MaxPatchBytes f)),
     set_when OriginFile ''storage.mirror_budget_bytes'' (fo_MirrorBudgetBytes f \<noteq> None)
       (put_MirrorBudgetBytes (case fo_MirrorBudgetBytes f of Some n \<Rightarrow> n | None \<Rightarrow> 0)),
     set_when OriginFile ''queue.max_attempts'' (fq_MaxAttempts f > 0) (put_MaxAttempts (fq_MaxAttempts f)),
     set_parsed OriginFile ''log.level'' (fl_Level f \<noteq> []) (parseLevel (fl_Level f)) put_LogLevel,
     file_duration lib ''queue.lease_duration'' (fq_LeaseDuration f) put_LeaseDuration,
     file_duration lib ''queue.poll'' (fq_Poll f) put_QueuePoll,
     file_duration lib ''queue.reap_every'' (fq_ReapEvery f) put_ReapEvery,
     file_duration lib ''storage.pull_ttl'' (fo_PullTTL f) put_PullTTL,
     file_duration lib ''server.event_max_wait'' (fs_EventMaxWait f) put_EventMaxWait,
     file_duration lib ''policy.reload'' (fp_Reload f) put_PolicyReload,
     set_secret OriginFile ''database.url'' (readSecret h (fd_URL f) (fd_URLFile f) ''database.url'') Inr put_DatabaseURL,
     set_secret OriginFile ''security.sync_key'' (readSecret h (fk_SyncKey f) (fk_SyncKeyFile f) ''security.sync_key'')
       (decodeSyncKey lib) put_SyncKey,
     set_secret OriginFile ''forge.token'' (readSecret h (ff_Token f) (ff_TokenFile f) ''forge.token'') Inr put_ForgeToken,
     file_text ''git.ssh_command'' (fg_SSHCommand f) put_GitSSHCommand]"

abbreviation env_text :: "host \<Rightarrow> string \<Rightarrow> string \<Rightarrow> (string \<Rightarrow> config \<Rightarrow> config) \<Rightarrow> step" where
  "env_text h name var put \<equiv> set_when OriginEnv name (ho_env h var \<noteq> []) (put (ho_env h var))"

abbreviation env_duration :: "config_lib \<Rightarrow> host \<Rightarrow> string \<Rightarrow> string \<Rightarrow> (int \<Rightarrow> config \<Rightarrow> config) \<Rightarrow> step" where
  "env_duration lib h name var put \<equiv> set_parsed OriginEnv name (ho_env h var \<noteq> []) (parseDuration lib var (ho_env h var)) put"

text \<open>A secret from the environment; the variable that names a file wins.\<close>

definition env_secret :: "host \<Rightarrow> string \<Rightarrow> string \<Rightarrow> config_error + string" where
  "env_secret h inlineOf fileOf =
     (if ho_env h fileOf \<noteq> []
      then case ho_read h (ho_env h fileOf) of
             None \<Rightarrow> Inl (SecretUnreadable fileOf)
           | Some content \<Rightarrow> Inr (TrimSpace content)
      else Inr (ho_env h inlineOf))"

definition env_number :: "host \<Rightarrow> string \<Rightarrow> int \<Rightarrow> config_error + int" where
  "env_number h var least =
     (case Atoi (ho_env h var) of
        None \<Rightarrow> Inl (BadNumber var)
      | Some n \<Rightarrow> if n < least then Inl (BadNumber var) else Inr n)"

definition applyEnv :: "config_lib \<Rightarrow> host \<Rightarrow> step" where
  "applyEnv lib h = run_steps
    [env_text h ''addr'' EnvAddr put_Addr,
     env_text h ''policy.dir'' EnvPolicyDir put_PolicyDir,
     env_text h ''storage.blob_dir'' EnvBlobDir put_BlobDir,
     env_text h ''storage.work_dir'' EnvWorkDir put_WorkDir,
     env_text h ''git.ssh_command'' EnvGitSSHCmd put_GitSSHCommand,
     set_when OriginEnv ''server.admin_groups'' (ho_env h EnvAdminGroups \<noteq> [])
       (put_AdminGroups (toGroups (splitList (ho_env h EnvAdminGroups)))),
     set_when OriginEnv ''server.cors_origins'' (ho_env h EnvCORSOrigins \<noteq> [])
       (put_CORSOrigins (splitList (ho_env h EnvCORSOrigins))),
     set_parsed OriginEnv ''log.level'' (ho_env h EnvLogLevel \<noteq> []) (parseLevel (ho_env h EnvLogLevel)) put_LogLevel,
     set_secret OriginEnv ''database.url'' (env_secret h EnvDatabaseURL EnvDatabaseURLFile) Inr put_DatabaseURL,
     set_secret OriginEnv ''forge.token'' (env_secret h EnvForgeToken EnvForgeTokenFile) Inr put_ForgeToken,
     set_secret OriginEnv ''security.sync_key'' (env_secret h EnvSyncKey EnvSyncKeyFile) (decodeSyncKey lib) put_SyncKey,
     set_parsed OriginEnv ''storage.max_patch_bytes'' (ho_env h EnvMaxPatch \<noteq> [])
       (env_number h EnvMaxPatch 1) put_MaxPatchBytes,
     set_parsed OriginEnv ''storage.mirror_budget_bytes'' (ho_env h EnvMirrorBudget \<noteq> [])
       (env_number h EnvMirrorBudget 0) put_MirrorBudgetBytes,
     set_parsed OriginEnv ''queue.max_attempts'' (ho_env h EnvMaxAttempts \<noteq> [])
       (env_number h EnvMaxAttempts 1) put_MaxAttempts,
     env_duration lib h ''queue.lease_duration'' EnvLeaseDuration put_LeaseDuration,
     env_duration lib h ''queue.poll'' EnvQueuePoll put_QueuePoll,
     env_duration lib h ''queue.reap_every'' EnvReapEvery put_ReapEvery,
     env_duration lib h ''storage.pull_ttl'' EnvPullTTL put_PullTTL,
     env_duration lib h ''server.event_max_wait'' EnvEventMaxWait put_EventMaxWait,
     env_duration lib h ''policy.reload'' EnvPolicyReload put_PolicyReload]"

definition config_validate :: "config \<Rightarrow> config_error option" where
  "config_validate c =
     (if length (cf_SyncKey c) = 0 then Some NoSyncKey
      else if length (cf_SyncKey c) < MinKeyBytes then Some ShortSyncKey
      else None)"

definition apply_env_and_validate :: "config_lib \<Rightarrow> host \<Rightarrow> step" where
  "apply_env_and_validate lib h c =
     (case applyEnv lib h c of
        (Some e, c') \<Rightarrow> (Some e, c')
      | (None, c') \<Rightarrow> (config_validate c', c'))"

definition LoadConfigFrom :: "config_lib \<Rightarrow> host \<Rightarrow> string \<Rightarrow> config_error option \<times> config" where
  "LoadConfigFrom lib h explicitPath =
     (case FindConfigFile h explicitPath of
        Inl e \<Rightarrow> (Some e, defaults)
      | Inr path \<Rightarrow>
          if path = [] then apply_env_and_validate lib h defaults
          else case LoadFile lib h path of
                 Inl e \<Rightarrow> (Some e, defaults)
               | Inr f \<Rightarrow>
                   (case applyFile lib h f (defaults\<lparr>cf_ConfigFile := path\<rparr>) of
                      (Some e, c) \<Rightarrow> (Some e, c)
                    | (None, c) \<Rightarrow> apply_env_and_validate lib h c))"

subsection \<open>What is printed\<close>

definition redactURL :: "string \<Rightarrow> string" where
  "redactURL raw =
     (if raw = [] then []
      else case last_index (CHR ''@'') raw of
             None \<Rightarrow> raw
           | Some at \<Rightarrow>
               let hide = (\<lambda>start.
                     let credentials = drop start (take at raw);
                         shown = (case index_of '':'' credentials of
                                    None \<Rightarrow> credentials
                                  | Some colon \<Rightarrow> take colon credentials @ '':***'')
                     in take start raw @ shown @ drop at raw)
               in case index_of ''://'' raw of
                    None \<Rightarrow> hide 0
                  | Some scheme \<Rightarrow> if scheme > at then raw else hide (scheme + 3))"

definition present :: "bool \<Rightarrow> string" where
  "present s = (if s then ''(set)'' else ''(not set)'')"

definition level_str :: "level \<Rightarrow> string" where
  "level_str l = (case l of LevelDebug \<Rightarrow> ''DEBUG'' | LevelInfo \<Rightarrow> ''INFO'' | LevelWarn \<Rightarrow> ''WARN'' | LevelError \<Rightarrow> ''ERROR'')"

definition origin_str :: "config_origin \<Rightarrow> string" where
  "origin_str og = (case og of OriginDefault \<Rightarrow> ''default'' | OriginFile \<Rightarrow> ''file'' | OriginEnv \<Rightarrow> ''env'')"

definition redactedRows :: "config_lib \<Rightarrow> config \<Rightarrow> (string \<times> string) list" where
  "redactedRows lib c =
    [(''addr'', cf_Addr c),
     (''database.url'', redactURL (cf_DatabaseURL c)),
     (''policy.dir'', cf_PolicyDir c),
     (''policy.reload'', cl_duration_str lib (cf_PolicyReload c)),
     (''storage.blob_dir'', cf_BlobDir c),
     (''storage.work_dir'', cf_WorkDir c),
     (''storage.max_patch_bytes'', itoa_int (cf_MaxPatchBytes c)),
     (''storage.mirror_budget_bytes'', itoa_int (cf_MirrorBudgetBytes c)),
     (''storage.pull_ttl'', cl_duration_str lib (cf_PullTTL c)),
     (''queue.lease_duration'', cl_duration_str lib (cf_LeaseDuration c)),
     (''queue.max_attempts'', itoa_int (cf_MaxAttempts c)),
     (''queue.poll'', cl_duration_str lib (cf_QueuePoll c)),
     (''queue.reap_every'', cl_duration_str lib (cf_ReapEvery c)),
     (''server.admin_groups'', join_with '','' (cf_AdminGroups c)),
     (''server.cors_origins'', join_with '','' (cf_CORSOrigins c)),
     (''server.event_max_wait'', cl_duration_str lib (cf_EventMaxWait c)),
     (''security.sync_key'', present (length (cf_SyncKey c) > 0)),
     (''forge.token'', present (cf_ForgeToken c \<noteq> [])),
     (''git.ssh_command'', cf_GitSSHCommand c),
     (''log.level'', level_str (cf_LogLevel c))]"

definition minSettingWidth :: nat where "minSettingWidth = 26"

definition settingWidth :: "config_lib \<Rightarrow> config \<Rightarrow> nat" where
  "settingWidth lib c = fold (\<lambda>row width. if length (fst row) > width then length (fst row) else width) (redactedRows lib c) minSettingWidth"

definition pad :: "nat \<Rightarrow> string \<Rightarrow> string" where
  "pad n s = s @ replicate (n - length s) (CHR '' '')"

definition Redacted :: "config_lib \<Rightarrow> config \<Rightarrow> string list" where
  "Redacted lib c =
     sort (map (\<lambda>(name, value).
       pad (settingWidth lib c) name @ '' '' @ pad 12 (origin_str (config_Origin c name)) @ '' ''
         @ (if value = [] then ''-'' else value)) (redactedRows lib c))"

definition RedactedHeader :: "config_lib \<Rightarrow> config \<Rightarrow> string" where
  "RedactedHeader lib c = pad (settingWidth lib c) ''SETTING'' @ '' '' @ pad 12 ''FROM'' @ '' '' @ ''VALUE''"

subsection \<open>The layers as a reference\<close>

text \<open>What a layer gives for a setting, if it gives anything.\<close>

definition text_given :: "string \<Rightarrow> string option" where
  "text_given v = (if v = [] then None else Some v)"

definition value_given :: "bool \<Rightarrow> 'a \<Rightarrow> 'a option" where
  "value_given g v = (if g then Some v else None)"

definition parsed_given :: "bool \<Rightarrow> config_error + 'a \<Rightarrow> 'a option" where
  "parsed_given g p = (if g then (case p of Inl _ \<Rightarrow> None | Inr x \<Rightarrow> Some x) else None)"

definition secret_given :: "config_error + string \<Rightarrow> (string \<Rightarrow> config_error + 'a) \<Rightarrow> 'a option" where
  "secret_given v decode = (case v of Inl _ \<Rightarrow> None | Inr s \<Rightarrow> parsed_given (s \<noteq> []) (decode s))"

definition override :: "'a option \<Rightarrow> 'a \<Rightarrow> 'a" where
  "override given below = (case given of None \<Rightarrow> below | Some v \<Rightarrow> v)"

definition is_given :: "'a option \<Rightarrow> bool" where
  "is_given x = (case x of None \<Rightarrow> False | Some _ \<Rightarrow> True)"

text \<open>One layer: what it gives for each setting.\<close>

record layer =
  la_Addr :: "string option"
  la_PolicyDir :: "string option"
  la_BlobDir :: "string option"
  la_WorkDir :: "string option"
  la_GitSSHCommand :: "string option"
  la_AdminGroups :: "group_id list option"
  la_CORSOrigins :: "string list option"
  la_LogLevel :: "level option"
  la_DatabaseURL :: "string option"
  la_ForgeToken :: "string option"
  la_SyncKey :: "bytes option"
  la_MaxPatchBytes :: "int option"
  la_MirrorBudgetBytes :: "int option"
  la_MaxAttempts :: "int option"
  la_LeaseDuration :: "int option"
  la_QueuePoll :: "int option"
  la_ReapEvery :: "int option"
  la_PullTTL :: "int option"
  la_EventMaxWait :: "int option"
  la_PolicyReload :: "int option"

definition gives_setting :: "layer \<Rightarrow> string \<Rightarrow> bool" where
  "gives_setting l n = list_ex (\<lambda>(m, given). given \<and> n = m)
    [(''addr'', is_given (la_Addr l)),
     (''policy.dir'', is_given (la_PolicyDir l)),
     (''storage.blob_dir'', is_given (la_BlobDir l)),
     (''storage.work_dir'', is_given (la_WorkDir l)),
     (''git.ssh_command'', is_given (la_GitSSHCommand l)),
     (''server.admin_groups'', is_given (la_AdminGroups l)),
     (''server.cors_origins'', is_given (la_CORSOrigins l)),
     (''log.level'', is_given (la_LogLevel l)),
     (''database.url'', is_given (la_DatabaseURL l)),
     (''forge.token'', is_given (la_ForgeToken l)),
     (''security.sync_key'', is_given (la_SyncKey l)),
     (''storage.max_patch_bytes'', is_given (la_MaxPatchBytes l)),
     (''storage.mirror_budget_bytes'', is_given (la_MirrorBudgetBytes l)),
     (''queue.max_attempts'', is_given (la_MaxAttempts l)),
     (''queue.lease_duration'', is_given (la_LeaseDuration l)),
     (''queue.poll'', is_given (la_QueuePoll l)),
     (''queue.reap_every'', is_given (la_ReapEvery l)),
     (''storage.pull_ttl'', is_given (la_PullTTL l)),
     (''server.event_max_wait'', is_given (la_EventMaxWait l)),
     (''policy.reload'', is_given (la_PolicyReload l))]"

definition over :: "config_origin \<Rightarrow> layer \<Rightarrow> config \<Rightarrow> config" where
  "over og l c = c\<lparr>
     cf_Addr := override (la_Addr l) (cf_Addr c),
     cf_PolicyDir := override (la_PolicyDir l) (cf_PolicyDir c),
     cf_BlobDir := override (la_BlobDir l) (cf_BlobDir c),
     cf_WorkDir := override (la_WorkDir l) (cf_WorkDir c),
     cf_GitSSHCommand := override (la_GitSSHCommand l) (cf_GitSSHCommand c),
     cf_AdminGroups := override (la_AdminGroups l) (cf_AdminGroups c),
     cf_CORSOrigins := override (la_CORSOrigins l) (cf_CORSOrigins c),
     cf_LogLevel := override (la_LogLevel l) (cf_LogLevel c),
     cf_DatabaseURL := override (la_DatabaseURL l) (cf_DatabaseURL c),
     cf_ForgeToken := override (la_ForgeToken l) (cf_ForgeToken c),
     cf_SyncKey := override (la_SyncKey l) (cf_SyncKey c),
     cf_MaxPatchBytes := override (la_MaxPatchBytes l) (cf_MaxPatchBytes c),
     cf_MirrorBudgetBytes := override (la_MirrorBudgetBytes l) (cf_MirrorBudgetBytes c),
     cf_MaxAttempts := override (la_MaxAttempts l) (cf_MaxAttempts c),
     cf_LeaseDuration := override (la_LeaseDuration l) (cf_LeaseDuration c),
     cf_QueuePoll := override (la_QueuePoll l) (cf_QueuePoll c),
     cf_ReapEvery := override (la_ReapEvery l) (cf_ReapEvery c),
     cf_PullTTL := override (la_PullTTL l) (cf_PullTTL c),
     cf_EventMaxWait := override (la_EventMaxWait l) (cf_EventMaxWait c),
     cf_PolicyReload := override (la_PolicyReload l) (cf_PolicyReload c),
     cf_Origins := (\<lambda>n. if gives_setting l n then Some og else cf_Origins c n)\<rparr>"

definition dur_given :: "config_lib \<Rightarrow> string \<Rightarrow> string \<Rightarrow> int option" where
  "dur_given lib name raw = parsed_given (raw \<noteq> []) (parseDuration lib name raw)"

definition file_layer :: "config_lib \<Rightarrow> host \<Rightarrow> config_file \<Rightarrow> layer" where
  "file_layer lib h f = \<lparr>
     la_Addr = text_given (fs_Addr f),
     la_PolicyDir = text_given (fp_Dir f),
     la_BlobDir = text_given (fo_BlobDir f),
     la_WorkDir = text_given (fo_WorkDir f),
     la_GitSSHCommand = text_given (fg_SSHCommand f),
     la_AdminGroups = value_given (fs_AdminGroups f \<noteq> []) (toGroups (fs_AdminGroups f)),
     la_CORSOrigins = value_given (fs_CORSOrigins f \<noteq> []) (fs_CORSOrigins f),
     la_LogLevel = parsed_given (fl_Level f \<noteq> []) (parseLevel (fl_Level f)),
     la_DatabaseURL = secret_given (readSecret h (fd_URL f) (fd_URLFile f) ''database.url'') Inr,
     la_ForgeToken = secret_given (readSecret h (ff_Token f) (ff_TokenFile f) ''forge.token'') Inr,
     la_SyncKey = secret_given (readSecret h (fk_SyncKey f) (fk_SyncKeyFile f) ''security.sync_key'') (decodeSyncKey lib),
     la_MaxPatchBytes = value_given (fo_MaxPatchBytes f > 0) (fo_MaxPatchBytes f),
     la_MirrorBudgetBytes = fo_MirrorBudgetBytes f,
     la_MaxAttempts = value_given (fq_MaxAttempts f > 0) (fq_MaxAttempts f),
     la_LeaseDuration = dur_given lib ''queue.lease_duration'' (fq_LeaseDuration f),
     la_QueuePoll = dur_given lib ''queue.poll'' (fq_Poll f),
     la_ReapEvery = dur_given lib ''queue.reap_every'' (fq_ReapEvery f),
     la_PullTTL = dur_given lib ''storage.pull_ttl'' (fo_PullTTL f),
     la_EventMaxWait = dur_given lib ''server.event_max_wait'' (fs_EventMaxWait f),
     la_PolicyReload = dur_given lib ''policy.reload'' (fp_Reload f)\<rparr>"

definition env_layer :: "config_lib \<Rightarrow> host \<Rightarrow> layer" where
  "env_layer lib h = \<lparr>
     la_Addr = text_given (ho_env h EnvAddr),
     la_PolicyDir = text_given (ho_env h EnvPolicyDir),
     la_BlobDir = text_given (ho_env h EnvBlobDir),
     la_WorkDir = text_given (ho_env h EnvWorkDir),
     la_GitSSHCommand = text_given (ho_env h EnvGitSSHCmd),
     la_AdminGroups = value_given (ho_env h EnvAdminGroups \<noteq> []) (toGroups (splitList (ho_env h EnvAdminGroups))),
     la_CORSOrigins = value_given (ho_env h EnvCORSOrigins \<noteq> []) (splitList (ho_env h EnvCORSOrigins)),
     la_LogLevel = parsed_given (ho_env h EnvLogLevel \<noteq> []) (parseLevel (ho_env h EnvLogLevel)),
     la_DatabaseURL = secret_given (env_secret h EnvDatabaseURL EnvDatabaseURLFile) Inr,
     la_ForgeToken = secret_given (env_secret h EnvForgeToken EnvForgeTokenFile) Inr,
     la_SyncKey = secret_given (env_secret h EnvSyncKey EnvSyncKeyFile) (decodeSyncKey lib),
     la_MaxPatchBytes = parsed_given (ho_env h EnvMaxPatch \<noteq> []) (env_number h EnvMaxPatch 1),
     la_MirrorBudgetBytes = parsed_given (ho_env h EnvMirrorBudget \<noteq> []) (env_number h EnvMirrorBudget 0),
     la_MaxAttempts = parsed_given (ho_env h EnvMaxAttempts \<noteq> []) (env_number h EnvMaxAttempts 1),
     la_LeaseDuration = dur_given lib EnvLeaseDuration (ho_env h EnvLeaseDuration),
     la_QueuePoll = dur_given lib EnvQueuePoll (ho_env h EnvQueuePoll),
     la_ReapEvery = dur_given lib EnvReapEvery (ho_env h EnvReapEvery),
     la_PullTTL = dur_given lib EnvPullTTL (ho_env h EnvPullTTL),
     la_EventMaxWait = dur_given lib EnvEventMaxWait (ho_env h EnvEventMaxWait),
     la_PolicyReload = dur_given lib EnvPolicyReload (ho_env h EnvPolicyReload)\<rparr>"

subsection \<open>Running the steps\<close>

lemma run_steps_ok: "run_steps ss c = (None, c') \<Longrightarrow> c' = fold (\<lambda>s c. snd (s c)) ss c"
  by (induction ss arbitrary: c) (auto split: prod.splits option.splits)

text \<open>A step that succeeds is one update; \<open>stamp\<close> keeps its effect on the origins in one place.\<close>

definition stamp :: "config_origin \<Rightarrow> string \<Rightarrow> bool \<Rightarrow> (string \<Rightarrow> config_origin option) \<Rightarrow> string \<Rightarrow> config_origin option" where
  "stamp og n given origins = (if given then origins(n \<mapsto> og) else origins)"

lemma stamp_apply: "stamp og n given origins m = (if given \<and> m = n then Some og else origins m)"
  by (simp add: stamp_def)

lemma when_steps:
  "snd (set_when og n g (put_Addr v1) c) = c\<lparr>cf_Addr := override (value_given g v1) (cf_Addr c), cf_Origins := stamp og n (is_given (value_given g v1)) (cf_Origins c)\<rparr>"
  "snd (set_when og n g (put_PolicyDir v2) c) = c\<lparr>cf_PolicyDir := override (value_given g v2) (cf_PolicyDir c), cf_Origins := stamp og n (is_given (value_given g v2)) (cf_Origins c)\<rparr>"
  "snd (set_when og n g (put_BlobDir v3) c) = c\<lparr>cf_BlobDir := override (value_given g v3) (cf_BlobDir c), cf_Origins := stamp og n (is_given (value_given g v3)) (cf_Origins c)\<rparr>"
  "snd (set_when og n g (put_WorkDir v4) c) = c\<lparr>cf_WorkDir := override (value_given g v4) (cf_WorkDir c), cf_Origins := stamp og n (is_given (value_given g v4)) (cf_Origins c)\<rparr>"
  "snd (set_when og n g (put_GitSSHCommand v5) c) = c\<lparr>cf_GitSSHCommand := override (value_given g v5) (cf_GitSSHCommand c), cf_Origins := stamp og n (is_given (value_given g v5)) (cf_Origins c)\<rparr>"
  "snd (set_when og n g (put_AdminGroups v6) c) = c\<lparr>cf_AdminGroups := override (value_given g v6) (cf_AdminGroups c), cf_Origins := stamp og n (is_given (value_given g v6)) (cf_Origins c)\<rparr>"
  "snd (set_when og n g (put_CORSOrigins v7) c) = c\<lparr>cf_CORSOrigins := override (value_given g v7) (cf_CORSOrigins c), cf_Origins := stamp og n (is_given (value_given g v7)) (cf_Origins c)\<rparr>"
  "snd (set_when og n g (put_MaxPatchBytes v8) c) = c\<lparr>cf_MaxPatchBytes := override (value_given g v8) (cf_MaxPatchBytes c), cf_Origins := stamp og n (is_given (value_given g v8)) (cf_Origins c)\<rparr>"
  "snd (set_when og n g (put_MirrorBudgetBytes v9) c) = c\<lparr>cf_MirrorBudgetBytes := override (value_given g v9) (cf_MirrorBudgetBytes c), cf_Origins := stamp og n (is_given (value_given g v9)) (cf_Origins c)\<rparr>"
  "snd (set_when og n g (put_MaxAttempts v10) c) = c\<lparr>cf_MaxAttempts := override (value_given g v10) (cf_MaxAttempts c), cf_Origins := stamp og n (is_given (value_given g v10)) (cf_Origins c)\<rparr>"
  by (simp_all add: set_when_def mark_def stamp_def override_def value_given_def is_given_def)

lemma parsed_steps:
  "snd (set_parsed og n g p11 put_LogLevel c) = c\<lparr>cf_LogLevel := override (parsed_given g p11) (cf_LogLevel c), cf_Origins := stamp og n (is_given (parsed_given g p11)) (cf_Origins c)\<rparr>"
  "snd (set_parsed og n g p12 put_MaxPatchBytes c) = c\<lparr>cf_MaxPatchBytes := override (parsed_given g p12) (cf_MaxPatchBytes c), cf_Origins := stamp og n (is_given (parsed_given g p12)) (cf_Origins c)\<rparr>"
  "snd (set_parsed og n g p13 put_MirrorBudgetBytes c) = c\<lparr>cf_MirrorBudgetBytes := override (parsed_given g p13) (cf_MirrorBudgetBytes c), cf_Origins := stamp og n (is_given (parsed_given g p13)) (cf_Origins c)\<rparr>"
  "snd (set_parsed og n g p14 put_MaxAttempts c) = c\<lparr>cf_MaxAttempts := override (parsed_given g p14) (cf_MaxAttempts c), cf_Origins := stamp og n (is_given (parsed_given g p14)) (cf_Origins c)\<rparr>"
  "snd (set_parsed og n g p15 put_LeaseDuration c) = c\<lparr>cf_LeaseDuration := override (parsed_given g p15) (cf_LeaseDuration c), cf_Origins := stamp og n (is_given (parsed_given g p15)) (cf_Origins c)\<rparr>"
  "snd (set_parsed og n g p16 put_QueuePoll c) = c\<lparr>cf_QueuePoll := override (parsed_given g p16) (cf_QueuePoll c), cf_Origins := stamp og n (is_given (parsed_given g p16)) (cf_Origins c)\<rparr>"
  "snd (set_parsed og n g p17 put_ReapEvery c) = c\<lparr>cf_ReapEvery := override (parsed_given g p17) (cf_ReapEvery c), cf_Origins := stamp og n (is_given (parsed_given g p17)) (cf_Origins c)\<rparr>"
  "snd (set_parsed og n g p18 put_PullTTL c) = c\<lparr>cf_PullTTL := override (parsed_given g p18) (cf_PullTTL c), cf_Origins := stamp og n (is_given (parsed_given g p18)) (cf_Origins c)\<rparr>"
  "snd (set_parsed og n g p19 put_EventMaxWait c) = c\<lparr>cf_EventMaxWait := override (parsed_given g p19) (cf_EventMaxWait c), cf_Origins := stamp og n (is_given (parsed_given g p19)) (cf_Origins c)\<rparr>"
  "snd (set_parsed og n g p20 put_PolicyReload c) = c\<lparr>cf_PolicyReload := override (parsed_given g p20) (cf_PolicyReload c), cf_Origins := stamp og n (is_given (parsed_given g p20)) (cf_Origins c)\<rparr>"
  by (simp_all add: set_parsed_def mark_def stamp_def override_def parsed_given_def is_given_def split: sum.split)

lemma secret_steps:
  "snd (set_secret og n v21 decode21 put_DatabaseURL c) = c\<lparr>cf_DatabaseURL := override (secret_given v21 decode21) (cf_DatabaseURL c), cf_Origins := stamp og n (is_given (secret_given v21 decode21)) (cf_Origins c)\<rparr>"
  "snd (set_secret og n v22 decode22 put_ForgeToken c) = c\<lparr>cf_ForgeToken := override (secret_given v22 decode22) (cf_ForgeToken c), cf_Origins := stamp og n (is_given (secret_given v22 decode22)) (cf_Origins c)\<rparr>"
  "snd (set_secret og n v23 decode23 put_SyncKey c) = c\<lparr>cf_SyncKey := override (secret_given v23 decode23) (cf_SyncKey c), cf_Origins := stamp og n (is_given (secret_given v23 decode23)) (cf_Origins c)\<rparr>"
  by (simp_all add: set_secret_def set_parsed_def mark_def stamp_def override_def secret_given_def parsed_given_def is_given_def split: sum.split)

lemma budget_given: "value_given (\<exists>v. b = Some v) (case b of None \<Rightarrow> d | Some v \<Rightarrow> v) = b"
  by (simp add: value_given_def split: option.split)

lemma text_given_value: "value_given (v \<noteq> []) v = text_given v"
  by (simp add: value_given_def text_given_def)

lemmas step_simps = when_steps parsed_steps secret_steps budget_given text_given_value dur_given_def

lemma stamp_twice: "(if a then Some og else stamp og n given origins m) = (if given \<and> m = n \<or> a then Some og else origins m)"
  by (simp add: stamp_apply)

lemma applyFile_layer:
  assumes "applyFile lib h f c = (None, c')"
  shows "c' = over OriginFile (file_layer lib h f) c"
proof -
  have "c' = fold (\<lambda>s c. snd (s c)) ss c" if "applyFile lib h f = run_steps ss" for ss
    using assms that by (simp add: run_steps_ok)
  note c' = this[OF applyFile_def]
  show ?thesis
    apply (simp add: c' step_simps)
    apply (rule config.equality)
    apply (simp_all add: over_def file_layer_def dur_given_def)
    apply (simp add: fun_eq_iff gives_setting_def stamp_apply stamp_twice disj_ac split del: if_split)
    done
qed

lemma applyEnv_layer:
  assumes "applyEnv lib h c = (None, c')"
  shows "c' = over OriginEnv (env_layer lib h) c"
proof -
  have "c' = fold (\<lambda>s c. snd (s c)) ss c" if "applyEnv lib h = run_steps ss" for ss
    using assms that by (simp add: run_steps_ok)
  note c' = this[OF applyEnv_def]
  show ?thesis
    apply (simp add: c' step_simps)
    apply (rule config.equality)
    apply (simp_all add: over_def env_layer_def dur_given_def)
    apply (simp add: fun_eq_iff gives_setting_def stamp_apply stamp_twice split del: if_split)
    done
qed

lemma override_None [simp]: "override None d = d"
  by (simp add: override_def)

lemma file_layer_empty: "over OriginFile (file_layer lib h empty_file) c = c"
  by (rule config.equality)
    (simp_all add: over_def file_layer_def empty_file_def text_given_def value_given_def parsed_given_def dur_given_def
      secret_given_def readSecret_def fun_eq_iff gives_setting_def is_given_def)

lemma apply_env_and_validate_ok:
  assumes "apply_env_and_validate lib h c = (None, c')"
  shows "c' = over OriginEnv (env_layer lib h) c" "length (cf_SyncKey c') \<ge> MinKeyBytes"
  using assms by (auto simp: apply_env_and_validate_def config_validate_def dest: applyEnv_layer split: prod.splits option.splits if_splits)

lemma load_layered:
  assumes "LoadConfigFrom lib h explicit = (None, c)"
  shows "\<exists>path f. length (cf_SyncKey c) \<ge> MinKeyBytes \<and> FindConfigFile h explicit = Inr path
    \<and> (if path = [] then f = empty_file else LoadFile lib h path = Inr f)
    \<and> c = over OriginEnv (env_layer lib h) (over OriginFile (file_layer lib h f) (defaults\<lparr>cf_ConfigFile := path\<rparr>))"
proof -
  obtain path where path: "FindConfigFile h explicit = Inr path"
    using assms by (cases "FindConfigFile h explicit") (simp_all add: LoadConfigFrom_def)
  show ?thesis
  proof (cases "path = []")
    case True
    then have ok: "apply_env_and_validate lib h defaults = (None, c)" using assms path by (simp add: LoadConfigFrom_def)
    moreover have "defaults\<lparr>cf_ConfigFile := []\<rparr> = defaults" by (simp add: defaults_def)
    ultimately have "c = over OriginEnv (env_layer lib h) (over OriginFile (file_layer lib h empty_file) (defaults\<lparr>cf_ConfigFile := path\<rparr>))"
      using True by (simp add: apply_env_and_validate_ok(1) file_layer_empty)
    then show ?thesis using path True apply_env_and_validate_ok(2)[OF ok] by auto
  next
    case False
    obtain f where f: "LoadFile lib h path = Inr f"
      using assms path False by (cases "LoadFile lib h path") (simp_all add: LoadConfigFrom_def)
    obtain c1 where c1: "applyFile lib h f (defaults\<lparr>cf_ConfigFile := path\<rparr>) = (None, c1)"
      and rest: "apply_env_and_validate lib h c1 = (None, c)"
      using assms path False f by (auto simp: LoadConfigFrom_def split: prod.splits option.splits)
    show ?thesis using path f False apply_env_and_validate_ok(2)[OF rest] apply_env_and_validate_ok(1)[OF rest] applyFile_layer[OF c1] by auto
  qed
qed

text \<open>
  Claim C27. The three layers. A configuration that loads is the defaults, overridden by what the one file found gives,
  overridden by what the environment gives, setting by setting; the origin reported for a setting is the highest layer
  that gives it. The file is the one named, or the first of the search path that exists, or none.
\<close>

theorem settings_are_layered:
  assumes "LoadConfigFrom lib h explicit = (None, c)"
  shows "\<exists>path f. FindConfigFile h explicit = Inr path
    \<and> (if path = [] then f = empty_file else LoadFile lib h path = Inr f)
    \<and> c = over OriginEnv (env_layer lib h) (over OriginFile (file_layer lib h f) (defaults\<lparr>cf_ConfigFile := path\<rparr>))"
  using load_layered[OF assms] by blast

lemma dur_given_pos: "dur_given lib name raw = Some d \<Longrightarrow> 0 < d"
  by (auto simp: dur_given_def parsed_given_def parseDuration_def split: if_splits sum.splits option.splits)

lemma number_given_least: "parsed_given g (env_number h var least) = Some n \<Longrightarrow> least \<le> n"
  by (auto simp: parsed_given_def env_number_def split: if_splits sum.splits option.splits)

definition numbers_ok :: "config \<Rightarrow> bool" where
  "numbers_ok c \<longleftrightarrow> 0 < cf_MaxPatchBytes c \<and> 0 < cf_MaxAttempts c \<and> 0 < cf_LeaseDuration c \<and> 0 < cf_QueuePoll c \<and> 0 < cf_ReapEvery c \<and> 0 < cf_PullTTL c \<and> 0 < cf_EventMaxWait c \<and> 0 < cf_PolicyReload c"

definition layer_ok :: "layer \<Rightarrow> bool" where
  "layer_ok l \<longleftrightarrow> (\<forall>n. n \<in> {la_MaxPatchBytes l, la_MaxAttempts l, la_LeaseDuration l, la_QueuePoll l, la_ReapEvery l, la_PullTTL l, la_EventMaxWait l, la_PolicyReload l} \<longrightarrow> (\<forall>v. n = Some v \<longrightarrow> 0 < v))"

lemma override_pos: "(\<And>v. given = Some v \<Longrightarrow> 0 < v) \<Longrightarrow> 0 < d \<Longrightarrow> 0 < override given (d :: int)"
  by (cases given) (simp_all add: override_def)

lemma over_ok: "layer_ok l \<Longrightarrow> numbers_ok c \<Longrightarrow> numbers_ok (over og l c)"
  unfolding numbers_ok_def layer_ok_def over_def by (simp add: override_pos)

lemma env_layer_ok: "layer_ok (env_layer lib h)"
  by (auto simp: layer_ok_def env_layer_def dest: dur_given_pos number_given_least)

lemma file_layer_ok: "layer_ok (file_layer lib h f)"
  by (auto simp: layer_ok_def file_layer_def value_given_def dest: dur_given_pos split: if_splits)

lemma defaults_ok: "numbers_ok (defaults\<lparr>cf_ConfigFile := path\<rparr>)"
  by (simp add: numbers_ok_def defaults_def second_def)

text \<open>
  A configuration that loads can work. The signing key is long enough for the token root, every duration is
  positive, and so are the patch ceiling and the attempt budget; whatever the file and the environment hold.
\<close>

theorem loaded_config_sane:
  assumes "LoadConfigFrom lib h explicit = (None, c)"
  shows "length (cf_SyncKey c) \<ge> MinKeyBytes \<and> 0 < cf_MaxPatchBytes c \<and> 0 < cf_MaxAttempts c \<and> 0 < cf_LeaseDuration c \<and> 0 < cf_QueuePoll c
    \<and> 0 < cf_ReapEvery c \<and> 0 < cf_PullTTL c \<and> 0 < cf_EventMaxWait c \<and> 0 < cf_PolicyReload c"
proof -
  obtain path f where key: "length (cf_SyncKey c) \<ge> MinKeyBytes"
    and c: "c = over OriginEnv (env_layer lib h) (over OriginFile (file_layer lib h f) (defaults\<lparr>cf_ConfigFile := path\<rparr>))"
    using load_layered[OF assms] by blast
  have "numbers_ok c" unfolding c by (intro over_ok env_layer_ok file_layer_ok defaults_ok)
  then show ?thesis using key unfolding numbers_ok_def by blast
qed

subsection \<open>What the printed configuration hides\<close>

lemma last_index_snoc: "c \<notin> set ys \<Longrightarrow> last_index c (xs @ c # ys) = Some (length xs)"
proof -
  assume c: "c \<notin> set ys"
  have "takeWhile (\<lambda>x. x \<noteq> c) (rev ys @ c # rev xs) = rev ys" using c by (simp add: takeWhile_append)
  then show ?thesis by (simp add: last_index_def)
qed

lemma index_of_first:
  assumes "d \<notin> set xs"
  shows "index_of (d # pat) (xs @ (d # pat) @ ys) = Some (length xs)"
  using assms by (induction xs) (auto simp: prefix_def)

lemma redactURL_parts:
  assumes "last_index (CHR ''@'') (pre @ credentials @ post) = Some (length pre + length credentials)"
    and "index_of ''://'' (pre @ credentials @ post) = (if pre = [] then None else Some (length pre - 3))" "length pre \<noteq> 1" "length pre \<noteq> 2"
  shows "redactURL (pre @ credentials @ post) = (if pre @ credentials @ post = [] then [] else
    pre @ (case index_of '':'' credentials of None \<Rightarrow> credentials | Some colon \<Rightarrow> take colon credentials @ '':***'') @ post)"
proof (cases "pre = []")
  case True
  then show ?thesis using assms(1,2) by (simp add: redactURL_def Let_def split: option.split)
next
  case False
  then have "length pre - 3 + 3 = length pre" "\<not> length pre - 3 > length pre + length credentials"
    using assms(3,4) by (cases pre; simp; cases "tl pre"; simp)+
  then show ?thesis using assms(1,2) False by (simp add: redactURL_def Let_def split: option.split)
qed

text \<open>
  Claim C31. Printing the configuration shows no secret. Whatever the signing key, the forge token and the password of a
  database URL are, the printed table is the same, as long as each is set: of the URL only the scheme, the user and what
  follows the last at sign are shown.
\<close>

theorem printed_config_hides_secrets:
  assumes "CHR '':'' \<notin> set scheme" "CHR '':'' \<notin> set user" "CHR ''@'' \<notin> set rest"
    and "key \<noteq> []" "key' \<noteq> []" "token \<noteq> []" "token' \<noteq> []"
  shows "Redacted lib (c\<lparr>cf_SyncKey := key, cf_ForgeToken := token,
      cf_DatabaseURL := scheme @ ''://'' @ user @ '':'' @ password @ ''@'' @ rest\<rparr>)
    = Redacted lib (c\<lparr>cf_SyncKey := key', cf_ForgeToken := token',
      cf_DatabaseURL := scheme @ ''://'' @ user @ '':'' @ password' @ ''@'' @ rest\<rparr>)
    \<and> redactURL (scheme @ ''://'' @ user @ '':'' @ password @ ''@'' @ rest) = scheme @ ''://'' @ user @ '':***@'' @ rest"
proof -
  have url: "redactURL (scheme @ ''://'' @ user @ '':'' @ pw @ ''@'' @ rest) = scheme @ ''://'' @ user @ '':***@'' @ rest" for pw
  proof -
    let ?pre = "scheme @ ''://''" and ?cred = "user @ '':'' @ pw" and ?post = "''@'' @ rest"
    have "last_index (CHR ''@'') (?pre @ ?cred @ ?post) = Some (length ?pre + length ?cred)"
      using last_index_snoc[OF assms(3), of "?pre @ ?cred"] by simp
    moreover have "index_of ''://'' (?pre @ ?cred @ ?post) = Some (length scheme)"
      using index_of_first[OF assms(1), of "''//''" "?cred @ ?post"] by simp
    moreover have "index_of '':'' ?cred = Some (length user)"
      using index_of_first[OF assms(2), of "[]" pw] by simp
    ultimately show ?thesis using redactURL_parts[of ?pre ?cred ?post] by simp
  qed
  have "redactedRows lib (c\<lparr>cf_SyncKey := key, cf_ForgeToken := token, cf_DatabaseURL := scheme @ ''://'' @ user @ '':'' @ password @ ''@'' @ rest\<rparr>)
      = redactedRows lib (c\<lparr>cf_SyncKey := key', cf_ForgeToken := token', cf_DatabaseURL := scheme @ ''://'' @ user @ '':'' @ password' @ ''@'' @ rest\<rparr>)"
    using assms(4-7) unfolding redactedRows_def by (simp add: url[simplified])
  then show ?thesis unfolding Redacted_def settingWidth_def config_Origin_def by (simp add: url[simplified])
qed

text \<open>The same for a data source name without a scheme, unless the password itself contains one.\<close>

lemma redactURL_dsn:
  assumes "CHR '':'' \<notin> set user" "CHR ''@'' \<notin> set rest" "\<not> Contains (user @ '':'' @ password @ ''@'' @ rest) ''://''"
  shows "redactURL (user @ '':'' @ password @ ''@'' @ rest) = user @ '':***@'' @ rest"
  using redactURL_parts[of "[]" "user @ '':'' @ password" "''@'' @ rest"] last_index_snoc[OF assms(2), of "user @ '':'' @ password"]
    index_of_first[OF assms(1), of "[]" password] assms(3)
  by (simp add: Contains_def)

text \<open>
  Two spellings of a password escape the checks. A key/value data source name and one whose password contains
  a scheme separator are printed in full; and a MySQL data source name is not recognised as a secret, so a
  configuration file with one in it is accepted whatever its permissions.
\<close>

theorem passwords_not_recognised:
  "redactURL ''host=db user=nit password=hunter2'' = ''host=db user=nit password=hunter2''
   \<and> redactURL ''nit:hunter://2@tcp(db)/nit'' = ''nit:hunter://2@tcp(db)/nit''
   \<and> redactURL ''nit:hunter2@tcp(db)/nit'' = ''nit:***@tcp(db)/nit''
   \<and> checkPermissions h (empty_file\<lparr>fd_URL := ''nit:hunter2@tcp(db)/nit''\<rparr>) path = Inr ()"
proof -
  have "redactURL ''host=db user=nit password=hunter2'' = ''host=db user=nit password=hunter2''"
    and "redactURL ''nit:hunter://2@tcp(db)/nit'' = ''nit:hunter://2@tcp(db)/nit''"
    and "redactURL ''nit:hunter2@tcp(db)/nit'' = ''nit:***@tcp(db)/nit''"
    and "hasPassword ''nit:hunter2@tcp(db)/nit'' = False"
    by code_simp+
  then show ?thesis by (simp add: checkPermissions_def hasInlineSecret_def empty_file_def)
qed

text \<open>The budget of the mirrors: the environment refuses a negative one, the file does not.\<close>

lemma negative_budget_from_file:
  "la_MirrorBudgetBytes (file_layer lib h (f\<lparr>fo_MirrorBudgetBytes := Some (- 1)\<rparr>)) = Some (- 1)"
  "la_MirrorBudgetBytes (env_layer lib h) \<noteq> Some (- 1)"
  by (auto simp: file_layer_def env_layer_def dest: number_given_least)

subsection \<open>Witnesses\<close>

definition ex_lib :: config_lib where
  "ex_lib = \<lparr>cl_yaml = (\<lambda>c. Decoded (empty_file\<lparr>fs_Addr := c, fl_Level := ''warn''\<rparr>)), cl_base64 = (\<lambda>_. None),
     cl_duration = (\<lambda>s. if s = ''90s'' then Some (90 * second) else None), cl_duration_str = (\<lambda>_. [])\<rparr>"

definition ex_host :: host where
  "ex_host = \<lparr>ho_env = (\<lambda>v. if v = EnvSyncKey then ''0123456789abcdef0123456789abcdef'' else if v = EnvLeaseDuration then ''90s''
       else if v = EnvLogLevel then ''debug'' else []),
     ho_read = (\<lambda>p. if p = ''./nit.yaml'' then Some '':9'' else None), ho_perm = (\<lambda>_. 420), ho_stat = (\<lambda>p. p = ''./nit.yaml''),
     ho_isdir = (\<lambda>_. False), ho_windows = False\<rparr>"

definition ex_loaded :: config where
  "ex_loaded = snd (LoadConfigFrom ex_lib ex_host [])"

lemma ex_loads: "LoadConfigFrom ex_lib ex_host [] = (None, ex_loaded)"
proof -
  have "fst (LoadConfigFrom ex_lib ex_host []) = None" by code_simp
  then show ?thesis by (simp add: ex_loaded_def prod_eq_iff)
qed

theorem settings_are_layered_witness:
  "(\<exists>path f. FindConfigFile ex_host [] = Inr path \<and> (if path = [] then f = empty_file else LoadFile ex_lib ex_host path = Inr f)
     \<and> ex_loaded = over OriginEnv (env_layer ex_lib ex_host) (over OriginFile (file_layer ex_lib ex_host f) (defaults\<lparr>cf_ConfigFile := path\<rparr>)))
   \<and> (cf_Addr ex_loaded, cf_LogLevel ex_loaded, cf_LeaseDuration ex_loaded, cf_MaxAttempts ex_loaded) = ('':9'', LevelDebug, 90 * second, 3)
   \<and> map (config_Origin ex_loaded) [''addr'', ''log.level'', ''queue.max_attempts''] = [OriginFile, OriginEnv, OriginDefault]"
proof -
  have "(cf_Addr ex_loaded, cf_LogLevel ex_loaded, cf_LeaseDuration ex_loaded, cf_MaxAttempts ex_loaded) = ('':9'', LevelDebug, 90 * second, 3)"
    "map (config_Origin ex_loaded) [''addr'', ''log.level'', ''queue.max_attempts''] = [OriginFile, OriginEnv, OriginDefault]"
    by code_simp+
  then show ?thesis using settings_are_layered[OF ex_loads] by blast
qed

theorem loaded_config_sane_witness: "length (cf_SyncKey ex_loaded) \<ge> 32 \<and> 0 < cf_LeaseDuration ex_loaded"
  using loaded_config_sane[OF ex_loads] by (simp add: MinKeyBytes_def)

theorem printed_config_hides_secrets_witness:
  "redactURL ''postgres://nit:hunter2@db/nit'' = ''postgres://nit:***@db/nit''
   \<and> Redacted ex_lib (ex_loaded\<lparr>cf_SyncKey := ''k'', cf_ForgeToken := ''t'', cf_DatabaseURL := ''postgres://nit:hunter2@db/nit''\<rparr>)
     = Redacted ex_lib (ex_loaded\<lparr>cf_SyncKey := ''l'', cf_ForgeToken := ''u'', cf_DatabaseURL := ''postgres://nit:p:@ss@db/nit''\<rparr>)"
  using printed_config_hides_secrets[where scheme = "''postgres''" and user = "''nit''" and rest = "''db/nit''" and key = "''k''" and key' = "''l''"
      and token = "''t''" and token' = "''u''" and lib = ex_lib and c = ex_loaded and password = "''hunter2''" and password' = "''p:@ss''"]
  by simp

end
