(* ===== verification/Nit_Git.thy ===== *)
theory Nit_Git
  imports Nit_Config
begin

text \<open>
  The git operations (\<open>pkg/gitx/git.go\<close>, \<open>exec.go\<close>, \<open>internal/workspace/git.go\<close>, and the forge drivers of \<open>pkg/forge\<close>): which command lines are run, in which order, and
  what becomes of their output and failures. The git program is the parameter: a function of the directory, the
  arguments, the standard input and the disk, to its output, its failure if any, and the disk it leaves. Removing a directory
  (\<open>os.RemoveAll\<close>) and creating one are further functions on the disk. The environment of a process and the
  cancellation of its context are left out.
\<close>

subsection \<open>Running git\<close>

record git_answer =
  ga_stdout :: bytes
  ga_failure :: "(string \<times> string) option"

type_synonym 'd git_binary = "string \<Rightarrow> string list \<Rightarrow> bytes \<Rightarrow> 'd \<Rightarrow> git_answer \<times> 'd"

datatype gitx_error = GitFailure string | ErrConflictWith string

text \<open>An operation that may fail and leaves a disk either way.\<close>

type_synonym ('d, 'a) act = "'d \<Rightarrow> (gitx_error + 'a) \<times> 'd"

definition abind :: "('d, 'a) act \<Rightarrow> ('a \<Rightarrow> ('d, 'b) act) \<Rightarrow> ('d, 'b) act" where
  "abind m f d = (case m d of (Inl e, d') \<Rightarrow> (Inl e, d') | (Inr x, d') \<Rightarrow> f x d')"

definition areturn :: "'a \<Rightarrow> ('d, 'a) act" where
  "areturn x d = (Inr x, d)"

definition error_text :: "string list \<Rightarrow> string \<times> string \<Rightarrow> string" where
  "error_text args failure = ''git '' @ join_with '' '' args @ '': '' @ fst failure @ '': '' @ TrimSpace (snd failure)"

definition git_stdin :: "'d git_binary \<Rightarrow> string \<Rightarrow> bytes \<Rightarrow> string list \<Rightarrow> ('d, bytes) act" where
  "git_stdin git dir stdin args d =
     (let (a, d') = git dir args stdin d
      in case ga_failure a of
           Some failure \<Rightarrow> (Inl (GitFailure (error_text args failure)), d')
         | None \<Rightarrow> (Inr (ga_stdout a), d'))"

definition git_run :: "'d git_binary \<Rightarrow> string \<Rightarrow> string list \<Rightarrow> ('d, bytes) act" where
  "git_run git dir args = git_stdin git dir [] args"

definition git_quiet :: "'d git_binary \<Rightarrow> string \<Rightarrow> string list \<Rightarrow> ('d, unit) act" where
  "git_quiet git dir args = abind (git_run git dir args) (\<lambda>_. areturn ())"

subsection \<open>A clone\<close>

record clone_options =
  co_Branch :: string
  co_Depth :: nat
  co_Bare :: bool

definition git_Version :: "'d git_binary \<Rightarrow> ('d, string) act" where
  "git_Version git = abind (git_run git [] [''version'']) (\<lambda>out. areturn (TrimSpace out))"

definition clone_args :: "clone_options \<Rightarrow> string \<Rightarrow> string \<Rightarrow> string list" where
  "clone_args o' remote dir =
     [''clone''] @ (if co_Bare o' then [''--bare''] else [])
     @ (if co_Branch o' \<noteq> [] then [''--branch'', co_Branch o', ''--single-branch''] else [])
     @ (if co_Depth o' > 0 then [''--depth'', itoa (co_Depth o')] else [])
     @ [''--'', remote, dir]"

definition git_Clone :: "'d git_binary \<Rightarrow> string \<Rightarrow> string \<Rightarrow> clone_options \<Rightarrow> ('d, string) act" where
  "git_Clone git remote dir o' = abind (git_run git [] (clone_args o' remote dir)) (\<lambda>_. areturn dir)"

definition git_Open :: "'d git_binary \<Rightarrow> string \<Rightarrow> ('d, string) act" where
  "git_Open git dir = abind (git_run git dir [''rev-parse'', ''--git-dir'']) (\<lambda>_. areturn dir)"

definition ResolveRef :: "'d git_binary \<Rightarrow> string \<Rightarrow> string \<Rightarrow> ('d, string) act" where
  "ResolveRef git dir ref =
     abind (git_run git dir [''rev-parse'', ''--verify'', ref @ ''^{commit}'']) (\<lambda>out. areturn (TrimSpace out))"

definition repo_Fetch :: "'d git_binary \<Rightarrow> string \<Rightarrow> string \<Rightarrow> string list \<Rightarrow> ('d, unit) act" where
  "repo_Fetch git dir remote refspecs = git_quiet git dir ([''fetch'', ''--prune'', remote] @ refspecs)"

definition repo_Checkout :: "'d git_binary \<Rightarrow> string \<Rightarrow> string \<Rightarrow> ('d, unit) act" where
  "repo_Checkout git dir revision = git_quiet git dir [''checkout'', ''--force'', revision]"

definition diffArgs :: "string list" where
  "diffArgs = [''--no-color'', ''--no-ext-diff'', ''--no-textconv'', ''--binary'', ''--full-index'', ''--find-renames'']"

definition repo_Diff :: "'d git_binary \<Rightarrow> string \<Rightarrow> string \<Rightarrow> string \<Rightarrow> ('d, bytes) act" where
  "repo_Diff git dir fr to = git_run git dir ([''diff''] @ diffArgs @ [fr, to])"

definition ChangedPaths :: "'d git_binary \<Rightarrow> string \<Rightarrow> string \<Rightarrow> string \<Rightarrow> ('d, string list) act" where
  "ChangedPaths git dir fr to =
     abind (git_run git dir [''diff'', ''--name-only'', ''--no-renames'', ''-z'', fr, to])
       (\<lambda>out. areturn (filter (\<lambda>p. length p > 0) (split_on (CHR 0x00) out)))"

record apply_options =
  ap_ThreeWay :: bool
  ap_Check :: bool

definition repo_Apply :: "'d git_binary \<Rightarrow> string \<Rightarrow> bytes \<Rightarrow> apply_options \<Rightarrow> ('d, unit) act" where
  "repo_Apply git dir patch o' d =
     (case git_stdin git dir patch
        ([''apply'', ''--whitespace=nowarn''] @ (if ap_ThreeWay o' then [''--3way''] else [])
          @ (if ap_Check o' then [''--check''] else [])) d of
        (Inl (GitFailure t), d') \<Rightarrow> (Inl (ErrConflictWith t), d')
      | (Inl e, d') \<Rightarrow> (Inl e, d')
      | (Inr _, d') \<Rightarrow> (Inr (), d'))"

definition isConflict :: "string \<Rightarrow> bool" where
  "isConflict t = (Contains t ''CONFLICT'' \<or> Contains t ''could not apply'' \<or> Contains t ''patch does not apply'')"

definition rebase_args :: "string \<Rightarrow> string \<Rightarrow> string \<Rightarrow> string list" where
  "rebase_args onto name email = [''-c'', ''user.name='' @ name, ''-c'', ''user.email='' @ email, ''rebase'', onto]"

definition repo_Rebase :: "'d git_binary \<Rightarrow> string \<Rightarrow> string \<Rightarrow> string \<Rightarrow> string \<Rightarrow> ('d, unit) act" where
  "repo_Rebase git dir onto name email d =
     (case git_run git dir (rebase_args onto name email) d of
        (Inr _, d') \<Rightarrow> (Inr (), d')
      | (Inl (ErrConflictWith t), d') \<Rightarrow> (Inl (ErrConflictWith t), d')
      | (Inl (GitFailure t), d') \<Rightarrow>
          (case git_run git dir [''rebase'', ''--abort''] d' of
             (Inl (GitFailure t'), d'') \<Rightarrow>
               if \<not> isConflict t then (Inl (GitFailure (t @ '' (and the abort failed: '' @ t' @ '')'')), d'')
               else (Inl (ErrConflictWith t), d'')
           | (_, d'') \<Rightarrow> (Inl (if isConflict t then ErrConflictWith t else GitFailure t), d'')))"

definition EmptyTree :: "'d git_binary \<Rightarrow> string \<Rightarrow> ('d, string) act" where
  "EmptyTree git dir d =
     (let (a, d') = git dir [''hash-object'', ''-t'', ''tree'', ''-w'', ''--stdin''] [] d
      in case ga_failure a of
           Some failure \<Rightarrow> (Inl (GitFailure (''git hash-object: '' @ fst failure @ '': '' @ TrimSpace (snd failure))), d')
         | None \<Rightarrow> (Inr (TrimSpace (ga_stdout a)), d'))"

text \<open>\<open>date\<close>: the formatted author date, if one is given.\<close>

definition commit_args :: "string \<Rightarrow> string \<Rightarrow> string \<Rightarrow> string option \<Rightarrow> string list" where
  "commit_args message name email date =
     [''-c'', ''user.name='' @ name, ''-c'', ''user.email='' @ email, ''commit'', ''--message'', message, ''--author'',
      name @ '' <'' @ email @ ''>''] @ (case date of None \<Rightarrow> [] | Some t \<Rightarrow> [''--date'', t])"

definition CommitAll :: "'d git_binary \<Rightarrow> string \<Rightarrow> string \<Rightarrow> string \<Rightarrow> string \<Rightarrow> string option \<Rightarrow> ('d, string) act" where
  "CommitAll git dir message name email date =
     abind (git_run git dir [''add'', ''--all'']) (\<lambda>_.
     abind (git_run git dir (commit_args message name email date)) (\<lambda>_.
       ResolveRef git dir ''HEAD''))"

definition push_args :: "string \<Rightarrow> string \<Rightarrow> string \<Rightarrow> string list" where
  "push_args remote branch expected =
     [''push''] @ (if expected \<noteq> [] then [''--force-with-lease='' @ branch @ '':'' @ expected] else [])
     @ [remote, ''HEAD:refs/heads/'' @ branch]"

definition repo_Push :: "'d git_binary \<Rightarrow> string \<Rightarrow> string \<Rightarrow> string \<Rightarrow> string \<Rightarrow> ('d, unit) act" where
  "repo_Push git dir remote branch expected = git_quiet git dir (push_args remote branch expected)"

subsection \<open>Mirrors\<close>

record 'd dir_ops =
  do_mkdir :: "string \<Rightarrow> 'd \<Rightarrow> (string + unit) \<times> 'd"
  do_remove :: "string \<Rightarrow> 'd \<Rightarrow> (string + unit) \<times> 'd"

definition dir_act :: "(string \<Rightarrow> 'd \<Rightarrow> (string + unit) \<times> 'd) \<Rightarrow> string \<Rightarrow> ('d, unit) act" where
  "dir_act f dir d = (case f dir d of (Inl t, d') \<Rightarrow> (Inl (GitFailure t), d') | (Inr _, d') \<Rightarrow> (Inr (), d'))"

definition git_Mirror :: "'d git_binary \<Rightarrow> 'd dir_ops \<Rightarrow> string \<Rightarrow> ('d, string) act" where
  "git_Mirror git os dir =
     abind (dir_act (do_mkdir os) dir) (\<lambda>_ d.
       case git_run git dir [''init'', ''--bare'', ''--quiet''] d of
         (Inl (GitFailure t), d') \<Rightarrow> (Inl (GitFailure (''git init --bare '' @ dir @ '': '' @ t)), d')
       | (Inl e, d') \<Rightarrow> (Inl e, d')
       | (Inr _, d') \<Rightarrow> (Inr dir, d'))"

definition mirror_Fetch :: "'d git_binary \<Rightarrow> string \<Rightarrow> string \<Rightarrow> string list \<Rightarrow> ('d, unit) act" where
  "mirror_Fetch git dir remote refspecs d =
     (case git_run git dir ([''fetch'', ''--prune'', ''--quiet'', remote]
        @ (if refspecs = [] then [''+refs/heads/*:refs/heads/*''] else refspecs)) d of
        (Inl _, d') \<Rightarrow> (Inl (GitFailure (''fetch into mirror '' @ dir @ '' failed'')), d')
      | (Inr _, d') \<Rightarrow> (Inr (), d'))"

definition AddWorktree :: "'d git_binary \<Rightarrow> string \<Rightarrow> string \<Rightarrow> string \<Rightarrow> ('d, string) act" where
  "AddWorktree git mirror dir commitish d =
     (case git_run git mirror [''worktree'', ''add'', ''--detach'', ''--quiet'', dir, commitish] d of
        (Inl (GitFailure t), d') \<Rightarrow> (Inl (GitFailure (''git worktree add '' @ dir @ '': '' @ t)), d')
      | (Inl e, d') \<Rightarrow> (Inl e, d')
      | (Inr _, d') \<Rightarrow> git_Open git dir d')"

definition RemoveWorktree :: "'d git_binary \<Rightarrow> 'd dir_ops \<Rightarrow> string \<Rightarrow> string \<Rightarrow> ('d, unit) act" where
  "RemoveWorktree git os mirror dir d =
     (let (removed, d1) = git_run git mirror [''worktree'', ''remove'', ''--force'', dir] d
      in case dir_act (do_remove os) dir d1 of
           (Inl e, d2) \<Rightarrow> (Inl e, d2)
         | (Inr _, d2) \<Rightarrow>
             (case (git_run git mirror [''worktree'', ''prune''] d2, removed) of
                ((Inl _, d3), Inl (GitFailure t)) \<Rightarrow> (Inl (GitFailure (''worktree remove and prune both failed: '' @ t)), d3)
              | ((Inl _, d3), Inl e) \<Rightarrow> (Inl e, d3)
              | ((_, d3), _) \<Rightarrow> (Inr (), d3)))"

subsection \<open>A checkout of a developer\<close>

definition runGitInit :: "'d git_binary \<Rightarrow> string \<Rightarrow> string \<Rightarrow> ('d, unit) act" where
  "runGitInit git dir branch =
     abind (git_run git dir [''init'', ''--initial-branch='' @ (if branch = [] then ''main'' else branch), ''.'']) (\<lambda>_.
     abind (git_run git dir [''config'', ''user.name'', ''nit'']) (\<lambda>_.
       git_quiet git dir [''config'', ''user.email'', ''nit@localhost'']))"

subsection \<open>Forges (\<open>pkg/forge\<close>)\<close>

text \<open>
  Parsing a URL, and printing it with a user name and password set, are parameters. Every driver in the repository is the
  generic one, under some key.
\<close>

record forge_credentials =
  fc_Token :: string
  fc_Username :: string

record url_lib =
  ul_valid :: "string \<Rightarrow> bool"
  ul_with_user :: "string \<Rightarrow> string \<Rightarrow> string \<Rightarrow> string"

datatype forge_error = NoRemote | InvalidRemote | NoBranchHead string | NoDefaultBranch string

datatype generic = Generic (forge_Key: string)

definition NewGeneric :: "string \<Rightarrow> generic" where
  "NewGeneric key = Generic (if key = [] then ''generic'' else key)"

definition AuthenticatedRemote :: "url_lib \<Rightarrow> string \<Rightarrow> forge_credentials \<Rightarrow> forge_error + string" where
  "AuthenticatedRemote ul remote creds =
     (if remote = [] then Inl NoRemote
      else if \<not> prefix ''http://'' remote \<and> \<not> prefix ''https://'' remote then Inr remote
      else if fc_Token creds = [] then Inr remote
      else if \<not> ul_valid ul remote then Inl InvalidRemote
      else Inr (ul_with_user ul remote (if fc_Username creds = [] then ''x-access-token'' else fc_Username creds) (fc_Token creds)))"

definition forge_BranchHead :: "generic \<Rightarrow> forge_error + string" where
  "forge_BranchHead g = Inl (NoBranchHead (forge_Key g))"

definition forge_DefaultBranch :: "generic \<Rightarrow> forge_error + string" where
  "forge_DefaultBranch g = Inl (NoDefaultBranch (forge_Key g))"

record forge_registry =
  fr_drivers :: "(string \<times> generic) list"
  fr_fallback :: generic

definition NewForgeRegistry :: "generic list \<Rightarrow> forge_registry" where
  "NewForgeRegistry drivers = \<lparr>fr_drivers = fold (\<lambda>g m. AList.update (forge_Key g) g m) drivers [], fr_fallback = NewGeneric ''generic''\<rparr>"

definition forge_Get :: "forge_registry \<Rightarrow> string \<Rightarrow> generic" where
  "forge_Get r kind = (case map_of (fr_drivers r) kind of Some g \<Rightarrow> g | None \<Rightarrow> fr_fallback r)"

lemma forge_drivers_keyed:
  "map_of (fold (\<lambda>g m. AList.update (forge_Key g) g m) ds m) k = Some g \<Longrightarrow> \<forall>k g. map_of m k = Some g \<longrightarrow> forge_Key g = k
    \<Longrightarrow> forge_Key g = k"
proof (induction ds arbitrary: m)
  case (Cons a ds)
  have "\<forall>k g. map_of (AList.update (forge_Key a) a m) k = Some g \<longrightarrow> forge_Key g = k"
    using Cons.prems(2) by (simp add: map_of_update)
  from Cons.IH[OF _ this] Cons.prems(1) show ?case by simp
qed simp

text \<open>A key resolves to the driver registered under it, or to the fallback: there is always one.\<close>

lemma forge_Get_key: "forge_Key (forge_Get (NewForgeRegistry ds) kind) \<in> {kind, ''generic''}"
proof (cases "map_of (fr_drivers (NewForgeRegistry ds)) kind")
  case (Some g)
  then have "forge_Key g = kind" using forge_drivers_keyed[of ds "[]" kind g] by (simp add: NewForgeRegistry_def)
  then show ?thesis using Some by (simp add: forge_Get_def)
qed (simp add: forge_Get_def NewForgeRegistry_def NewGeneric_def)

text \<open>Only a remote that is an HTTP or HTTPS address is given a token; the address need not be an HTTPS one.\<close>

lemma token_only_over_http:
  "AuthenticatedRemote ul remote creds = Inr r \<Longrightarrow> r \<noteq> remote \<Longrightarrow> prefix ''http://'' remote \<or> prefix ''https://'' remote"
  by (auto simp: AuthenticatedRemote_def split: if_splits)

lemma token_over_plain_http:
  "fc_Token creds \<noteq> [] \<Longrightarrow> fc_Username creds = [] \<Longrightarrow> ul_valid ul (''http://'' @ rest) \<Longrightarrow>
   AuthenticatedRemote ul (''http://'' @ rest) creds = Inr (ul_with_user ul (''http://'' @ rest) ''x-access-token'' (fc_Token creds))"
  by (simp add: AuthenticatedRemote_def)

subsection \<open>What errors disclose, and what a failure leaves\<close>

lemma abind_Inr:
  "abind m f d = (Inr y, d') \<longleftrightarrow> (\<exists>x d1. m d = (Inr x, d1) \<and> f x d1 = (Inr y, d'))"
  by (auto simp: abind_def split: prod.splits sum.splits)

lemma git_stdin_Inl: "git_stdin git dir stdin args d = (Inl e, d') \<Longrightarrow> \<exists>failure. e = GitFailure (error_text args failure)"
  by (auto simp: git_stdin_def Let_def split: prod.splits option.splits)

lemma git_run_Inl: "git_run git dir args d = (Inl e, d') \<Longrightarrow> \<exists>failure. e = GitFailure (error_text args failure)"
  unfolding git_run_def by (rule git_stdin_Inl)

text \<open>
  The remote of a fetch carries a credential, and git quotes it. Whatever git says, the error of a fetch into a
  mirror is the same for every remote: it names the mirror and nothing else.
\<close>

theorem mirror_fetch_hides_remote:
  assumes "mirror_Fetch git dir remote refspecs d = (Inl e, d1)" "mirror_Fetch git' dir remote' refspecs' d' = (Inl e', d1')"
  shows "e = e' \<and> e = GitFailure (''fetch into mirror '' @ dir @ '' failed'')"
  using assms by (auto simp: mirror_Fetch_def split: prod.splits sum.splits)

text \<open>The error of a push does quote it; the worker replaces that error by its own.\<close>

lemma push_quotes_remote:
  assumes "repo_Push git dir remote branch expected d = (Inl e, d')"
  shows "\<exists>failure pre post. e = GitFailure (pre @ remote @ post) \<and> e = GitFailure (error_text (push_args remote branch expected) failure)"
proof -
  obtain failure where e: "e = GitFailure (error_text (push_args remote branch expected) failure)"
    using assms git_run_Inl unfolding repo_Push_def git_quiet_def abind_def areturn_def
    by (force split: prod.splits sum.splits)
  have "\<exists>pre post. join_with '' '' (push_args remote branch expected) = pre @ remote @ post"
  proof (cases "expected = []")
    case True
    then have "join_with '' '' (push_args remote branch expected) = ''push '' @ remote @ ('' HEAD:refs/heads/'' @ branch)"
      by (simp add: push_args_def)
    then show ?thesis by blast
  next
    case False
    then have "join_with '' '' (push_args remote branch expected)
        = (''push --force-with-lease='' @ branch @ '':'' @ expected @ '' '') @ remote @ ('' HEAD:refs/heads/'' @ branch)"
      by (simp add: push_args_def)
    then show ?thesis by blast
  qed
  then obtain pre post where "join_with '' '' (push_args remote branch expected) = pre @ remote @ post" by blast
  then have "e = GitFailure ((''git '' @ pre) @ remote @ (post @ '': '' @ fst failure @ '': '' @ TrimSpace (snd failure)))"
    by (simp add: e error_text_def)
  then show ?thesis using e by blast
qed

text \<open>
  A rebase that fails has been aborted: the last command run on the disk is the abort. It is reported as a
  conflict exactly when git's own message says so.
\<close>

theorem failed_rebase_is_aborted:
  assumes "repo_Rebase git dir onto name email d = (Inl e, d')"
  shows "\<exists>failure d1. git_run git dir (rebase_args onto name email) d = (Inl (GitFailure (error_text (rebase_args onto name email) failure)), d1)
    \<and> d' = snd (git_run git dir [''rebase'', ''--abort''] d1)
    \<and> ((\<exists>t. e = ErrConflictWith t) \<longleftrightarrow> isConflict (error_text (rebase_args onto name email) failure))"
proof (cases "git_run git dir (rebase_args onto name email) d")
  case (Pair r d1)
  obtain x where x: "r = Inl x" using assms Pair by (cases r) (auto simp: repo_Rebase_def)
  then obtain failure where f: "x = GitFailure (error_text (rebase_args onto name email) failure)"
    using git_run_Inl[of git dir "rebase_args onto name email" d x d1] Pair by auto
  obtain r' d2 where ab: "git_run git dir [''rebase'', ''--abort''] d1 = (r', d2)" by fastforce
  have ga: "\<exists>t. y = GitFailure t" if "r' = Inl y" for y
    using git_run_Inl[of git dir "[''rebase'', ''--abort'']" d1 y d2] ab that by auto
  have "d' = d2 \<and> ((\<exists>t. e = ErrConflictWith t) \<longleftrightarrow> isConflict (error_text (rebase_args onto name email) failure))"
    using assms Pair x f ab ga unfolding repo_Rebase_def by (auto split: sum.splits gitx_error.splits if_splits)
  then show ?thesis using Pair x f ab by (intro exI[of _ failure] exI[of _ d1]) simp
qed

text \<open>A commit that is reported is what \<open>HEAD\<close> names after the commit command succeeded.\<close>

lemma CommitAll_head:
  assumes "CommitAll git dir message name email date d = (Inr commit, d')"
  shows "\<exists>d2. ResolveRef git dir ''HEAD'' d2 = (Inr commit, d')
    \<and> (\<exists>d1 out. git_run git dir (commit_args message name email date) d1 = (Inr out, d2))"
  using assms by (auto simp: CommitAll_def abind_Inr)

end
