(* ===== verification/Nit_Workspace.thy ===== *)
theory Nit_Workspace
  imports Nit_Git
begin

text \<open>
  A developer's checkout (\<open>internal/workspace/workspace.go\<close>) and its credentials (\<open>credentials.go\<close>). The desk of a developer is
  the disk git works on and the files nit itself writes below \<open>.nit/\<close>; the JSON codec and which paths can be written are
  parameters. Every operation returns the workspace value it leaves, since \<open>record\<close> changes it before saving.
\<close>

subsection \<open>State\<close>

definition Dir :: string where "Dir = ''.nit''"
definition StateFile :: string where "StateFile = ''state.json''"

record ws_state =
  ws_Server :: string
  ws_Repository :: string
  ws_Branch :: string
  ws_Workspace :: string
  ws_SyncToken :: string
  ws_LocalBase :: string

record opened =
  op_Root :: string
  op_State :: ws_state

record 'd desk =
  dsk_git :: 'd
  dsk_files :: "(string \<times> bytes) list"

record 'd tools =
  tk_git :: "'d git_binary"
  tk_encode :: "ws_state \<Rightarrow> bytes"
  tk_decode :: "bytes \<Rightarrow> ws_state option"
  tk_writable :: "string \<Rightarrow> bool"

datatype ws_error =
    ErrNotAWorkspace
  | ErrDirty "string list"
  | CorruptState
  | WsGit gitx_error
  | WsIO string
  | PatchRefused gitx_error
  | LocalConflict gitx_error
  | DetachedHead
  | NeverSynchronized

type_synonym ('d, 'a) wact = "opened \<Rightarrow> 'd desk \<Rightarrow> (ws_error + 'a) \<times> opened \<times> 'd desk"

definition ws_bind :: "('d, 'a) wact \<Rightarrow> ('a \<Rightarrow> ('d, 'b) wact) \<Rightarrow> ('d, 'b) wact" where
  "ws_bind m f w e = (case m w e of (Inl x, w', e') \<Rightarrow> (Inl x, w', e') | (Inr v, w', e') \<Rightarrow> f v w' e')"

definition ws_fail :: "ws_error \<Rightarrow> ('d, 'a) wact" where
  "ws_fail x w e = (Inl x, w, e)"

definition with_git :: "(gitx_error \<Rightarrow> ws_error) \<Rightarrow> ('d, 'a) act \<Rightarrow> ('d, 'a) wact" where
  "with_git wrap m w e =
     (case m (dsk_git e) of
        (Inl x, d) \<Rightarrow> (Inl (wrap x), w, e\<lparr>dsk_git := d\<rparr>)
      | (Inr v, d) \<Rightarrow> (Inr v, w, e\<lparr>dsk_git := d\<rparr>))"

text \<open>The git of the workspace, in its root.\<close>

definition here :: "'d tools \<Rightarrow> (gitx_error \<Rightarrow> ws_error) \<Rightarrow> ('d git_binary \<Rightarrow> string \<Rightarrow> ('d, 'a) act) \<Rightarrow> ('d, 'a) wact" where
  "here tk wrap op w = with_git wrap (op (tk_git tk) (op_Root w)) w"

definition state_path :: "string \<Rightarrow> string" where
  "state_path root = path_Join [path_Join [root, Dir], StateFile]"

definition ws_Save :: "'d tools \<Rightarrow> ('d, unit) wact" where
  "ws_Save tk w e =
     (let dir = path_Join [op_Root w, Dir];
          tmp = path_Join [dir, StateFile @ ''.tmp''];
          file = path_Join [dir, StateFile];
          content = tk_encode tk (op_State w) @ [CHR 0x0A]
      in if \<not> tk_writable tk dir then (Inl (WsIO dir), w, e)
         else if \<not> tk_writable tk tmp then (Inl (WsIO tmp), w, e)
         else if \<not> tk_writable tk file then (Inl (WsIO file), w, e\<lparr>dsk_files := AList.update tmp content (dsk_files e)\<rparr>)
         else (Inr (), w, e\<lparr>dsk_files := AList.update file content (AList.delete tmp (dsk_files e))\<rparr>))"

text \<open>
  The files are keyed by the path as given, as a process that does not change its directory names them; the
  theorems about finding a workspace again take an absolute root.
\<close>

definition ws_Init :: "'d tools \<Rightarrow> string \<Rightarrow> ws_state \<Rightarrow> 'd desk \<Rightarrow> (ws_error + unit) \<times> opened \<times> 'd desk" where
  "ws_Init tk root st e =
     (let w = \<lparr>op_Root = root, op_State = st\<rparr>
      in if \<not> tk_writable tk root then (Inl (WsIO root), w, e)
         else ws_bind (here tk WsGit (\<lambda>git dir. runGitInit git dir (ws_Branch st))) (\<lambda>_.
              ws_bind (here tk WsGit git_Open) (\<lambda>_.
              ws_bind (ws_Save tk) (\<lambda>_ w e.
                let ignore = path_Join [root, Dir, ''.gitignore'']
                in if \<not> tk_writable tk ignore then (Inl (WsIO ignore), w, e)
                   else (Inr (), w, e\<lparr>dsk_files := AList.update ignore [CHR ''*'', CHR 0x0A] (dsk_files e)\<rparr>)))) w e)"

subsection \<open>Finding a workspace\<close>

definition absolute_path :: "string list \<Rightarrow> string" where
  "absolute_path segs = ''/'' @ join_with ''/'' segs"

text \<open>From the segments of a path, last first: the path itself, then its parents up to the root.\<close>

fun walk_up :: "(string \<Rightarrow> bool) \<Rightarrow> string list \<Rightarrow> string option" where
  "walk_up marked [] = (if marked (absolute_path []) then Some (absolute_path []) else None)"
| "walk_up marked (s # up) =
     (if marked (absolute_path (rev (s # up))) then Some (absolute_path (rev (s # up))) else walk_up marked up)"

definition has_state :: "(string \<times> bytes) list \<Rightarrow> string \<Rightarrow> bool" where
  "has_state files p = (map_of files (path_Join [p, Dir, StateFile]) \<noteq> None)"

definition findRoot :: "(string \<times> bytes) list \<Rightarrow> string \<Rightarrow> string \<Rightarrow> ws_error + string" where
  "findRoot files cwd dir =
     (case walk_up (has_state files) (rev (clean_segments (path_Abs cwd dir))) of
        None \<Rightarrow> Inl ErrNotAWorkspace
      | Some root \<Rightarrow> Inr root)"

definition loadState :: "'d tools \<Rightarrow> (string \<times> bytes) list \<Rightarrow> string \<Rightarrow> ws_error + ws_state" where
  "loadState tk files root =
     (case map_of files (path_Join [root, Dir, StateFile]) of
        None \<Rightarrow> Inl ErrNotAWorkspace
      | Some content \<Rightarrow> (case tk_decode tk content of None \<Rightarrow> Inl CorruptState | Some st \<Rightarrow> Inr st))"

definition ws_Open :: "'d tools \<Rightarrow> string \<Rightarrow> string \<Rightarrow> 'd desk \<Rightarrow> (ws_error + opened) \<times> 'd desk" where
  "ws_Open tk cwd dir e =
     (case findRoot (dsk_files e) cwd dir of
        Inl x \<Rightarrow> (Inl x, e)
      | Inr root \<Rightarrow>
          (case loadState tk (dsk_files e) root of
             Inl x \<Rightarrow> (Inl x, e)
           | Inr st \<Rightarrow>
               (case git_Open (tk_git tk) root (dsk_git e) of
                  (Inl x, d) \<Rightarrow> (Inl (WsGit x), e\<lparr>dsk_git := d\<rparr>)
                | (Inr _, d) \<Rightarrow> (Inr \<lparr>op_Root = root, op_State = st\<rparr>, e\<lparr>dsk_git := d\<rparr>))))"

subsection \<open>Synchronizing\<close>

definition nl :: string where "nl = [CHR 0x0A]"

definition SyncMessage :: "opened \<Rightarrow> string \<Rightarrow> string \<Rightarrow> string" where
  "SyncMessage w upstreamCommit policyVersion =
     ''nit: sync '' @ ws_Repository (op_State w) @ ''@'' @ ws_Branch (op_State w) @ nl @ nl
     @ ''Nit-Upstream-Commit: '' @ upstreamCommit @ nl
     @ (if policyVersion \<noteq> [] then ''Nit-Policy-Version: '' @ policyVersion @ nl else [])
     @ ''Nit-Workspace: '' @ ws_Workspace (op_State w) @ nl"

definition applyAndCommit :: "'d tools \<Rightarrow> bytes \<Rightarrow> string \<Rightarrow> string \<Rightarrow> ('d, string) wact" where
  "applyAndCommit tk patch upstreamCommit policyVersion =
     ws_bind (if length patch > 0
            then here tk PatchRefused (\<lambda>git dir. repo_Apply git dir patch \<lparr>ap_ThreeWay = False, ap_Check = False\<rparr>)
            else (\<lambda>w e. (Inr (), w, e))) (\<lambda>_ w.
       here tk WsGit (\<lambda>git dir. CommitAll git dir (SyncMessage w upstreamCommit policyVersion) ''nit'' ''nit@localhost'' None) w)"

definition record_sync :: "'d tools \<Rightarrow> string \<Rightarrow> string \<Rightarrow> ('d, unit) wact" where
  "record_sync tk localBase nxt w =
     ws_Save tk (w\<lparr>op_State := (op_State w)\<lparr>ws_SyncToken := nxt, ws_LocalBase := localBase\<rparr>\<rparr>)"

definition currentBranch :: "'d tools \<Rightarrow> ('d, string) wact" where
  "currentBranch tk =
     ws_bind (here tk WsGit (\<lambda>git dir. git_run git dir [''rev-parse'', ''--abbrev-ref'', ''HEAD''])) (\<lambda>out w e.
       if TrimSpace out = ''HEAD'' then (Inl DetachedHead, w, e) else (Inr (TrimSpace out), w, e))"

text \<open>\<open>head\<close> is empty when \<open>HEAD\<close> does not resolve.\<close>

definition current_head :: "'d tools \<Rightarrow> ('d, string) wact" where
  "current_head tk w e =
     (case here tk WsGit (\<lambda>git dir. ResolveRef git dir ''HEAD'') w e of
        (Inl _, w', e') \<Rightarrow> (Inr [], w', e')
      | r \<Rightarrow> r)"

definition git_here :: "'d tools \<Rightarrow> string list \<Rightarrow> ('d, unit) wact" where
  "git_here tk args = here tk WsGit (\<lambda>git dir. git_quiet git dir args)"

text \<open>A command whose outcome is ignored.\<close>

definition try_git :: "'d tools \<Rightarrow> string list \<Rightarrow> opened \<Rightarrow> 'd desk \<Rightarrow> 'd desk" where
  "try_git tk args w e = snd (snd (git_here tk args w e))"

definition replay :: "'d tools \<Rightarrow> string \<Rightarrow> string \<Rightarrow> string \<Rightarrow> ('d, unit) wact" where
  "replay tk sync base branch w e =
     (case here tk LocalConflict (\<lambda>git dir. git_quiet git dir [''rebase'', ''--onto'', sync, base, branch]) w e of
        (Inl x, w', e') \<Rightarrow> (Inl x, w', try_git tk [''rebase'', ''--abort''] w' e')
      | r \<Rightarrow> r)"

definition apply_detached :: "'d tools \<Rightarrow> bytes \<Rightarrow> string \<Rightarrow> string \<Rightarrow> string \<Rightarrow> ('d, string) wact" where
  "apply_detached tk patch upstreamCommit policyVersion branch w e =
     (case applyAndCommit tk patch upstreamCommit policyVersion w e of
        (Inl x, w', e') \<Rightarrow> (Inl x, w', try_git tk [''checkout'', ''--quiet'', ''--force'', branch] w' e')
      | r \<Rightarrow> r)"

definition ApplySync :: "'d tools \<Rightarrow> bytes \<Rightarrow> string \<Rightarrow> string \<Rightarrow> string \<Rightarrow> ('d, unit) wact" where
  "ApplySync tk patch upstreamCommit policyVersion nxt =
     ws_bind (current_head tk) (\<lambda>head w.
       let base = ws_LocalBase (op_State w)
       in if base = [] \<or> head = [] \<or> head = base
          then ws_bind (applyAndCommit tk patch upstreamCommit policyVersion) (\<lambda>sync. record_sync tk sync nxt) w
          else ws_bind (currentBranch tk) (\<lambda>branch.
               ws_bind (git_here tk [''checkout'', ''--quiet'', ''--detach'', base]) (\<lambda>_.
               ws_bind (apply_detached tk patch upstreamCommit policyVersion branch) (\<lambda>sync.
               ws_bind (git_here tk [''checkout'', ''--quiet'', branch]) (\<lambda>_.
               ws_bind (replay tk sync base branch) (\<lambda>_.
                 record_sync tk sync nxt))))) w)"

definition RecordPush :: "'d tools \<Rightarrow> string \<Rightarrow> ('d, unit) wact" where
  "RecordPush tk nxt =
     ws_bind (here tk WsGit (\<lambda>git dir. ResolveRef git dir ''HEAD'')) (\<lambda>head. record_sync tk head nxt)"

definition ws_Diff :: "'d tools \<Rightarrow> ('d, bytes) wact" where
  "ws_Diff tk w =
     (if ws_LocalBase (op_State w) = [] then ws_fail NeverSynchronized w
      else ws_bind (here tk WsGit (\<lambda>git dir. ResolveRef git dir ''HEAD'')) (\<lambda>head w.
             if head = ws_LocalBase (op_State w) then (\<lambda>e. (Inr [], w, e))
             else here tk WsGit (\<lambda>git dir. repo_Diff git dir (ws_LocalBase (op_State w)) head) w) w)"

definition dirtyPaths :: "'d tools \<Rightarrow> ('d, string list) wact" where
  "dirtyPaths tk =
     ws_bind (here tk WsGit (\<lambda>git dir. git_run git dir [''status'', ''--porcelain'', ''--untracked-files=normal''])) (\<lambda>out w e.
       (Inr (filter (\<lambda>l. l \<noteq> []) (map TrimSpace (split_on (CHR 0x0A) (TrimSpace out)))), w, e))"

definition EnsureClean :: "'d tools \<Rightarrow> ('d, unit) wact" where
  "EnsureClean tk =
     ws_bind (dirtyPaths tk) (\<lambda>dirty w e.
       if length dirty = 0 then (Inr (), w, e)
       else (Inl (ErrDirty (if length dirty > 5 then take 5 dirty else dirty)), w, e))"

definition ws_Dirty :: "'d tools \<Rightarrow> ('d, bool) wact" where
  "ws_Dirty tk = ws_bind (dirtyPaths tk) (\<lambda>dirty w e. (Inr (length dirty > 0), w, e))"

subsection \<open>Credentials\<close>

record credentials =
  cr_Tokens :: "(string \<times> string) list"
  cr_path :: string

datatype credentials_error = NoHome | CorruptCredentials string | UnreadableCredentials string | ErrNoCredentials string | CredentialsIO string

definition CredentialsFile :: string where "CredentialsFile = ''credentials.json''"

definition CredentialsPath :: "(string \<Rightarrow> string) \<Rightarrow> string option \<Rightarrow> credentials_error + string" where
  "CredentialsPath env home =
     (if env ''NIT_CONFIG_DIR'' \<noteq> [] then Inr (path_Join [env ''NIT_CONFIG_DIR'', CredentialsFile])
      else case home of None \<Rightarrow> Inl NoHome | Some h \<Rightarrow> Inr (path_Join [h, ''.nit'', CredentialsFile]))"

definition normalizeServer :: "string \<Rightarrow> string" where
  "normalizeServer server = trim_right_slash (TrimSpace server)"

text \<open>
  \<open>dec\<close> decodes the file into the token map; a file without one gives an empty map. \<open>can_read\<close> fails where reading
  the path fails for another reason than that there is no file.
\<close>

definition LoadCredentials ::
  "(bytes \<Rightarrow> (string \<times> string) list option) \<Rightarrow> (string \<Rightarrow> bool) \<Rightarrow> (string \<Rightarrow> string) \<Rightarrow> string option \<Rightarrow>
     (string \<times> bytes) list \<Rightarrow> credentials_error + credentials" where
  "LoadCredentials dec can_read env home files =
     rbind (CredentialsPath env home) (\<lambda>path.
       if \<not> can_read path then Inl (UnreadableCredentials path)
       else case map_of files path of
         None \<Rightarrow> Inr \<lparr>cr_Tokens = [], cr_path = path\<rparr>
       | Some content \<Rightarrow>
           (case dec content of
              None \<Rightarrow> Inl (CorruptCredentials path)
            | Some tokens \<Rightarrow> Inr \<lparr>cr_Tokens = tokens, cr_path = path\<rparr>))"

definition cr_Token :: "credentials \<Rightarrow> string \<Rightarrow> credentials_error + string" where
  "cr_Token c server =
     (case map_of (cr_Tokens c) (normalizeServer server) of
        None \<Rightarrow> Inl (ErrNoCredentials server)
      | Some token \<Rightarrow> if token = [] then Inl (ErrNoCredentials server) else Inr token)"

definition cr_Set :: "string \<Rightarrow> string \<Rightarrow> credentials \<Rightarrow> credentials" where
  "cr_Set server token c = c\<lparr>cr_Tokens := AList.update (normalizeServer server) token (cr_Tokens c)\<rparr>"

definition cr_Remove :: "string \<Rightarrow> credentials \<Rightarrow> credentials" where
  "cr_Remove server c = c\<lparr>cr_Tokens := AList.delete (normalizeServer server) (cr_Tokens c)\<rparr>"

text \<open>Opening and writing the temporary file, and the rename, succeed where the path is writable.\<close>

definition cr_Save ::
  "((string \<times> string) list \<Rightarrow> bytes) \<Rightarrow> (string \<Rightarrow> bool) \<Rightarrow> (string \<Rightarrow> string) \<Rightarrow> string option \<Rightarrow> credentials \<Rightarrow> (string \<times> bytes) list \<Rightarrow>
     (credentials_error + unit) \<times> (string \<times> bytes) list" where
  "cr_Save enc writable env home c files =
     (case (if cr_path c = [] then CredentialsPath env home else Inr (cr_path c)) of
        Inl e \<Rightarrow> (Inl e, files)
      | Inr path \<Rightarrow>
          let tmp = path @ ''.tmp''; content = enc (cr_Tokens c) @ nl
          in if \<not> writable tmp then (Inl (CredentialsIO tmp), files)
             else if \<not> writable path then (Inl (CredentialsIO path), AList.update tmp content files)
             else (Inr (), AList.update path content (AList.delete tmp files)))"

subsection \<open>What a step leaves alone\<close>

text \<open>Steps that only run git keep the workspace value and the files of nit.\<close>

definition frame :: "('d, 'a) wact \<Rightarrow> bool" where
  "frame m \<longleftrightarrow> (\<forall>w e. fst (snd (m w e)) = w \<and> dsk_files (snd (snd (m w e))) = dsk_files e)"

lemma frameD: "frame m \<Longrightarrow> m w e = (r, w', e') \<Longrightarrow> w' = w \<and> dsk_files e' = dsk_files e"
  by (metis frame_def fst_conv snd_conv)

lemma frame_here [intro, simp]: "frame (here tk wrap op)"
  by (simp add: frame_def here_def with_git_def split: prod.split sum.split)

lemma frame_return [intro, simp]: "frame (\<lambda>w e. (Inr v, w, e))"
  by (simp add: frame_def)

lemma frame_wbind [intro]:
  assumes "frame m" "\<And>v. frame (f v)"
  shows "frame (ws_bind m f)"
  using assms by (simp add: frame_def ws_bind_def split: prod.split sum.split) (metis fst_conv snd_conv)

lemma frame_git_here [intro, simp]: "frame (git_here tk args)"
  by (simp add: git_here_def)

lemma frame_try_git [simp]: "dsk_files (try_git tk args w e) = dsk_files e"
  using frame_git_here[of tk args] by (simp add: frame_def try_git_def)

lemma frame_applyAndCommit [intro, simp]: "frame (applyAndCommit tk patch up pv)"
proof -
  have "frame (\<lambda>w. here tk WsGit (\<lambda>git dir. CommitAll git dir (SyncMessage w up pv) ''nit'' ''nit@localhost'' None) w)"
    by (simp add: frame_def here_def with_git_def split: prod.split sum.split)
  then show ?thesis unfolding applyAndCommit_def by (intro frame_wbind) simp_all
qed

lemma frame_currentBranch [intro, simp]: "frame (currentBranch tk)"
  unfolding currentBranch_def by (rule frame_wbind[OF frame_here]) (simp add: frame_def)

lemma frame_catch:
  assumes "frame m" "\<And>w e. dsk_files (g w e) = dsk_files e"
    and "\<And>w e. h w e = (case m w e of (Inl x, w', e') \<Rightarrow> (k x, w', g w' e') | r \<Rightarrow> r)"
  shows "frame h"
proof -
  have "fst (snd (h w e)) = w \<and> dsk_files (snd (snd (h w e))) = dsk_files e" for w e
  proof (cases "m w e")
    case (fields q w1 e1)
    then show ?thesis using frameD[OF assms(1) fields] assms(2) by (cases q) (simp_all add: assms(3))
  qed
  then show ?thesis by (simp add: frame_def)
qed

lemma frame_current_head [intro, simp]: "frame (current_head tk)"
  by (rule frame_catch[OF frame_here, where g = "\<lambda>w e. e"]) (auto simp: current_head_def)

lemma frame_replay [intro, simp]: "frame (replay tk sync base branch)"
  by (rule frame_catch[OF frame_here, where g = "try_git tk [''rebase'', ''--abort'']"]) (auto simp: replay_def)

lemma frame_apply_detached [intro, simp]: "frame (apply_detached tk patch up pv branch)"
  by (rule frame_catch[OF frame_applyAndCommit, where g = "try_git tk [''checkout'', ''--quiet'', ''--force'', branch]"])
    (auto simp: apply_detached_def)

lemma wbind_frame:
  assumes "frame m" "ws_bind m f w e = (r, w', e')"
  obtains x e1 where "m w e = (Inl x, w, e1)" "dsk_files e1 = dsk_files e" "(r, w', e') = (Inl x, w, e1)"
    | v e1 where "m w e = (Inr v, w, e1)" "dsk_files e1 = dsk_files e" "f v w e1 = (r, w', e')"
proof (cases "m w e")
  case (fields q w1 e1)
  have k: "w1 = w" "dsk_files e1 = dsk_files e" using frameD[OF assms(1) fields] by auto
  show ?thesis using that assms(2) fields k by (cases q) (auto simp: ws_bind_def)
qed

subsection \<open>The sync point moves last\<close>

lemma save_saved:
  assumes "ws_Save tk w e = (Inr (), w', e')"
  shows "w' = w \<and> dsk_git e' = dsk_git e \<and> map_of (dsk_files e') (state_path (op_Root w)) = Some (tk_encode tk (op_State w) @ nl)"
  using assms by (auto simp: ws_Save_def state_path_def nl_def Let_def map_of_update split: if_splits)

lemma save_keeps:
  assumes "ws_Save tk w e = (r, w', e')" "p \<noteq> state_path (op_Root w)" "p \<noteq> path_Join [path_Join [op_Root w, Dir], StateFile @ ''.tmp'']"
  shows "map_of (dsk_files e') p = map_of (dsk_files e) p"
  using assms by (auto simp: ws_Save_def state_path_def Let_def map_of_update delete_conv' restrict_map_def split: if_splits)

lemma save_failed:
  assumes "ws_Save tk w e = (Inl x, w', e')" "path_Join [path_Join [op_Root w, Dir], StateFile @ ''.tmp''] \<noteq> state_path (op_Root w)"
  shows "map_of (dsk_files e') (state_path (op_Root w)) = map_of (dsk_files e) (state_path (op_Root w))"
  using assms by (auto simp: ws_Save_def state_path_def Let_def map_of_update split: if_splits)

lemma tmp_path_differs: "path_Join [path_Join [root, Dir], StateFile @ ''.tmp''] \<noteq> state_path root"
proof -
  have p: "plain_segment StateFile" "plain_segment (StateFile @ ''.tmp'')" by (simp_all add: plain_segment_def StateFile_def)
  have "path_Join [root, Dir] \<noteq> []" by (simp add: path_Join_def path_Clean_def Dir_def Let_def)
  then show ?thesis using path_Join_inj[OF p(2,1)] by (auto simp: state_path_def)
qed

text \<open>The state as it stands in the file.\<close>

definition saved :: "'d desk \<Rightarrow> opened \<Rightarrow> bytes option" where
  "saved e w = map_of (dsk_files e) (state_path (op_Root w))"

definition at_sync :: "opened \<Rightarrow> string \<Rightarrow> string \<Rightarrow> opened" where
  "at_sync w sync nxt = w\<lparr>op_State := (op_State w)\<lparr>ws_SyncToken := nxt, ws_LocalBase := sync\<rparr>\<rparr>"

lemma record_sync_outcome:
  assumes "record_sync tk sync nxt w e = (r, w', e')"
  shows "w' = at_sync w sync nxt \<and> (if r = Inr () then saved e' w = Some (tk_encode tk (op_State w') @ nl) else saved e' w = saved e w)"
proof (cases r)
  case (Inl x)
  have "w' = at_sync w sync nxt" using assms by (auto simp: record_sync_def at_sync_def ws_Save_def Let_def split: if_splits)
  moreover have "saved e' w = saved e w"
    using save_failed[OF assms[unfolded record_sync_def Inl]] tmp_path_differs by (simp add: saved_def)
  ultimately show ?thesis by (simp add: Inl)
next
  case (Inr u)
  then have "ws_Save tk (at_sync w sync nxt) e = (Inr (), w', e')" using assms by (simp add: record_sync_def at_sync_def)
  from save_saved[OF this] show ?thesis by (simp add: Inr saved_def at_sync_def)
qed

definition kept :: "opened \<Rightarrow> 'd desk \<Rightarrow> ws_error + unit \<Rightarrow> opened \<Rightarrow> 'd desk \<Rightarrow> bool" where
  "kept w e r w' e' \<longleftrightarrow> w' = w \<and> saved e' w = saved e w \<and> (\<exists>x. r = Inl x)"

definition moved :: "'d tools \<Rightarrow> string \<Rightarrow> string \<Rightarrow> opened \<Rightarrow> 'd desk \<Rightarrow> ws_error + unit \<Rightarrow> opened \<Rightarrow> 'd desk \<Rightarrow> bool" where
  "moved tk sync nxt w e r w' e' \<longleftrightarrow> w' = at_sync w sync nxt
     \<and> (if r = Inr () then saved e' w = Some (tk_encode tk (op_State w') @ nl) else saved e' w = saved e w)"

lemma wbind_kept:
  assumes "frame m" "ws_bind m f w e = (r, w', e')"
  shows "kept w e r w' e' \<or> (\<exists>v e1. m w e = (Inr v, w, e1) \<and> saved e1 = saved e \<and> f v w e1 = (r, w', e'))"
  by (rule wbind_frame[OF assms]) (auto simp: kept_def saved_def fun_eq_iff)

lemma record_sync_moved:
  "record_sync tk sync nxt w e1 = (r, w', e') \<Longrightarrow> saved e1 = saved e \<Longrightarrow> moved tk sync nxt w e r w' e'"
  using record_sync_outcome[of tk sync nxt w e1 r w' e'] by (simp add: moved_def)

lemma kept_saved: "kept w e1 r w' e' \<Longrightarrow> saved e1 = saved e \<Longrightarrow> kept w e r w' e'"
  by (simp add: kept_def)

lemma apply_detached_Inr:
  "apply_detached tk patch up pv branch w e = (Inr sync, w', e') \<Longrightarrow> applyAndCommit tk patch up pv w e = (Inr sync, w', e')"
  by (auto simp: apply_detached_def split: prod.splits sum.splits)

lemma sync_in_place:
  assumes "ws_bind (applyAndCommit tk patch up pv) (\<lambda>sync. record_sync tk sync nxt) w e = (r, w', e')"
  shows "kept w e r w' e' \<or> (\<exists>sync e1. applyAndCommit tk patch up pv w e = (Inr sync, w, e1) \<and> moved tk sync nxt w e r w' e')"
  using wbind_kept[OF frame_applyAndCommit assms] record_sync_moved by blast

lemma sync_replayed:
  assumes "ws_bind (currentBranch tk) (\<lambda>branch.
      ws_bind (git_here tk [''checkout'', ''--quiet'', ''--detach'', base]) (\<lambda>_.
      ws_bind (apply_detached tk patch up pv branch) (\<lambda>sync.
      ws_bind (git_here tk [''checkout'', ''--quiet'', branch]) (\<lambda>_.
      ws_bind (replay tk sync base branch) (\<lambda>_. record_sync tk sync nxt))))) w e = (r, w', e')"
  shows "kept w e r w' e' \<or> (\<exists>sync e1 e2 branch e3 e4. applyAndCommit tk patch up pv w e1 = (Inr sync, w, e2)
    \<and> replay tk sync base branch w e3 = (Inr (), w, e4) \<and> moved tk sync nxt w e r w' e')"
proof (rule disjCI[THEN disj_commute[THEN iffD1]])
  assume nk: "\<not> kept w e r w' e'"
  obtain branch e1 where 1: "saved e1 = saved e" "ws_bind (git_here tk [''checkout'', ''--quiet'', ''--detach'', base]) (\<lambda>_.
      ws_bind (apply_detached tk patch up pv branch) (\<lambda>sync.
      ws_bind (git_here tk [''checkout'', ''--quiet'', branch]) (\<lambda>_.
      ws_bind (replay tk sync base branch) (\<lambda>_. record_sync tk sync nxt)))) w e1 = (r, w', e')"
    using wbind_kept[OF frame_currentBranch assms] nk by blast
  obtain e2 where 2: "saved e2 = saved e" "ws_bind (apply_detached tk patch up pv branch) (\<lambda>sync.
      ws_bind (git_here tk [''checkout'', ''--quiet'', branch]) (\<lambda>_.
      ws_bind (replay tk sync base branch) (\<lambda>_. record_sync tk sync nxt))) w e2 = (r, w', e')"
    using wbind_kept[OF frame_git_here 1(2)] nk kept_saved[OF _ 1(1)] 1(1) by auto
  obtain sync e3 where 3: "applyAndCommit tk patch up pv w e2 = (Inr sync, w, e3)" "saved e3 = saved e"
    "ws_bind (git_here tk [''checkout'', ''--quiet'', branch]) (\<lambda>_.
      ws_bind (replay tk sync base branch) (\<lambda>_. record_sync tk sync nxt)) w e3 = (r, w', e')"
    using wbind_kept[OF frame_apply_detached 2(2)] nk kept_saved[OF _ 2(1)] 2(1) by (auto dest: apply_detached_Inr)
  obtain e4 where 4: "saved e4 = saved e" "ws_bind (replay tk sync base branch) (\<lambda>_. record_sync tk sync nxt) w e4 = (r, w', e')"
    using wbind_kept[OF frame_git_here 3(3)] nk kept_saved[OF _ 3(2)] 3(2) by auto
  obtain e5 where 5: "replay tk sync base branch w e4 = (Inr (), w, e5)" "saved e5 = saved e" "record_sync tk sync nxt w e5 = (r, w', e')"
    using wbind_kept[OF frame_replay 4(2)] nk kept_saved[OF _ 4(1)] 4(1) by auto
  show "\<exists>sync e1 e2 branch e3 e4. applyAndCommit tk patch up pv w e1 = (Inr sync, w, e2)
    \<and> replay tk sync base branch w e3 = (Inr (), w, e4) \<and> moved tk sync nxt w e r w' e'"
    using 3(1) 5(1) record_sync_moved[OF 5(3,2)] by blast
qed

text \<open>
  The checkout never claims a state it does not have. Applying a delivered patch ends in one of two ways. Either
  it fails and neither the workspace value nor the state file has changed; or the patch was applied and committed,
  the developer's own commits were replayed onto that commit if there were any, and only then the new token was
  recorded together with that commit, and written to the file unless the write itself failed.
\<close>

theorem sync_point_moves_last:
  assumes "ApplySync tk patch up pv nxt w e = (r, w', e')" "current_head tk w e = (Inr head, w, e0)"
  shows "(w' = w \<and> saved e' w = saved e w \<and> (\<exists>x. r = Inl x))
    \<or> (\<exists>sync e1 e2. applyAndCommit tk patch up pv w e1 = (Inr sync, w, e2) \<and> w' = at_sync w sync nxt
        \<and> (if r = Inr () then saved e' w = Some (tk_encode tk (op_State w') @ nl) else saved e' w = saved e w)
        \<and> (head \<noteq> [] \<and> ws_LocalBase (op_State w) \<noteq> [] \<and> head \<noteq> ws_LocalBase (op_State w) \<longrightarrow>
            (\<exists>branch e3 e4. replay tk sync (ws_LocalBase (op_State w)) branch w e3 = (Inr (), w, e4))))"
proof -
  let ?base = "ws_LocalBase (op_State w)"
  have e0: "saved e0 = saved e" using frameD[OF frame_current_head assms(2)] by (simp add: fun_eq_iff saved_def)
  show ?thesis
  proof (cases "?base = [] \<or> head = [] \<or> head = ?base")
    case True
    then have "ws_bind (applyAndCommit tk patch up pv) (\<lambda>sync. record_sync tk sync nxt) w e0 = (r, w', e')"
      using assms by (simp add: ApplySync_def ws_bind_def)
    from sync_in_place[OF this] consider "kept w e0 r w' e'"
      | sync e1 where "applyAndCommit tk patch up pv w e0 = (Inr sync, w, e1)" "moved tk sync nxt w e0 r w' e'" by blast
    then show ?thesis
    proof cases
      case 2
      then show ?thesis using True by (intro disjI2 exI[of _ sync] exI[of _ e0] exI[of _ e1]) (auto simp: moved_def e0)
    qed (simp add: kept_def e0)
  next
    case False
    then have "ws_bind (currentBranch tk) (\<lambda>branch.
        ws_bind (git_here tk [''checkout'', ''--quiet'', ''--detach'', ?base]) (\<lambda>_.
        ws_bind (apply_detached tk patch up pv branch) (\<lambda>sync.
        ws_bind (git_here tk [''checkout'', ''--quiet'', branch]) (\<lambda>_.
        ws_bind (replay tk sync ?base branch) (\<lambda>_. record_sync tk sync nxt))))) w e0 = (r, w', e')"
      using assms unfolding ApplySync_def ws_bind_def[of "current_head tk"] by (simp add: Let_def)
    from sync_replayed[OF this] consider "kept w e0 r w' e'"
      | sync e1 e2 branch e3 e4 where "applyAndCommit tk patch up pv w e1 = (Inr sync, w, e2)"
          "replay tk sync ?base branch w e3 = (Inr (), w, e4)" "moved tk sync nxt w e0 r w' e'" by blast
    then show ?thesis
    proof cases
      case 2
      then have "\<exists>branch e3 e4. replay tk sync ?base branch w e3 = (Inr (), w, e4)" by blast
      with 2(1,3) show ?thesis by (intro disjI2 exI[of _ sync] exI[of _ e1] exI[of _ e2]) (auto simp: moved_def e0)
    qed (simp add: kept_def e0)
  qed
qed

subsection \<open>Nothing to apply\<close>

text \<open>
  Documented behaviour of git: \<open>rev-parse\<close> and \<open>status\<close> only read, staging a clean tree leaves it clean, and \<open>git commit\<close>
  without \<open>--allow-empty\<close> fails when there is nothing to commit.
\<close>

definition status_args :: "string list" where
  "status_args = [''status'', ''--porcelain'', ''--untracked-files=normal'']"

definition clean_tree :: "'d git_binary \<Rightarrow> string \<Rightarrow> 'd \<Rightarrow> bool" where
  "clean_tree git dir d \<longleftrightarrow> (\<exists>out d'. git_run git dir status_args d = (Inr out, d') \<and> TrimSpace out = [])"

definition git_reads :: "'d git_binary \<Rightarrow> bool" where
  "git_reads git \<longleftrightarrow> (\<forall>dir args stdin d. args \<noteq> [] \<and> hd args \<in> {''rev-parse'', ''status''} \<longrightarrow> snd (git dir args stdin d) = d)"

definition refuses_empty_commits :: "'d git_binary \<Rightarrow> bool" where
  "refuses_empty_commits git \<longleftrightarrow> (\<forall>dir d. clean_tree git dir d \<longrightarrow>
     clean_tree git dir (snd (git dir [''add'', ''--all''] [] d))
     \<and> (\<forall>m n em date. ga_failure (fst (git dir (commit_args m n em date) [] d)) \<noteq> None))"

lemma git_run_disk: "snd (git_run git dir args d) = snd (git dir args [] d)"
  by (simp add: git_run_def git_stdin_def Let_def split: prod.split option.split)

lemma current_head_reads:
  assumes "git_reads (tk_git tk)" "current_head tk w e = (r, w', e')"
  shows "dsk_git e' = dsk_git e"
proof -
  have "snd (ResolveRef (tk_git tk) (op_Root w) ''HEAD'' d) = d" for d
    using assms(1) git_run_disk[of "tk_git tk" "op_Root w" "[''rev-parse'', ''--verify'', ''HEAD^{commit}'']" d]
    by (auto simp: ResolveRef_def abind_def areturn_def git_reads_def split: prod.split sum.split)
  then show ?thesis using assms(2)
    by (auto simp: current_head_def here_def with_git_def split: prod.splits sum.splits) (metis snd_conv)+
qed

lemma empty_commit_refused:
  assumes "refuses_empty_commits git" "clean_tree git dir d"
  shows "\<exists>x d'. CommitAll git dir m n em date d = (Inl x, d')"
proof (cases "git_run git dir [''add'', ''--all''] d")
  case (Pair r d1)
  have "d1 = snd (git dir [''add'', ''--all''] [] d)" using git_run_disk[of git dir "[''add'', ''--all'']" d] Pair by simp
  then have "clean_tree git dir d1" using assms unfolding refuses_empty_commits_def by blast
  then have "ga_failure (fst (git dir (commit_args m n em date) [] d1)) \<noteq> None"
    using assms(1) unfolding refuses_empty_commits_def by blast
  then have "\<exists>x d2. git_run git dir (commit_args m n em date) d1 = (Inl x, d2)"
    by (auto simp: git_run_def git_stdin_def Let_def split: prod.split)
  then show ?thesis using Pair by (cases r) (auto simp: CommitAll_def abind_def)
qed

text \<open>
  Claim C39. A pull that delivers nothing fails. When the workspace has no commits of its own, its tree is clean and the server
  delivers no patch (it is up to date, or everything was withheld), the synchronization commit is empty, git
  refuses it, and the sync point does not move.
\<close>

theorem empty_sync_fails:
  assumes "git_reads (tk_git tk)" "refuses_empty_commits (tk_git tk)" "clean_tree (tk_git tk) (op_Root w) (dsk_git e)"
    and "current_head tk w e = (Inr (ws_LocalBase (op_State w)), w, e0)"
  shows "\<exists>x e'. ApplySync tk [] up pv nxt w e = (Inl (WsGit x), w, e') \<and> saved e' w = saved e w"
proof -
  have e0: "dsk_git e0 = dsk_git e" "dsk_files e0 = dsk_files e"
    using current_head_reads[OF assms(1,4)] frameD[OF frame_current_head assms(4)] by auto
  obtain x d' where "CommitAll (tk_git tk) (op_Root w) (SyncMessage w up pv) ''nit'' ''nit@localhost'' None (dsk_git e0) = (Inl x, d')"
    using empty_commit_refused[OF assms(2,3)] e0(1) by metis
  then have c: "applyAndCommit tk [] up pv w e0 = (Inl (WsGit x), w, e0\<lparr>dsk_git := d'\<rparr>)"
    by (simp add: applyAndCommit_def ws_bind_def here_def with_git_def)
  then have "ApplySync tk [] up pv nxt w e = (Inl (WsGit x), w, e0\<lparr>dsk_git := d'\<rparr>)"
    using assms(4) by (simp add: ApplySync_def ws_bind_def[of "current_head tk"] ws_bind_def[of "applyAndCommit tk [] up pv"])
  then show ?thesis using e0(2) by (auto simp: saved_def)
qed

subsection \<open>A commit made while a push waits\<close>

text \<open>
  The base of the next push. \<open>RecordPush\<close> takes whatever \<open>HEAD\<close> is when the push has landed, not the commit the patch was
  computed from: the next difference is empty, so a commit made in between is reported as nothing to push.
\<close>

theorem recorded_push_hides_later_commits:
  assumes "git_reads (tk_git tk)" "ResolveRef (tk_git tk) (op_Root w) ''HEAD'' (dsk_git e) = (Inr head, d)" "head \<noteq> []"
    and "RecordPush tk nxt w e = (Inr (), w', e')"
  shows "ws_LocalBase (op_State w') = head \<and> fst (ws_Diff tk w' e') = Inr []"
proof -
  have d: "d = dsk_git e"
    using assms(1,2) git_run_disk[of "tk_git tk" "op_Root w" "[''rev-parse'', ''--verify'', ''HEAD^{commit}'']" "dsk_git e"]
    by (auto simp: ResolveRef_def abind_def areturn_def git_reads_def split: prod.splits sum.splits)
  have "record_sync tk head nxt w e = (Inr (), w', e')"
    using assms(2,4) by (simp add: RecordPush_def ws_bind_def here_def with_git_def d)
  then have "w' = at_sync w head nxt" "dsk_git e' = dsk_git e"
    using record_sync_outcome[of tk head nxt w e "Inr ()" w' e'] save_saved[of tk "at_sync w head nxt" e w' e']
    by (simp_all add: record_sync_def at_sync_def)
  then show ?thesis using assms(2,3) d by (simp add: ws_Diff_def ws_bind_def here_def with_git_def at_sync_def)
qed

subsection \<open>Finding the workspace again\<close>

lemma walk_up_nearest:
  "walk_up marked up = Some p \<Longrightarrow> \<exists>n \<le> length up. p = absolute_path (rev (drop n up)) \<and> marked p
     \<and> (\<forall>m < n. \<not> marked (absolute_path (rev (drop m up))))"
proof (induction marked up rule: walk_up.induct)
  case (2 marked s up)
  show ?case
  proof (cases "marked (absolute_path (rev (s # up)))")
    case True
    then show ?thesis using 2 by (intro exI[of _ 0]) auto
  next
    case False
    then obtain n where n: "n \<le> length up" "p = absolute_path (rev (drop n up))" "marked p"
      "\<forall>m < n. \<not> marked (absolute_path (rev (drop m up)))" using 2 by auto
    have "\<not> marked (absolute_path (rev (drop m (s # up))))" if "m < Suc n" for m
      using that n(4) False by (cases m) auto
    then show ?thesis using n by (intro exI[of _ "Suc n"]) auto
  qed
qed (auto split: if_splits)

lemma walk_up_None: "walk_up marked up = None \<longleftrightarrow> (\<forall>n \<le> length up. \<not> marked (absolute_path (rev (drop n up))))"
proof (induction marked up rule: walk_up.induct)
  case (2 marked s up)
  have "(\<forall>n \<le> length (s # up). P (drop n (s # up))) \<longleftrightarrow> P (s # up) \<and> (\<forall>n \<le> length up. P (drop n up))" for P
    by (metis drop0 drop_Suc_Cons le0 length_Cons not0_implies_Suc Suc_le_mono)
  from this[of "\<lambda>x. \<not> marked (absolute_path (rev x))"] show ?case using 2 by auto
qed auto

lemma absolute_path_simps [simp]: "prefix ''/'' (absolute_path xs)" "absolute_path xs \<noteq> []"
  by (simp_all add: absolute_path_def)

lemma clean_step_plain: "plain_segment s \<Longrightarrow> clean_step r s st = s # st"
  by (auto simp: clean_step_def plain_segment_def)

lemma clean_fold_plain: "\<forall>x \<in> set xs. plain_segment x \<Longrightarrow> fold (clean_step r) xs st = rev xs @ st"
  by (induction xs arbitrary: st) (simp_all add: clean_step_plain)

lemma clean_segments_absolute:
  assumes "\<forall>x \<in> set xs. plain_segment x"
  shows "clean_segments (absolute_path xs) = xs"
proof (cases "xs = []")
  case True
  then show ?thesis by (simp add: absolute_path_def clean_segments_def clean_step_def)
next
  case False
  have "split_on (CHR ''/'') (join_with ''/'' xs) = xs" using False assms by (intro split_on_join) (auto simp: plain_segment_def)
  then have "split_on (CHR ''/'') (absolute_path xs) = [] # xs" by (simp add: absolute_path_def)
  then show ?thesis using assms by (simp add: clean_segments_def clean_fold_plain) (simp add: clean_step_def)
qed

lemma path_Clean_absolute: "\<forall>x \<in> set xs. plain_segment x \<Longrightarrow> path_Clean (absolute_path xs) = absolute_path xs"
  unfolding path_Clean_def by (simp add: clean_segments_absolute) (simp add: absolute_path_def)

lemma path_Clean_extend:
  assumes "\<forall>x \<in> set xs. plain_segment x" "plain_segment a"
  shows "path_Clean (absolute_path xs @ ''/'' @ a) = absolute_path (xs @ [a])"
proof -
  have "clean_segments (absolute_path xs @ ''/'' @ a) = xs @ [a]"
    by (simp only: clean_segments_snoc[OF assms(2) absolute_path_simps(2)] clean_segments_absolute[OF assms(1)])
  then show ?thesis by (simp add: path_Clean_def absolute_path_def)
qed

lemma path_Join_absolute:
  assumes "\<forall>x \<in> set xs. plain_segment x" "plain_segment a" "plain_segment b"
  shows "path_Join [absolute_path xs, a] = absolute_path (xs @ [a])"
    "path_Join [absolute_path xs, a, b] = absolute_path (xs @ [a, b])"
proof -
  have ne: "a \<noteq> []" "b \<noteq> []" using assms by (auto simp: plain_segment_def)
  show "path_Join [absolute_path xs, a] = absolute_path (xs @ [a])"
    using path_Clean_extend[OF assms(1,2)] ne by (simp add: path_Join_def)
  have "clean_segments ((absolute_path xs @ ''/'' @ a) @ ''/'' @ b) = xs @ [a] @ [b]"
    using clean_segments_snoc[OF assms(3), of "absolute_path xs @ ''/'' @ a"] clean_segments_snoc[OF assms(2) absolute_path_simps(2), of xs]
      clean_segments_absolute[OF assms(1)] by simp
  then have "path_Clean ((absolute_path xs @ ''/'' @ a) @ ''/'' @ b) = absolute_path (xs @ [a, b])"
    unfolding path_Clean_def by (simp add: absolute_path_def)
  then show "path_Join [absolute_path xs, a, b] = absolute_path (xs @ [a, b])" using ne by (simp add: path_Join_def)
qed

lemma nit_segments: "plain_segment Dir" "plain_segment StateFile" "plain_segment ''.gitignore''"
  by (simp_all add: plain_segment_def Dir_def StateFile_def)

lemma state_path_absolute:
  assumes "\<forall>x \<in> set xs. plain_segment x"
  shows "state_path (absolute_path xs) = path_Join [absolute_path xs, Dir, StateFile]"
proof -
  have "\<forall>x \<in> set (xs @ [Dir]). plain_segment x" using assms nit_segments by simp
  then show ?thesis
    using path_Join_absolute[OF assms nit_segments(1,2)] path_Join_absolute(1)[of "xs @ [Dir]" StateFile] nit_segments
    by (simp add: state_path_def)
qed

lemma absolute_path_inj:
  assumes "\<forall>x \<in> set xs. plain_segment x" "\<forall>x \<in> set ys. plain_segment x" "absolute_path xs = absolute_path ys"
  shows "xs = ys"
  using arg_cong[OF assms(3), of clean_segments]
  by (simp only: clean_segments_absolute[OF assms(1)] clean_segments_absolute[OF assms(2)])

lemma walk_up_here: "marked (absolute_path (rev up)) \<Longrightarrow> walk_up marked up = Some (absolute_path (rev up))"
  by (cases up) auto

lemma walk_up_below:
  "marked (absolute_path segs) \<Longrightarrow> \<forall>n. 0 < n \<and> n \<le> length below \<longrightarrow> \<not> marked (absolute_path (segs @ take n below)) \<Longrightarrow>
   walk_up marked (rev (segs @ below)) = Some (absolute_path segs)"
proof (induction below rule: rev_induct)
  case Nil
  then show ?case using walk_up_here[of marked "rev segs"] by simp
next
  case (snoc x below)
  have "\<not> marked (absolute_path (segs @ below @ [x]))" using snoc.prems(2) by (auto dest: spec[of _ "Suc (length below)"])
  moreover have "\<not> marked (absolute_path (segs @ take n below))" if "0 < n" "n \<le> length below" for n
    using snoc.prems(2)[THEN spec[of _ n]] that by simp
  ultimately show ?case using snoc.IH snoc.prems(1) by simp
qed

lemma created_state:
  assumes "ws_Init tk (absolute_path segs) st e = (Inr (), w, e')" "\<forall>x \<in> set segs. plain_segment x"
  shows "map_of (dsk_files e') (path_Join [absolute_path segs, Dir, StateFile]) = Some (tk_encode tk st @ nl)"
proof -
  let ?w = "\<lparr>op_Root = absolute_path segs, op_State = st\<rparr>" and ?ignore = "path_Join [absolute_path segs, Dir, ''.gitignore'']"
  let ?last = "\<lambda>_ :: unit. \<lambda>w e. if \<not> tk_writable tk ?ignore then (Inl (WsIO ?ignore), w, e)
    else (Inr (), w, e\<lparr>dsk_files := AList.update ?ignore [CHR ''*'', CHR 0x0A] (dsk_files e)\<rparr>)"
  have "ws_bind (here tk WsGit (\<lambda>git dir. runGitInit git dir (ws_Branch st))) (\<lambda>_.
        ws_bind (here tk WsGit git_Open) (\<lambda>_. ws_bind (ws_Save tk) ?last)) ?w e = (Inr (), w, e')"
    using assms(1) unfolding ws_Init_def Let_def by (simp split: if_splits)
  then obtain e1 where "ws_bind (here tk WsGit git_Open) (\<lambda>_. ws_bind (ws_Save tk) ?last) ?w e1 = (Inr (), w, e')"
    by (rule wbind_frame[OF frame_here]) auto
  then obtain e2 where "ws_bind (ws_Save tk) ?last ?w e2 = (Inr (), w, e')"
    by (rule wbind_frame[OF frame_here]) auto
  then obtain w3 e3 where sv: "ws_Save tk ?w e2 = (Inr (), w3, e3)" and l: "?last () w3 e3 = (Inr (), w, e')"
    by (auto simp: ws_bind_def split: prod.splits sum.splits)
  have "path_Join [absolute_path segs, Dir, StateFile] \<noteq> ?ignore"
  proof -
    have "segs @ [Dir, StateFile] \<noteq> segs @ [Dir, ''.gitignore'']" by (simp add: StateFile_def)
    then show ?thesis
      using absolute_path_inj[of "segs @ [Dir, StateFile]" "segs @ [Dir, ''.gitignore'']"] assms(2) nit_segments
        path_Join_absolute(2)[OF assms(2) nit_segments(1,2)] path_Join_absolute(2)[OF assms(2) nit_segments(1,3)] by auto
  qed
  then show ?thesis using l save_saved[OF sv] state_path_absolute[OF assms(2)]
    by (auto simp: Let_def map_of_update split: if_splits)
qed

text \<open>
  Claim C30. What \<open>clone\<close> writes is what every later command reads. After a workspace has been created in a directory given by an
  absolute path, opening it from that directory or from any directory below it, with no other workspace in between, finds that root and
  exactly the state that was saved. (The codec reads back what it wrote; git recognises the repository.)
\<close>

theorem created_workspace_is_found:
  assumes "ws_Init tk (absolute_path segs) st e = (Inr (), w, e')"
    and "\<And>s. tk_decode tk (tk_encode tk s @ nl) = Some s"
    and "\<forall>x \<in> set (segs @ below). plain_segment x"
    and "\<forall>n. 0 < n \<and> n \<le> length below \<longrightarrow> \<not> has_state (dsk_files e') (absolute_path (segs @ take n below))"
    and "git_Open (tk_git tk) (absolute_path segs) (dsk_git e') = (Inr dir, d)"
  shows "ws_Open tk cwd (absolute_path (segs @ below)) e' = (Inr \<lparr>op_Root = absolute_path segs, op_State = st\<rparr>, e'\<lparr>dsk_git := d\<rparr>)"
proof -
  have plain: "\<forall>x \<in> set segs. plain_segment x" using assms(3) by simp
  note content = created_state[OF assms(1) plain]
  have "clean_segments (path_Abs cwd (absolute_path (segs @ below))) = segs @ below"
    using assms(3) unfolding path_Abs_def by (simp only: absolute_path_simps if_True path_Clean_absolute clean_segments_absolute)
  moreover have "walk_up (has_state (dsk_files e')) (rev (segs @ below)) = Some (absolute_path segs)"
    using content assms(4) by (intro walk_up_below) (simp_all add: has_state_def)
  ultimately have "findRoot (dsk_files e') cwd (absolute_path (segs @ below)) = Inr (absolute_path segs)"
    by (simp only: findRoot_def option.case)
  moreover have "loadState tk (dsk_files e') (absolute_path segs) = Inr st"
    using content assms(2) by (simp add: loadState_def)
  ultimately show ?thesis using assms(5) by (simp add: ws_Open_def)
qed

subsection \<open>Credentials come back\<close>

text \<open>
  A stored token is found again, under every spelling of the server that differs only in surrounding blanks and
  trailing slashes, and storing it leaves the tokens of other servers alone.
\<close>

theorem credentials_come_back:
  assumes "\<And>ts. dec (enc ts @ nl) = Some ts" "CredentialsPath env home = Inr (cr_path c)" "cr_path c \<noteq> []" "token \<noteq> []" "can_read (cr_path c)"
    and "cr_Save enc writable env home (cr_Set server token c) files = (Inr (), files')"
  shows "\<exists>c'. LoadCredentials dec can_read env home files' = Inr c'
    \<and> (\<forall>s. cr_Token c' s = (if normalizeServer s = normalizeServer server then Inr token else cr_Token c s))"
proof -
  have "cr_path c @ ''.tmp'' \<noteq> cr_path c" by simp
  then have "map_of files' (cr_path c) = Some (enc (cr_Tokens (cr_Set server token c)) @ nl)"
    using assms(3,6) by (auto simp: cr_Save_def cr_Set_def Let_def map_of_update split: if_splits)
  then have "LoadCredentials dec can_read env home files' = Inr \<lparr>cr_Tokens = cr_Tokens (cr_Set server token c), cr_path = cr_path c\<rparr>"
    using assms(1,2,5) by (simp add: LoadCredentials_def)
  moreover have "cr_Token \<lparr>cr_Tokens = cr_Tokens (cr_Set server token c), cr_path = cr_path c\<rparr> s
    = (if normalizeServer s = normalizeServer server then Inr token else cr_Token c s)" for s
    using assms(4) by (simp add: cr_Token_def cr_Set_def map_of_update)
  ultimately show ?thesis by blast
qed

lemma removed_credentials: "cr_Token (cr_Remove server c) server = Inl (ErrNoCredentials server)"
  by (simp add: cr_Token_def cr_Remove_def delete_conv')

subsection \<open>Witnesses\<close>

text \<open>
  A git whose disk is the commit \<open>HEAD\<close> names and whether the tree has changes: \<open>apply\<close> makes it dirty, \<open>commit\<close> wants it dirty
  and appends a letter to \<open>HEAD\<close>.
\<close>

definition toy :: "(string \<times> bool) git_binary" where
  "toy dir args stdin d =
     (let ok = (\<lambda>out d'. (\<lparr>ga_stdout = out, ga_failure = None\<rparr>, d'));
          no = (\<lparr>ga_stdout = [], ga_failure = Some (''exit status 1'', [])\<rparr>, d)
      in if args = [] then no
         else if hd args = ''rev-parse'' then ok (fst d) d
         else if hd args = ''status'' then ok (if snd d then '' M f'' else []) d
         else if hd args = ''diff'' then ok ''difference'' d
         else if hd args = ''apply'' then ok [] (fst d, True)
         else if hd args = ''-c'' then (if snd d then ok [] (fst d @ ''x'', False) else no)
         else ok [] d)"

definition toy_tools :: "(string \<times> bool) tools" where
  "toy_tools = \<lparr>tk_git = toy, tk_encode = (\<lambda>st. ws_SyncToken st @ ''|'' @ ws_LocalBase st), tk_decode = (\<lambda>_. None), tk_writable = (\<lambda>_. True)\<rparr>"

definition toy_open :: opened where
  "toy_open = \<lparr>op_Root = ''/w'', op_State = \<lparr>ws_Server = [], ws_Repository = ''api'', ws_Branch = ''main'', ws_Workspace = ''7'',
     ws_SyncToken = ''t0'', ws_LocalBase = ''c''\<rparr>\<rparr>"

definition toy_desk :: "string \<Rightarrow> (string \<times> bool) desk" where
  "toy_desk head = \<lparr>dsk_git = (head, False), dsk_files = []\<rparr>"

lemma toy_reads: "git_reads toy"
  by (auto simp: git_reads_def toy_def Let_def)

lemma toy_trim: "TrimSpace [] = []" "TrimSpace '' M f'' \<noteq> []"
  by code_simp+

lemma toy_clean: "clean_tree toy dir d \<longleftrightarrow> \<not> snd d"
  by (simp add: clean_tree_def toy_def git_run_def git_stdin_def status_args_def Let_def toy_trim)

lemma toy_refuses: "refuses_empty_commits toy"
  by (simp add: refuses_empty_commits_def toy_clean) (simp add: toy_def commit_args_def Let_def)

lemma toy_git [simp]: "tk_git toy_tools = toy"
  by (simp add: toy_tools_def)

definition toy_after :: "(string \<times> bool) desk" where
  "toy_after = \<lparr>dsk_git = (''cx'', False), dsk_files = [(''/w/.nit/state.json'', ''t1|cx'' @ nl)]\<rparr>"

theorem sync_point_moves_last_witness:
  "ApplySync toy_tools ''p'' ''u'' ''v'' ''t1'' toy_open (toy_desk ''c'') = (Inr (), at_sync toy_open ''cx'' ''t1'', toy_after)
   \<and> saved toy_after toy_open = Some (''t1|cx'' @ nl)"
proof -
  have e': "ApplySync toy_tools ''p'' ''u'' ''v'' ''t1'' toy_open (toy_desk ''c'') = (Inr (), at_sync toy_open ''cx'' ''t1'', toy_after)"
    by code_simp
  have h: "current_head toy_tools toy_open (toy_desk ''c'') = (Inr ''c'', toy_open, toy_desk ''c'')" by code_simp
  have "saved toy_after toy_open = Some (tk_encode toy_tools (op_State (at_sync toy_open ''cx'' ''t1'')) @ nl)"
    using sync_point_moves_last[OF e' h] by auto
  then show ?thesis using e' by (simp add: toy_tools_def at_sync_def)
qed

theorem empty_sync_fails_witness:
  "\<exists>x e'. ApplySync toy_tools [] ''u'' ''v'' ''t1'' toy_open (toy_desk ''c'') = (Inl (WsGit x), toy_open, e') \<and> saved e' toy_open = None"
proof -
  have "current_head toy_tools toy_open (toy_desk ''c'') = (Inr (ws_LocalBase (op_State toy_open)), toy_open, toy_desk ''c'')" by code_simp
  moreover have "clean_tree toy (op_Root toy_open) (dsk_git (toy_desk ''c''))" by (simp add: toy_clean toy_desk_def)
  moreover have "saved (toy_desk ''c'') toy_open = None" by code_simp
  ultimately show ?thesis
    using empty_sync_fails[of toy_tools toy_open "toy_desk ''c''" "toy_desk ''c''" "''u''" "''v''" "''t1''"] toy_reads toy_refuses by simp
qed

text \<open>The patch was computed at \<open>c\<close> and pushed; meanwhile the developer committed \<open>c2\<close>, which differs.\<close>

theorem recorded_push_hides_later_commits_witness:
  "fst (ws_Diff toy_tools toy_open (toy_desk ''c2'')) = Inr ''difference''
   \<and> (\<exists>w' e'. RecordPush toy_tools ''t1'' toy_open (toy_desk ''c2'') = (Inr (), w', e') \<and> fst (ws_Diff toy_tools w' e') = Inr [])"
proof -
  have "ResolveRef (tk_git toy_tools) (op_Root toy_open) ''HEAD'' (dsk_git (toy_desk ''c2'')) = (Inr ''c2'', (''c2'', False))" by code_simp
  moreover have "fst (RecordPush toy_tools ''t1'' toy_open (toy_desk ''c2'')) = Inr ()" by code_simp
  then obtain w' e' where "RecordPush toy_tools ''t1'' toy_open (toy_desk ''c2'') = (Inr (), w', e')"
    by (cases "RecordPush toy_tools ''t1'' toy_open (toy_desk ''c2'')") auto
  moreover have "fst (ws_Diff toy_tools toy_open (toy_desk ''c2'')) = Inr ''difference''" by code_simp
  ultimately show ?thesis
    using recorded_push_hides_later_commits[of toy_tools toy_open "toy_desk ''c2''" "''c2''"] toy_reads by auto
qed

text \<open>A codec: each field after its length in unary.\<close>

definition put_field :: "string \<Rightarrow> bytes" where
  "put_field f = replicate (length f) (CHR ''1'') @ CHR ''0'' # f"

definition get_field :: "bytes \<Rightarrow> string \<times> bytes" where
  "get_field xs = (let n = length (takeWhile (\<lambda>c. c = CHR ''1'') xs) in (take n (drop (n + 1) xs), drop (n + 1 + n) xs))"

lemma get_put_field [simp]: "get_field (put_field f @ r) = (f, r)"
proof -
  have "takeWhile (\<lambda>c. c = CHR ''1'') (put_field f @ r) = replicate (length f) (CHR ''1'')"
    by (simp add: put_field_def takeWhile_append)
  then show ?thesis by (simp add: get_field_def put_field_def)
qed

definition field_encode :: "ws_state \<Rightarrow> bytes" where
  "field_encode st = put_field (ws_Server st) @ put_field (ws_Repository st) @ put_field (ws_Branch st)
     @ put_field (ws_Workspace st) @ put_field (ws_SyncToken st) @ put_field (ws_LocalBase st)"

definition field_decode :: "bytes \<Rightarrow> ws_state option" where
  "field_decode xs =
     (let (a, xs) = get_field xs; (b, xs) = get_field xs; (c, xs) = get_field xs; (d, xs) = get_field xs;
          (t, xs) = get_field xs; (l, xs) = get_field xs
      in Some \<lparr>ws_Server = a, ws_Repository = b, ws_Branch = c, ws_Workspace = d, ws_SyncToken = t, ws_LocalBase = l\<rparr>)"

lemma field_codec: "field_decode (field_encode st @ nl) = Some st"
  by (simp add: field_decode_def field_encode_def)

definition field_tools :: "(string \<times> bool) tools" where
  "field_tools = toy_tools\<lparr>tk_encode := field_encode, tk_decode := field_decode\<rparr>"

definition created :: "(string \<times> bool) desk" where
  "created = snd (snd (ws_Init field_tools ''/w'' (op_State toy_open) (toy_desk ''c'')))"

theorem created_workspace_is_found_witness:
  "fst (ws_Open field_tools ''/'' ''/w/src'' created) = Inr \<lparr>op_Root = ''/w'', op_State = op_State toy_open\<rparr>"
proof -
  have paths: "absolute_path [''w''] = ''/w''" "absolute_path ([''w''] @ [''src'']) = ''/w/src''" by (simp_all add: absolute_path_def)
  have "fst (ws_Init field_tools (absolute_path [''w'']) (op_State toy_open) (toy_desk ''c'')) = Inr ()" by code_simp
  then obtain w where 1: "ws_Init field_tools (absolute_path [''w'']) (op_State toy_open) (toy_desk ''c'') = (Inr (), w, created)"
    unfolding created_def paths by (cases "ws_Init field_tools ''/w'' (op_State toy_open) (toy_desk ''c'')") auto
  have 2: "tk_decode field_tools (tk_encode field_tools s @ nl) = Some s" for s by (simp add: field_tools_def field_codec)
  have 3: "\<forall>x \<in> set ([''w''] @ [''src'']). plain_segment x" by (simp add: plain_segment_def)
  have "\<not> has_state (dsk_files created) ''/w/src''" by code_simp
  then have 4: "\<forall>n. 0 < n \<and> n \<le> length [''src''] \<longrightarrow> \<not> has_state (dsk_files created) (absolute_path ([''w''] @ take n [''src'']))"
    by (auto simp: le_Suc_eq absolute_path_def)
  have 5: "git_Open (tk_git field_tools) (absolute_path [''w'']) (dsk_git created) = (Inr (absolute_path [''w'']), (''c'', False))" by code_simp
  show ?thesis using created_workspace_is_found[OF 1 2 3 4 5, of "''/''"] unfolding paths by simp
qed

end
