(* ===== verification/Nit_Flow.thy ===== *)
theory Nit_Flow
  imports Nit_Workspace Nit_Events
begin

text \<open>
  The client (\<open>internal/client/client.go\<close>) and the three operations of a developer (\<open>internal/flow/flow.go\<close>, \<open>requestid.go\<close>). The
  network is a parameter: a function from a request and the state of everything remote to an answer, if one arrives,
  and the next remote state. The JSON codecs are gathered in \<open>wire\<close>. For the flows that
  state is the whole world, the developer's desk and the progress shown so far included, so that a request in flight may
  also see the developer work. A wait that never ends is \<open>None\<close>. The report a flow returns beside an error is left out:
  the commands print only the error.
\<close>

subsection \<open>Requests\<close>

record wire_request =
  wq_method :: string
  wq_url :: string
  wq_headers :: "(string \<times> string) list"
  wq_body :: "bytes option"

record wire_answer =
  wn_status :: nat
  wn_text :: string
  wn_body :: bytes

record 's network =
  nw_send :: "wire_request \<Rightarrow> 's \<Rightarrow> wire_answer option \<times> 's"
  nw_cancelled :: "'s \<Rightarrow> bool"

record pull_response =
  ps_TaskID :: string
  ps_UpToDate :: bool

record wire =
  wi_error :: "bytes \<Rightarrow> protocol_error option"
  wi_whoami :: "bytes \<Rightarrow> whoami option"
  wi_repos :: "bytes \<Rightarrow> repository_view list option"
  wi_workspace :: "bytes \<Rightarrow> workspace_view option"
  wi_health :: "bytes \<Rightarrow> health option"
  wi_blob :: "bytes \<Rightarrow> protocol_blob option"
  wi_task :: "bytes \<Rightarrow> protocol_task option"
  wi_event :: "bytes \<Rightarrow> poll_event option"
  wi_push :: "bytes \<Rightarrow> push_response option"
  wi_pull :: "bytes \<Rightarrow> pull_response option"
  wi_label :: "string \<Rightarrow> bytes"
  wi_push_request :: "push_request \<Rightarrow> bytes"
  wi_pull_request :: "pull_request \<Rightarrow> bytes"

record client =
  cl_BaseURL :: string
  cl_Token :: string

definition New_client :: "string \<Rightarrow> string \<Rightarrow> client" where
  "New_client baseURL token = \<lparr>cl_BaseURL = trim_right_slash baseURL, cl_Token = token\<rparr>"

datatype client_error = Unreachable | Cancelled | BadAnswer | ApiError protocol_error

definition IsCode :: "client_error \<Rightarrow> string \<Rightarrow> bool" where
  "IsCode e code = (case e of ApiError p \<Rightarrow> e_Code p = code | _ \<Rightarrow> False)"

text \<open>The ellipsis is the three bytes of U+2026.\<close>

definition decodeError :: "wire \<Rightarrow> wire_answer \<Rightarrow> protocol_error" where
  "decodeError wi a =
     (let body = take (2 ^ 20) (wn_body a);
          fallback =
            (let trimmed = TrimSpace body;
                 message = (if trimmed = [] then wn_text a else trimmed);
                 cut = (if length message > 300 then take 300 message @ [CHR 0xE2, CHR 0x80, CHR 0xA6] else message)
             in \<lparr>e_Code = ''http_'' @ itoa (wn_status a), e_Message = cut, e_Denials = [], e_RetryAfter = 0\<rparr>)
      in case wi_error wi body of
           Some p \<Rightarrow> if e_Code p \<noteq> [] then p else fallback
         | None \<Rightarrow> fallback)"

definition set_header :: "string \<times> string \<Rightarrow> (string \<times> string) list \<Rightarrow> (string \<times> string) list" where
  "set_header h hs = AList.update (fst h) (snd h) hs"

definition request_headers :: "client \<Rightarrow> bytes option \<Rightarrow> (string \<times> string) list \<Rightarrow> (string \<times> string) list" where
  "request_headers c body headers =
     fold set_header headers
       ((if body \<noteq> None then set_header (''Content-Type'', ''application/json'') else id)
         (if cl_Token c \<noteq> [] then [(''Authorization'', ''Bearer '' @ cl_Token c)] else []))"

definition do_request ::
  "'s network \<Rightarrow> wire \<Rightarrow> client \<Rightarrow> string \<Rightarrow> string \<Rightarrow> bytes option \<Rightarrow> (bytes \<Rightarrow> 'o option) \<Rightarrow> (string \<times> string) list \<Rightarrow> 's \<Rightarrow>
     (client_error + 'o) \<times> 's" where
  "do_request nw wi c meth path body out headers s =
     (case nw_send nw \<lparr>wq_method = meth, wq_url = cl_BaseURL c @ path, wq_headers = request_headers c body headers, wq_body = body\<rparr> s of
        (None, s') \<Rightarrow> (Inl Unreachable, s')
      | (Some a, s') \<Rightarrow>
          if wn_status a \<ge> 400 then (Inl (ApiError (decodeError wi a)), s')
          else (case out (wn_body a) of None \<Rightarrow> (Inl BadAnswer, s') | Some x \<Rightarrow> (Inr x, s')))"

abbreviation get_request where
  "get_request nw wi c path out s \<equiv> do_request nw wi c ''GET'' path None out [] s"

abbreviation post_request where
  "post_request nw wi c path body out headers s \<equiv> do_request nw wi c ''POST'' path (Some body) out headers s"

definition client_WhoAmI :: "'s network \<Rightarrow> wire \<Rightarrow> client \<Rightarrow> 's \<Rightarrow> (client_error + whoami) \<times> 's" where
  "client_WhoAmI nw wi c = get_request nw wi c ''/v1/whoami'' (wi_whoami wi)"

definition client_Repositories :: "'s network \<Rightarrow> wire \<Rightarrow> client \<Rightarrow> 's \<Rightarrow> (client_error + repository_view list) \<times> 's" where
  "client_Repositories nw wi c = get_request nw wi c ''/v1/repositories'' (wi_repos wi)"

definition client_CreateWorkspace :: "'s network \<Rightarrow> wire \<Rightarrow> client \<Rightarrow> string \<Rightarrow> 's \<Rightarrow> (client_error + workspace_view) \<times> 's" where
  "client_CreateWorkspace nw wi c label = post_request nw wi c ''/v1/workspaces'' (wi_label wi label) (wi_workspace wi) []"

definition client_UploadPatch :: "'s network \<Rightarrow> wire \<Rightarrow> client \<Rightarrow> bytes \<Rightarrow> string \<Rightarrow> 's \<Rightarrow> (client_error + protocol_blob) \<times> 's" where
  "client_UploadPatch nw wi c compressed digest =
     post_request nw wi c ''/v1/blobs'' compressed (wi_blob wi)
       ([(''Content-Type'', ''application/octet-stream'')] @ (if digest \<noteq> [] then [(''X-Nit-Digest'', digest)] else []))"

definition client_Push :: "'s network \<Rightarrow> wire \<Rightarrow> client \<Rightarrow> push_request \<Rightarrow> 's \<Rightarrow> (client_error + push_response) \<times> 's" where
  "client_Push nw wi c req =
     post_request nw wi c ''/v1/push'' (wi_push_request wi (req\<lparr>pq_ProtocolVersion := protocol_Version\<rparr>)) (wi_push wi) []"

definition client_Pull :: "'s network \<Rightarrow> wire \<Rightarrow> client \<Rightarrow> pull_request \<Rightarrow> 's \<Rightarrow> (client_error + pull_response) \<times> 's" where
  "client_Pull nw wi c req =
     post_request nw wi c ''/v1/pull'' (wi_pull_request wi (req\<lparr>lq_ProtocolVersion := protocol_Version\<rparr>)) (wi_pull wi) []"

definition client_Task :: "'s network \<Rightarrow> wire \<Rightarrow> client \<Rightarrow> string \<Rightarrow> 's \<Rightarrow> (client_error + protocol_task) \<times> 's" where
  "client_Task nw wi c i = get_request nw wi c (''/v1/tasks/'' @ i) (wi_task wi)"

definition client_event :: "'s network \<Rightarrow> wire \<Rightarrow> client \<Rightarrow> string \<Rightarrow> 's \<Rightarrow> (client_error + poll_event) \<times> 's" where
  "client_event nw wi c i = get_request nw wi c (''/v1/tasks/'' @ i @ ''/events'') (wi_event wi)"


text \<open>The body is a byte stream here; no content type is set and the token is sent even when empty.\<close>

definition FetchPatch :: "'s network \<Rightarrow> wire \<Rightarrow> client \<Rightarrow> string \<Rightarrow> 's \<Rightarrow> (client_error + bytes) \<times> 's" where
  "FetchPatch nw wi c taskID s =
     (case nw_send nw \<lparr>wq_method = ''GET'', wq_url = cl_BaseURL c @ ''/v1/tasks/'' @ taskID @ ''/patch'',
                        wq_headers = [(''Authorization'', ''Bearer '' @ cl_Token c)], wq_body = None\<rparr> s of
        (None, s') \<Rightarrow> (Inl Unreachable, s')
      | (Some a, s') \<Rightarrow> if wn_status a \<ge> 400 then (Inl (ApiError (decodeError wi a)), s') else (Inr (wn_body a), s'))"

definition client_Health :: "'s network \<Rightarrow> wire \<Rightarrow> client \<Rightarrow> 's \<Rightarrow> (client_error + health) \<times> 's" where
  "client_Health nw wi c = get_request nw wi c ''/healthz'' (wi_health wi)"

subsection \<open>Waiting\<close>

definition queuePositionOf :: "poll_event \<Rightarrow> nat" where
  "queuePositionOf ev = (case ev_Task ev of Some t \<Rightarrow> pt_QueuePosition t | None \<Rightarrow> 0)"

definition finished_body :: "poll_event \<Rightarrow> protocol_task option" where
  "finished_body ev = (case ev_Task ev of Some t \<Rightarrow> if Terminal (pt_State t) then Some t else None | None \<Rightarrow> None)"

text \<open>\<open>seen\<close> is the state last reported; \<open>onProgress\<close> acts on the world.\<close>

partial_function (option) wait_loop ::
  "'s network \<Rightarrow> wire \<Rightarrow> client \<Rightarrow> string \<Rightarrow> (task_state \<Rightarrow> nat \<Rightarrow> 's \<Rightarrow> 's) \<Rightarrow> task_state \<Rightarrow> 's \<Rightarrow>
     ((client_error + protocol_task) \<times> 's) option" where
  "wait_loop nw wi c i onProgress seen s =
     (if nw_cancelled nw s then Some (Inl Cancelled, s)
      else case client_event nw wi c i s of
        (Inl x, s') \<Rightarrow> Some (Inl x, s')
      | (Inr ev, s') \<Rightarrow>
          (case finished_body ev of
             Some t \<Rightarrow> Some (Inr t, s')
           | None \<Rightarrow>
               let s'' = (if ev_State ev \<noteq> seen then onProgress (ev_State ev) (queuePositionOf ev) s' else s')
               in if Terminal (ev_State ev) then Some (client_Task nw wi c i s'')
                  else wait_loop nw wi c i onProgress (ev_State ev) s''))"

declare wait_loop.simps [code]

definition WaitForTask ::
  "'s network \<Rightarrow> wire \<Rightarrow> client \<Rightarrow> string \<Rightarrow> (task_state \<Rightarrow> nat \<Rightarrow> 's \<Rightarrow> 's) \<Rightarrow> 's \<Rightarrow> ((client_error + protocol_task) \<times> 's) option" where
  "WaitForTask nw wi c i onProgress s = wait_loop nw wi c i onProgress (OtherState []) s"

subsection \<open>The runner\<close>

record ('s, 'd) flow_world =
  fw_remote :: 's
  fw_desk :: "'d desk"
  fw_log :: "string list"

datatype entries = Missing | Unreadable | Entries nat

record ('s, 'd) runner =
  rn_net :: "('s, 'd) flow_world network"
  rn_wire :: wire
  rn_client :: client
  rn_tools :: "'d tools"
  rn_NewRequestID :: "(('s, 'd) flow_world \<Rightarrow> string \<times> ('s, 'd) flow_world) option"
  rn_entropy :: "('s, 'd) flow_world \<Rightarrow> bytes option \<times> ('s, 'd) flow_world"
  rn_zenc :: "bytes \<Rightarrow> bytes"
  rn_zdec :: "bytes \<Rightarrow> bytes \<times> bool"
  rn_readdir :: "string \<Rightarrow> 'd desk \<Rightarrow> entries"
  rn_removeAll :: "string \<Rightarrow> 'd desk \<Rightarrow> 'd desk"
  rn_hostname :: "string option"
  rn_cwd :: string

datatype flow_error =
    FlowClient client_error
  | FlowWorkspace ws_error
  | FlowCompress compress_error
  | FlowTask protocol_error
  | FlowMessage string
  | FlowPanic

type_synonym ('s, 'd, 'a) flow = "opened \<Rightarrow> ('s, 'd) flow_world \<Rightarrow> ((flow_error + 'a) \<times> opened \<times> ('s, 'd) flow_world) option"

definition fbind :: "('s, 'd, 'a) flow \<Rightarrow> ('a \<Rightarrow> ('s, 'd, 'b) flow) \<Rightarrow> ('s, 'd, 'b) flow" where
  "fbind m f w x =
     (case m w x of
        None \<Rightarrow> None
      | Some (Inl e, w', x') \<Rightarrow> Some (Inl e, w', x')
      | Some (Inr v, w', x') \<Rightarrow> f v w' x')"

definition freturn :: "'a \<Rightarrow> ('s, 'd, 'a) flow" where
  "freturn v w x = Some (Inr v, w, x)"

definition ffail :: "flow_error \<Rightarrow> ('s, 'd, 'a) flow" where
  "ffail e w x = Some (Inl e, w, x)"

definition waiting :: "(('s, 'd) flow_world \<Rightarrow> ((client_error + 'a) \<times> ('s, 'd) flow_world) option) \<Rightarrow> ('s, 'd, 'a) flow" where
  "waiting op w x =
     (case op x of
        None \<Rightarrow> None
      | Some (Inl e, x') \<Rightarrow> Some (Inl (FlowClient e), w, x')
      | Some (Inr v, x') \<Rightarrow> Some (Inr v, w, x'))"

definition calling :: "(('s, 'd) flow_world \<Rightarrow> (client_error + 'a) \<times> ('s, 'd) flow_world) \<Rightarrow> ('s, 'd, 'a) flow" where
  "calling op = waiting (\<lambda>x. Some (op x))"

definition locally :: "('d, 'a) wact \<Rightarrow> ('s, 'd, 'a) flow" where
  "locally op w x =
     (case op w (fw_desk x) of
        (Inl e, w', d) \<Rightarrow> Some (Inl (FlowWorkspace e), w', x\<lparr>fw_desk := d\<rparr>)
      | (Inr v, w', d) \<Rightarrow> Some (Inr v, w', x\<lparr>fw_desk := d\<rparr>))"

definition said :: "string \<Rightarrow> ('s, 'd) flow_world \<Rightarrow> ('s, 'd) flow_world" where
  "said line x = x\<lparr>fw_log := fw_log x @ [line]\<rparr>"

definition progress :: "string \<Rightarrow> ('s, 'd, unit) flow" where
  "progress line w x = Some (Inr (), w, said line x)"

definition reportProgress :: "task_state \<Rightarrow> nat \<Rightarrow> ('s, 'd) flow_world \<Rightarrow> ('s, 'd) flow_world" where
  "reportProgress st position =
     (if st = TaskQueued \<and> position > 0 then said (''queued, '' @ itoa position @ '' ahead'')
      else if st = TaskQueued then said ''queued''
      else if st = TaskRunning then said ''running''
      else id)"

definition newRequestID :: "('s, 'd) runner \<Rightarrow> ('s, 'd, string) flow" where
  "newRequestID r w x =
     (case rn_entropy r x of
        (None, x') \<Rightarrow> Some (Inl FlowPanic, w, x')
      | (Some buf, x') \<Rightarrow> Some (Inr (hex_encode buf), w, x'))"

definition flow_requestID :: "('s, 'd) runner \<Rightarrow> ('s, 'd, string) flow" where
  "flow_requestID r w x =
     (case rn_NewRequestID r of
        Some fresh \<Rightarrow> (case fresh x of (i, x') \<Rightarrow> Some (Inr i, w, x'))
      | None \<Rightarrow> newRequestID r w x)"

definition taskFailure :: "protocol_task \<Rightarrow> flow_error" where
  "taskFailure t = (case pt_Error t of Some p \<Rightarrow> FlowTask p | None \<Rightarrow> FlowMessage (''the task ended as '' @ state_str (pt_State t)))"

definition awaited :: "('s, 'd) runner \<Rightarrow> string \<Rightarrow> ('s, 'd, protocol_task) flow" where
  "awaited r i =
     fbind (waiting (WaitForTask (rn_net r) (rn_wire r) (rn_client r) i reportProgress)) (\<lambda>t.
       if pt_State t \<noteq> TaskSucceeded then ffail (taskFailure t) else freturn t)"

subsection \<open>Pulling\<close>

definition empty_report :: pull_report where
  "empty_report = \<lparr>lr_PolicyVersion = [], lr_FilesTotal = 0, lr_FilesDelivered = 0, lr_FilesWithheld = 0, lr_UpstreamCommit = []\<rparr>"

definition delivered :: "('s, 'd) runner \<Rightarrow> protocol_task \<Rightarrow> pull_result \<Rightarrow> ('s, 'd, bytes) flow" where
  "delivered r t result =
     (case pu_Patch result of
        None \<Rightarrow> freturn []
      | Some b \<Rightarrow>
          fbind (progress (''downloading '' @ itoa_int (pb_Size b) @ '' bytes'')) (\<lambda>_.
          fbind (calling (FetchPatch (rn_net r) (rn_wire r) (rn_client r) (pt_ID t))) (\<lambda>compressed.
            case Decompress (rn_zdec r) compressed (pb_Encoding b) 0 of
              Inl e \<Rightarrow> ffail (FlowCompress e)
            | Inr patch \<Rightarrow> freturn patch)))"

definition ask_pull :: "('s, 'd) runner \<Rightarrow> ('s, 'd, pull_response) flow" where
  "ask_pull r =
     fbind (flow_requestID r) (\<lambda>i w.
       calling (client_Pull (rn_net r) (rn_wire r) (rn_client r)
         \<lparr>lq_ProtocolVersion = [], lq_RequestID = i, lq_Repository = ws_Repository (op_State w), lq_Branch = ws_Branch (op_State w),
          lq_Workspace = ws_Workspace (op_State w), lq_Sync = ws_SyncToken (op_State w)\<rparr>) w)"

definition finish_pull :: "('s, 'd) runner \<Rightarrow> protocol_task \<Rightarrow> ('s, 'd, pull_report) flow" where
  "finish_pull r t =
     (case pt_PullResult t of
        None \<Rightarrow> ffail (FlowMessage ''the server returned no pull result'')
      | Some result \<Rightarrow>
          fbind (delivered r t result) (\<lambda>patch.
          fbind (locally (ApplySync (rn_tools r) patch (lr_UpstreamCommit (pu_Report result)) (lr_PolicyVersion (pu_Report result))
                            (pu_NextSync result))) (\<lambda>_.
            freturn (pu_Report result))))"

definition flow_pull :: "('s, 'd) runner \<Rightarrow> ('s, 'd, pull_report) flow" where
  "flow_pull r =
     fbind (ask_pull r) (\<lambda>response.
       if ps_UpToDate response then freturn empty_report
       else fbind (progress ''waiting for the server to prepare the changes'') (\<lambda>_.
            fbind (awaited r (ps_TaskID response)) (finish_pull r)))"

definition flow_Pull :: "('s, 'd) runner \<Rightarrow> ('s, 'd, pull_report) flow" where
  "flow_Pull r = fbind (locally (EnsureClean (rn_tools r))) (\<lambda>_. flow_pull r)"

subsection \<open>Pushing\<close>

record push_choice =
  ps_Message :: string
  ps_Check :: bool
  ps_DropUnauthorized :: bool

record push_outcome =
  po_Report :: push_report
  po_UpstreamCommit :: string
  po_NeedsPull :: bool

definition submit :: "('s, 'd) runner \<Rightarrow> push_choice \<Rightarrow> bytes \<Rightarrow> protocol_blob \<Rightarrow> ('s, 'd, push_response) flow" where
  "submit r opts patch descriptor =
     fbind (flow_requestID r) (\<lambda>i w.
       calling (client_Push (rn_net r) (rn_wire r) (rn_client r)
         \<lparr>pq_ProtocolVersion = [], pq_RequestID = i, pq_Repository = ws_Repository (op_State w), pq_Branch = ws_Branch (op_State w),
          pq_Workspace = ws_Workspace (op_State w), pq_BaseSync = ws_SyncToken (op_State w), pq_Message = ps_Message opts,
          pq_Patch = descriptor\<lparr>pb_Encoding := EncodingZstd, pb_UncompressedSize := int (length patch)\<rparr>,
          pq_Mode = (if ps_DropUnauthorized opts then ''strip'' else ''reject''), pq_DryRun = ps_Check opts\<rparr>) w)"

definition uploaded :: "('s, 'd) runner \<Rightarrow> bytes \<Rightarrow> ('s, 'd, protocol_blob) flow" where
  "uploaded r patch =
     (case Compress (rn_zenc r) patch EncodingZstd of
        Inl e \<Rightarrow> ffail (FlowCompress e)
      | Inr compressed \<Rightarrow>
          fbind (progress (''uploading '' @ itoa (length compressed) @ '' bytes'')) (\<lambda>_.
            calling (client_UploadPatch (rn_net r) (rn_wire r) (rn_client r) compressed [])))"

definition landed :: "('s, 'd) runner \<Rightarrow> push_response \<Rightarrow> ('s, 'd, push_outcome) flow" where
  "landed r response =
     fbind (awaited r (pp_TaskID response)) (\<lambda>t.
       case pt_PushResult t of
         None \<Rightarrow> ffail (FlowMessage ''the server returned no push result'')
       | Some result \<Rightarrow>
           fbind (if ur_NextSync result = [] then freturn () else locally (RecordPush (rn_tools r) (ur_NextSync result))) (\<lambda>_.
             freturn \<lparr>po_Report = pp_Report response, po_UpstreamCommit = ur_UpstreamCommit result, po_NeedsPull = (ur_NextSync result = [])\<rparr>))"

definition fwhen :: "bool \<Rightarrow> ('s, 'd, unit) flow \<Rightarrow> ('s, 'd, unit) flow" where
  "fwhen b m = (if b then m else freturn ())"

definition conclude :: "('s, 'd) runner \<Rightarrow> push_choice \<Rightarrow> push_response \<Rightarrow> ('s, 'd, push_outcome) flow" where
  "conclude r opts response =
     (if ps_Check opts \<or> \<not> pp_Accepted response
      then freturn \<lparr>po_Report = pp_Report response, po_UpstreamCommit = [], po_NeedsPull = False\<rparr>
      else fbind (\<lambda>w. fwhen (pp_QueuePosition response > 0)
             (progress (''queued behind '' @ itoa (pp_QueuePosition response) @ '' operation(s) on '' @ ws_Branch (op_State w))) w) (\<lambda>_.
           landed r response))"

definition flow_Push :: "('s, 'd) runner \<Rightarrow> push_choice \<Rightarrow> ('s, 'd, push_outcome) flow" where
  "flow_Push r opts =
     (if ps_Message opts = [] \<and> \<not> ps_Check opts then ffail (FlowMessage ''a message is required; use -m'')
      else fbind (locally (ws_Diff (rn_tools r))) (\<lambda>patch.
        if length patch = 0 then ffail (FlowMessage ''nothing to push'')
        else fbind (locally (ws_Dirty (rn_tools r))) (\<lambda>dirty.
             fbind (fwhen dirty (progress ''note: uncommitted changes are not included'')) (\<lambda>_.
             fbind (uploaded r patch) (\<lambda>descriptor.
             fbind (submit r opts patch descriptor) (\<lambda>response.
               conclude r opts response))))))"

subsection \<open>Cloning\<close>

record clone_request =
  cq_Server :: string
  cq_Repository :: string
  cq_Branch :: string
  cq_Directory :: string
  cq_Label :: string

definition ensureEmptyDirectory :: "('s, 'd) runner \<Rightarrow> string \<Rightarrow> ('s, 'd, unit) flow" where
  "ensureEmptyDirectory r dir w x =
     (case rn_readdir r dir (fw_desk x) of
        Missing \<Rightarrow> freturn () w x
      | Unreadable \<Rightarrow> ffail (FlowMessage dir) w x
      | Entries n \<Rightarrow> if n > 0 then ffail (FlowMessage (dir @ '' is not empty'')) w x else freturn () w x)"

definition hostname :: "('s, 'd) runner \<Rightarrow> string" where
  "hostname r = (case rn_hostname r of None \<Rightarrow> ''workspace'' | Some name \<Rightarrow> name)"

text \<open>The last repository of that name counts.\<close>

definition default_branch :: "repository_view list \<Rightarrow> string \<Rightarrow> string" where
  "default_branch repos repository = fold (\<lambda>v b. if rv_ID v = repository then rv_DefaultBranch v else b) repos []"

definition chosen_branch :: "('s, 'd) runner \<Rightarrow> clone_request \<Rightarrow> ('s, 'd, string) flow" where
  "chosen_branch r q =
     (if cq_Branch q \<noteq> [] then freturn (cq_Branch q)
      else fbind (calling (client_Repositories (rn_net r) (rn_wire r) (rn_client r))) (\<lambda>repos.
        let branch = default_branch repos (cq_Repository q)
        in if branch = [] then ffail (FlowMessage (''repository '' @ cq_Repository q @ '' is not available to you'')) else freturn branch))"

definition created_in :: "('s, 'd) runner \<Rightarrow> string \<Rightarrow> ws_state \<Rightarrow> ('s, 'd, unit) flow" where
  "created_in r dir st = locally (\<lambda>_. ws_Init (rn_tools r) dir st)"

definition pull_or_remove :: "('s, 'd) runner \<Rightarrow> string \<Rightarrow> ('s, 'd, pull_report) flow" where
  "pull_or_remove r dir w x =
     (case flow_pull r w x of
        Some (Inl e, w', x') \<Rightarrow> Some (Inl e, w', x'\<lparr>fw_desk := rn_removeAll r dir (fw_desk x')\<rparr>)
      | res \<Rightarrow> res)"

definition clone_dir :: "clone_request \<Rightarrow> string" where
  "clone_dir q = (if cq_Directory q = [] then cq_Repository q else cq_Directory q)"

definition flow_Clone :: "('s, 'd) runner \<Rightarrow> clone_request \<Rightarrow> ('s, 'd, string \<times> pull_report) flow" where
  "flow_Clone r q =
     (if cq_Repository q = [] then ffail (FlowMessage ''no repository named'')
      else let dir = clone_dir q
      in fbind (ensureEmptyDirectory r dir) (\<lambda>_.
         fbind (chosen_branch r q) (\<lambda>branch.
         fbind (progress ''registering the workspace'') (\<lambda>_.
         fbind (calling (client_CreateWorkspace (rn_net r) (rn_wire r) (rn_client r) (if cq_Label q = [] then hostname r else cq_Label q))) (\<lambda>registered.
         fbind (created_in r dir \<lparr>ws_Server = cq_Server q, ws_Repository = cq_Repository q, ws_Branch = branch,
                  ws_Workspace = wv_ID registered, ws_SyncToken = [], ws_LocalBase = []\<rparr>) (\<lambda>_.
         fbind (pull_or_remove r dir) (\<lambda>report.
           freturn (path_Abs (rn_cwd r) dir, report))))))))"

subsection \<open>Waiting ends\<close>

text \<open>What the world is once an event has been shown: \<open>onProgress\<close> runs when the state is a new one.\<close>

definition reported :: "(task_state \<Rightarrow> nat \<Rightarrow> 's \<Rightarrow> 's) \<Rightarrow> task_state \<Rightarrow> poll_event \<Rightarrow> 's \<Rightarrow> 's" where
  "reported onProgress seen ev s = (if ev_State ev \<noteq> seen then onProgress (ev_State ev) (queuePositionOf ev) s else s)"

text \<open>One poll after which the client polls again: nobody cancelled, and the event neither names nor carries an end.\<close>

inductive unfinished_poll ::
  "'s network \<Rightarrow> wire \<Rightarrow> client \<Rightarrow> string \<Rightarrow> (task_state \<Rightarrow> nat \<Rightarrow> 's \<Rightarrow> 's) \<Rightarrow> task_state \<times> 's \<Rightarrow> task_state \<times> 's \<Rightarrow> bool"
  for nw wi c i onProgress where
  poll_again: "\<not> nw_cancelled nw s \<Longrightarrow> client_event nw wi c i s = (Inr ev, s') \<Longrightarrow> \<not> Terminal (ev_State ev) \<Longrightarrow>
    (\<And>t. ev_Task ev = Some t \<Longrightarrow> \<not> Terminal (pt_State t)) \<Longrightarrow>
    unfinished_poll nw wi c i onProgress (seen, s) (ev_State ev, reported onProgress seen ev s')"

inductive_cases unfinished_pollE: "unfinished_poll nw wi c i onProgress (seen, s) x"

text \<open>
  How a wait ends: the context is cancelled, the poll fails, the event carries the finished task, or the
  event names a terminal state and the task is fetched then.
\<close>

inductive last_poll ::
  "'s network \<Rightarrow> wire \<Rightarrow> client \<Rightarrow> string \<Rightarrow> (task_state \<Rightarrow> nat \<Rightarrow> 's \<Rightarrow> 's) \<Rightarrow> task_state \<times> 's \<Rightarrow> (client_error + protocol_task) \<times> 's \<Rightarrow> bool"
  for nw wi c i onProgress where
  cancelled: "nw_cancelled nw s \<Longrightarrow> last_poll nw wi c i onProgress (seen, s) (Inl Cancelled, s)"
| poll_failed: "\<not> nw_cancelled nw s \<Longrightarrow> client_event nw wi c i s = (Inl x, s') \<Longrightarrow>
    last_poll nw wi c i onProgress (seen, s) (Inl x, s')"
| carried: "\<not> nw_cancelled nw s \<Longrightarrow> client_event nw wi c i s = (Inr ev, s') \<Longrightarrow> ev_Task ev = Some t \<Longrightarrow> Terminal (pt_State t) \<Longrightarrow>
    last_poll nw wi c i onProgress (seen, s) (Inr t, s')"
| announced: "\<not> nw_cancelled nw s \<Longrightarrow> client_event nw wi c i s = (Inr ev, s') \<Longrightarrow> Terminal (ev_State ev) \<Longrightarrow>
    (\<And>t. ev_Task ev = Some t \<Longrightarrow> \<not> Terminal (pt_State t)) \<Longrightarrow> client_Task nw wi c i (reported onProgress seen ev s') = y \<Longrightarrow>
    last_poll nw wi c i onProgress (seen, s) y"

inductive_cases last_pollE: "last_poll nw wi c i onProgress (seen, s) y"

lemma finished_body_iff: "finished_body ev = Some t \<longleftrightarrow> ev_Task ev = Some t \<and> Terminal (pt_State t)"
  by (auto simp: finished_body_def split: option.splits)

lemma no_finished_body: "finished_body ev = None \<longleftrightarrow> (\<forall>t. ev_Task ev = Some t \<longrightarrow> \<not> Terminal (pt_State t))"
  by (auto simp: finished_body_def split: option.splits)

text \<open>The body of the loop, over what it does to go round again.\<close>

definition wait_body where
  "wait_body again nw wi c i onProgress seen s =
     (if nw_cancelled nw s then Some (Inl Cancelled, s)
      else case client_event nw wi c i s of
        (Inl x, s') \<Rightarrow> Some (Inl x, s')
      | (Inr ev, s') \<Rightarrow>
          (case finished_body ev of
             Some t \<Rightarrow> Some (Inr t, s')
           | None \<Rightarrow>
               let s'' = (if ev_State ev \<noteq> seen then onProgress (ev_State ev) (queuePositionOf ev) s' else s')
               in if Terminal (ev_State ev) then Some (client_Task nw wi c i s'') else again (ev_State ev) s''))"

lemma wait_loop_body: "wait_loop nw wi c i onProgress seen s = wait_body (wait_loop nw wi c i onProgress) nw wi c i onProgress seen s"
  unfolding wait_body_def by (rule wait_loop.simps)

lemma body_last: "last_poll nw wi c i onProgress (seen, s) y \<Longrightarrow> wait_body again nw wi c i onProgress seen s = Some y"
  by (erule last_pollE) (auto simp: wait_body_def finished_body_def reported_def Let_def split: option.split)

lemma body_again:
  "unfinished_poll nw wi c i onProgress (seen, s) x \<Longrightarrow> wait_body again nw wi c i onProgress seen s = again (fst x) (snd x)"
  by (erule unfinished_pollE) (auto simp: wait_body_def finished_body_def reported_def Let_def split: option.split)

lemma wait_loop_last: "last_poll nw wi c i onProgress (seen, s) y \<Longrightarrow> wait_loop nw wi c i onProgress seen s = Some y"
  by (subst wait_loop_body) (rule body_last)

lemma wait_loop_again:
  "unfinished_poll nw wi c i onProgress (seen, s) x \<Longrightarrow>
   wait_loop nw wi c i onProgress seen s = wait_loop nw wi c i onProgress (fst x) (snd x)"
  by (rule trans[OF wait_loop_body body_again])

lemma poll_cases:
  obtains (last) y where "last_poll nw wi c i onProgress (seen, s) y"
  | (again) x where "unfinished_poll nw wi c i onProgress (seen, s) x"
proof (cases "nw_cancelled nw s")
  case True
  show ?thesis by (rule last) (rule cancelled[OF True])
next
  case False
  obtain q s' where e: "client_event nw wi c i s = (q, s')" by fastforce
  show ?thesis
  proof (cases q)
    case (Inl x)
    show ?thesis by (rule last) (rule poll_failed[OF False e[unfolded Inl]])
  next
    case (Inr ev)
    note e = e[unfolded Inr]
    show ?thesis
    proof (cases "finished_body ev")
      case (Some t)
      then have "ev_Task ev = Some t" "Terminal (pt_State t)" by (simp_all add: finished_body_iff)
      then show ?thesis by (intro last) (rule carried[OF False e])
    next
      case None
      then have open_: "ev_Task ev = Some t \<Longrightarrow> \<not> Terminal (pt_State t)" for t by (simp add: no_finished_body)
      show ?thesis
      proof (cases "Terminal (ev_State ev)")
        case True
        show ?thesis by (rule last) (rule announced[OF False e True open_ refl])
      next
        case no_end: False
        show ?thesis by (rule again) (rule poll_again[OF False e no_end open_])
      qed
    qed
  qed
qed

lemma poll_det: "unfinished_poll nw wi c i onProgress x y \<Longrightarrow> unfinished_poll nw wi c i onProgress x z \<Longrightarrow> z = y"
  by (cases x) (auto elim!: unfinished_pollE)

lemma last_not_again: "last_poll nw wi c i onProgress x y \<Longrightarrow> \<not> unfinished_poll nw wi c i onProgress x z"
  by (cases x) (auto elim!: unfinished_pollE elim: last_pollE)

text \<open>Enough polls without an end are impossible, or the wait returns.\<close>

lemma wait_loop_bounded:
  assumes "\<nexists>x. (unfinished_poll nw wi c i onProgress ^^ n) (seen, s) x"
  shows "\<exists>y. wait_loop nw wi c i onProgress seen s = Some y"
  using assms
proof (induction n arbitrary: seen s)
  case (Suc n)
  show ?case
  proof (cases rule: poll_cases[of nw wi c i onProgress seen s])
    case (last y)
    then show ?thesis by (intro exI) (rule wait_loop_last)
  next
    case (again x)
    have "\<nexists>z. (unfinished_poll nw wi c i onProgress ^^ n) (fst x, snd x) z"
      using Suc.prems again by (metis prod.collapse relpowp_Suc_I2)
    from Suc.IH[OF this] show ?thesis using wait_loop_again[OF again] by simp
  qed
qed simp

lemma wait_loop_path:
  "(unfinished_poll nw wi c i onProgress ^^ n) (seen, s) y \<Longrightarrow>
   wait_loop nw wi c i onProgress seen s = wait_loop nw wi c i onProgress (fst y) (snd y)"
proof (induction n arbitrary: seen s)
  case (Suc n)
  then obtain x where x: "unfinished_poll nw wi c i onProgress (seen, s) x" "(unfinished_poll nw wi c i onProgress ^^ n) x y"
    by (metis relpowp_Suc_D2)
  show ?case using Suc.IH[of "fst x" "snd x"] x(2) wait_loop_again[OF x(1)] by simp
qed auto

lemma no_longer_path:
  assumes "(unfinished_poll nw wi c i onProgress ^^ n) x y" "\<And>z. \<not> unfinished_poll nw wi c i onProgress y z"
  shows "\<not> (unfinished_poll nw wi c i onProgress ^^ Suc n) x z"
  using assms(1)
proof (induction n arbitrary: x)
  case 0
  then have "x = y" by simp
  then show ?case using assms(2) by (metis relpowp_1 One_nat_def)
next
  case (Suc n)
  then obtain x1 where x1: "unfinished_poll nw wi c i onProgress x x1" "(unfinished_poll nw wi c i onProgress ^^ n) x1 y"
    by (metis relpowp_Suc_D2)
  show ?case
  proof
    assume "(unfinished_poll nw wi c i onProgress ^^ Suc (Suc n)) x z"
    then obtain x2 where "unfinished_poll nw wi c i onProgress x x2" "(unfinished_poll nw wi c i onProgress ^^ Suc n) x2 z"
      by (metis relpowp_Suc_D2)
    then show False using poll_det[OF x1(1)] Suc.IH[OF x1(2)] by blast
  qed
qed

lemma wait_loop_some:
  "wait_loop nw wi c i onProgress seen s = Some y \<longleftrightarrow>
   (\<exists>x. (unfinished_poll nw wi c i onProgress)\<^sup>*\<^sup>* (seen, s) x \<and> last_poll nw wi c i onProgress x y)"
proof
  assume r: "wait_loop nw wi c i onProgress seen s = Some y"
  then show "\<exists>x. (unfinished_poll nw wi c i onProgress)\<^sup>*\<^sup>* (seen, s) x \<and> last_poll nw wi c i onProgress x y"
  proof (induction rule: wait_loop.raw_induct[rotated, consumes 1, case_names step])
    case (step f nw wi c i onProgress seen s y)
    have b: "wait_body (f nw wi c i onProgress) nw wi c i onProgress seen s = Some y"
      unfolding wait_body_def by (rule step.hyps)
    show ?case
    proof (cases rule: poll_cases[of nw wi c i onProgress seen s])
      case (last y')
      have "y' = y" using body_last[OF last] b by (simp add: option.inject)
      then show ?thesis using last by (intro exI[of _ "(seen, s)"]) simp
    next
      case (again x)
      then have "f nw wi c i onProgress (fst x) (snd x) = Some y" using body_again[OF again] b by simp
      from step.IH[OF this] obtain z where "(unfinished_poll nw wi c i onProgress)\<^sup>*\<^sup>* x z" "last_poll nw wi c i onProgress z y"
        by auto
      then show ?thesis using again converse_rtranclp_into_rtranclp by metis
    qed
  qed
next
  assume "\<exists>x. (unfinished_poll nw wi c i onProgress)\<^sup>*\<^sup>* (seen, s) x \<and> last_poll nw wi c i onProgress x y"
  then obtain n x where x: "(unfinished_poll nw wi c i onProgress ^^ n) (seen, s) x" "last_poll nw wi c i onProgress x y"
    unfolding rtranclp_power by blast
  show "wait_loop nw wi c i onProgress seen s = Some y"
    unfolding wait_loop_path[OF x(1)] by (rule wait_loop_last) (simp add: x(2))
qed

lemma wait_loop_none:
  "wait_loop nw wi c i onProgress seen s = None \<longleftrightarrow> (\<forall>n. \<exists>x. (unfinished_poll nw wi c i onProgress ^^ n) (seen, s) x)"
proof
  show "\<forall>n. \<exists>x. (unfinished_poll nw wi c i onProgress ^^ n) (seen, s) x" if "wait_loop nw wi c i onProgress seen s = None"
    using that wait_loop_bounded[of _ nw wi c i onProgress seen s] by fastforce
next
  assume all: "\<forall>n. \<exists>x. (unfinished_poll nw wi c i onProgress ^^ n) (seen, s) x"
  show "wait_loop nw wi c i onProgress seen s = None"
  proof (rule ccontr)
    assume "wait_loop nw wi c i onProgress seen s \<noteq> None"
    then obtain y where "wait_loop nw wi c i onProgress seen s = Some y" by auto
    then obtain x n where x: "(unfinished_poll nw wi c i onProgress ^^ n) (seen, s) x" "last_poll nw wi c i onProgress x y"
      unfolding wait_loop_some rtranclp_power by blast
    have "\<not> (unfinished_poll nw wi c i onProgress ^^ Suc n) (seen, s) z" for z
      by (rule no_longer_path[OF x(1)]) (rule last_not_again[OF x(2)])
    then show False using all by blast
  qed
qed

text \<open>
  Claim C29. What a wait returns, and when it does not. \<open>WaitForTask\<close> returns a result if and only if finitely many
  polls that neither named nor carried an end lead to one that the wait ends with: the caller had cancelled,
  the poll failed, the event carried a task in a terminal state (which is the result), or the event named a
  terminal state, after which the task is fetched (and that answer is the result). It never returns if and
  only if the server goes on announcing unfinished states for ever and nobody cancels.
\<close>

theorem wait_returns_iff:
  "(WaitForTask nw wi c i onProgress s = Some (res, s') \<longleftrightarrow>
     (\<exists>x. (unfinished_poll nw wi c i onProgress)\<^sup>*\<^sup>* (OtherState [], s) x \<and> last_poll nw wi c i onProgress x (res, s')))
   \<and> (WaitForTask nw wi c i onProgress s = None \<longleftrightarrow>
     (\<forall>n. \<exists>x. (unfinished_poll nw wi c i onProgress ^^ n) (OtherState [], s) x))"
  unfolding WaitForTask_def wait_loop_some wait_loop_none by (intro conjI refl)

subsection \<open>What a flow leaves alone\<close>

text \<open>Nobody else writes below \<open>.nit/\<close> while a flow runs: requests and fresh ids leave the files of nit alone.\<close>

abbreviation nit_files :: "('s, 'd) flow_world \<Rightarrow> (string \<times> bytes) list" where
  "nit_files x \<equiv> dsk_files (fw_desk x)"

definition leaves :: "(('s, 'd) flow_world \<Rightarrow> 'a \<times> ('s, 'd) flow_world) \<Rightarrow> bool" where
  "leaves op \<longleftrightarrow> (\<forall>x. nit_files (snd (op x)) = nit_files x)"

definition calm :: "('s, 'd) runner \<Rightarrow> bool" where
  "calm r \<longleftrightarrow> (\<forall>q. leaves (nw_send (rn_net r) q)) \<and> leaves (rn_entropy r)
     \<and> (case rn_NewRequestID r of Some fresh \<Rightarrow> leaves fresh | None \<Rightarrow> True)"

lemma leavesD: "leaves op \<Longrightarrow> op x = (v, x') \<Longrightarrow> nit_files x' = nit_files x"
  by (metis leaves_def snd_conv)

lemma calm_send: "calm r \<Longrightarrow> leaves (nw_send (rn_net r) q)"
  by (simp add: calm_def)

lemma leaves_do:
  assumes "\<And>q. leaves (nw_send nw q)"
  shows "leaves (do_request nw wi c meth path body out headers)"
proof -
  have "nit_files (snd (do_request nw wi c meth path body out headers x)) = nit_files x" for x
    using leavesD[OF assms] by (auto simp: do_request_def split: prod.split option.split)
  then show ?thesis by (simp add: leaves_def)
qed

lemma leaves_FetchPatch:
  assumes "\<And>q. leaves (nw_send nw q)"
  shows "leaves (FetchPatch nw wi c i)"
proof -
  have "nit_files (snd (FetchPatch nw wi c i x)) = nit_files x" for x
    using leavesD[OF assms] by (auto simp: FetchPatch_def split: prod.split option.split)
  then show ?thesis by (simp add: leaves_def)
qed

lemma leaves_methods:
  assumes "\<And>q. leaves (nw_send nw q)"
  shows "leaves (client_Pull nw wi c pq)" "leaves (client_Push nw wi c uq)" "leaves (client_UploadPatch nw wi c b dg)"
    "leaves (client_Task nw wi c i)" "leaves (client_event nw wi c i)" "leaves (client_Repositories nw wi c)"
    "leaves (client_CreateWorkspace nw wi c label)"
  by (auto simp: client_Pull_def client_Push_def client_UploadPatch_def client_Task_def client_event_def client_Repositories_def
      client_CreateWorkspace_def intro: leaves_do[OF assms])

lemma reportProgress_files [simp]: "nit_files (reportProgress st n x) = nit_files x"
  by (simp add: reportProgress_def said_def)

lemma wait_loop_files:
  assumes "wait_loop nw wi c i onProgress seen x = Some y"
    and "\<And>q. leaves (nw_send nw q)" "\<And>st n x. nit_files (onProgress st n x) = nit_files x"
  shows "nit_files (snd y) = nit_files x"
  using assms
proof (induction rule: wait_loop.raw_induct[rotated, consumes 1, case_names step])
  case (step f nw wi c i onProgress seen x y)
  have t: "nit_files (snd (client_Task nw wi c i z)) = nit_files z" for z
    using leaves_methods(4)[OF step.prems(1)] by (simp add: leaves_def)
  have e: "client_event nw wi c i z = (v, z') \<Longrightarrow> nit_files z' = nit_files z" for z v z'
    by (rule leavesD[OF leaves_methods(5)[OF step.prems(1)]])
  note ih = step.IH[OF _ step.prems]
  show ?case
    using step.hyps step.prems(2)
    by (auto simp: Let_def t split: if_splits prod.splits sum.splits option.splits dest!: e ih)
qed

definition keeps_state :: "('s, 'd, 'a) flow \<Rightarrow> bool" where
  "keeps_state m \<longleftrightarrow> (\<forall>w x r w' x'. m w x = Some (r, w', x') \<longrightarrow> w' = w \<and> nit_files x' = nit_files x)"

lemma quietD: "keeps_state m \<Longrightarrow> m w x = Some (r, w', x') \<Longrightarrow> w' = w \<and> nit_files x' = nit_files x"
  by (simp add: keeps_state_def)

lemma quiet_waiting:
  assumes "\<And>x y. op x = Some y \<Longrightarrow> nit_files (snd y) = nit_files x"
  shows "keeps_state (waiting op)"
  using assms by (fastforce simp: keeps_state_def waiting_def split: option.splits prod.splits sum.splits)

lemma quiet_calling: "leaves op \<Longrightarrow> keeps_state (calling op)"
  unfolding calling_def by (rule quiet_waiting) (auto dest: leavesD)

lemma quiet_locally: "frame m \<Longrightarrow> keeps_state (locally m)"
  by (auto simp: keeps_state_def locally_def dest: frameD split: prod.splits sum.splits)

lemma quiet_basic [simp]: "keeps_state (freturn v)" "keeps_state (ffail e)" "keeps_state (progress line)"
  by (simp_all add: keeps_state_def freturn_def ffail_def progress_def said_def)

lemma quiet_when [simp]: "keeps_state m \<Longrightarrow> keeps_state (fwhen b m)"
  by (simp add: fwhen_def)

lemma fbind_Some:
  assumes "fbind m f w x = Some (r, w', x')"
  obtains e where "m w x = Some (Inl e, w', x')" "r = Inl e"
    | v w1 x1 where "m w x = Some (Inr v, w1, x1)" "f v w1 x1 = Some (r, w', x')"
  using assms by (auto simp: fbind_def split: option.splits prod.splits sum.splits)

lemma quiet_fbind [intro]:
  assumes "keeps_state m" "\<And>v. keeps_state (f v)"
  shows "keeps_state (fbind m f)"
  unfolding keeps_state_def
proof (intro allI impI)
  fix w x r w' x'
  assume "fbind m f w x = Some (r, w', x')"
  then show "w' = w \<and> nit_files x' = nit_files x"
  proof (cases rule: fbind_Some)
    case (2 v w1 x1)
    then show ?thesis using quietD[OF assms(1) 2(1)] quietD[OF assms(2) 2(2)] by simp
  qed (use quietD[OF assms(1)] in blast)
qed

text \<open>A quiet first step either ends the flow or leaves the state as it was for the rest.\<close>

lemma fbind_quiet:
  assumes "keeps_state m" "fbind m f w x = Some (r, w', x')"
  shows "(w' = w \<and> nit_files x' = nit_files x \<and> (\<exists>e. r = Inl e))
    \<or> (\<exists>v x1. m w x = Some (Inr v, w, x1) \<and> nit_files x1 = nit_files x \<and> f v w x1 = Some (r, w', x'))"
  using assms(2)
proof (cases rule: fbind_Some)
  case (2 v w1 x1)
  then show ?thesis using quietD[OF assms(1) 2(1)] by auto
qed (use quietD[OF assms(1)] in blast)

lemma fbind_progress [simp]: "fbind (progress line) f w x = f () w (said line x)"
  by (simp add: fbind_def progress_def)

lemma shown_desk [simp]: "fw_desk (said line x) = fw_desk x"
  by (simp add: said_def)

lemma quiet_requestID: "calm r \<Longrightarrow> keeps_state (flow_requestID r)"
  by (auto simp: keeps_state_def flow_requestID_def newRequestID_def calm_def dest: leavesD split: option.splits prod.splits)

lemma quiet_calling_with: "(\<And>w. leaves (op w)) \<Longrightarrow> keeps_state (\<lambda>w. calling (op w) w)"
  using quiet_calling by (metis (no_types, lifting) keeps_state_def)

lemma quiet_ask_pull: "calm r \<Longrightarrow> keeps_state (ask_pull r)"
  unfolding ask_pull_def
  by (rule quiet_fbind[OF quiet_requestID quiet_calling_with]) (auto intro!: leaves_methods calm_send)

lemma quiet_awaited: "calm r \<Longrightarrow> keeps_state (awaited r i)"
  unfolding awaited_def WaitForTask_def
  by (intro quiet_fbind quiet_waiting) (auto dest: wait_loop_files[OF _ calm_send])

lemma quiet_delivered: "calm r \<Longrightarrow> keeps_state (delivered r t result)"
  unfolding delivered_def
  by (auto intro!: quiet_fbind quiet_calling leaves_FetchPatch calm_send split: option.split sum.split)

lemma quiet_submit: "calm r \<Longrightarrow> keeps_state (submit r opts patch descriptor)"
  unfolding submit_def
  by (rule quiet_fbind[OF quiet_requestID quiet_calling_with]) (auto intro!: leaves_methods calm_send)

lemma quiet_uploaded: "calm r \<Longrightarrow> keeps_state (uploaded r patch)"
  unfolding uploaded_def
  by (auto intro!: quiet_fbind quiet_calling leaves_methods calm_send split: sum.split)

subsection \<open>The sync point moves last\<close>

text \<open>The flow ended without touching the state; the answer, if there is one, is \<open>v\<close>.\<close>

definition untouched :: "opened \<Rightarrow> ('s, 'd) flow_world \<Rightarrow> flow_error + 'a \<Rightarrow> opened \<Rightarrow> ('s, 'd) flow_world \<Rightarrow> bool" where
  "untouched w x res w' x' \<longleftrightarrow> w' = w \<and> saved (fw_desk x') w = saved (fw_desk x) w"

lemma fbind_untouched:
  assumes "keeps_state m" "fbind m f w x = Some (r, w', x')"
  obtains e where "untouched w x r w' x'" "r = Inl e"
    | v x1 where "m w x = Some (Inr v, w, x1)" "saved (fw_desk x1) = saved (fw_desk x)" "f v w x1 = Some (r, w', x')"
  using fbind_quiet[OF assms] by (auto simp: untouched_def saved_def fun_eq_iff)

lemma untouched_from: "untouched w x1 r w' x' \<Longrightarrow> saved (fw_desk x1) = saved (fw_desk x) \<Longrightarrow> untouched w x r w' x'"
  by (simp add: untouched_def)

lemma current_head_always: "\<exists>head e0. current_head tk w e = (Inr head, w, e0)"
proof (cases "current_head tk w e")
  case (fields q w1 e1)
  moreover have "w1 = w" using frameD[OF frame_current_head fields] by simp
  ultimately show ?thesis by (auto simp: current_head_def split: prod.splits sum.splits)
qed

lemma awaited_Inr:
  assumes "awaited r i w x = Some (Inr t, w', x')"
  shows "pt_State t = TaskSucceeded \<and> WaitForTask (rn_net r) (rn_wire r) (rn_client r) i reportProgress x = Some (Inr t, x')"
  using assms unfolding awaited_def
  by (cases rule: fbind_Some) (auto simp: waiting_def freturn_def ffail_def split: option.splits prod.splits sum.splits if_splits)

text \<open>How a pull whose task has delivered its patch ends.\<close>

lemma applied_pull:
  assumes "fbind (locally (ApplySync tk patch up pv nxt)) (\<lambda>_. freturn report) w x = Some (res, w', x')"
  shows "(untouched w x res w' x' \<and> (\<exists>e. res = Inl e))
    \<or> (\<exists>sync e1 e2. applyAndCommit tk patch up pv w e1 = (Inr sync, w, e2) \<and> w' = at_sync w sync nxt
        \<and> (case res of Inr v \<Rightarrow> v = report \<and> saved (fw_desk x') w = Some (tk_encode tk (op_State w') @ nl)
           | Inl _ \<Rightarrow> saved (fw_desk x') w = saved (fw_desk x) w))"
proof -
  obtain head e0 where h: "current_head tk w (fw_desk x) = (Inr head, w, e0)" using current_head_always by blast
  obtain q w1 d where a: "ApplySync tk patch up pv nxt w (fw_desk x) = (q, w1, d)" by (metis prod_cases3)
  have "w1 = w'" "fw_desk x' = d" "case q of Inl e \<Rightarrow> res = Inl (FlowWorkspace e) | Inr _ \<Rightarrow> res = Inr report"
    using assms a by (auto simp: fbind_def locally_def freturn_def split: sum.splits)
  then show ?thesis
    using sync_point_moves_last[OF a h] by (cases q) (auto simp: untouched_def)
qed

lemma frame_dirtyPaths [intro, simp]: "frame (dirtyPaths tk)"
  unfolding dirtyPaths_def by (rule frame_wbind[OF frame_here]) simp

lemma frame_inspections [intro, simp]: "frame (EnsureClean tk)" "frame (ws_Dirty tk)" "frame (ws_Diff tk)"
proof -
  show "frame (EnsureClean tk)" unfolding EnsureClean_def by (rule frame_wbind[OF frame_dirtyPaths]) (simp add: frame_def)
  show "frame (ws_Dirty tk)" unfolding ws_Dirty_def by (rule frame_wbind[OF frame_dirtyPaths]) simp
  have "frame (\<lambda>w. if head = ws_LocalBase (op_State w) then (\<lambda>e. (Inr [], w, e))
      else here tk WsGit (\<lambda>git dir. repo_Diff git dir (ws_LocalBase (op_State w)) head) w)" for head
    by (simp add: frame_def here_def with_git_def split: prod.split sum.split)
  then have "frame (ws_bind (here tk WsGit (\<lambda>git dir. ResolveRef git dir ''HEAD'')) (\<lambda>head w.
      if head = ws_LocalBase (op_State w) then (\<lambda>e. (Inr [], w, e))
      else here tk WsGit (\<lambda>git dir. repo_Diff git dir (ws_LocalBase (op_State w)) head) w))"
    by (rule frame_wbind[OF frame_here])
  then show "frame (ws_Diff tk)" by (simp add: frame_def ws_Diff_def ws_fail_def)
qed

definition pull_succeeded :: "('s, 'd) runner \<Rightarrow> protocol_task \<Rightarrow> opened \<Rightarrow> ('s, 'd) flow_world \<Rightarrow> flow_error + pull_report \<Rightarrow> opened \<Rightarrow> ('s, 'd) flow_world \<Rightarrow> bool" where
  "pull_succeeded r t w x res w' x' \<longleftrightarrow>
     (\<exists>result patch x3 x4 sync e1 e2. pt_PullResult t = Some result \<and> delivered r t result w x3 = Some (Inr patch, w, x4)
      \<and> applyAndCommit (rn_tools r) patch (lr_UpstreamCommit (pu_Report result)) (lr_PolicyVersion (pu_Report result)) w e1 = (Inr sync, w, e2)
      \<and> w' = at_sync w sync (pu_NextSync result)
      \<and> (case res of Inr v \<Rightarrow> v = pu_Report result \<and> saved (fw_desk x') w = Some (tk_encode (rn_tools r) (op_State w') @ nl)
         | Inl _ \<Rightarrow> saved (fw_desk x') w = saved (fw_desk x) w))"

lemma pull_succeeded_from:
  "pull_succeeded r t w x1 res w' x' \<Longrightarrow> saved (fw_desk x1) = saved (fw_desk x) \<Longrightarrow> pull_succeeded r t w x res w' x'"
  unfolding pull_succeeded_def by (simp only:)

lemma finish_pull_outcome:
  assumes "calm r" "finish_pull r t w x = Some (res, w', x')"
  shows "(untouched w x res w' x' \<and> (\<exists>e. res = Inl e)) \<or> pull_succeeded r t w x res w' x'"
proof (cases "pt_PullResult t")
  case None
  then show ?thesis using assms(2) by (auto simp: finish_pull_def ffail_def untouched_def)
next
  case (Some result)
  then have "fbind (delivered r t result) (\<lambda>patch.
      fbind (locally (ApplySync (rn_tools r) patch (lr_UpstreamCommit (pu_Report result)) (lr_PolicyVersion (pu_Report result))
        (pu_NextSync result))) (\<lambda>_. freturn (pu_Report result))) w x = Some (res, w', x')"
    using assms(2) by (simp add: finish_pull_def)
  from quiet_delivered[OF assms(1)] this show ?thesis
  proof (cases rule: fbind_untouched)
    case (2 patch x1)
    from applied_pull[OF 2(3)] show ?thesis
    proof
      assume "untouched w x1 res w' x' \<and> (\<exists>e. res = Inl e)"
      then show ?thesis using untouched_from[OF _ 2(2)] by blast
    next
      assume "\<exists>sync e1 e2. applyAndCommit (rn_tools r) patch (lr_UpstreamCommit (pu_Report result)) (lr_PolicyVersion (pu_Report result)) w e1
            = (Inr sync, w, e2) \<and> w' = at_sync w sync (pu_NextSync result)
        \<and> (case res of Inr v \<Rightarrow> v = pu_Report result \<and> saved (fw_desk x') w = Some (tk_encode (rn_tools r) (op_State w') @ nl)
           | Inl _ \<Rightarrow> saved (fw_desk x') w = saved (fw_desk x1) w)"
      then have "pull_succeeded r t w x1 res w' x'" unfolding pull_succeeded_def using Some 2(1) by blast
      then show ?thesis using pull_succeeded_from[OF _ 2(2)] by blast
    qed
  qed simp
qed

lemma flow_pull_outcome:
  assumes "calm r" "flow_pull r w x = Some (res, w', x')"
  shows "(untouched w x res w' x' \<and> ((\<exists>e. res = Inl e) \<or> res = Inr empty_report))
    \<or> (\<exists>i t x1 x2. WaitForTask (rn_net r) (rn_wire r) (rn_client r) i reportProgress x1 = Some (Inr t, x2)
        \<and> pt_State t = TaskSucceeded \<and> pull_succeeded r t w x res w' x')"
  using quiet_ask_pull[OF assms(1)] assms(2)[unfolded flow_pull_def]
proof (cases rule: fbind_untouched)
  case (2 response x1)
  show ?thesis
  proof (cases "ps_UpToDate response")
    case True
    then show ?thesis using 2 by (auto simp: freturn_def untouched_def)
  next
    case False
    let ?x = "said ''waiting for the server to prepare the changes'' x1"
    have "fbind (awaited r (ps_TaskID response)) (finish_pull r) w ?x = Some (res, w', x')" using 2(3) False by simp
    from quiet_awaited[OF assms(1)] this show ?thesis
    proof (cases rule: fbind_untouched)
      case 1
      then show ?thesis using 2(2) by (simp add: untouched_def)
    next
      case w: (2 t x3)
      have s: "saved (fw_desk x3) = saved (fw_desk x)" using w(2) 2(2) by simp
      show ?thesis using finish_pull_outcome[OF assms(1) w(3)] awaited_Inr[OF w(1)] untouched_from[OF _ s] pull_succeeded_from[OF _ s] by blast
    qed
  qed
qed simp

text \<open>
  Claim C8. Ask, wait, then move local state. However a pull ends, either the workspace and its state file are as they were (and it
  failed, or the server said there was nothing new), or the server reported that very task as succeeded with a pull
  result, the patch of the result was fetched, decompressed, applied and committed, and the workspace stands at that commit
  with the token of that result; the state file then has the new state exactly when the pull returns without an error.
\<close>

theorem pull_moves_sync_point_last:
  assumes "calm r" "flow_Pull r w x = Some (res, w', x')"
  shows "(w' = w \<and> saved (fw_desk x') w = saved (fw_desk x) w \<and> ((\<exists>e. res = Inl e) \<or> res = Inr empty_report))
    \<or> (\<exists>i x1 t x2 result patch x3 x4 sync e1 e2.
        WaitForTask (rn_net r) (rn_wire r) (rn_client r) i reportProgress x1 = Some (Inr t, x2)
      \<and> pt_State t = TaskSucceeded \<and> pt_PullResult t = Some result \<and> delivered r t result w x3 = Some (Inr patch, w, x4)
      \<and> applyAndCommit (rn_tools r) patch (lr_UpstreamCommit (pu_Report result)) (lr_PolicyVersion (pu_Report result)) w e1 = (Inr sync, w, e2)
      \<and> w' = at_sync w sync (pu_NextSync result)
      \<and> (case res of Inr v \<Rightarrow> v = pu_Report result \<and> saved (fw_desk x') w = Some (tk_encode (rn_tools r) (op_State w') @ nl)
         | Inl _ \<Rightarrow> saved (fw_desk x') w = saved (fw_desk x) w))"
proof -
  have clean: "keeps_state (locally (EnsureClean (rn_tools r)))" by (rule quiet_locally) simp
  from clean assms(2)[unfolded flow_Pull_def]
  have "(untouched w x res w' x' \<and> ((\<exists>e. res = Inl e) \<or> res = Inr empty_report))
    \<or> (\<exists>i t x1 x2. WaitForTask (rn_net r) (rn_wire r) (rn_client r) i reportProgress x1 = Some (Inr t, x2)
        \<and> pt_State t = TaskSucceeded \<and> pull_succeeded r t w x res w' x')"
  proof (cases rule: fbind_untouched)
    case (2 v x1)
    then show ?thesis using flow_pull_outcome[OF assms(1) 2(3)] untouched_from[OF _ 2(2)] pull_succeeded_from[OF _ 2(2)] by blast
  qed simp
  then show ?thesis unfolding untouched_def pull_succeeded_def by blast
qed

lemma recorded_push:
  assumes "fbind (locally (RecordPush tk nxt)) (\<lambda>_. freturn v) w x = Some (res, w', x')"
  shows "(untouched w x res w' x' \<and> (\<exists>e. res = Inl e))
    \<or> (\<exists>head d d'. ResolveRef (tk_git tk) (op_Root w) ''HEAD'' d = (Inr head, d') \<and> w' = at_sync w head nxt
        \<and> (case res of Inr u \<Rightarrow> u = v \<and> saved (fw_desk x') w = Some (tk_encode tk (op_State w') @ nl)
           | Inl _ \<Rightarrow> saved (fw_desk x') w = saved (fw_desk x) w))"
proof -
  obtain q w1 d where a: "RecordPush tk nxt w (fw_desk x) = (q, w1, d)" by (metis prod_cases3)
  have q: "w1 = w'" "fw_desk x' = d" "case q of Inl e \<Rightarrow> res = Inl (FlowWorkspace e) | Inr _ \<Rightarrow> res = Inr v"
    using assms a by (auto simp: fbind_def locally_def freturn_def split: sum.splits)
  from frame_here a[unfolded RecordPush_def] show ?thesis
  proof (cases rule: wbind_frame)
    case (1 e e1)
    then show ?thesis using q by (auto simp: untouched_def saved_def)
  next
    case (2 head e1)
    have "\<exists>d d'. ResolveRef (tk_git tk) (op_Root w) ''HEAD'' d = (Inr head, d')"
      using 2(1) by (auto simp: here_def with_git_def split: prod.splits sum.splits)
    moreover have "saved e1 w = saved (fw_desk x) w" using 2(2) by (simp add: saved_def)
    ultimately show ?thesis using record_sync_outcome[OF 2(3)] q by (cases q) auto
  qed
qed

definition push_succeeded :: "('s, 'd) runner \<Rightarrow> protocol_task \<Rightarrow> opened \<Rightarrow> ('s, 'd) flow_world \<Rightarrow> flow_error + push_outcome \<Rightarrow> opened \<Rightarrow> ('s, 'd) flow_world \<Rightarrow> bool" where
  "push_succeeded r t w x res w' x' \<longleftrightarrow>
     (\<exists>result head d d'. pt_PushResult t = Some result \<and> ur_NextSync result \<noteq> []
      \<and> ResolveRef (tk_git (rn_tools r)) (op_Root w) ''HEAD'' d = (Inr head, d') \<and> w' = at_sync w head (ur_NextSync result)
      \<and> (case res of Inr u \<Rightarrow> po_UpstreamCommit u = ur_UpstreamCommit result \<and> \<not> po_NeedsPull u
                              \<and> saved (fw_desk x') w = Some (tk_encode (rn_tools r) (op_State w') @ nl)
         | Inl _ \<Rightarrow> saved (fw_desk x') w = saved (fw_desk x) w))"

definition push_stays :: "opened \<Rightarrow> ('s, 'd) flow_world \<Rightarrow> flow_error + push_outcome \<Rightarrow> opened \<Rightarrow> ('s, 'd) flow_world \<Rightarrow> bool" where
  "push_stays w x res w' x' \<longleftrightarrow> untouched w x res w' x' \<and> (\<forall>u. res = Inr u \<longrightarrow> po_NeedsPull u \<or> po_UpstreamCommit u = [])"

lemma push_from:
  assumes "saved (fw_desk x1) = saved (fw_desk x)"
  shows "push_stays w x1 res w' x' \<Longrightarrow> push_stays w x res w' x'"
    and "push_succeeded r t w x1 res w' x' \<Longrightarrow> push_succeeded r t w x res w' x'"
  unfolding push_stays_def untouched_def push_succeeded_def assms by blast+

lemma landed_outcome:
  assumes "calm r" "landed r response w x = Some (res, w', x')"
  shows "push_stays w x res w' x' \<or> (\<exists>i t x1 x2. WaitForTask (rn_net r) (rn_wire r) (rn_client r) i reportProgress x1 = Some (Inr t, x2)
      \<and> pt_State t = TaskSucceeded \<and> push_succeeded r t w x res w' x')"
  using quiet_awaited[OF assms(1)] assms(2)[unfolded landed_def]
proof (cases rule: fbind_untouched)
  case (2 t x1)
  consider "pt_PushResult t = None" | result where "pt_PushResult t = Some result" "ur_NextSync result = []"
    | result where "pt_PushResult t = Some result" "ur_NextSync result \<noteq> []" by (cases "pt_PushResult t") auto
  then show ?thesis
  proof cases
    case 3
    let ?v = "\<lparr>po_Report = pp_Report response, po_UpstreamCommit = ur_UpstreamCommit result, po_NeedsPull = False\<rparr>"
    have "fbind (locally (RecordPush (rn_tools r) (ur_NextSync result))) (\<lambda>_. freturn ?v) w x1 = Some (res, w', x')" using 2(3) 3 by simp
    from recorded_push[OF this] have "push_stays w x1 res w' x' \<or> push_succeeded r t w x1 res w' x'"
    proof
      assume "\<exists>head d d'. ResolveRef (tk_git (rn_tools r)) (op_Root w) ''HEAD'' d = (Inr head, d') \<and> w' = at_sync w head (ur_NextSync result)
        \<and> (case res of Inr u \<Rightarrow> u = ?v \<and> saved (fw_desk x') w = Some (tk_encode (rn_tools r) (op_State w') @ nl)
           | Inl _ \<Rightarrow> saved (fw_desk x') w = saved (fw_desk x1) w)"
      then obtain head d d' where "ResolveRef (tk_git (rn_tools r)) (op_Root w) ''HEAD'' d = (Inr head, d')" "w' = at_sync w head (ur_NextSync result)"
        "case res of Inr u \<Rightarrow> u = ?v \<and> saved (fw_desk x') w = Some (tk_encode (rn_tools r) (op_State w') @ nl)
           | Inl _ \<Rightarrow> saved (fw_desk x') w = saved (fw_desk x1) w" by blast
      then have "push_succeeded r t w x1 res w' x'" unfolding push_succeeded_def using 3
        by (intro exI[of _ result] exI[of _ head] exI[of _ d] exI[of _ d']) (auto split: sum.splits)
      then show ?thesis ..
    qed (auto simp: push_stays_def)
    then show ?thesis using push_from[OF 2(2)] awaited_Inr[OF 2(1)] by blast
  qed (use 2 in \<open>auto simp: ffail_def freturn_def fbind_def push_stays_def untouched_def\<close>)
qed (simp add: push_stays_def)

definition push_outcome_ok :: "('s, 'd) runner \<Rightarrow> push_choice \<Rightarrow> opened \<Rightarrow> ('s, 'd) flow_world \<Rightarrow> flow_error + push_outcome \<Rightarrow> opened \<Rightarrow> ('s, 'd) flow_world \<Rightarrow> bool" where
  "push_outcome_ok r opts w x res w' x' \<longleftrightarrow> push_stays w x res w' x' \<or> \<not> ps_Check opts \<and> (\<exists>i t x1 x2.
     WaitForTask (rn_net r) (rn_wire r) (rn_client r) i reportProgress x1 = Some (Inr t, x2) \<and> pt_State t = TaskSucceeded
     \<and> push_succeeded r t w x res w' x')"

lemma push_outcome_from:
  "push_outcome_ok r opts w y res w' x' \<Longrightarrow> saved (fw_desk y) = saved (fw_desk x) \<Longrightarrow> push_outcome_ok r opts w x res w' x'"
  using push_from[of y x] unfolding push_outcome_ok_def by blast

lemma conclude_outcome:
  assumes "calm r" "conclude r opts response w y = Some (res, w', x')"
  shows "push_outcome_ok r opts w y res w' x'"
proof (cases "ps_Check opts \<or> \<not> pp_Accepted response")
  case True
  then show ?thesis using assms(2) by (auto simp: conclude_def freturn_def push_outcome_ok_def push_stays_def untouched_def)
next
  case False
  then obtain z where z: "landed r response w z = Some (res, w', x')" "saved (fw_desk z) = saved (fw_desk y)"
    using assms(2) by (auto simp: conclude_def fbind_def fwhen_def freturn_def progress_def split: if_splits)
  then have "push_outcome_ok r opts w z res w' x'" using landed_outcome[OF assms(1) z(1)] False by (auto simp: push_outcome_ok_def)
  then show ?thesis using z(2) by (rule push_outcome_from)
qed

text \<open>A quiet step in front of a flow whose outcomes are fine keeps them so.\<close>

lemma push_outcome_step:
  assumes "keeps_state m" "\<And>v y. f v w y = Some (res, w', x') \<Longrightarrow> push_outcome_ok r opts w y res w' x'" "fbind m f w x = Some (res, w', x')"
  shows "push_outcome_ok r opts w x res w' x'"
  using assms(1,3)
proof (cases rule: fbind_untouched)
  case (2 v x1)
  then show ?thesis using assms(2) push_outcome_from by blast
qed (simp add: push_outcome_ok_def push_stays_def)

lemma flow_Push_outcome:
  assumes "calm r" "flow_Push r opts w x = Some (res, w', x')"
  shows "push_outcome_ok r opts w x res w' x'"
proof (cases "ps_Message opts = [] \<and> \<not> ps_Check opts")
  case True
  then show ?thesis using assms(2) by (auto simp: flow_Push_def ffail_def push_outcome_ok_def push_stays_def untouched_def)
next
  case False
  note step = push_outcome_step[where r = r and opts = opts]
  have ended: "ffail e w y = Some (res, w', x') \<Longrightarrow> push_outcome_ok r opts w y res w' x'" for e y
    by (auto simp: ffail_def push_outcome_ok_def push_stays_def untouched_def)
  note q = quiet_locally[OF frame_inspections(3)] quiet_locally[OF frame_inspections(2)] quiet_when[OF quiet_basic(3)]
    quiet_uploaded[OF assms(1)] quiet_submit[OF assms(1)]
  from assms(2) False show ?thesis unfolding flow_Push_def
    by (auto elim!: ended conclude_outcome[OF assms(1)] step[OF q(1), rotated] step[OF q(2), rotated] step[OF q(3), rotated]
        step[OF q(4), rotated] step[OF q(5), rotated] split: if_splits)
qed

text \<open>
  Claim C9. A push moves the workspace only when it may. Whatever happens, either the workspace and its state file are as they were
  (always so for a check; a push that returns without an error then landed nothing, or tells the developer to pull), or
  the server reported the task as succeeded with a token for the new state, and the workspace stands at what \<open>HEAD\<close> names after the
  wait, with that token; the state file has the new state exactly when the push returns without an error.
\<close>

theorem push_moves_sync_point_last:
  assumes "calm r" "flow_Push r opts w x = Some (res, w', x')"
  shows "(w' = w \<and> saved (fw_desk x') w = saved (fw_desk x) w \<and> (\<forall>u. res = Inr u \<longrightarrow> po_NeedsPull u \<or> po_UpstreamCommit u = []))
    \<or> (\<not> ps_Check opts \<and> (\<exists>i t x1 x2 result head d d'.
        WaitForTask (rn_net r) (rn_wire r) (rn_client r) i reportProgress x1 = Some (Inr t, x2)
      \<and> pt_State t = TaskSucceeded \<and> pt_PushResult t = Some result \<and> ur_NextSync result \<noteq> []
      \<and> ResolveRef (tk_git (rn_tools r)) (op_Root w) ''HEAD'' d = (Inr head, d') \<and> w' = at_sync w head (ur_NextSync result)
      \<and> (case res of Inr u \<Rightarrow> po_UpstreamCommit u = ur_UpstreamCommit result \<and> \<not> po_NeedsPull u
                              \<and> saved (fw_desk x') w = Some (tk_encode (rn_tools r) (op_State w') @ nl)
         | Inl _ \<Rightarrow> saved (fw_desk x') w = saved (fw_desk x) w)))"
  using flow_Push_outcome[OF assms] unfolding push_outcome_ok_def push_stays_def untouched_def push_succeeded_def by blast

subsection \<open>A clone that fails\<close>

lemma fbind_failed:
  assumes "fbind m f w x = Some (Inl e, w', x')" "keeps_state m" "nit_files x = fs"
    and "nit_files x' = fs \<Longrightarrow> P" "\<And>v y. nit_files y = fs \<Longrightarrow> f v w y = Some (Inl e, w', x') \<Longrightarrow> P"
  shows P
  using fbind_quiet[OF assms(2,1)] assms(3-5) by auto

lemma quiet_ensureEmpty: "keeps_state (ensureEmptyDirectory r dir)"
  by (auto simp: keeps_state_def ensureEmptyDirectory_def freturn_def ffail_def split: entries.splits if_splits)

lemma quiet_chosen_branch: "calm r \<Longrightarrow> keeps_state (chosen_branch r q)"
  unfolding chosen_branch_def Let_def
  by (auto intro!: quiet_fbind quiet_calling leaves_methods calm_send)

lemma pull_or_remove_failed:
  assumes "fbind (pull_or_remove r dir) (\<lambda>report. freturn (g report)) w x = Some (Inl e, w', x')"
  shows "\<exists>d. fw_desk x' = rn_removeAll r dir d"
  using assms
proof (cases rule: fbind_Some)
  case (1 e1)
  then show ?thesis by (auto simp: pull_or_remove_def split: option.splits prod.splits sum.splits)
qed (simp add: freturn_def)

text \<open>
  What a failed clone leaves behind. If removing a tree leaves nothing at its path, then after a clone that failed either nit
  has written nothing, or the directory is gone, or it was the creation of the workspace that failed, and
  the directory is as that left it.
\<close>

theorem failed_clone_leaves:
  assumes "calm r" "flow_Clone r q w x = Some (Inl e, w', x')"
    and "\<And>d. rn_readdir r (clone_dir q) (rn_removeAll r (clone_dir q) d) = Missing"
  shows "nit_files x' = nit_files x \<or> rn_readdir r (clone_dir q) (fw_desk x') = Missing
    \<or> (\<exists>st d err w1. ws_Init (rn_tools r) (clone_dir q) st d = (Inl err, w1, fw_desk x') \<and> e = FlowWorkspace err)" (is ?goal)
proof (cases "cq_Repository q = []")
  case True
  then show ?thesis using assms(2) by (simp add: flow_Clone_def ffail_def)
next
  case False
  let ?make = "\<lambda>registered branch. fbind (created_in r (clone_dir q) \<lparr>ws_Server = cq_Server q, ws_Repository = cq_Repository q,
      ws_Branch = branch, ws_Workspace = wv_ID registered, ws_SyncToken = [], ws_LocalBase = []\<rparr>) (\<lambda>_.
    fbind (pull_or_remove r (clone_dir q)) (\<lambda>report. freturn (path_Abs (rn_cwd r) (clone_dir q), report)))"
  have made: ?goal if "?make registered branch w y = Some (Inl e, w', x')" for registered branch y
    using that
  proof (cases rule: fbind_Some)
    case (1 e1)
    then show ?thesis by (auto simp: created_in_def locally_def split: prod.splits sum.splits)
  next
    case (2 v w1 x1)
    then show ?thesis using pull_or_remove_failed[OF 2(2)] assms(3) by auto
  qed
  have "fbind (ensureEmptyDirectory r (clone_dir q)) (\<lambda>_. fbind (chosen_branch r q) (\<lambda>branch.
      fbind (progress ''registering the workspace'') (\<lambda>_.
      fbind (calling (client_CreateWorkspace (rn_net r) (rn_wire r) (rn_client r) (if cq_Label q = [] then hostname r else cq_Label q)))
        (\<lambda>registered. ?make registered branch)))) w x = Some (Inl e, w', x')"
    using assms(2) False by (simp add: flow_Clone_def Let_def)
  then show ?thesis
    by (elim fbind_failed[OF _ quiet_ensureEmpty] fbind_failed[OF _ quiet_chosen_branch[OF assms(1)]] fbind_failed[OF _ quiet_basic(3)]
        fbind_failed[OF _ quiet_calling[OF leaves_methods(7)[OF calm_send[OF assms(1)]]]] made) auto
qed

subsection \<open>Witnesses\<close>

definition toy_task :: protocol_task where
  "toy_task = \<lparr>pt_ID = ''7'', pt_Kind = TaskPull, pt_State = TaskSucceeded, pt_Repository = ''api'', pt_Branch = ''main'', pt_QueuePosition = 0,
     pt_CreatedAt = 0, pt_StartedAt = None, pt_FinishedAt = None, pt_Error = None,
     pt_PushResult = Some \<lparr>ur_UpstreamCommit = ''u'', ur_NextSync = ''t1'',
       ur_Report = \<lparr>rp_PolicyVersion = ''v'', rp_FilesTotal = 1, rp_FilesAccepted = 1, rp_FilesDenied = 0, rp_Denials = []\<rparr>\<rparr>,
     pt_PullResult = Some \<lparr>pu_Patch = Some \<lparr>pb_Digest = [], pb_Size = 1, pb_Encoding = EncodingNone, pb_UncompressedSize = 1\<rparr>,
       pu_NextSync = ''t1'', pu_Report = empty_report\<lparr>lr_UpstreamCommit := ''u''\<rparr>\<rparr>\<rparr>"

definition toy_event :: "bytes \<Rightarrow> poll_event" where
  "toy_event body = \<lparr>ev_TaskID = ''7'', ev_State = (if body = [] then TaskSucceeded else TaskRunning), ev_At = 0, ev_Task = None\<rparr>"

definition toy_wire :: wire where
  "toy_wire = \<lparr>wi_error = (\<lambda>_. None), wi_whoami = (\<lambda>_. None), wi_repos = (\<lambda>_. Some []),
     wi_workspace = (\<lambda>_. Some \<lparr>wv_ID = ''9'', wv_Label = []\<rparr>), wi_health = (\<lambda>_. None),
     wi_blob = (\<lambda>_. Some \<lparr>pb_Digest = ''d'', pb_Size = 1, pb_Encoding = EncodingNone, pb_UncompressedSize = 0\<rparr>),
     wi_task = (\<lambda>_. Some toy_task), wi_event = (\<lambda>body. Some (toy_event body)),
     wi_push = (\<lambda>_. Some \<lparr>pp_TaskID = ''7'', pp_Accepted = True,
       pp_Report = \<lparr>rp_PolicyVersion = ''v'', rp_FilesTotal = 1, rp_FilesAccepted = 1, rp_FilesDenied = 0, rp_Denials = []\<rparr>, pp_QueuePosition = 0\<rparr>),
     wi_pull = (\<lambda>_. Some \<lparr>ps_TaskID = ''7'', ps_UpToDate = False\<rparr>), wi_label = id, wi_push_request = (\<lambda>_. []), wi_pull_request = (\<lambda>_. [])\<rparr>"

definition toy_client :: client where
  "toy_client = New_client ''https://nit/'' ''secret''"

definition world_net :: "(unit, string \<times> bool) flow_world network" where
  "world_net = \<lparr>nw_send = (\<lambda>q x. (Some \<lparr>wn_status = 200, wn_text = ''200 OK'', wn_body = (if take 5 (rev (wq_url q)) = rev ''patch'' then ''p'' else [])\<rparr>, x)),
     nw_cancelled = (\<lambda>_. False)\<rparr>"

definition toy_runner :: "(unit, string \<times> bool) runner" where
  "toy_runner = \<lparr>rn_net = world_net, rn_wire = toy_wire, rn_client = toy_client, rn_tools = toy_tools, rn_NewRequestID = None,
     rn_entropy = (\<lambda>x. (Some [CHR ''A''], x)), rn_zenc = id, rn_zdec = (\<lambda>b. (b, True)), rn_readdir = (\<lambda>_ _. Missing),
     rn_removeAll = (\<lambda>_ d. d), rn_hostname = None, rn_cwd = ''/''\<rparr>"

definition toy_start :: "string \<Rightarrow> (unit, string \<times> bool) flow_world" where
  "toy_start head = \<lparr>fw_remote = (), fw_desk = toy_desk head, fw_log = []\<rparr>"

lemma toy_calm: "calm toy_runner"
  by (simp add: calm_def leaves_def toy_runner_def world_net_def)

definition toy_pulled where
  "toy_pulled = flow_Pull toy_runner toy_open (toy_start ''c'')"

lemma toy_pulled: "map_option (\<lambda>(res, w, x). (res, w)) toy_pulled = Some (Inr (empty_report\<lparr>lr_UpstreamCommit := ''u''\<rparr>), at_sync toy_open ''cx'' ''t1'')"
  by code_simp

theorem pull_moves_sync_point_last_witness:
  "\<exists>x'. flow_Pull toy_runner toy_open (toy_start ''c'') = Some (Inr (empty_report\<lparr>lr_UpstreamCommit := ''u''\<rparr>), at_sync toy_open ''cx'' ''t1'', x')
     \<and> saved (fw_desk x') toy_open = Some (''t1|cx'' @ nl)"
proof -
  obtain x' where p: "flow_Pull toy_runner toy_open (toy_start ''c'') = Some (Inr (empty_report\<lparr>lr_UpstreamCommit := ''u''\<rparr>), at_sync toy_open ''cx'' ''t1'', x')"
    using toy_pulled by (auto simp: toy_pulled_def)
  have "at_sync toy_open ''cx'' ''t1'' \<noteq> toy_open" by (simp add: at_sync_def toy_open_def)
  then have "saved (fw_desk x') toy_open = Some (tk_encode (rn_tools toy_runner) (op_State (at_sync toy_open ''cx'' ''t1'')) @ nl)"
    using pull_moves_sync_point_last[OF toy_calm p] by auto
  then show ?thesis using p by (simp add: toy_runner_def toy_tools_def at_sync_def)
qed

definition toy_options :: push_choice where
  "toy_options = \<lparr>ps_Message = ''m'', ps_Check = False, ps_DropUnauthorized = False\<rparr>"

definition toy_pushed where
  "toy_pushed = flow_Push toy_runner toy_options toy_open (toy_start ''c2'')"

lemma toy_pushed:
  "map_option (\<lambda>(res, w, x). (map_sum id po_NeedsPull res, w)) toy_pushed = Some (Inr False, at_sync toy_open ''c2'' ''t1'')"
  by code_simp

theorem push_moves_sync_point_last_witness:
  "\<exists>u x'. flow_Push toy_runner toy_options toy_open (toy_start ''c2'') = Some (Inr u, at_sync toy_open ''c2'' ''t1'', x')
     \<and> saved (fw_desk x') toy_open = Some (''t1|c2'' @ nl)"
proof -
  obtain res x' where "flow_Push toy_runner toy_options toy_open (toy_start ''c2'') = Some (res, at_sync toy_open ''c2'' ''t1'', x')"
    "map_sum id po_NeedsPull res = (Inr False :: flow_error + bool)"
    using toy_pushed by (auto simp: toy_pushed_def)
  then obtain u where p: "flow_Push toy_runner toy_options toy_open (toy_start ''c2'') = Some (Inr u, at_sync toy_open ''c2'' ''t1'', x')"
    by (cases res) auto
  have "at_sync toy_open ''c2'' ''t1'' \<noteq> toy_open" by (simp add: at_sync_def toy_open_def)
  then have "saved (fw_desk x') toy_open = Some (tk_encode (rn_tools toy_runner) (op_State (at_sync toy_open ''c2'' ''t1'')) @ nl)"
    using push_moves_sync_point_last[OF toy_calm p] by auto
  then show ?thesis using p by (simp add: toy_runner_def toy_tools_def at_sync_def)
qed

text \<open>A repository whose patch cannot be applied: the directory is gone again.\<close>

definition bare_git :: "string list git_binary" where
  "bare_git dir args stdin d =
     (if hd args = ''init'' then (\<lparr>ga_stdout = [], ga_failure = None\<rparr>, dir # d)
      else if hd args = ''apply'' then (\<lparr>ga_stdout = [], ga_failure = Some (''exit status 1'', [])\<rparr>, d)
      else (\<lparr>ga_stdout = ''c'', ga_failure = None\<rparr>, d))"

definition bare_runner :: "(unit, string list) runner" where
  "bare_runner = \<lparr>rn_net = \<lparr>nw_send = (\<lambda>q x. (Some \<lparr>wn_status = 200, wn_text = [], wn_body = (if take 5 (rev (wq_url q)) = rev ''patch'' then ''p'' else [])\<rparr>, x)),
       nw_cancelled = (\<lambda>_. False)\<rparr>, rn_wire = toy_wire, rn_client = toy_client,
     rn_tools = \<lparr>tk_git = bare_git, tk_encode = (\<lambda>_. []), tk_decode = (\<lambda>_. None), tk_writable = (\<lambda>_. True)\<rparr>, rn_NewRequestID = None,
     rn_entropy = (\<lambda>x. (Some [CHR ''A''], x)), rn_zenc = id, rn_zdec = (\<lambda>b. (b, True)),
     rn_readdir = (\<lambda>dir d. if List.member (dsk_git d) dir then Entries 1 else Missing),
     rn_removeAll = (\<lambda>dir d. d\<lparr>dsk_git := removeAll dir (dsk_git d)\<rparr>), rn_hostname = None, rn_cwd = ''/''\<rparr>"

definition bare_request :: clone_request where
  "bare_request = \<lparr>cq_Server = ''https://nit'', cq_Repository = ''api'', cq_Branch = ''main'', cq_Directory = [], cq_Label = []\<rparr>"

definition bare_world :: "(unit, string list) flow_world" where
  "bare_world = \<lparr>fw_remote = (), fw_desk = \<lparr>dsk_git = [], dsk_files = []\<rparr>, fw_log = []\<rparr>"

definition bare_failure where
  "bare_failure = flow_Clone bare_runner bare_request toy_open bare_world"

lemma bare_failure:
  "case bare_failure of Some (Inl (FlowWorkspace (PatchRefused _)), _, x') \<Rightarrow> nit_files x' \<noteq> [] | _ \<Rightarrow> False"
  by code_simp

lemma created_error: "ws_Init tk root st e = (Inl err, w1, e') \<Longrightarrow> err \<noteq> PatchRefused x"
  by (auto simp: ws_Init_def ws_bind_def here_def with_git_def ws_Save_def Let_def split: if_splits prod.splits sum.splits)

theorem failed_clone_leaves_witness:
  "\<exists>e w' x'. flow_Clone bare_runner bare_request toy_open bare_world = Some (Inl e, w', x') \<and> rn_readdir bare_runner ''api'' (fw_desk x') = Missing"
proof -
  obtain x w' x' where b: "bare_failure = Some (Inl (FlowWorkspace (PatchRefused x)), w', x')" "nit_files x' \<noteq> []"
    using bare_failure by (auto split: option.splits prod.splits sum.splits flow_error.splits ws_error.splits)
  have "calm bare_runner" by (simp add: calm_def leaves_def bare_runner_def)
  note o = failed_clone_leaves[OF this b(1)[unfolded bare_failure_def]]
  have "rn_readdir bare_runner (clone_dir bare_request) (rn_removeAll bare_runner (clone_dir bare_request) d) = Missing" for d
    by (simp add: bare_runner_def)
  note o = o[OF this]
  have "nit_files bare_world = []" by (simp add: bare_world_def)
  then have "rn_readdir bare_runner (clone_dir bare_request) (fw_desk x') = Missing"
    using o b(2) by (auto dest: created_error)
  then show ?thesis using b(1) by (auto simp: bare_failure_def clone_dir_def bare_request_def)
qed

end
