(* ===== verification/Spec2Isabelle.thy ===== *)
theory Spec2Isabelle
  imports
    Nit_Patch
    Nit_Enforce
    Nit_Profile
    Nit_Queue
    Nit_Store
    Nit_Message
    Nit_Diff
    Nit_Blob
    Nit_Token
    Nit_Cache
    Nit_Auth
    Nit_Audit
    Nit_Server
    Nit_Worker
    Nit_Api
    Nit_Events
    Nit_Bundle
    Nit_Gitcache
    Nit_Config
    Nit_Git
    Nit_Workspace
    Nit_Flow
begin

text \<open>
  A verification library for nit, a control plane that puts path-level permissions in front of a git
  repository. A developer never talks to the forge: \<open>nit push\<close> uploads a patch, the control plane decides
  it section by section against a policy bundle, stores what survives and queues a task; a worker applies
  the stored patch to the upstream branch. \<open>nit pull\<close> queues a task whose worker produces the upstream
  diff reduced to what the developer may read.

  \<^bold>\<open>The parts and their theories.\<close> Paths are below \<open>src/\<close>.

  \<^item> \<open>Nit_Prelude\<close>: bytes as \<open>char list\<close>, results as sums with \<open>rbind\<close>, early-return loops, association
    lists for Go maps, the functions of \<open>strings\<close> and \<open>strconv\<close> the code calls.
  \<^item> \<open>Nit_Patch\<close> (\<open>pkg/patch\<close>): the preamble and the sections of a patch, the offset loop that finds them,
    rendering a selection. Nothing is lost, and a rendered selection parses to exactly what was selected.
  \<^item> \<open>Nit_Rule\<close>, \<open>Nit_Policy\<close> (\<open>pkg/policy\<close>: \<open>identity.go\<close>, \<open>pattern.go\<close>, \<open>rule.go\<close>, \<open>decision.go\<close>,
    \<open>policy.go\<close>): the data of a bundle and its compilation. A bundle that compiles is well formed, the
    cycle search is exact, memberships are the transitive closure.
  \<^item> \<open>Nit_Engine\<close> (\<open>engine.go\<close>), \<open>Nit_Profile\<close> (\<open>profile.go\<close>), \<open>Nit_Diff\<close> (\<open>diff.go\<close>, \<open>expect.go\<close>): the
    decision of a request (deny overrides), the memoizing engine, the fingerprint under which projections
    are shared, the comparison of two bundles and the check of expectations. Locale \<open>decision_engine\<close>.
  \<^item> \<open>Nit_Enforce\<close> (\<open>pkg/enforce\<close>): requirements and guards of a section, the push and the pull pass.
  \<^item> \<open>Nit_Models\<close>, \<open>Nit_Tasks\<close>, \<open>Nit_Store\<close> (\<open>pkg/store\<close>, \<open>pkg/protocol\<close>, \<open>internal/store/memory\<close>,
    \<open>internal/bootstrap/bootstrap.go\<close>, the export loop of \<open>cmd/nitctl/export.go\<close>): the records and the
    in-memory backend. \<open>Nit_Tasks\<close> has the step relation of the task store, its invariant, and the
    refinement of an abstract task life cycle.
  \<^item> \<open>Nit_Queue\<close> (\<open>internal/queue\<close>): submission, claims, lease renewal, the runner, over the interface
    \<open>store.TaskStore\<close> (locale \<open>fenced_store\<close>).
  \<^item> \<open>Nit_Blob\<close> (\<open>pkg/blob\<close>, \<open>internal/blob/filesystem\<close>): content-addressed stores. Locales \<open>blob_store\<close>
    and \<open>two_stores\<close>, with the fallback store as a sublocale.
  \<^item> \<open>Nit_Token\<close> (\<open>internal/synctoken\<close>), \<open>Nit_Auth\<close> (\<open>internal/auth\<close>): signed sync tokens and bearer
    tokens.
  \<^item> \<open>Nit_Cache\<close> (\<open>pkg/pullcache\<close>, \<open>internal/pullcache\<close>): the shared projections, a list and a map that
    refine a bounded least-recently-used list with expiry.
  \<^item> \<open>Nit_Server\<close> (\<open>internal/server\<close>, \<open>internal/compress\<close>): the handlers, as functions from request,
    principal, clock and state to response and state.
  \<^item> \<open>Nit_Message\<close> (\<open>internal/worker/message.go\<close>): the published commit message and its trailers.
  \<^item> \<open>Nit_Worker\<close> (\<open>internal/worker/worker.go\<close>, \<open>push.go\<close>, \<open>pull.go\<close>): the execution of a task, as a computation
    over store, blobs, git and the pull cache. What a push publishes and records, what a pull delivers, and
    that a shared projection is exactly what its reader may read.
  \<^item> \<open>Nit_Audit\<close> (\<open>pkg/audit\<close>, \<open>internal/auditlog\<close>, \<open>internal/auditbuf\<close>): the audit sinks and the buffer that
    forwards rows from a goroutine, as a step machine. No record vanishes uncounted except in one race.
  \<^item> \<open>Nit_Api\<close> (\<open>internal/server\<close>: \<open>meta.go\<close>, \<open>admin.go\<close>, \<open>http.go\<close>, \<open>cors.go\<close>, \<open>server.go\<close>, \<open>pkg/protocol/routes.go\<close>): every registered
    route as one equation of \<open>serve\<close>. Nothing but the health check answers without a live session.
  \<^item> \<open>Nit_Events\<close> (\<open>internal/taskevents\<close>, the long poll of \<open>internal/server/tasks.go\<close>): subscriptions and the handler as a step
    machine against reports, ticks and clients that leave; the endpoint of \<open>serve\<close> is this machine on the schedules that move others
    only while it waits.
  \<^item> \<open>Nit_Bundle\<close> (\<open>pkg/policy/config\<close>, \<open>pkg/policy/source.go\<close>, \<open>internal/policyloader\<close>): reading, hashing and decoding a bundle, the loader
    that serves the last good one when no file changes during a load, one loader per tenant.
  \<^item> \<open>Nit_Gitcache\<close> (\<open>internal/gitcache\<close>): the mirrors of a worker. Checkouts, releases and
    sweeps of several goroutines as a step machine over their program counters; the sweep as a function is what one goroutine does
    while no other moves.
  \<^item> \<open>Nit_Config\<close> (\<open>internal/bootstrap/config.go\<close>, \<open>file.go\<close>): defaults, file and environment, the checks on secrets, the printed table.
    A loaded configuration is proved equal to a composition of three layers.
  \<^item> \<open>Nit_Git\<close> (\<open>pkg/gitx\<close>, \<open>pkg/forge\<close>, \<open>internal/workspace/git.go\<close>): the command lines run, in order, over a git program that is a
    function on a disk.
  \<^item> \<open>Nit_Workspace\<close> (\<open>internal/workspace\<close>), \<open>Nit_Flow\<close> (\<open>internal/client\<close>, \<open>internal/flow\<close>): the developer's checkout, the client and
    \<open>clone\<close>, \<open>pull\<close> and \<open>push\<close>. The recorded sync point moves last, if at all.

  \<^bold>\<open>Parameters.\<close> Code that is not in the repository is an argument: the diff header parser (\<open>gd\<close>), the glob
  matcher (\<open>ds\<close>), the hash (\<open>sha\<close>, \<open>dg\<close>), HMAC and HKDF (\<open>crypto\<close>), JSON, YAML, zstd,
  the git program, the network. The clock and random
  tokens are arguments of the operation that reads them. Hypotheses on them are named in the theorems:
  the hash does not collide on the payloads in play, a decoder inverts its encoder. Logging is dropped.

  \<^bold>\<open>Numbers, maps, loops.\<close> Counters that wrap are words (\<open>64 word\<close>); additions of \<open>int64\<close> that can
  overflow go through \<open>wrap64\<close>; lengths and instants are \<open>nat\<close> and \<open>int\<close>. Go maps are association
  lists; where the code iterates over a map, the order is the list's and the theorems hold for every list.
  The group cycle search takes fuel (the number of groups plus one is shown to be enough) and so does the
  paging export loop (the length of the log plus one is shown to be enough); waiting for a task is \<open>None\<close> when it never
  ends, which is shown to be precisely when no poll ever announces an end; other loops terminate by a measure.

  \<^bold>\<open>Not modelled.\<close> The SQL backends (their behaviour is in the database; the in-memory store is proved against the
  contract they share), the conformance suites (test code), the command-line front ends (flags, printing), the start-up and
  shutdown of a process, its HTTP multiplexer, panic recovery, logging and sockets. Executing git, YAML and JSON, and the network are parameters.
\<close>

section \<open>From the request to the forge\<close>

lemma patch_fits:
  assumes "int (length out) \<le> m" "m < 2 ^ 63 - 1"
  shows "LimitReader out (wrap64 (m + 1)) = out"
proof -
  have "0 \<le> m" using assms(1) by linarith
  then have "wrap64 (m + 1) = m + 1" using assms(2) by (intro wrap64_id) simp_all
  then show ?thesis using assms(1) by (simp add: LimitReader_def)
qed

text \<open>
  Claim C3. What was authorized is what the worker applies. A push the control plane accepted is queued as a task
  from which the worker decodes the specification and loads, whatever was uploaded and swept in between,
  a patch every section of which the bundle in force allowed the caller, guards included. (The worker
  reads the same store, accepts patches at least as large, decodes the specifications the server writes,
  and the patch itself was not swept.)
\<close>

theorem authorized_patch_reaches_worker:
  assumes "sd_blobs d = Filesystem sha" and "fs_valid sha U (sv_blobs st)" and "0 < sd_MaxPatchBytes d"
    and "sd_MaxPatchBytes d \<le> wc_MaxPatchBytes cfg" and "wc_MaxPatchBytes cfg < 2 ^ 63 - 1"
    and "\<forall>pd out. push_decide d tenant pr st req = Inr pd \<longrightarrow> res_Patch (pd_result pd) = Some out \<longrightarrow> out \<in> U"
    and "handlePush d tenant pr now st req = (Inr resp, st')" and "pp_Accepted resp"
    and "ByRequestID (sv_store st) tenant (pq_RequestID req) = Inl ErrNotFound"
    and "wd_blobs w = Filesystem sha"
    and "\<forall>pd digest. push_decide d tenant pr st req = Inr pd \<longrightarrow>
      wd_push_spec w (sd_push_json d (push_spec_of pr req pd digest)) = Some (push_spec_of pr req pd digest)"
    and "list_all (cmd_ok U) cs"
    and "\<forall>t spec. map_of (m_tasks (sv_store st')) (pp_TaskID resp) = Some t \<longrightarrow>
      wd_push_spec w (t_Payload t) = Some spec \<longrightarrow> Remove (tp_PatchDigest spec) \<notin> set cs"
  shows "\<exists>t spec out sections current repo. map_of (m_tasks (sv_store st')) (pp_TaskID resp) = Some t
    \<and> loadSpec (wd_push_spec w) t = Inr spec
    \<and> loadEnforcedPatch w cfg (blob_run (Filesystem sha) cs (sv_blobs st')) spec = Inr out
    \<and> Parse (sd_gd d) out = Inr sections \<and> sd_policies d tenant = Some current
    \<and> Repo_ByPolicyID (sv_store st) tenant (pq_Repository req) = Inr repo
    \<and> (\<forall>c \<in> set (ps_Changes sections). permitted (Evaluate (sd_ds d) current)
         \<lparr>q_Repo = sr_PolicyRepoID repo, q_Ref = ''refs/heads/'' @ pq_Branch req, q_Subject = pr_Subject pr,
          q_Path = [], q_Action = []\<rparr> (push_reqs (sd_ds d) (sd_Guards d) c))"
proof -
  have m: "sd_MaxPatchBytes d < 2 ^ 63 - 1" using assms(4,5) by linarith
  obtain t spec repo current out sections pd where f: "map_of (m_tasks (sv_store st')) (pp_TaskID resp) = Some t"
      "t_Payload t = sd_push_json d spec" "FS_Get (tp_PatchDigest spec) (sv_blobs st') = Inr out"
      "tp_PatchEncoding spec = EncodingNone" "push_decide d tenant pr st req = Inr pd"
      "spec = push_spec_of pr req pd (tp_PatchDigest spec)" "fs_valid sha U (sv_blobs st')"
      "int (length out) \<le> sd_MaxPatchBytes d" "Parse (sd_gd d) out = Inr sections"
      "sd_policies d tenant = Some current" "Repo_ByPolicyID (sv_store st) tenant (pq_Repository req) = Inr repo"
      "\<forall>c \<in> set (ps_Changes sections). permitted (Evaluate (sd_ds d) current)
         \<lparr>q_Repo = sr_PolicyRepoID repo, q_Ref = ''refs/heads/'' @ pq_Branch req, q_Subject = pr_Subject pr,
          q_Path = [], q_Action = []\<rparr> (push_reqs (sd_ds d) (sd_Guards d) c)"
    using accepted_push_facts[OF assms(1,2) m assms(6-9)] assms(3) by blast
  have dec: "wd_push_spec w (t_Payload t) = Some spec" using assms(11) f(2,5,6) by metis
  have get: "b_Get (Filesystem sha) (tp_PatchDigest spec) (sv_blobs st') = Inr out"
    using f(3) by (simp add: Filesystem_def)
  then have "fs_contents (sv_blobs st') (tp_PatchDigest spec) = Some out"
    unfolding file_blobs.get[OF f(7)] by (cases "ValidateDigest (tp_PatchDigest spec)") (auto split: option.splits)
  from file_blobs.run_keeps[OF assms(12) _ f(7) this] assms(13) f(1) dec
  have kept: "fs_valid sha U (blob_run (Filesystem sha) cs (sv_blobs st'))"
      "fs_contents (blob_run (Filesystem sha) cs (sv_blobs st')) (tp_PatchDigest spec) = Some out" by blast+
  have "b_Get (Filesystem sha) (tp_PatchDigest spec) (blob_run (Filesystem sha) cs (sv_blobs st')) = Inr out"
    using kept(2) file_blobs.stored_valid_digest[OF kept] by (simp add: file_blobs.get[OF kept(1)])
  moreover have "int (length out) \<le> wc_MaxPatchBytes cfg" using f(8) assms(4) by linarith
  ultimately have "loadEnforcedPatch w cfg (blob_run (Filesystem sha) cs (sv_blobs st')) spec = Inr out"
    using f(4) assms(10) patch_fits[OF _ assms(5)] by (simp add: loadEnforcedPatch_def Decompress_def Let_def)
  then show ?thesis
    using f dec by (intro exI[of _ t] exI[of _ spec] exI[of _ out] exI[of _ sections] exI[of _ current] exI[of _ repo])
      (simp add: loadSpec_def)
qed

definition ex_decided :: push_decision where
  "ex_decided = (case push_decide ex_deps ''default'' ex_principal ex_world (ex_push ''strip'') of Inr pd \<Rightarrow> pd)"

definition ex_reader :: "(fs_store, ex_forge, string) wdeps" where
  "ex_reader = ex_wdeps\<lparr>wd_push_spec := (\<lambda>b. Some (push_spec_of ex_principal (ex_push ''strip'') ex_decided b))\<rparr>"

theorem authorized_patch_reaches_worker_witness:
  "\<exists>resp st' t spec out. handlePush ex_deps ''default'' ex_principal 9 ex_world (ex_push ''strip'') = (Inr resp, st')
     \<and> map_of (m_tasks (sv_store st')) (pp_TaskID resp) = Some t \<and> loadSpec (wd_push_spec ex_reader) t = Inr spec
     \<and> loadEnforcedPatch ex_reader ex_config (sv_blobs st') spec = Inr out"
proof -
  let ?h = "handlePush ex_deps ''default'' ex_principal 9 ex_world (ex_push ''strip'')"
  let ?pd = "push_decide ex_deps ''default'' ex_principal ex_world (ex_push ''strip'')"
  have "map_sum (\<lambda>_. ()) pp_Accepted (fst ?h) = Inr True" by code_simp
  then obtain resp st' where h: "?h = (Inr resp, st')" "pp_Accepted resp" by (cases ?h; cases "fst ?h") auto
  have pd: "map_sum (\<lambda>_. ()) (\<lambda>pd. res_Patch (pd_result pd)) ?pd = Inr (Some ex_out)" by code_simp
  have new: "ByRequestID (sv_store ex_world) ''default'' (pq_RequestID (ex_push ''strip'')) = Inl ErrNotFound"
    by code_simp
  have d: "sd_blobs ex_deps = Filesystem ex_sha" "fs_valid ex_sha {ex_raw, ex_out} (sv_blobs ex_world)"
    "0 < sd_MaxPatchBytes ex_deps" "sd_MaxPatchBytes ex_deps \<le> wc_MaxPatchBytes ex_config" "wc_MaxPatchBytes ex_config < 2 ^ 63 - 1"
    by (simp_all add: ex_deps_def ex_world_def ex_blobs_valid ex_config_def)
  have u: "\<forall>pd out. ?pd = Inr pd \<longrightarrow> res_Patch (pd_result pd) = Some out \<longrightarrow> out \<in> {ex_raw, ex_out}"
    using pd by auto
  have w: "wd_blobs ex_reader = Filesystem ex_sha" by (simp add: ex_reader_def ex_wdeps_def)
  have j: "\<forall>pd digest. ?pd = Inr pd \<longrightarrow> wd_push_spec ex_reader (sd_push_json ex_deps
      (push_spec_of ex_principal (ex_push ''strip'') pd digest)) = Some (push_spec_of ex_principal (ex_push ''strip'') pd digest)"
    by (auto simp: ex_reader_def ex_decided_def ex_deps_def push_spec_of_def)
  from authorized_patch_reaches_worker[OF d u h new w j, of "[]"] show ?thesis using h(1) by auto
qed

section \<open>From the worker back to the caller\<close>

lemma push_result_value:
  "worker_handlePush d cfg now t w = (Inr raw, w') \<Longrightarrow> raw \<in> range (wd_push_result d)"
  unfolding worker_handlePush_def push_land_def
  by (auto elim!: wbind_InrE simp: wdefer_def wret_def split: prod.splits)

lemma pull_result_value:
  "worker_handlePull d cfg now t w = (Inr raw, w') \<Longrightarrow> raw \<in> range (wd_pull_result d)"
  unfolding worker_handlePull_def by (auto elim!: wbind_InrE simp: wdefer_def wret_def split: prod.splits)

lemma settled_row:
  assumes "task_at m i = Some t" "t_ID (h_Task h) = i" "holds_lease t (h_token h)" "checkFinishOrder t now = Inr ()"
    and "t_UserID t = su_ID (pr_User pr)" "i \<noteq> []"
  shows "ownedTask pr (settle memory_tasks opts now ctx_done m h outcome) i = Inr (outcome_row opts now ctx_done h outcome t)"
proof -
  have "task_at (settle memory_tasks opts now ctx_done m h outcome) i = Some (outcome_row opts now ctx_done h outcome t)"
    using memory_queue.settle_held[of m h t now opts ctx_done outcome] assms(1-4) by simp
  moreover have "t_UserID (outcome_row opts now ctx_done h outcome t) = t_UserID t"
    by (simp add: outcome_row_def completed_row_def failed_row_def split: sum.split)
  ultimately show ?thesis using assms(5,6) by (simp add: ownedTask_def ByID_at)
qed

lemma queued_position: "task_at m i = Some t \<Longrightarrow> \<exists>n. Position memory_tasks m i = Inr n"
  by (auto simp: Position_def memory_tasks_def QueuePosition_def ByID_at rbind_Inr_iff)

lemma succeeded_view:
  assumes "t_State t = TaskSucceeded" "t_Result t \<noteq> []"
  shows "t_Kind t = TaskPush \<Longrightarrow> ad_push_result a (t_Result t) = Some r \<Longrightarrow>
      \<exists>v. taskView a m t = Inr v \<and> pt_ID v = t_ID t \<and> pt_State v = TaskSucceeded \<and> pt_Error v = t_Error t
        \<and> pt_PushResult v = Some r \<and> pt_PullResult v = None"
    and "t_Kind t = TaskPull \<Longrightarrow> ad_pull_result a (t_Result t) = Some r' \<Longrightarrow>
      \<exists>v. taskView a m t = Inr v \<and> pt_ID v = t_ID t \<and> pt_State v = TaskSucceeded \<and> pt_Error v = t_Error t
        \<and> pt_PullResult v = Some r' \<and> pt_PushResult v = None"
  using assms by (simp_all add: taskView_def Let_def)

text \<open>
  Claim C7. What the worker reports is what the caller sees. The runner executes a claimed task and records its outcome
  while it still holds the lease; the owner who then asks for the task is shown, after a success, exactly the
  result value the worker produced for that kind of task and no error, and after a failure the worker's error,
  with the task back on the queue or failed. (The interface decodes the result the worker encoded, and the
  encoding is not empty; the task is a push or a pull.)
\<close>

theorem caller_sees_worker_outcome:
  assumes "task_at m i = Some t" "t_ID t = i" "i \<noteq> []" "t_ID (h_Task h) = i" "holds_lease t (h_token h)"
    and "checkFinishOrder t now = Inr ()" "t_UserID t = su_ID (pr_User pr)" "t_Kind t = t_Kind (h_Task h)"
    and "t_Kind t \<in> {TaskPush, TaskPull}" "worker_Handle d cfg wnow (h_Task h) w = (outcome, w')"
    and "\<forall>r. outcome = Inr (wd_push_result d r) \<longrightarrow> ad_push_result a (wd_push_result d r) = Some r \<and> wd_push_result d r \<noteq> []"
    and "\<forall>r. outcome = Inr (wd_pull_result d r) \<longrightarrow> ad_pull_result a (wd_pull_result d r) = Some r \<and> wd_pull_result d r \<noteq> []"
    and "sv_store st = settle memory_tasks opts now False m h outcome"
  shows "\<exists>view. handleGetTask a i pr st = Inr view \<and> pt_ID view = i \<and>
    (case outcome of
       Inr raw \<Rightarrow> pt_State view = TaskSucceeded \<and> pt_Error view = None
         \<and> (case t_Kind t of
              TaskPush \<Rightarrow> \<exists>r. raw = wd_push_result d r \<and> pt_PushResult view = Some r \<and> pt_PullResult view = None
            | _ \<Rightarrow> \<exists>r. raw = wd_pull_result d r \<and> pt_PullResult view = Some r \<and> pt_PushResult view = None)
     | Inl e \<Rightarrow> pt_State view \<in> {TaskQueued, TaskFailed} \<and> pt_Error view = Some (asProtocolError e)
         \<and> pt_PushResult view = None \<and> pt_PullResult view = None)"
proof -
  let ?row = "outcome_row opts now False h outcome t"
  have own: "ownedTask pr (sv_store st) i = Inr ?row"
    unfolding assms(13) by (rule settled_row[OF assms(1,4,5,6,7,3)])
  have at: "task_at (sv_store st) i = Some ?row"
    unfolding assms(13) using memory_queue.settle_held[of m h t now opts False outcome] assms(1,4,5,6) by simp
  have id: "t_ID ?row = i" using assms(2) by (simp add: outcome_row_def completed_row_def failed_row_def split: sum.split)
  obtain n where n: "Position memory_tasks (sv_store st) (t_ID ?row) = Inr n" using queued_position[OF at] id by auto
  show ?thesis
  proof (cases outcome)
    case (Inl e)
    then show ?thesis
      using own n id by (auto simp: handleGetTask_def taskView_def Let_def outcome_row_def failed_row_def rbind_def)
  next
    case (Inr raw)
    have s: "t_State ?row = TaskSucceeded" "t_Result ?row = raw" "t_Error ?row = None" "t_Kind ?row = t_Kind (h_Task h)"
      using assms(8) by (simp_all add: Inr outcome_row_def completed_row_def)
    consider (push) r where "t_Kind (h_Task h) = TaskPush" "raw = wd_push_result d r"
      | (pull) r where "t_Kind (h_Task h) = TaskPull" "raw = wd_pull_result d r"
      using assms(8-10) push_result_value[of d cfg wnow "h_Task h" w raw w']
        pull_result_value[of d cfg wnow "h_Task h" w raw w'] by (auto simp: worker_Handle_def Inr)
    then show ?thesis
    proof cases
      case (push r)
      then have "ad_push_result a (t_Result ?row) = Some r" "t_Result ?row \<noteq> []" using assms(11) s(2) Inr by auto
      from succeeded_view(1)[OF s(1) this(2) _ this(1), of "sv_store st"] show ?thesis
        using push assms(8) id own s(3,4) by (auto simp: handleGetTask_def Inr)
    next
      case (pull r)
      then have "ad_pull_result a (t_Result ?row) = Some r" "t_Result ?row \<noteq> []" using assms(12) s(2) Inr by auto
      from succeeded_view(2)[OF s(1) this(2) _ this(1), of "sv_store st"] show ?thesis
        using pull assms(8) id own s(3,4) by (auto simp: handleGetTask_def Inr)
    qed
  qed
qed

definition ex_result :: push_result where
  "ex_result = \<lparr>ur_UpstreamCommit = ''c0ffee'',
     ur_NextSync = sign ex_wdeps 9 (syncPayload ''ws-1'' ''repo-1'' ''main'' ''c0ffee'' ''v1'' (Unix 9)),
     ur_Report = no_report\<lparr>rp_PolicyVersion := ''v1''\<rparr>\<rparr>"

definition ex_runner :: "(fs_store, ex_forge, string) wdeps" where
  "ex_runner = ex_wdeps\<lparr>wd_push_result := (\<lambda>r. if r = ex_result then ''R'' else ''S''), wd_pull_result := (\<lambda>_. ''P'')\<rparr>"

definition ex_owner :: principal where
  "ex_owner = ex_principal\<lparr>pr_User := ex_member\<lparr>su_ID := t_UserID (h_Task ex_handle)\<rparr>\<rparr>"

definition ex_view_api :: "fs_store api_deps" where
  "ex_view_api = ex_api\<lparr>ad_push_result := (\<lambda>raw. if raw = ''R'' then Some ex_result else None)\<rparr>"

definition ex_settled :: "fs_store srv" where
  "ex_settled = \<lparr>sv_store = settle memory_tasks ex_qopts 205 False ex_claimed ex_handle (Inr ''R''), sv_blobs = ex_root\<rparr>"

theorem caller_sees_worker_outcome_witness:
  "\<exists>view. handleGetTask ex_view_api (t_ID (h_Task ex_handle)) ex_owner ex_settled = Inr view
     \<and> pt_State view = TaskSucceeded \<and> map_option ur_UpstreamCommit (pt_PushResult view) = Some ''c0ffee''"
proof -
  let ?i = "t_ID (h_Task ex_handle)"
  obtain t where t: "task_at ex_claimed ?i = Some t" "holds_lease t (h_token ex_handle)" "checkFinishOrder t 205 = Inr ()"
    by (rule ex_handle_row)
  have "map_option (\<lambda>t. (t_ID t = ?i, t_Kind t, t_UserID t = su_ID (pr_User ex_owner))) (task_at ex_claimed ?i)
      = Some (True, TaskPush, True)" by code_simp
  then have f: "t_ID t = ?i" "t_Kind t = TaskPush" "t_UserID t = su_ID (pr_User ex_owner)" using t(1) by auto
  have k: "t_Kind (h_Task ex_handle) = TaskPush" "?i \<noteq> []" by code_simp+
  obtain w' where w: "worker_Handle ex_runner ex_config 9 (h_Task ex_handle) (ex_wstate (ex_tables ''default'')) = (Inr ''R'', w')"
  proof -
    have "fst (worker_Handle ex_runner ex_config 9 (h_Task ex_handle) (ex_wstate (ex_tables ''default''))) = Inr ''R''"
      by code_simp
    then show ?thesis using that by (metis prod.collapse)
  qed
  have dec: "\<forall>r. (Inr ''R'' :: run_error + bytes) = Inr (wd_push_result ex_runner r) \<longrightarrow>
      ad_push_result ex_view_api (wd_push_result ex_runner r) = Some r \<and> wd_push_result ex_runner r \<noteq> []"
    "\<forall>r. (Inr ''R'' :: run_error + bytes) = Inr (wd_pull_result ex_runner r) \<longrightarrow>
      ad_pull_result ex_view_api (wd_pull_result ex_runner r) = Some r \<and> wd_pull_result ex_runner r \<noteq> []"
    by (simp_all add: ex_runner_def ex_view_api_def)
  have st: "sv_store ex_settled = settle memory_tasks ex_qopts 205 False ex_claimed ex_handle (Inr ''R'')"
    by (simp add: ex_settled_def)
  have kinds: "t_Kind t = t_Kind (h_Task ex_handle)" "t_Kind t \<in> {TaskPush, TaskPull}" using f(2) k(1) by simp_all
  obtain view r where v: "handleGetTask ex_view_api ?i ex_owner ex_settled = Inr view" "pt_State view = TaskSucceeded"
      "''R'' = wd_push_result ex_runner r" "pt_PushResult view = Some r"
    using caller_sees_worker_outcome[OF t(1) f(1) k(2) refl t(2,3) f(3) kinds w dec st] f(2) by auto
  have "r = ex_result" using v(3) by (simp add: ex_runner_def split: if_splits)
  then have "map_option ur_UpstreamCommit (pt_PushResult view) = Some ''c0ffee''" using v(4) by (simp add: ex_result_def)
  then show ?thesis using v(1,2) by blast
qed

end
